(* ===== verification/SR_Prelude.thy ===== *)
theory SR_Prelude
  imports Main "HOL-Library.Word"
begin

text \<open>
  What every component shares: the names of the machine integers, the faults
  that undefined behaviour and process termination become, the result type that
  carries them, bounds-checked vector access, and the lemma collections.

  The C++ assertions \<open>SRHalt\<close>, \<open>SRAssert\<close> and the logging macros
  (inc/Utils/Debug.h) print a message and return: control continues after them, so a
  model that reaches one simply goes on. What does not go on (a null or dangling pointer
  dereference, an access past the end of a vector or of a memory block, a call of
  \<open>Platform::Terminate\<close>) is a \<open>fault\<close>.
\<close>

section \<open>Machine integers\<close>

type_synonym u8 = "8 word"
type_synonym u16 = "16 word"
type_synonym u32 = "32 word"
type_synonym u64 = "64 word"

section \<open>Faults and results\<close>

datatype fault =
    OutOfRange        \<comment> \<open>access outside a vector or a memory block\<close>
  | NullPointer       \<comment> \<open>dereference of a null pointer\<close>
  | DanglingPointer   \<comment> \<open>use of a freed object, or a second delete of it\<close>
  | Terminated        \<comment> \<open>the process was ended on purpose\<close>
  | Exception         \<comment> \<open>a C++ exception leaves the operation\<close>
  | UndefinedOp       \<comment> \<open>signed overflow, division by zero, a read through a wrong type\<close>
  | OutOfFuel         \<comment> \<open>a loop or recursion was cut by its bound\<close>

type_synonym 'a result = "fault + 'a"

definition bind_res :: "'a result \<Rightarrow> ('a \<Rightarrow> 'b result) \<Rightarrow> 'b result" where
  "bind_res m f = (case m of Inl e \<Rightarrow> Inl e | Inr x \<Rightarrow> f x)"

lemma bind_res_Inl [simp]: "bind_res (Inl e) f = Inl e"
  by (simp add: bind_res_def)

lemma bind_res_Inr [simp]: "bind_res (Inr x) f = f x"
  by (simp add: bind_res_def)

lemma bind_res_cong [fundef_cong]:
  "m = m' \<Longrightarrow> (\<And>x. m' = Inr x \<Longrightarrow> f x = f' x) \<Longrightarrow> bind_res m f = bind_res m' f'"
  by (auto simp: bind_res_def split: sum.splits)

lemma bind_res_eq_Inr: "bind_res m f = Inr y \<longleftrightarrow> (\<exists>x. m = Inr x \<and> f x = Inr y)"
  by (auto simp: bind_res_def split: sum.splits)

lemma bind_res_eq_Inl: "bind_res m f = Inl e \<longleftrightarrow> m = Inl e \<or> (\<exists>x. m = Inr x \<and> f x = Inl e)"
  by (auto simp: bind_res_def split: sum.splits)

lemma bind_res_assoc: "bind_res (bind_res m f) g = bind_res m (\<lambda>x. bind_res (f x) g)"
  by (auto simp: bind_res_def split: sum.splits)

definition ok :: "'a result \<Rightarrow> bool" where
  "ok m = (case m of Inl _ \<Rightarrow> False | Inr _ \<Rightarrow> True)"

lemma ok_simps [simp]: "ok (Inr x)" "\<not> ok (Inl e)"
  by (simp_all add: ok_def)

lemma ok_iff: "ok m \<longleftrightarrow> (\<exists>x. m = Inr x)"
  by (auto simp: ok_def split: sum.splits)

section \<open>Vectors\<close>

text \<open>\<open>v[i]\<close> of a \<open>std::vector\<close>: undefined past the end.\<close>

definition vec_at :: "'a list \<Rightarrow> nat \<Rightarrow> 'a result" where
  "vec_at xs i = (if i < length xs then Inr (xs ! i) else Inl OutOfRange)"

definition vec_set :: "'a list \<Rightarrow> nat \<Rightarrow> 'a \<Rightarrow> 'a list result" where
  "vec_set xs i x = (if i < length xs then Inr (xs[i := x]) else Inl OutOfRange)"

lemma vec_at_in [simp]: "i < length xs \<Longrightarrow> vec_at xs i = Inr (xs ! i)"
  by (simp add: vec_at_def)

lemma vec_at_out [simp]: "length xs \<le> i \<Longrightarrow> vec_at xs i = Inl OutOfRange"
  by (simp add: vec_at_def)

lemma vec_set_in [simp]: "i < length xs \<Longrightarrow> vec_set xs i x = Inr (xs[i := x])"
  by (simp add: vec_set_def)

lemma vec_set_out [simp]: "length xs \<le> i \<Longrightarrow> vec_set xs i x = Inl OutOfRange"
  by (simp add: vec_set_def)

text \<open>\<open>v.insert(v.begin() + i, x)\<close> and \<open>v.erase(v.begin() + i)\<close>.\<close>

definition vec_insert :: "'a list \<Rightarrow> nat \<Rightarrow> 'a \<Rightarrow> 'a list" where
  "vec_insert xs i x = take i xs @ x # drop i xs"

definition vec_erase :: "'a list \<Rightarrow> nat \<Rightarrow> 'a list" where
  "vec_erase xs i = take i xs @ drop (Suc i) xs"

lemma length_vec_insert [simp]: "length (vec_insert xs i x) = Suc (length xs)"
  by (simp add: vec_insert_def)

lemma length_vec_erase [simp]: "i < length xs \<Longrightarrow> length (vec_erase xs i) = length xs - 1"
  by (simp add: vec_erase_def)

lemma set_vec_insert [simp]: "set (vec_insert xs i x) = insert x (set xs)"
  by (metis append_take_drop_id list.simps(15) set_append sup_commute Un_insert_right vec_insert_def)

lemma vec_erase_insert [simp]: "i \<le> length xs \<Longrightarrow> vec_erase (vec_insert xs i x) i = xs"
  by (simp add: vec_erase_def vec_insert_def min_def)

lemma in_set_drop_iff: "x \<in> set (drop n xs) \<longleftrightarrow> (\<exists>i. n \<le> i \<and> i < length xs \<and> xs ! i = x)"
proof
  assume "x \<in> set (drop n xs)"
  then obtain i where "i < length xs - n" "xs ! (n + i) = x" by (auto simp: in_set_conv_nth)
  then show "\<exists>i. n \<le> i \<and> i < length xs \<and> xs ! i = x" by (intro exI [of _ "n + i"]) auto
next
  assume "\<exists>i. n \<le> i \<and> i < length xs \<and> xs ! i = x"
  then obtain i where "n \<le> i" "i < length xs" "xs ! i = x" by blast
  then show "x \<in> set (drop n xs)"
    by (auto simp: in_set_conv_nth intro!: exI [of _ "i - n"])
qed

section \<open>Words\<close>

lemma of_nat_Suc_minus_1 [simp]: "(of_nat (Suc n) :: 'a::len word) - 1 = of_nat n"
  by simp

lemma word_of_nat_eq_0_iff_small:
  "n < 2 ^ LENGTH('a) \<Longrightarrow> (of_nat n :: 'a::len word) = 0 \<longleftrightarrow> n = 0"
  by (auto simp: word_of_nat_eq_0_iff dest: nat_dvd_not_less [rotated])

lemma unat_u16_bound: "unat (w :: u16) < 65536"
proof -
  have "unat w < 2 ^ LENGTH(16)" by (rule unsigned_less)
  then show ?thesis by simp
qed

lemma unat_u32_bound: "unat (w :: u32) < 4294967296"
proof -
  have "unat w < 2 ^ LENGTH(32)" by (rule unsigned_less)
  then show ?thesis by simp
qed

lemma unat_u64_bound: "unat (w :: u64) < 18446744073709551616"
proof -
  have "unat w < 2 ^ LENGTH(64)" by (rule unsigned_less)
  then show ?thesis by simp
qed

lemma unat_plus_1: "Suc (unat (w :: 'a::len word)) < 2 ^ LENGTH('a) \<Longrightarrow> unat (w + 1) = Suc (unat w)"
  by (simp add: unat_word_ariths)

lemma unat_of_nat_small: "n < 2 ^ LENGTH('a) \<Longrightarrow> unat (of_nat n :: 'a::len word) = n"
  by (simp add: unat_of_nat)

lemma of_nat_pred: "0 < n \<Longrightarrow> (of_nat n :: 'a::len word) - 1 = of_nat (n - 1)"
  by (cases n) simp_all

lemma unat_minus_1: "(w :: 'a::len word) \<noteq> 0 \<Longrightarrow> unat (w - 1) = unat w - 1"
  by (metis unat_minus_one)

section \<open>Sequences of calls\<close>

text \<open>A component is used by a sequence of calls; each call has a condition that the caller is
  responsible for. If the invariant and the condition make a call succeed and keep the invariant, then
  every sequence whose conditions hold along the way runs to its end.\<close>

fun run_all :: "('s \<Rightarrow> 'c \<Rightarrow> 's result) \<Rightarrow> 's \<Rightarrow> 'c list \<Rightarrow> 's result" where
  "run_all run s [] = Inr s"
| "run_all run s (c # cs) = bind_res (run s c) (\<lambda>s1. run_all run s1 cs)"

fun may_all :: "('s \<Rightarrow> 'c \<Rightarrow> 's result) \<Rightarrow> ('s \<Rightarrow> 'c \<Rightarrow> bool) \<Rightarrow> 's \<Rightarrow> 'c list \<Rightarrow> bool" where
  "may_all run may s [] = True"
| "may_all run may s (c # cs) = (may s c \<and> (case run s c of Inl _ \<Rightarrow> True | Inr s1 \<Rightarrow> may_all run may s1 cs))"

locale guarded =
  fixes run :: "'s \<Rightarrow> 'c \<Rightarrow> 's result" and may :: "'s \<Rightarrow> 'c \<Rightarrow> bool" and inv :: "'s \<Rightarrow> bool"
  assumes step: "inv s \<Longrightarrow> may s c \<Longrightarrow> \<exists>s'. run s c = Inr s' \<and> inv s'"
begin

lemma run_all_inv: "inv s \<Longrightarrow> may_all run may s cs \<Longrightarrow> \<exists>s'. run_all run s cs = Inr s' \<and> inv s'"
proof (induction cs arbitrary: s)
  case (Cons c cs)
  then obtain s1 where "run s c = Inr s1" "inv s1" using step by fastforce
  then show ?case using Cons by simp
qed simp

lemma run_all_append: "run_all run s (cs @ ds) = bind_res (run_all run s cs) (\<lambda>s1. run_all run s1 ds)"
  by (induction cs arbitrary: s) (simp_all add: bind_res_assoc)

end

section \<open>Lemma collections\<close>

named_theorems op_defs \<open>the defining equations of a component's operations\<close>
named_theorems inv_intros \<open>one preservation lemma per operation\<close>

end
