(* ===== verification/SR_Stack.thy ===== *)
theory SR_Stack
  imports SR_Prelude
begin

text \<open>
  \<open>Stack<T>\<close> (inc/Utils/Types/Stack.h): a singly linked chain of nodes owned by the stack
  and a counter. The chain from \<open>m_head\<close> is the list \<open>m_chain\<close> of its data, head first;
  nodes are never shared between stacks, so the list says all there is to say about the
  pointers. \<open>m_size\<close> keeps its width.

  The contract a client of the stack uses is the locale \<open>lifo\<close>: a last-in first-out store
  seen as a list. The stack of the code interprets it.
\<close>

section \<open>State and operations\<close>

record 'a stack =
  m_chain :: "'a list"
  m_size :: u64

definition stack_new :: "'a stack" where
  "stack_new = \<lparr>m_chain = [], m_size = 0\<rparr>"

definition stack_push :: "'a stack \<Rightarrow> 'a \<Rightarrow> 'a stack" where
  "stack_push s x = s\<lparr>m_chain := x # m_chain s, m_size := m_size s + 1\<rparr>"

text \<open>\<open>Pop\<close> and \<open>Top\<close> print on an empty stack, stop a debugger, and then dereference
  the null head.\<close>

fun stack_pop :: "'a stack \<Rightarrow> ('a \<times> 'a stack) result" where
  "stack_pop s = (case m_chain s of
     [] \<Rightarrow> Inl NullPointer
   | x # next \<Rightarrow> Inr (x, s\<lparr>m_chain := next, m_size := m_size s - 1\<rparr>))"

fun stack_top :: "'a stack \<Rightarrow> 'a result" where
  "stack_top s = (case m_chain s of [] \<Rightarrow> Inl NullPointer | x # next \<Rightarrow> Inr x)"

text \<open>The loop of \<open>Clear\<close> deletes the head until it is null; it also returns the data of
  the deleted nodes, in the order of deletion.\<close>

fun clear_loop :: "'a list \<Rightarrow> 'a list \<Rightarrow> 'a list \<times> 'a list" where
  "clear_loop [] deleted = ([], deleted)"
| "clear_loop (x # next) deleted = clear_loop next (deleted @ [x])"

definition stack_clear :: "'a stack \<Rightarrow> 'a stack" where
  "stack_clear s = s\<lparr>m_chain := fst (clear_loop (m_chain s) []), m_size := 0\<rparr>"

definition stack_Size :: "'a stack \<Rightarrow> u64" where
  "stack_Size s = m_size s"

definition stack_IsEmpty :: "'a stack \<Rightarrow> bool" where
  "stack_IsEmpty s \<longleftrightarrow> m_size s = 0"

text \<open>The copy loop walks the other chain from its head and pushes each datum.\<close>

fun push_all :: "'a list \<Rightarrow> 'a stack \<Rightarrow> 'a stack" where
  "push_all [] s = s"
| "push_all (x # next) s = push_all next (stack_push s x)"

definition stack_copy :: "'a stack \<Rightarrow> 'a stack" where
  "stack_copy other = push_all (m_chain other) stack_new"

text \<open>Copy assignment between two different stacks; assigning a stack to itself returns
  at once.\<close>

definition stack_assign :: "'a stack \<Rightarrow> 'a stack \<Rightarrow> 'a stack" where
  "stack_assign self other = push_all (m_chain other) (stack_clear self)"

definition stack_self_assign :: "'a stack \<Rightarrow> 'a stack" where
  "stack_self_assign self = self"

text \<open>The move constructor and move assignment return the new stack and the moved-from one.\<close>

definition stack_move :: "'a stack \<Rightarrow> 'a stack \<times> 'a stack" where
  "stack_move other = (\<lparr>m_chain = m_chain other, m_size = m_size other\<rparr>,
                       other\<lparr>m_chain := [], m_size := 0\<rparr>)"

definition stack_move_assign :: "'a stack \<Rightarrow> 'a stack \<Rightarrow> 'a stack \<times> 'a stack" where
  "stack_move_assign self other =
     ((stack_clear self)\<lparr>m_chain := m_chain other, m_size := m_size other\<rparr>,
      other\<lparr>m_chain := [], m_size := 0\<rparr>)"

section \<open>The invariant of the counter\<close>

definition stack_inv :: "'a stack \<Rightarrow> bool" where
  "stack_inv s \<longleftrightarrow> m_size s = of_nat (length (m_chain s))"

lemmas stack_simps = stack_new_def stack_push_def stack_clear_def stack_inv_def
  stack_IsEmpty_def stack_Size_def

lemma clear_loop_empty [simp]: "fst (clear_loop xs d) = []"
  by (induction xs d rule: clear_loop.induct) auto

lemma clear_loop_deletes_all [simp]: "snd (clear_loop xs d) = d @ xs"
  by (induction xs d rule: clear_loop.induct) auto

lemma push_all_chain [simp]: "m_chain (push_all xs s) = rev xs @ m_chain s"
  by (induction xs s rule: push_all.induct) (auto simp: stack_push_def)

lemma stack_inv_new [inv_intros]: "stack_inv stack_new"
  by (simp add: stack_simps)

lemma stack_inv_push [inv_intros]: "stack_inv s \<Longrightarrow> stack_inv (stack_push s x)"
  by (simp add: stack_simps)

lemma stack_inv_push_all [inv_intros]: "stack_inv s \<Longrightarrow> stack_inv (push_all xs s)"
  by (induction xs s rule: push_all.induct) (auto intro: stack_inv_push)

lemma stack_inv_clear [inv_intros]: "stack_inv (stack_clear s)"
  by (simp add: stack_simps)

lemma stack_inv_pop [inv_intros]:
  "stack_inv s \<Longrightarrow> stack_pop s = Inr (x, s') \<Longrightarrow> stack_inv s'"
  by (auto simp: stack_inv_def split: list.splits)

lemma stack_inv_copy [inv_intros]: "stack_inv (stack_copy s)"
  unfolding stack_copy_def by (rule stack_inv_push_all [OF stack_inv_new])

lemma stack_inv_move [inv_intros]:
  "stack_inv s \<Longrightarrow> stack_move s = (t, s') \<Longrightarrow> stack_inv t \<and> stack_inv s'"
  by (auto simp: stack_move_def stack_inv_def)

lemma stack_IsEmpty_iff:
  assumes "stack_inv s" and "length (m_chain s) < 2 ^ 64"
  shows "stack_IsEmpty s \<longleftrightarrow> m_chain s = []"
  using assms word_of_nat_eq_0_iff_small [of "length (m_chain s)", where 'a = 64]
  by (simp add: stack_IsEmpty_def stack_inv_def)

section \<open>The interface its clients rely on\<close>

locale lifo =
  fixes new :: "'s"
    and push :: "'s \<Rightarrow> 'a \<Rightarrow> 's"
    and pop :: "'s \<Rightarrow> ('a \<times> 's) result"
    and view :: "'s \<Rightarrow> 'a list"
    and inv :: "'s \<Rightarrow> bool"
  assumes view_new: "view new = []"
    and inv_new: "inv new"
    and view_push: "inv s \<Longrightarrow> view (push s x) = x # view s"
    and inv_push: "inv s \<Longrightarrow> inv (push s x)"
    and pop_empty: "inv s \<Longrightarrow> view s = [] \<Longrightarrow> \<exists>e. pop s = Inl e"
    and pop_cons: "inv s \<Longrightarrow> view s = x # xs \<Longrightarrow> \<exists>s'. pop s = Inr (x, s') \<and> view s' = xs \<and> inv s'"
begin

lemma pop_push:
  assumes "inv s"
  shows "\<exists>s'. pop (push s x) = Inr (x, s') \<and> view s' = view s \<and> inv s'"
  by (rule pop_cons) (simp_all add: assms inv_push view_push)

lemma pop_fails_iff: "inv s \<Longrightarrow> ok (pop s) \<longleftrightarrow> view s \<noteq> []"
  by (cases "view s") (auto dest: pop_empty pop_cons)

lemma pop_SomeD:
  assumes "inv s" and "pop s = Inr (x, s')"
  shows "view s = x # view s'" and "inv s'"
proof -
  have "view s \<noteq> []" using assms pop_fails_iff by force
  then obtain y ys where v: "view s = y # ys" by (cases "view s") auto
  with pop_cons [OF assms(1) v] assms(2) show "view s = x # view s'" and "inv s'" by auto
qed

lemma view_pushes: "inv s \<Longrightarrow> view (fold (\<lambda>x t. push t x) xs s) = rev xs @ view s \<and>
    inv (fold (\<lambda>x t. push t x) xs s)"
  by (induction xs arbitrary: s) (auto simp: view_push inv_push)

end

interpretation node_stack: lifo stack_new stack_push stack_pop m_chain stack_inv
  by unfold_locales (auto simp: stack_simps split: list.splits)

section \<open>Properties\<close>

text \<open>What is pushed last is popped first, and popping gives the stack back: for every
  stack, \<open>Pop\<close> after \<open>Push x\<close> returns \<open>x\<close> and exactly the stack before the push,
  counter included.\<close>

theorem stack_pop_push: "stack_pop (stack_push s x) = Inr (x, s)"
  by (cases s) (simp add: stack_push_def)

text \<open>Copying a stack reverses it. The copy constructor and the copy assignment walk the
  source from its head and push, so the copy pops in the opposite order; only copying twice
  gives the original back.\<close>

theorem stack_copy_reverses:
  "m_chain (stack_copy s) = rev (m_chain s) \<and>
   m_chain (stack_assign t s) = rev (m_chain s) \<and>
   m_chain (stack_copy (stack_copy s)) = m_chain s"
  by (simp add: stack_copy_def stack_assign_def stack_new_def stack_clear_def)

end
