(* ===== verification/SR_Sorted_Vector.thy ===== *)
theory SR_Sorted_Vector
  imports SR_Prelude "HOL-Library.Multiset"
begin

text \<open>
  \<open>SortedVector<T, Predicate>\<close> (inc/Utils/Types/SortedVector.h): a vector kept sorted by
  the predicate, so that membership and removal are binary searches. The predicate is the
  argument \<open>lt\<close> of the operations; the theorems are about the default, \<open>std::less<T>\<close>,
  as the strict order of a linear order.

  \<open>std::lower_bound\<close> is the library's: on a range partitioned by \<open>lt _ v\<close> it returns the
  partition point. \<open>UpperBound\<close> is the class's own binary search, a loop.
\<close>

section \<open>Operations\<close>

definition std_lower_bound :: "('a \<Rightarrow> 'b \<Rightarrow> bool) \<Rightarrow> 'a list \<Rightarrow> 'b \<Rightarrow> nat" where
  "std_lower_bound lt xs v = length (takeWhile (\<lambda>x. lt x v) xs)"

text \<open>The loop of \<open>UpperBound\<close>: \<open>pStart\<close> as an index and \<open>length\<close>.\<close>

function upper_bound_loop ::
    "('a \<Rightarrow> 'b \<Rightarrow> bool) \<Rightarrow> 'a list \<Rightarrow> 'b \<Rightarrow> nat \<Rightarrow> nat \<Rightarrow> nat result" where
  "upper_bound_loop lt xs v start len =
     (if 0 < len then
        let half = len div 2; middle = start + half in
        bind_res (vec_at xs middle) (\<lambda>x.
          if lt x v then upper_bound_loop lt xs v (middle + 1) (len - (half + 1))
          else upper_bound_loop lt xs v start half)
      else Inr start)"
  by pat_completeness auto
termination
  by (relation "measure (\<lambda>(lt, xs, v, start, len). len)") auto

declare upper_bound_loop.simps [simp del]

definition sv_upper_bound ::
    "('a \<Rightarrow> 'b \<Rightarrow> bool) \<Rightarrow> 'a list \<Rightarrow> nat \<Rightarrow> nat \<Rightarrow> 'b \<Rightarrow> nat result" where
  "sv_upper_bound lt xs pStart pEnd v = upper_bound_loop lt xs v pStart (pEnd - pStart)"

definition sv_lower_bound :: "('a \<Rightarrow> 'b \<Rightarrow> bool) \<Rightarrow> 'a list \<Rightarrow> 'b \<Rightarrow> nat" where
  "sv_lower_bound lt xs v = std_lower_bound lt xs v"

definition sv_insert :: "'a list \<Rightarrow> nat \<Rightarrow> 'a \<Rightarrow> 'a list" where
  "sv_insert xs it v = vec_insert xs it v"

definition sv_erase :: "'a list \<Rightarrow> nat \<Rightarrow> 'a list" where
  "sv_erase xs it = vec_erase xs it"

definition sv_add :: "('a \<Rightarrow> 'a \<Rightarrow> bool) \<Rightarrow> 'a list \<Rightarrow> 'a \<Rightarrow> 'a list" where
  "sv_add lt xs v =
     (if xs = [] then [v] else vec_insert xs (std_lower_bound lt xs v) v)"

text \<open>\<open>GetOrCreate\<close> takes a key of another type, compares elements with it by
  \<open>operator!=\<close>, and creates a default-constructed element. The result is the vector and
  the position.\<close>

definition sv_get_or_create ::
    "('a \<Rightarrow> 'b \<Rightarrow> bool) \<Rightarrow> ('a \<Rightarrow> 'b \<Rightarrow> bool) \<Rightarrow> 'a \<Rightarrow> 'a list \<Rightarrow> 'b \<Rightarrow> 'a list \<times> nat" where
  "sv_get_or_create lt eq dflt xs v =
     (let it = std_lower_bound lt xs v in
      if it = length xs \<or> \<not> eq (xs ! it) v then (vec_insert xs it dflt, it)
      else (xs, it))"

definition sv_remove :: "('a \<Rightarrow> 'a \<Rightarrow> bool) \<Rightarrow> 'a list \<Rightarrow> 'a \<Rightarrow> bool \<times> 'a list" where
  "sv_remove lt xs v =
     (if xs = [] then (False, xs)
      else let it = std_lower_bound lt xs v in
           if it \<noteq> length xs \<and> xs ! it = v then (True, vec_erase xs it)
           else (False, xs))"

definition sv_clear :: "'a list \<Rightarrow> 'a list" where
  "sv_clear xs = []"

text \<open>The move constructor and move assignment exchange the other vector for an empty one.\<close>

definition sv_move :: "'a list \<Rightarrow> 'a list \<times> 'a list" where
  "sv_move other = (other, [])"

section \<open>The partition point of a sorted vector\<close>

lemma std_lower_bound_le [simp]: "std_lower_bound lt xs v \<le> length xs"
  by (simp add: std_lower_bound_def length_takeWhile_le)

lemma take_lower_bound: "take (std_lower_bound lt xs v) xs = takeWhile (\<lambda>x. lt x v) xs"
  by (simp add: std_lower_bound_def takeWhile_eq_take [symmetric])

lemma drop_lower_bound: "drop (std_lower_bound lt xs v) xs = dropWhile (\<lambda>x. lt x v) xs"
  by (simp add: std_lower_bound_def dropWhile_eq_drop [symmetric])

lemma lower_bound_stop:
  "std_lower_bound lt xs v < length xs \<Longrightarrow> \<not> lt (xs ! std_lower_bound lt xs v) v"
  unfolding std_lower_bound_def by (rule nth_length_takeWhile)

lemma lower_bound_before:
  assumes "i < std_lower_bound lt xs v"
  shows "lt (xs ! i) v"
proof -
  have i: "i < length (takeWhile (\<lambda>x. lt x v) xs)" using assms by (simp add: std_lower_bound_def)
  then have "takeWhile (\<lambda>x. lt x v) xs ! i \<in> set (takeWhile (\<lambda>x. lt x v) xs)" by (rule nth_mem)
  then have "lt (takeWhile (\<lambda>x. lt x v) xs ! i) v" by (blast dest: set_takeWhileD)
  with i show ?thesis by (simp add: takeWhile_nth)
qed

text \<open>A point that splits the vector into a part below and a part not below the value is
  the lower bound.\<close>

lemma lower_bound_unique:
  assumes "p \<le> length xs" and "\<And>i. i < p \<Longrightarrow> lt (xs ! i) v"
    and "\<And>i. p \<le> i \<Longrightarrow> i < length xs \<Longrightarrow> \<not> lt (xs ! i) v"
  shows "std_lower_bound lt xs v = p"
proof (rule ccontr)
  let ?q = "std_lower_bound lt xs v"
  assume "?q \<noteq> p"
  then consider "?q < p" | "p < ?q" by linarith
  then show False
  proof cases
    case 1
    with assms(1) have "\<not> lt (xs ! ?q) v" by (intro lower_bound_stop) simp
    with assms(2) 1 show False by blast
  next
    case 2
    then have "lt (xs ! p) v" by (rule lower_bound_before)
    moreover have "p < length xs" using 2 std_lower_bound_le [of lt xs v] by linarith
    ultimately show False using assms(3) by blast
  qed
qed

definition partitioned :: "('a \<Rightarrow> 'b \<Rightarrow> bool) \<Rightarrow> 'a list \<Rightarrow> 'b \<Rightarrow> bool" where
  "partitioned lt xs v \<longleftrightarrow> (\<forall>i j. i \<le> j \<longrightarrow> j < length xs \<longrightarrow> lt (xs ! j) v \<longrightarrow> lt (xs ! i) v)"

lemma sorted_partitioned: "sorted (xs :: 'a::linorder list) \<Longrightarrow> partitioned (<) xs v"
  by (auto simp: partitioned_def dest: sorted_nth_mono intro: le_less_trans)

text \<open>The loop invariant: everything before \<open>start\<close> is below, everything from
  \<open>start + len\<close> on is not.\<close>

lemma upper_bound_loop_point:
  assumes "partitioned lt xs v" and "start + len \<le> length xs"
    and "\<And>i. i < start \<Longrightarrow> lt (xs ! i) v"
    and "\<And>i. start + len \<le> i \<Longrightarrow> i < length xs \<Longrightarrow> \<not> lt (xs ! i) v"
  shows "upper_bound_loop lt xs v start len = Inr (std_lower_bound lt xs v)"
  using assms
proof (induction lt xs v start len rule: upper_bound_loop.induct)
  case (1 lt xs v start len)
  show ?case
  proof (cases "0 < len")
    case False
    with "1.prems" have "std_lower_bound lt xs v = start"
      by (intro lower_bound_unique) auto
    with False show ?thesis by (subst upper_bound_loop.simps) simp
  next
    case True
    define mid where "mid = start + len div 2"
    have mid: "start \<le> mid" "mid < start + len" "mid < length xs"
      using True "1.prems"(2) by (auto simp: mid_def)
    show ?thesis
    proof (cases "lt (xs ! mid) v")
      case below: True
      have "upper_bound_loop lt xs v (mid + 1) (len - (len div 2 + 1)) = Inr (std_lower_bound lt xs v)"
      proof (rule "1.IH"(1) [OF True refl mid_def _ below])
        show "vec_at xs mid = Inr (xs ! mid)" using mid by simp
        show "partitioned lt xs v" by (rule "1.prems")
        show "mid + 1 + (len - (len div 2 + 1)) \<le> length xs"
          using mid "1.prems"(2) by (simp add: mid_def)
        show "lt (xs ! i) v" if "i < mid + 1" for i
          using "1.prems"(1) below mid(3) that unfolding partitioned_def
          by (metis Suc_eq_plus1 less_Suc_eq_le)
        show "\<not> lt (xs ! i) v" if "mid + 1 + (len - (len div 2 + 1)) \<le> i" "i < length xs" for i
          using "1.prems"(4) that True by (simp add: mid_def)
      qed
      with below mid True show ?thesis
        by (subst upper_bound_loop.simps) (simp add: mid_def Let_def)
    next
      case above: False
      have "upper_bound_loop lt xs v start (len div 2) = Inr (std_lower_bound lt xs v)"
      proof (rule "1.IH"(2) [OF True refl mid_def _ above])
        show "vec_at xs mid = Inr (xs ! mid)" using mid by simp
        show "partitioned lt xs v" by (rule "1.prems")
        show "start + len div 2 \<le> length xs" using mid by (simp add: mid_def)
        show "lt (xs ! i) v" if "i < start" for i using "1.prems"(3) that by blast
        show "\<not> lt (xs ! i) v" if "start + len div 2 \<le> i" "i < length xs" for i
          using "1.prems"(1) above that unfolding partitioned_def mid_def by blast
      qed
      with above mid True show ?thesis
        by (subst upper_bound_loop.simps) (simp add: mid_def Let_def)
    qed
  qed
qed

lemma sorted_lower_bound_eq:
  assumes "sorted (xs :: 'a::linorder list)"
  shows "std_lower_bound (<) xs v < length xs \<and> xs ! std_lower_bound (<) xs v = v \<longleftrightarrow> v \<in> set xs"
proof
  assume "v \<in> set xs"
  then obtain k where k: "k < length xs" "xs ! k = v" by (auto simp: in_set_conv_nth)
  let ?p = "std_lower_bound (<) xs v"
  have "?p \<le> k"
  proof (rule ccontr)
    assume "\<not> ?p \<le> k"
    then have "xs ! k < v" using lower_bound_before [of k "(<)" xs v] by simp
    with k show False by simp
  qed
  then have p: "?p < length xs" using k by simp
  moreover have "xs ! ?p \<le> v" using sorted_nth_mono [OF assms \<open>?p \<le> k\<close> k(1)] k(2) by simp
  moreover from p have "\<not> xs ! ?p < v" by (rule lower_bound_stop)
  ultimately show "?p < length xs \<and> xs ! ?p = v" by simp
qed (metis nth_mem)

lemma sorted_insert_lower_bound:
  assumes xs: "sorted (xs :: 'a::linorder list)"
  shows "sorted (vec_insert xs (std_lower_bound (<) xs v) v)"
proof -
  let ?p = "std_lower_bound (<) xs v"
  have below: "x < v" if "x \<in> set (take ?p xs)" for x
    using that by (auto simp: in_set_conv_nth intro: lower_bound_before)
  have above: "v \<le> x" if x: "x \<in> set (drop ?p xs)" for x
  proof -
    from x obtain i where "i < length (drop ?p xs)" "x = drop ?p xs ! i"
      unfolding in_set_conv_nth by metis
    then have i: "?p + i < length xs" "x = xs ! (?p + i)" by auto
    have "\<not> xs ! ?p < v" by (rule lower_bound_stop) (use i in simp)
    moreover have "xs ! ?p \<le> x" using sorted_nth_mono [OF xs, of ?p "?p + i"] i by simp
    ultimately show ?thesis by simp
  qed
  have "sorted (take ?p xs)" "sorted (drop ?p xs)"
    using xs by (auto intro: sorted_wrt_take sorted_wrt_drop)
  then show ?thesis
    unfolding vec_insert_def by (auto simp: sorted_append dest!: below above)
qed

lemma mset_vec_insert [simp]: "mset (vec_insert xs i v) = add_mset v (mset xs)"
  by (metis append_take_drop_id mset.simps(2) mset_append union_mset_add_mset_right vec_insert_def)

lemma mset_vec_erase: "i < length xs \<Longrightarrow> mset (vec_erase xs i) = mset xs - {#xs ! i#}"
  by (metis add_diff_cancel_right' add_mset_add_single append_take_drop_id Cons_nth_drop_Suc
      mset.simps(2) mset_append union_mset_add_mset_right vec_erase_def)

lemma sorted_vec_erase:
  assumes xs: "sorted xs"
  shows "sorted (vec_erase xs i)"
proof -
  from xs have "sorted (take i xs @ drop i xs)" by simp
  then have "sorted (take i xs)" and "sorted (drop i xs)"
    and le: "\<forall>x \<in> set (take i xs). \<forall>y \<in> set (drop i xs). x \<le> y"
    unfolding sorted_append by auto
  moreover have "set (drop (Suc i) xs) \<subseteq> set (drop i xs)"
    by (rule set_drop_subset_set_drop) simp
  moreover have "sorted (drop (Suc i) xs)" using xs by (rule sorted_wrt_drop)
  ultimately show ?thesis unfolding vec_erase_def sorted_append by blast
qed

lemma sv_add_remove:
  assumes "sorted (xs :: 'a::linorder list)"
  shows "sorted (sv_add (<) xs v)" and "mset (sv_add (<) xs v) = add_mset v (mset xs)"
    and "fst (sv_remove (<) xs v) \<longleftrightarrow> v \<in> set xs"
    and "sorted (snd (sv_remove (<) xs v))"
    and "mset (snd (sv_remove (<) xs v)) = mset xs - {#v#}"
proof -
  let ?p = "std_lower_bound (<) xs v"
  have mem: "?p \<noteq> length xs \<and> xs ! ?p = v \<longleftrightarrow> v \<in> set xs"
    using sorted_lower_bound_eq [OF assms, of v] std_lower_bound_le [of "(<)" xs v]
    by (auto simp: le_less)
  show "sorted (sv_add (<) xs v)"
    using sorted_insert_lower_bound [OF assms] by (simp add: sv_add_def)
  show "mset (sv_add (<) xs v) = add_mset v (mset xs)"
    by (simp add: sv_add_def)
  show "fst (sv_remove (<) xs v) \<longleftrightarrow> v \<in> set xs"
    using mem by (auto simp: sv_remove_def Let_def)
  show "sorted (snd (sv_remove (<) xs v))"
    using assms sorted_vec_erase [OF assms] by (auto simp: sv_remove_def Let_def)
  show "mset (snd (sv_remove (<) xs v)) = mset xs - {#v#}"
  proof (cases "v \<in> set xs")
    case True
    with mem have p: "?p < length xs" "xs ! ?p = v"
      using std_lower_bound_le [of "(<)" xs v] by (auto simp: le_less)
    with mset_vec_erase [OF p(1)] show ?thesis by (auto simp: sv_remove_def Let_def)
  next
    case False
    with mem have "snd (sv_remove (<) xs v) = xs" by (auto simp: sv_remove_def Let_def)
    with False show ?thesis by (simp add: diff_single_trivial)
  qed
qed

section \<open>Properties\<close>

text \<open>C21: On every sorted vector, \<open>Add\<close> keeps the vector sorted and adds exactly the one
  value; \<open>Remove\<close> reports whether the value was there, keeps the vector sorted, and takes
  away exactly one occurrence of it when it was.\<close>

theorem sorted_vector_contract:
  assumes "sorted (xs :: 'a::linorder list)"
  shows "sorted (sv_add (<) xs v) \<and> mset (sv_add (<) xs v) = add_mset v (mset xs) \<and>
    (fst (sv_remove (<) xs v) \<longleftrightarrow> v \<in> set xs) \<and>
    sorted (snd (sv_remove (<) xs v)) \<and>
    mset (snd (sv_remove (<) xs v)) = mset xs - {#v#}"
  using sv_add_remove [OF assms] by blast

theorem sorted_vector_contract_witness:
  "sorted (sv_add (<) [1, 3, 5] (4::nat)) \<and>
   mset (snd (sv_remove (<) [1, 3, 3, 5] (3::nat))) = {#1, 3, 5#}"
  using sorted_vector_contract [of "[1, 3, 5]" "4::nat"]
    sorted_vector_contract [of "[1, 3, 3, 5]" "3::nat"] by simp

text \<open>The hand-written binary search \<open>UpperBound\<close>, run over a whole vector that the
  predicate partitions, never reads outside the vector and returns the first position whose
  element is not below the value. That is \<open>std::lower_bound\<close>, not the
  \<open>std::upper_bound\<close> that the comment in its body names.\<close>

theorem upper_bound_is_lower_bound:
  assumes "partitioned lt xs v"
  shows "sv_upper_bound lt xs 0 (length xs) v = Inr (sv_lower_bound lt xs v)"
  unfolding sv_upper_bound_def sv_lower_bound_def
  by (rule upper_bound_loop_point) (use assms in auto)

theorem upper_bound_is_lower_bound_witness:
  "sv_upper_bound (<) [1, 2, 2, 3::nat] 0 4 2 = Inr 1"
  using upper_bound_is_lower_bound [OF sorted_partitioned, of "[1, 2, 2, 3::nat]" 2]
  by (simp add: sv_lower_bound_def std_lower_bound_def eval_nat_numeral)

end
