(* ===== verification/SR_Object_Pool.thy ===== *)
theory SR_Object_Pool
  imports SR_Stack
begin

text \<open>
  \<open>ObjectPool<T, Index>\<close> (inc/Utils/Types/ObjectPool.h): a vector of slots, each a flag
  "alive" and an object, and a stack of the indices of dead slots, which the next \<open>Add\<close>
  reuses. An index handed out by \<open>Add\<close> stays the object's handle until it is removed.

  Indices are \<open>nat\<close>: a vector never has \<open>2^64\<close> elements, so \<open>uint64_t\<close> does not wrap
  here, and the places that would wrap are branches. What is left in a slot after
  \<open>std::move\<close> depends on the element type; it is the parameter \<open>moved\<close>. Callbacks of
  \<open>RemoveIf\<close> and \<open>ForEach\<close> are functions on the object and a state of the caller.
\<close>

section \<open>State and operations\<close>

record 'a pool =
  m_objects :: "(bool \<times> 'a) list"
  m_freeIndices :: "nat stack"

definition pool_new :: "'a pool" where
  "pool_new = \<lparr>m_objects = [], m_freeIndices = stack_new\<rparr>"

definition pool_move :: "'a pool \<Rightarrow> 'a pool \<times> 'a pool" where
  "pool_move other = (\<lparr>m_objects = m_objects other, m_freeIndices = m_freeIndices other\<rparr>,
                      \<lparr>m_objects = [], m_freeIndices = stack_new\<rparr>)"

definition pool_GetAliveCount :: "'a pool \<Rightarrow> u32" where
  "pool_GetAliveCount p = ucast ((of_nat (length (m_objects p)) :: u64) - stack_Size (m_freeIndices p))"

definition pool_Add :: "'a pool \<Rightarrow> 'a \<Rightarrow> (nat \<times> 'a pool) result" where
  "pool_Add p x =
     (if stack_IsEmpty (m_freeIndices p) then
        let index = length (m_objects p) in
        Inr (index, p\<lparr>m_objects := m_objects p @ [(True, x)]\<rparr>)
      else
        bind_res (stack_pop (m_freeIndices p)) (\<lambda>(index, free).
        bind_res (vec_set (m_objects p) index (True, x)) (\<lambda>objects.
        Inr (index, p\<lparr>m_objects := objects, m_freeIndices := free\<rparr>))))"

definition pool_At :: "'a pool \<Rightarrow> nat \<Rightarrow> 'a result" where
  "pool_At p index = bind_res (vec_at (m_objects p) index) (\<lambda>object.
     if \<not> fst object then Inl Terminated else Inr (snd object))"

definition pool_AtUnchecked :: "'a pool \<Rightarrow> nat \<Rightarrow> 'a result" where
  "pool_AtUnchecked p index = bind_res (vec_at (m_objects p) index) (\<lambda>object. Inr (snd object))"

definition pool_Clear :: "'a pool \<Rightarrow> 'a pool" where
  "pool_Clear p = p\<lparr>m_objects := [], m_freeIndices := stack_clear (m_freeIndices p)\<rparr>"

text \<open>The loop of \<open>ShrinkToFit\<close> counts the dead slots at the end.\<close>

fun shrink_scan :: "(bool \<times> 'a) list \<Rightarrow> nat \<Rightarrow> nat \<Rightarrow> nat" where
  "shrink_scan objects 0 count = (if fst (objects ! 0) then count else count + 1)"
| "shrink_scan objects (Suc index) count =
     (if fst (objects ! Suc index) then count else shrink_scan objects index (count + 1))"

definition pool_ShrinkToFit :: "'a pool \<Rightarrow> 'a pool result" where
  "pool_ShrinkToFit p =
     (if stack_Size (m_freeIndices p) = of_nat (length (m_objects p)) then Inr (pool_Clear p)
      else if m_objects p = [] then Inl OutOfRange
      else let count = shrink_scan (m_objects p) (length (m_objects p) - 1) 0 in
           if count = 0 then Inr p
           else Inr (p\<lparr>m_objects := take (length (m_objects p) - count) (m_objects p)\<rparr>))"

definition pool_IsEmpty :: "'a pool \<Rightarrow> bool" where
  "pool_IsEmpty p \<longleftrightarrow> of_nat (length (m_objects p)) = stack_Size (m_freeIndices p)"

definition pool_IsAlive :: "'a pool \<Rightarrow> nat \<Rightarrow> bool" where
  "pool_IsAlive p index = (if index \<ge> length (m_objects p) then False else fst (m_objects p ! index))"

definition pool_RemoveByIndex :: "('a \<Rightarrow> 'a) \<Rightarrow> 'a pool \<Rightarrow> nat \<Rightarrow> ('a \<times> 'a pool) result" where
  "pool_RemoveByIndex moved p index =
     (if index \<ge> length (m_objects p) then Inl Terminated
      else if \<not> fst (m_objects p ! index) then Inl Terminated
      else let object = snd (m_objects p ! index) in
           Inr (object, p\<lparr>m_objects := (m_objects p)[index := (False, moved object)],
                          m_freeIndices := stack_push (m_freeIndices p) index\<rparr>))"

fun remove_by_object_loop ::
    "('a \<Rightarrow> 'a) \<Rightarrow> 'a pool \<Rightarrow> 'a \<Rightarrow> (bool \<times> 'a) list \<Rightarrow> nat \<Rightarrow> 'a pool result" where
  "remove_by_object_loop moved p object [] i = Inr p"
| "remove_by_object_loop moved p object ((alive, x) # rest) i =
     (if x = object then
        if \<not> alive then Inl Terminated
        else Inr (p\<lparr>m_objects := (m_objects p)[i := (False, moved x)],
                    m_freeIndices := stack_push (m_freeIndices p) i\<rparr>)
      else remove_by_object_loop moved p object rest (i + 1))"

definition pool_RemoveByObject :: "('a \<Rightarrow> 'a) \<Rightarrow> 'a pool \<Rightarrow> 'a \<Rightarrow> 'a pool result" where
  "pool_RemoveByObject moved p object = remove_by_object_loop moved p object (m_objects p) 0"

fun remove_if_loop ::
    "('a \<Rightarrow> 'a) \<Rightarrow> (nat \<Rightarrow> 'a \<Rightarrow> 's \<Rightarrow> bool \<times> 'a \<times> 's) \<Rightarrow> ('a \<Rightarrow> 's \<Rightarrow> 's) \<Rightarrow>
     (bool \<times> 'a) list \<Rightarrow> nat \<Rightarrow> nat stack \<Rightarrow> 's \<Rightarrow> (bool \<times> 'a) list \<times> nat stack \<times> 's" where
  "remove_if_loop moved condition deleter [] index free s = ([], free, s)"
| "remove_if_loop moved condition deleter ((alive, object) # rest) index free s =
     (if alive then
        (case condition index object s of (hit, object', s') \<Rightarrow>
           if hit then
             (case remove_if_loop moved condition deleter rest (index + 1)
                     (stack_push free index) (deleter object' s') of
                (slots, free', s'') \<Rightarrow> ((False, moved object') # slots, free', s''))
           else
             (case remove_if_loop moved condition deleter rest (index + 1) free s' of
                (slots, free', s'') \<Rightarrow> ((True, object') # slots, free', s'')))
      else
        (case remove_if_loop moved condition deleter rest (index + 1) free s of
           (slots, free', s'') \<Rightarrow> ((alive, object) # slots, free', s'')))"

definition pool_RemoveIf ::
    "('a \<Rightarrow> 'a) \<Rightarrow> (nat \<Rightarrow> 'a \<Rightarrow> 's \<Rightarrow> bool \<times> 'a \<times> 's) \<Rightarrow> ('a \<Rightarrow> 's \<Rightarrow> 's) \<Rightarrow>
     'a pool \<Rightarrow> 's \<Rightarrow> 'a pool \<times> 's" where
  "pool_RemoveIf moved condition deleter p s =
     (case remove_if_loop moved condition deleter (m_objects p) 0 (m_freeIndices p) s of
        (slots, free, s') \<Rightarrow> (p\<lparr>m_objects := slots, m_freeIndices := free\<rparr>, s'))"

fun for_each_loop ::
    "(nat \<Rightarrow> 'a \<Rightarrow> 's \<Rightarrow> 'a \<times> 's) \<Rightarrow> (bool \<times> 'a) list \<Rightarrow> nat \<Rightarrow> 's \<Rightarrow> (bool \<times> 'a) list \<times> 's" where
  "for_each_loop func [] index s = ([], s)"
| "for_each_loop func ((alive, object) # rest) index s =
     (case (if alive then func index object s else (object, s)) of (object', s') \<Rightarrow>
        (case for_each_loop func rest (index + 1) s' of (slots, s'') \<Rightarrow> ((alive, object') # slots, s'')))"

definition pool_ForEach :: "(nat \<Rightarrow> 'a \<Rightarrow> 's \<Rightarrow> 'a \<times> 's) \<Rightarrow> 'a pool \<Rightarrow> 's \<Rightarrow> 'a pool \<times> 's" where
  "pool_ForEach func p s =
     (if pool_IsEmpty p then (p, s)
      else case for_each_loop func (m_objects p) 0 s of (slots, s') \<Rightarrow> (p\<lparr>m_objects := slots\<rparr>, s'))"

section \<open>Specification: a finite map from handles to objects\<close>

definition pool_lookup :: "'a pool \<Rightarrow> nat \<Rightarrow> 'a option" where
  "pool_lookup p i =
     (if i < length (m_objects p) \<and> fst (m_objects p ! i) then Some (snd (m_objects p ! i)) else None)"

definition dead :: "(bool \<times> 'a) list \<Rightarrow> nat set" where
  "dead objects = {i. i < length objects \<and> \<not> fst (objects ! i)}"

text \<open>The invariant: the free list names each dead slot once and nothing else.\<close>

definition pool_inv :: "'a pool \<Rightarrow> bool" where
  "pool_inv p \<longleftrightarrow> stack_inv (m_freeIndices p) \<and> distinct (m_chain (m_freeIndices p)) \<and>
     set (m_chain (m_freeIndices p)) = dead (m_objects p) \<and> length (m_objects p) < 2 ^ 64"

definition pool_room :: "'a pool \<Rightarrow> bool" where
  "pool_room p \<longleftrightarrow> Suc (length (m_objects p)) < 2 ^ 64"

locale slot_store =
  fixes add :: "'p \<Rightarrow> 'a \<Rightarrow> (nat \<times> 'p) result"
    and remove :: "'p \<Rightarrow> nat \<Rightarrow> ('a \<times> 'p) result"
    and lookup :: "'p \<Rightarrow> nat \<Rightarrow> 'a option"
    and inv :: "'p \<Rightarrow> bool"
    and room :: "'p \<Rightarrow> bool"
  assumes add_ok: "inv p \<Longrightarrow> room p \<Longrightarrow>
      \<exists>i p'. add p x = Inr (i, p') \<and> lookup p i = None \<and> lookup p' = (lookup p)(i \<mapsto> x) \<and> inv p'"
    and remove_ok: "inv p \<Longrightarrow> lookup p i = Some x \<Longrightarrow>
      \<exists>p'. remove p i = Inr (x, p') \<and> lookup p' = (lookup p)(i := None) \<and> inv p'"
    and remove_bad: "inv p \<Longrightarrow> lookup p i = None \<Longrightarrow> remove p i = Inl Terminated"
begin

lemma add_D:
  assumes "inv p" "room p" "add p x = Inr (i, p')"
  shows "lookup p i = None" "lookup p' = (lookup p)(i \<mapsto> x)" "inv p'"
  using add_ok [OF assms(1,2), of x] assms(3) by auto

lemma remove_iff: "inv p \<Longrightarrow> ok (remove p i) \<longleftrightarrow> lookup p i \<noteq> None"
  by (cases "lookup p i") (auto dest: remove_ok remove_bad)

lemma remove_after_add:
  assumes "inv p" "room p" "add p x = Inr (i, p')"
  shows "\<exists>p''. remove p' i = Inr (x, p'') \<and> lookup p'' = lookup p \<and> inv p''"
proof -
  note D = add_D [OF assms]
  then have "lookup p' i = Some x" by simp
  from remove_ok [OF D(3) this] show ?thesis
    using D(1,2) by (auto simp: fun_eq_iff)
qed

lemma handles_distinct:
  assumes "inv p" "room p" "add p x = Inr (i, p')" "room p'" "add p' y = Inr (j, p'')"
  shows "i \<noteq> j" "lookup p'' i = Some x" "lookup p'' j = Some y"
proof -
  note D = add_D [OF assms(1-3)]
  note E = add_D [OF D(3) assms(4,5)]
  show "i \<noteq> j" "lookup p'' i = Some x" "lookup p'' j = Some y"
    using D E by (auto simp: fun_eq_iff split: if_splits)
qed

end

section \<open>The pool implements the specification\<close>

lemma dead_append_alive [simp]: "dead (xs @ [(True, x)]) = dead xs"
  by (auto simp: dead_def nth_append)

lemma dead_set_alive [simp]: "dead (xs[i := (True, x)]) = dead xs - {i}"
  by (cases "i < length xs") (auto simp: dead_def nth_list_update list_update_beyond split: if_splits)

lemma dead_set_dead [simp]: "i < length xs \<Longrightarrow> dead (xs[i := (False, x)]) = insert i (dead xs)"
  by (auto simp: dead_def nth_list_update)

lemma pool_lookup_None_iff:
  "pool_lookup p i = None \<longleftrightarrow> i \<in> dead (m_objects p) \<or> length (m_objects p) \<le> i"
  by (auto simp: pool_lookup_def dead_def)

lemma pool_lookup_Some_iff:
  "pool_lookup p i = Some x \<longleftrightarrow> i < length (m_objects p) \<and> m_objects p ! i = (True, x)"
  by (cases "m_objects p ! i") (auto simp: pool_lookup_def)

lemma dead_bound: "dead xs \<subseteq> {..<length xs}"
  by (auto simp: dead_def)

lemma pool_free_length:
  assumes "pool_inv p"
  shows "length (m_chain (m_freeIndices p)) = card (dead (m_objects p))"
    and "length (m_chain (m_freeIndices p)) \<le> length (m_objects p)"
    and "length (m_chain (m_freeIndices p)) < 2 ^ 64"
proof -
  let ?c = "m_chain (m_freeIndices p)"
  have c: "distinct ?c" "set ?c = dead (m_objects p)" "length (m_objects p) < 2 ^ 64"
    using assms by (auto simp: pool_inv_def)
  show len: "length ?c = card (dead (m_objects p))"
    using distinct_card [OF c(1)] c(2) by simp
  have "card (dead (m_objects p)) \<le> card {..<length (m_objects p)}"
    by (rule card_mono [OF _ dead_bound]) simp
  with len show "length ?c \<le> length (m_objects p)" by simp
  with c(3) show "length ?c < 2 ^ 64" by simp
qed

lemma pool_free_empty:
  assumes "pool_inv p"
  shows "stack_IsEmpty (m_freeIndices p) \<longleftrightarrow> m_chain (m_freeIndices p) = []"
  using assms pool_free_length(3) [OF assms] by (intro stack_IsEmpty_iff) (auto simp: pool_inv_def)

lemma pool_inv_new [inv_intros]: "pool_inv pool_new"
  by (simp add: pool_inv_def pool_new_def stack_inv_new dead_def) (simp add: stack_new_def)

lemma pool_inv_clear [inv_intros]: "pool_inv (pool_Clear p)"
  by (simp add: pool_inv_def pool_Clear_def stack_inv_clear dead_def) (simp add: stack_clear_def)

lemma pool_add_spec:
  assumes inv: "pool_inv p" and room: "pool_room p"
  shows "\<exists>i p'. pool_Add p x = Inr (i, p') \<and> pool_lookup p i = None \<and>
           pool_lookup p' = (pool_lookup p)(i \<mapsto> x) \<and> pool_inv p'"
proof (cases "m_chain (m_freeIndices p)")
  case Nil
  define p' where "p' = p\<lparr>m_objects := m_objects p @ [(True, x)]\<rparr>"
  have "pool_Add p x = Inr (length (m_objects p), p')"
    using Nil pool_free_empty [OF inv] by (simp add: pool_Add_def p'_def)
  moreover have "pool_lookup p (length (m_objects p)) = None"
    by (simp add: pool_lookup_def)
  moreover have "pool_lookup p' = (pool_lookup p)(length (m_objects p) \<mapsto> x)"
    by (auto simp: p'_def pool_lookup_def fun_eq_iff nth_append)
  moreover have "pool_inv p'"
    using inv room by (simp add: p'_def pool_inv_def pool_room_def)
  ultimately show ?thesis by blast
next
  case (Cons i ks)
  define free where "free = (m_freeIndices p)\<lparr>m_chain := ks, m_size := m_size (m_freeIndices p) - 1\<rparr>"
  define p' where "p' = p\<lparr>m_objects := (m_objects p)[i := (True, x)], m_freeIndices := free\<rparr>"
  have pop: "stack_pop (m_freeIndices p) = Inr (i, free)"
    using Cons by (simp add: free_def)
  have i: "i \<in> dead (m_objects p)" "i < length (m_objects p)"
    using inv Cons dead_bound by (auto simp: pool_inv_def)
  have "pool_Add p x = Inr (i, p')"
    using Cons pool_free_empty [OF inv] pop i(2) by (simp add: pool_Add_def p'_def)
  moreover have "pool_lookup p i = None"
    using i by (simp add: pool_lookup_None_iff)
  moreover have "pool_lookup p' = (pool_lookup p)(i \<mapsto> x)"
    using i(2) by (auto simp: p'_def pool_lookup_def fun_eq_iff nth_list_update)
  moreover have "pool_inv p'"
    using inv Cons stack_inv_pop [OF _ pop] by (auto simp: p'_def pool_inv_def free_def)
  ultimately show ?thesis by blast
qed

lemma pool_remove_spec:
  assumes inv: "pool_inv p" and x: "pool_lookup p i = Some x"
  shows "\<exists>p'. pool_RemoveByIndex moved p i = Inr (x, p') \<and>
           pool_lookup p' = (pool_lookup p)(i := None) \<and> pool_inv p'"
proof -
  define p' where "p' = p\<lparr>m_objects := (m_objects p)[i := (False, moved x)],
                           m_freeIndices := stack_push (m_freeIndices p) i\<rparr>"
  have i: "i < length (m_objects p)" "m_objects p ! i = (True, x)"
    using x by (auto simp: pool_lookup_Some_iff)
  have "pool_RemoveByIndex moved p i = Inr (x, p')"
    using i by (simp add: pool_RemoveByIndex_def p'_def Let_def)
  moreover have "pool_lookup p' = (pool_lookup p)(i := None)"
    using i by (auto simp: p'_def pool_lookup_def fun_eq_iff nth_list_update)
  moreover have "pool_inv p'"
  proof -
    have "i \<notin> dead (m_objects p)" using i by (simp add: dead_def)
    with inv i(1) show ?thesis
      by (simp add: p'_def pool_inv_def stack_inv_push) (simp add: stack_push_def)
  qed
  ultimately show ?thesis by blast
qed

lemma pool_remove_bad: "pool_lookup p i = None \<Longrightarrow> pool_RemoveByIndex moved p i = Inl Terminated"
  by (auto simp: pool_lookup_def pool_RemoveByIndex_def split: if_splits)

interpretation object_pool: slot_store pool_Add "pool_RemoveByIndex moved" pool_lookup pool_inv pool_room
  for moved
  by unfold_locales (auto intro: pool_add_spec pool_remove_spec pool_remove_bad)

lemma pool_At_iff: "pool_At p i = Inr x \<longleftrightarrow> pool_lookup p i = Some x"
  by (cases "m_objects p ! i") (auto simp: pool_At_def pool_lookup_def vec_at_def split: if_splits)

lemma pool_IsAlive_iff: "pool_IsAlive p i \<longleftrightarrow> pool_lookup p i \<noteq> None"
  by (auto simp: pool_IsAlive_def pool_lookup_def)

section \<open>RemoveIf\<close>

lemma shifted_hits:
  "{index + k |k. k < Suc n \<and> P k} =
     (if P 0 then {index} else {}) \<union> {index + 1 + k |k. k < n \<and> P (Suc k)}"
proof -
  have "{index + k |k. k < Suc n \<and> P k} = (\<lambda>k. index + k) ` {k. k < Suc n \<and> P k}" by auto
  also have "{k. k < Suc n \<and> P k} = (if P 0 then {0} else {}) \<union> Suc ` {k. k < n \<and> P (Suc k)}"
    by (auto simp: less_Suc_eq_0_disj image_iff)
  finally show ?thesis by auto
qed

definition hits_of :: "nat \<Rightarrow> (bool \<times> 'a) list \<Rightarrow> (bool \<times> 'a) list \<Rightarrow> nat set" where
  "hits_of index xs slots = {index + k |k. k < length xs \<and> fst (xs ! k) \<and> \<not> fst (slots ! k)}"

lemma hits_of_Nil [simp]: "hits_of index [] slots = {}"
  by (simp add: hits_of_def)

lemma hits_of_Cons [simp]:
  "hits_of index (x # xs) (y # ys) =
     (if fst x \<and> \<not> fst y then {index} else {}) \<union> hits_of (index + 1) xs ys"
  unfolding hits_of_def using shifted_hits [of index "length xs"
    "\<lambda>k. fst ((x # xs) ! k) \<and> \<not> fst ((y # ys) ! k)"] by simp

lemma hits_of_lower: "i \<in> hits_of index xs ys \<Longrightarrow> index \<le> i"
  by (auto simp: hits_of_def)

lemma remove_if_loop_spec:
  assumes "remove_if_loop moved condition deleter xs index free s = (slots, free', s')"
  shows "length slots = length xs \<and>
    (\<forall>k < length xs. \<not> fst (xs ! k) \<longrightarrow> slots ! k = xs ! k) \<and>
    (stack_inv free \<longrightarrow> stack_inv free') \<and>
    (\<exists>hits. m_chain free' = hits @ m_chain free \<and> distinct hits \<and>
       set hits = hits_of index xs slots)"
  using assms
proof (induction xs arbitrary: index free s slots free' s')
  case Nil
  then show ?case by simp
next
  case (Cons x xs)
  obtain alive object where x: "x = (alive, object)" by (cases x)
  obtain hit object' s1 where c: "condition index object s = (hit, object', s1)"
    by (cases "condition index object s")
  consider (dead) "\<not> alive" | (kept) "alive" "\<not> hit" | (gone) "alive" "hit" by blast
  then show ?case
  proof cases
    case dead
    then obtain ys where "remove_if_loop moved condition deleter xs (index + 1) free s = (ys, free', s')"
      and ys: "slots = x # ys"
      using Cons.prems x by (auto split: prod.splits)
    from Cons.IH [OF this(1)] dead x ys show ?thesis
      by (simp add: All_less_Suc2)
  next
    case kept
    then obtain ys where "remove_if_loop moved condition deleter xs (index + 1) free s1 = (ys, free', s')"
      and ys: "slots = (True, object') # ys"
      using Cons.prems x c by (auto split: prod.splits)
    from Cons.IH [OF this(1)] kept x ys show ?thesis
      by (simp add: All_less_Suc2)
  next
    case gone
    then obtain ys where r: "remove_if_loop moved condition deleter xs (index + 1)
        (stack_push free index) (deleter object' s1) = (ys, free', s')"
      and ys: "slots = (False, moved object') # ys"
      using Cons.prems x c by (auto split: prod.splits)
    from Cons.IH [OF r] obtain hits where IH: "length ys = length xs"
        "\<forall>k < length xs. \<not> fst (xs ! k) \<longrightarrow> ys ! k = xs ! k"
        "stack_inv (stack_push free index) \<longrightarrow> stack_inv free'"
        "m_chain free' = hits @ m_chain (stack_push free index)" "distinct hits"
        "set hits = hits_of (index + 1) xs ys" by auto
    have "index \<notin> set hits" using IH(6) hits_of_lower by fastforce
    then have "m_chain free' = (hits @ [index]) @ m_chain free \<and> distinct (hits @ [index]) \<and>
        set (hits @ [index]) = hits_of index (x # xs) slots"
      using IH gone x ys by (auto simp: stack_push_def)
    moreover have "stack_inv free \<longrightarrow> stack_inv free'" using IH(3) by (simp add: stack_inv_push)
    moreover have "length slots = length (x # xs) \<and>
        (\<forall>k < length (x # xs). \<not> fst ((x # xs) ! k) \<longrightarrow> slots ! k = (x # xs) ! k)"
      using IH(1,2) gone x ys by (simp add: All_less_Suc2)
    ultimately show ?thesis by blast
  qed
qed

lemma pool_inv_remove_if [inv_intros]:
  assumes inv: "pool_inv p" and r: "pool_RemoveIf moved condition deleter p s = (p', s')"
  shows "pool_inv p'"
proof -
  obtain slots free where
    l: "remove_if_loop moved condition deleter (m_objects p) 0 (m_freeIndices p) s = (slots, free, s')"
    and p': "p' = p\<lparr>m_objects := slots, m_freeIndices := free\<rparr>"
    using r by (auto simp: pool_RemoveIf_def split: prod.splits)
  from remove_if_loop_spec [OF l] obtain hits where H: "length slots = length (m_objects p)"
    "\<forall>k < length (m_objects p). \<not> fst (m_objects p ! k) \<longrightarrow> slots ! k = m_objects p ! k"
    "stack_inv (m_freeIndices p) \<longrightarrow> stack_inv free"
    "m_chain free = hits @ m_chain (m_freeIndices p)" "distinct hits"
    "set hits = hits_of 0 (m_objects p) slots" by auto
  have "hits_of 0 (m_objects p) slots \<inter> dead (m_objects p) = {}"
    by (auto simp: hits_of_def dead_def)
  moreover have "hits_of 0 (m_objects p) slots \<union> dead (m_objects p) = dead slots"
    using H(1,2) by (auto simp: hits_of_def dead_def)
  ultimately show ?thesis
    using inv H by (auto simp: pool_inv_def p')
qed

text \<open>With a condition that only reads, the pool that remains is the restriction of the map
  to the objects it does not hold of, and the deleter sees the others in index order.\<close>

fun removed_objects :: "(nat \<Rightarrow> 'a \<Rightarrow> bool) \<Rightarrow> (bool \<times> 'a) list \<Rightarrow> nat \<Rightarrow> 'a list" where
  "removed_objects c [] index = []"
| "removed_objects c ((alive, x) # rest) index =
     (if alive \<and> c index x then [x] else []) @ removed_objects c rest (index + 1)"

definition slot_after :: "('a \<Rightarrow> bool) \<Rightarrow> bool \<times> 'a \<Rightarrow> bool \<times> 'a \<Rightarrow> bool" where
  "slot_after c x y \<longleftrightarrow> fst y = (fst x \<and> \<not> c (snd x)) \<and> (fst y \<longrightarrow> y = x)"

lemma remove_if_loop_pure:
  assumes "remove_if_loop moved (\<lambda>i x s. (c i x, x, s)) (\<lambda>x log. log @ [x]) xs index free log =
     (slots, free', log')"
  shows "length slots = length xs \<and>
   (\<forall>k < length xs. slot_after (c (index + k)) (xs ! k) (slots ! k)) \<and>
   log' = log @ removed_objects c xs index"
  using assms
proof (induction xs arbitrary: index free log slots free' log')
  case Nil
  then show ?case by simp
next
  case (Cons x xs)
  obtain alive object where x: "x = (alive, object)" by (cases x)
  show ?case
  proof (cases "alive \<and> c index object")
    case True
    then obtain ys where r: "remove_if_loop moved (\<lambda>i x s. (c i x, x, s)) (\<lambda>x log. log @ [x]) xs
        (index + 1) (stack_push free index) (log @ [object]) = (ys, free', log')"
      and ys: "slots = (False, moved object) # ys"
      using Cons.prems x by (auto split: prod.splits)
    moreover have "slot_after (c index) x (False, moved object)"
      using True x by (simp add: slot_after_def)
    ultimately show ?thesis using Cons.IH [OF r] True x by (simp add: All_less_Suc2)
  next
    case False
    then obtain ys where r: "remove_if_loop moved (\<lambda>i x s. (c i x, x, s)) (\<lambda>x log. log @ [x]) xs
        (index + 1) free log = (ys, free', log')"
      and ys: "slots = x # ys"
      using Cons.prems x by (auto split: prod.splits if_splits)
    moreover have "slot_after (c index) x x"
      using False x by (auto simp: slot_after_def)
    moreover have "removed_objects c (x # xs) index = removed_objects c xs (index + 1)"
      using False x by auto
    ultimately show ?thesis using Cons.IH [OF r] by (simp add: All_less_Suc2)
  qed
qed

lemma pool_remove_if_lookup:
  assumes "pool_RemoveIf moved (\<lambda>i x s. (c i x, x, s)) (\<lambda>x log. log @ [x]) p log = (p', log')"
  shows "pool_lookup p' i = (case pool_lookup p i of None \<Rightarrow> None
           | Some x \<Rightarrow> if c i x then None else Some x)"
    and "log' = log @ removed_objects c (m_objects p) 0"
proof -
  obtain slots free where
    l: "remove_if_loop moved (\<lambda>i x s. (c i x, x, s)) (\<lambda>x log. log @ [x]) (m_objects p) 0
          (m_freeIndices p) log = (slots, free, log')"
    and p': "p' = p\<lparr>m_objects := slots, m_freeIndices := free\<rparr>"
    using assms by (auto simp: pool_RemoveIf_def split: prod.splits)
  note S = remove_if_loop_pure [OF l]
  then show "log' = log @ removed_objects c (m_objects p) 0" by blast
  show "pool_lookup p' i = (case pool_lookup p i of None \<Rightarrow> None
           | Some x \<Rightarrow> if c i x then None else Some x)"
  proof (cases "i < length (m_objects p)")
    case True
    with S have "slot_after (c i) (m_objects p ! i) (slots ! i)" and "length slots = length (m_objects p)"
      by auto
    with True show ?thesis
      by (cases "m_objects p ! i"; cases "slots ! i") (auto simp: p' pool_lookup_def slot_after_def)
  next
    case False
    with S show ?thesis by (auto simp: p' pool_lookup_def)
  qed
qed

section \<open>ShrinkToFit and RemoveByObject\<close>

lemma shrink_scan_spec:
  "shrink_scan xs index count \<le> count + Suc index \<and> count \<le> shrink_scan xs index count \<and>
   (\<forall>k. Suc index - (shrink_scan xs index count - count) \<le> k \<and> k \<le> index \<longrightarrow> \<not> fst (xs ! k))"
proof (induction index arbitrary: count)
  case 0
  then show ?case by auto
next
  case (Suc index)
  show ?case
  proof (cases "fst (xs ! Suc index)")
    case True
    then show ?thesis by auto
  next
    case False
    define n where "n = shrink_scan xs index (count + 1)"
    have n: "n \<le> count + 1 + Suc index" "count + 1 \<le> n"
      "\<And>k. Suc index - (n - (count + 1)) \<le> k \<Longrightarrow> k \<le> index \<Longrightarrow> \<not> fst (xs ! k)"
      using Suc.IH [of "count + 1"] by (auto simp: n_def)
    have e: "shrink_scan xs (Suc index) count = n" using False by (simp add: n_def)
    have "\<not> fst (xs ! k)" if "Suc (Suc index) - (n - count) \<le> k" "k \<le> Suc index" for k
    proof (cases "k = Suc index")
      case True with False show ?thesis by simp
    next
      case neq: False
      show ?thesis by (rule n(3)) (use that neq n(2) in arith)+
    qed
    with n e show ?thesis by auto
  qed
qed

lemma pool_shrink_lookup:
  assumes inv: "pool_inv p" and s: "pool_ShrinkToFit p = Inr p'"
  shows "pool_lookup p' = pool_lookup p"
proof (cases "stack_Size (m_freeIndices p) = of_nat (length (m_objects p))")
  case True
  let ?n = "length (m_chain (m_freeIndices p))" and ?m = "length (m_objects p)"
  have "(of_nat ?n :: u64) = of_nat ?m" using True inv
    by (simp add: stack_Size_def pool_inv_def stack_inv_def)
  then have "?n = ?m"
    using pool_free_length(3) [OF inv] inv
    by (simp add: pool_inv_def word_of_nat_eq_iff take_bit_nat_eq_self)
  then have "card (dead (m_objects p)) = card {..<?m}"
    using pool_free_length(1) [OF inv] by simp
  then have "dead (m_objects p) = {..<?m}"
    by (intro card_subset_eq [OF _ dead_bound]) auto
  then have "pool_lookup p = (\<lambda>_. None)"
    by (auto simp: pool_lookup_def dead_def fun_eq_iff)
  moreover have "p' = pool_Clear p" using s True by (simp add: pool_ShrinkToFit_def)
  ultimately show ?thesis by (auto simp: pool_lookup_def pool_Clear_def)
next
  case False
  let ?m = "length (m_objects p)" and ?c = "shrink_scan (m_objects p) (length (m_objects p) - 1) 0"
  have ne: "m_objects p \<noteq> []" and p': "p' = p\<lparr>m_objects := take (?m - ?c) (m_objects p)\<rparr>"
    using s False by (auto simp: pool_ShrinkToFit_def Let_def split: if_splits)
  have dead: "\<not> fst (m_objects p ! k)" if "?m - ?c \<le> k" "k < ?m" for k
    using shrink_scan_spec [of "m_objects p" "?m - 1" 0] that ne
    by (metis One_nat_def Suc_pred' diff_zero length_greater_0_conv less_Suc_eq_le)
  show ?thesis
  proof
    fix x
    show "pool_lookup p' x = pool_lookup p x"
      using dead [of x] by (cases "x < ?m - ?c") (auto simp: p' pool_lookup_def not_less)
  qed
qed

section \<open>Properties\<close>

text \<open>C14: \<open>Add\<close> and \<open>RemoveByIndex\<close> of a well-formed pool are insertion and deletion of a finite
  map from handles to objects: \<open>Add\<close> never fails, hands out a handle that no live object has and
  disturbs no other, \<open>RemoveByIndex\<close> gives back the object stored under the handle, and both keep
  the free list equal to the set of dead slots.\<close>

theorem object_pool_contract:
  assumes "pool_inv p" and "pool_room p"
  shows "\<exists>i p'. pool_Add p x = Inr (i, p') \<and> pool_lookup p i = None \<and>
           pool_lookup p' = (pool_lookup p)(i \<mapsto> x) \<and> pool_inv p' \<and>
           (\<exists>p''. pool_RemoveByIndex moved p' i = Inr (x, p'') \<and> pool_lookup p'' = pool_lookup p \<and>
              pool_inv p'')"
proof -
  from object_pool.add_ok [OF assms, of x] obtain i p' where
    A: "pool_Add p x = Inr (i, p')" "pool_lookup p i = None"
       "pool_lookup p' = (pool_lookup p)(i \<mapsto> x)" "pool_inv p'" by blast
  from object_pool.remove_after_add [OF assms A(1), of moved] A show ?thesis by blast
qed

definition pool_sample :: "nat pool" where
  "pool_sample = \<lparr>m_objects = [(True, 7), (False, 9), (True, 9)],
                  m_freeIndices = \<lparr>m_chain = [1], m_size = 1\<rparr>\<rparr>"

lemma pool_sample_inv: "pool_inv pool_sample" "pool_room pool_sample"
proof -
  have "dead (m_objects pool_sample) = {1}"
    by (auto simp: dead_def pool_sample_def less_Suc_eq)
  then show "pool_inv pool_sample" by (simp add: pool_inv_def pool_sample_def stack_inv_def)
  show "pool_room pool_sample" by (simp add: pool_room_def pool_sample_def)
qed

theorem object_pool_contract_witness:
  "\<exists>i p'. pool_Add pool_sample 5 = Inr (i, p') \<and> pool_lookup p' i = Some 5"
  using object_pool_contract [OF pool_sample_inv, of 5 id] by auto

text \<open>\<open>RemoveIf\<close> with a condition that only reads keeps exactly the live objects the condition
  does not hold of, under their old handles, passes the removed ones to the deleter once each and
  in index order, and keeps the pool well formed.\<close>

theorem object_pool_remove_if:
  assumes "pool_inv p"
    and "pool_RemoveIf moved (\<lambda>i x s. (c i x, x, s)) (\<lambda>x log. log @ [x]) p log = (p', log')"
  shows "pool_inv p' \<and> log' = log @ removed_objects c (m_objects p) 0 \<and>
         pool_lookup p' = (\<lambda>i. case pool_lookup p i of None \<Rightarrow> None
                                | Some x \<Rightarrow> if c i x then None else Some x)"
  using pool_inv_remove_if [OF assms] pool_remove_if_lookup [OF assms(2)] by auto

theorem object_pool_remove_if_witness:
  "\<exists>p' log'. pool_RemoveIf id (\<lambda>i x s. (x = 9, x, s)) (\<lambda>x log. log @ [x]) pool_sample [] = (p', log') \<and>
     pool_lookup p' 2 = None \<and> log' = [9]"
proof -
  obtain p' log' where r: "pool_RemoveIf id (\<lambda>i x s. (x = 9, x, s)) (\<lambda>x log. log @ [x]) pool_sample [] =
    (p', log')" by fastforce
  note R = object_pool_remove_if [OF pool_sample_inv(1) r]
  then have "pool_lookup p' = (\<lambda>i. case pool_lookup pool_sample i of None \<Rightarrow> None
      | Some x \<Rightarrow> if x = 9 then None else Some x)" by blast
  from fun_cong [OF this, of 2] have "pool_lookup p' 2 = None"
    by (simp add: pool_lookup_def pool_sample_def)
  moreover from R have "log' = [9]" by (simp add: pool_sample_def)
  ultimately show ?thesis using r by blast
qed

text \<open>\<open>ShrinkToFit\<close> of a well-formed pool keeps every live object under its handle,
  whatever number of dead slots it drops at the end.\<close>

theorem object_pool_shrink_keeps_objects:
  assumes "pool_inv p" and "pool_ShrinkToFit p = Inr q"
  shows "pool_lookup q = pool_lookup p"
  by (rule pool_shrink_lookup [OF assms])

definition pool_tail_dead :: "nat pool" where
  "pool_tail_dead = \<lparr>m_objects = [(True, 7), (False, 9)],
                     m_freeIndices = \<lparr>m_chain = [1], m_size = 1\<rparr>\<rparr>"

definition pool_shrunk :: "nat pool" where
  "pool_shrunk = \<lparr>m_objects = [(True, 7)], m_freeIndices = \<lparr>m_chain = [1], m_size = 1\<rparr>\<rparr>"

lemma pool_tail_dead_inv: "pool_inv pool_tail_dead"
proof -
  have "dead (m_objects pool_tail_dead) = {1}"
    by (auto simp: dead_def pool_tail_dead_def less_Suc_eq)
  then show ?thesis by (simp add: pool_inv_def pool_tail_dead_def stack_inv_def)
qed

lemma pool_tail_dead_shrink: "pool_ShrinkToFit pool_tail_dead = Inr pool_shrunk"
  by (simp add: pool_tail_dead_def pool_shrunk_def pool_ShrinkToFit_def stack_Size_def eval_nat_numeral)

theorem object_pool_shrink_keeps_objects_witness: "pool_lookup pool_shrunk = pool_lookup pool_tail_dead"
  by (rule object_pool_shrink_keeps_objects [OF pool_tail_dead_inv pool_tail_dead_shrink])

text \<open>\<open>ShrinkToFit\<close> does not take the indices of the slots it drops out of the free list:
  from a well-formed pool it reaches a pool on which the next \<open>Add\<close> writes past the end of the
  vector.\<close>

theorem shrink_then_add_out_of_range:
  "\<exists>p q. pool_inv (p :: nat pool) \<and> pool_ShrinkToFit p = Inr q \<and> pool_Add q 3 = Inl OutOfRange"
proof -
  have "pool_Add pool_shrunk 3 = Inl OutOfRange"
    by (simp add: pool_shrunk_def pool_Add_def stack_IsEmpty_def)
  with pool_tail_dead_inv pool_tail_dead_shrink show ?thesis by blast
qed

end
