(* ===== verification/SR_Mutex.thy ===== *)
theory SR_Mutex
  imports SR_Prelude
begin

text \<open>
  \<open>SharedRecursiveMutex\<close> (inc/Utils/Types/Mutex.h, src/Utils/Types/Mutex.cpp): a lock that
  one thread may hold exclusively, many may hold shared, and that each holder may take again.

  Every public operation runs under the internal \<open>m_mtx\<close>, so it is one atomic step of the
  calling thread. A blocking operation waits on the condition variable until its predicate
  holds; it is a partial step, \<open>None\<close> while the caller has to wait. A thrown
  \<open>std::logic_error\<close> is \<open>Inl Exception\<close>. Thread ids are a type \<open>'t\<close>; the id of a
  default constructed \<open>std::thread::id\<close> is \<open>None\<close>. Counters keep the width of \<open>size_t\<close>.
\<close>

section \<open>State and operations\<close>

record 't mutex =
  m_exclusive_thread_id :: "'t option"
  m_exclusive_count :: u64
  m_shared_locks :: "'t \<Rightarrow> u64 option"

definition mutex_new :: "'t mutex" where
  "mutex_new = \<lparr>m_exclusive_thread_id = None, m_exclusive_count = 0, m_shared_locks = Map.empty\<rparr>"

definition is_exclusive_locked :: "'t mutex \<Rightarrow> bool" where
  "is_exclusive_locked m \<longleftrightarrow> m_exclusive_count m > 0"

definition is_shared_locked :: "'t mutex \<Rightarrow> bool" where
  "is_shared_locked m \<longleftrightarrow> dom (m_shared_locks m) \<noteq> {}"

definition is_shared_locked_only_on_thread :: "'t mutex \<Rightarrow> 't \<Rightarrow> bool" where
  "is_shared_locked_only_on_thread m t \<longleftrightarrow>
     card (dom (m_shared_locks m)) = 1 \<and> m_shared_locks m t \<noteq> None"

definition is_exclusive_locked_on_thread :: "'t mutex \<Rightarrow> 't \<Rightarrow> bool" where
  "is_exclusive_locked_on_thread m t \<longleftrightarrow>
     m_exclusive_count m > 0 \<and> m_exclusive_thread_id m = Some t"

definition can_start_exclusive_lock :: "'t mutex \<Rightarrow> 't \<Rightarrow> bool" where
  "can_start_exclusive_lock m t \<longleftrightarrow> \<not> is_exclusive_locked m \<and>
     (\<not> is_shared_locked m \<or> is_shared_locked_only_on_thread m t)"

definition can_increment_exclusive_lock :: "'t mutex \<Rightarrow> 't \<Rightarrow> bool" where
  "can_increment_exclusive_lock m t \<longleftrightarrow> is_exclusive_locked_on_thread m t"

definition can_exclusively_lock :: "'t mutex \<Rightarrow> 't \<Rightarrow> bool" where
  "can_exclusively_lock m t \<longleftrightarrow> can_start_exclusive_lock m t \<or> can_increment_exclusive_lock m t"

definition can_lock_shared :: "'t mutex \<Rightarrow> 't \<Rightarrow> bool" where
  "can_lock_shared m t \<longleftrightarrow> \<not> is_exclusive_locked m \<or> is_exclusive_locked_on_thread m t"

definition start_exclusive_lock :: "'t mutex \<Rightarrow> 't \<Rightarrow> 't mutex" where
  "start_exclusive_lock m t =
     m\<lparr>m_exclusive_thread_id := Some t, m_exclusive_count := m_exclusive_count m + 1\<rparr>"

definition increment_exclusive_lock :: "'t mutex \<Rightarrow> 't mutex" where
  "increment_exclusive_lock m = m\<lparr>m_exclusive_count := m_exclusive_count m + 1\<rparr>"

definition decrement_exclusive_lock :: "'t mutex \<Rightarrow> 't \<Rightarrow> 't mutex result" where
  "decrement_exclusive_lock m t =
     (if m_exclusive_count m = 0 then Inl Exception
      else if m_exclusive_thread_id m = Some t
      then Inr (m\<lparr>m_exclusive_count := m_exclusive_count m - 1\<rparr>)
      else Inl Exception)"

definition increment_shared_lock :: "'t mutex \<Rightarrow> 't \<Rightarrow> 't mutex" where
  "increment_shared_lock m t = (case m_shared_locks m t of
     None \<Rightarrow> m\<lparr>m_shared_locks := (m_shared_locks m)(t \<mapsto> 1)\<rparr>
   | Some n \<Rightarrow> m\<lparr>m_shared_locks := (m_shared_locks m)(t \<mapsto> n + 1)\<rparr>)"

definition decrement_shared_lock :: "'t mutex \<Rightarrow> 't \<Rightarrow> 't mutex result" where
  "decrement_shared_lock m t =
     (if dom (m_shared_locks m) = {} then Inl Exception
      else case m_shared_locks m t of
        None \<Rightarrow> Inl Exception
      | Some n \<Rightarrow> if n = 1 then Inr (m\<lparr>m_shared_locks := (m_shared_locks m)(t := None)\<rparr>)
                  else Inr (m\<lparr>m_shared_locks := (m_shared_locks m)(t \<mapsto> n - 1)\<rparr>))"

definition mutex_lock :: "'t \<Rightarrow> 't mutex \<Rightarrow> 't mutex option" where
  "mutex_lock t m =
     (if \<not> can_exclusively_lock m t then None
      else if is_exclusive_locked_on_thread m t then Some (increment_exclusive_lock m)
      else Some (start_exclusive_lock m t))"

definition mutex_try_lock :: "'t \<Rightarrow> 't mutex \<Rightarrow> bool \<times> 't mutex" where
  "mutex_try_lock t m =
     (if can_increment_exclusive_lock m t then (True, increment_exclusive_lock m)
      else if can_start_exclusive_lock m t then (True, start_exclusive_lock m t)
      else (False, m))"

definition mutex_unlock :: "'t \<Rightarrow> 't mutex \<Rightarrow> 't mutex result" where
  "mutex_unlock t m = decrement_exclusive_lock m t"

definition mutex_lock_shared :: "'t \<Rightarrow> 't mutex \<Rightarrow> 't mutex option" where
  "mutex_lock_shared t m = (if can_lock_shared m t then Some (increment_shared_lock m t) else None)"

definition mutex_try_lock_shared :: "'t \<Rightarrow> 't mutex \<Rightarrow> bool \<times> 't mutex" where
  "mutex_try_lock_shared t m =
     (if can_lock_shared m t then (True, increment_shared_lock m t) else (False, m))"

definition mutex_unlock_shared :: "'t \<Rightarrow> 't mutex \<Rightarrow> 't mutex result" where
  "mutex_unlock_shared t m = decrement_shared_lock m t"

lemmas mutex_preds = is_exclusive_locked_def is_shared_locked_def is_shared_locked_only_on_thread_def
  is_exclusive_locked_on_thread_def can_start_exclusive_lock_def can_increment_exclusive_lock_def
  can_exclusively_lock_def can_lock_shared_def start_exclusive_lock_def increment_exclusive_lock_def

text \<open>The non-blocking operations succeed exactly when the blocking ones would not wait.\<close>

lemma mutex_try_lock_iff:
  "mutex_try_lock t m = (case mutex_lock t m of None \<Rightarrow> (False, m) | Some m' \<Rightarrow> (True, m'))"
  by (auto simp: mutex_try_lock_def mutex_lock_def can_exclusively_lock_def can_increment_exclusive_lock_def)

lemma mutex_try_lock_shared_iff:
  "mutex_try_lock_shared t m = (case mutex_lock_shared t m of None \<Rightarrow> (False, m) | Some m' \<Rightarrow> (True, m'))"
  by (simp add: mutex_try_lock_shared_def mutex_lock_shared_def)

section \<open>The invariant and how deep each thread holds the lock\<close>

text \<open>While the lock is held exclusively only its owner may also hold it shared, and
  an entry of the table of shared holders is never zero.\<close>

definition mutex_inv :: "'t mutex \<Rightarrow> bool" where
  "mutex_inv m \<longleftrightarrow> finite (dom (m_shared_locks m)) \<and> (\<forall>t. m_shared_locks m t \<noteq> Some 0) \<and>
     (m_exclusive_count m \<noteq> 0 \<longrightarrow> (\<exists>t. m_exclusive_thread_id m = Some t \<and> dom (m_shared_locks m) \<subseteq> {t}))"

definition exclusive_depth :: "'t mutex \<Rightarrow> 't \<Rightarrow> nat" where
  "exclusive_depth m t = (if m_exclusive_thread_id m = Some t then unat (m_exclusive_count m) else 0)"

definition shared_depth :: "'t mutex \<Rightarrow> 't \<Rightarrow> nat" where
  "shared_depth m t = (case m_shared_locks m t of None \<Rightarrow> 0 | Some n \<Rightarrow> unat n)"

definition lock_room :: "nat \<Rightarrow> bool" where
  "lock_room n \<longleftrightarrow> Suc n < 2 ^ 64"

lemma unat_Suc_room: "lock_room (unat (n :: u64)) \<Longrightarrow> unat (n + 1) = Suc (unat n) \<and> n + 1 \<noteq> 0"
proof -
  assume r: "lock_room (unat n)"
  then have "unat (n + 1) = Suc (unat n)"
    by (simp add: lock_room_def unat_word_ariths)
  then show ?thesis by (metis nat.distinct(1) unat_0)
qed

lemma exclusive_depth_pos: "exclusive_depth m t \<noteq> 0 \<longleftrightarrow> is_exclusive_locked_on_thread m t"
  by (simp add: exclusive_depth_def is_exclusive_locked_on_thread_def unat_gt_0 word_greater_zero_iff)

lemma shared_depth_pos:
  assumes "mutex_inv m"
  shows "shared_depth m t \<noteq> 0 \<longleftrightarrow> m_shared_locks m t \<noteq> None"
  using assms by (cases "m_shared_locks m t") (auto simp: shared_depth_def mutex_inv_def unat_gt_0)

lemma unat_pred: "(n :: u64) \<noteq> 0 \<Longrightarrow> unat (n - 1) = unat n - 1"
  by (metis unat_minus_one)

lemma card_1_dom: "card A = 1 \<Longrightarrow> t \<in> A \<Longrightarrow> A = {t}"
  by (metis card_1_singletonE singletonD)

lemma mutex_inv_new [inv_intros]: "mutex_inv mutex_new"
  by (simp add: mutex_inv_def mutex_new_def)

text \<open>The contract of one way of holding the lock (exclusive or shared), as its clients
  use it: a lock taken in this mode gets one deeper for its thread and for no other, a release
  undoes that, and a release by a thread that does not hold it throws.\<close>

locale nested_lock =
  fixes acquire :: "'t \<Rightarrow> 'm \<Rightarrow> 'm option"
    and release :: "'t \<Rightarrow> 'm \<Rightarrow> 'm result"
    and depth :: "'m \<Rightarrow> 't \<Rightarrow> nat"
    and inv :: "'m \<Rightarrow> bool"
    and room :: "nat \<Rightarrow> bool"
  assumes acquire_depth: "inv m \<Longrightarrow> room (depth m t) \<Longrightarrow> acquire t m = Some m' \<Longrightarrow>
      inv m' \<and> depth m' = (depth m)(t := Suc (depth m t))"
    and reacquire: "inv m \<Longrightarrow> depth m t \<noteq> 0 \<Longrightarrow> acquire t m \<noteq> None"
    and release_depth: "inv m \<Longrightarrow> depth m t \<noteq> 0 \<Longrightarrow>
      \<exists>m'. release t m = Inr m' \<and> inv m' \<and> depth m' = (depth m)(t := depth m t - 1)"
    and release_not_held: "inv m \<Longrightarrow> depth m t = 0 \<Longrightarrow> release t m = Inl Exception"
begin

primrec acquire_n :: "nat \<Rightarrow> 't \<Rightarrow> 'm \<Rightarrow> 'm option" where
  "acquire_n 0 t m = Some m"
| "acquire_n (Suc n) t m = Option.bind (acquire t m) (acquire_n n t)"

primrec release_n :: "nat \<Rightarrow> 't \<Rightarrow> 'm \<Rightarrow> 'm result" where
  "release_n 0 t m = Inr m"
| "release_n (Suc n) t m = bind_res (release t m) (release_n n t)"

lemma release_all:
  "inv m \<Longrightarrow> depth m t = n \<Longrightarrow>
     \<exists>m'. release_n n t m = Inr m' \<and> inv m' \<and> depth m' = (depth m)(t := 0) \<and>
       release t m' = Inl Exception"
proof (induction n arbitrary: m)
  case 0
  then show ?case using release_not_held by auto
next
  case (Suc n)
  then obtain m1 where m1: "release t m = Inr m1" "inv m1" "depth m1 = (depth m)(t := n)"
    using release_depth [of m t] by auto
  from Suc.IH [OF m1(2)] m1 show ?case by fastforce
qed

lemma acquire_release:
  assumes "inv m" "room (depth m t)" "acquire t m = Some m'"
  shows "\<exists>m''. release t m' = Inr m'' \<and> inv m'' \<and> depth m'' = depth m"
proof -
  note A = acquire_depth [OF assms]
  with release_depth [of m' t] show ?thesis by (auto simp: fun_eq_iff)
qed

end

lemma exclusive_acquire:
  assumes inv: "mutex_inv m" and room: "lock_room (exclusive_depth m t)" and l: "mutex_lock t m = Some m'"
  shows "mutex_inv m' \<and> exclusive_depth m' = (exclusive_depth m)(t := Suc (exclusive_depth m t)) \<and>
         shared_depth m' = shared_depth m"
proof (cases "is_exclusive_locked_on_thread m t")
  case True
  then have o: "m_exclusive_thread_id m = Some t"
    by (simp add: is_exclusive_locked_on_thread_def)
  have m': "m' = increment_exclusive_lock m" using l True by (simp add: mutex_lock_def split: if_splits)
  have w: "unat (m_exclusive_count m + 1) = Suc (unat (m_exclusive_count m))"
    using room o unat_Suc_room by (simp add: exclusive_depth_def)
  have "m_exclusive_count m \<noteq> 0" using True by (auto simp: is_exclusive_locked_on_thread_def)
  then have "dom (m_shared_locks m) \<subseteq> {t}" using inv o by (auto simp: mutex_inv_def)
  then have "mutex_inv m'" using inv o by (auto simp: mutex_inv_def m' increment_exclusive_lock_def)
  with o w show ?thesis
    by (auto simp: m' increment_exclusive_lock_def exclusive_depth_def shared_depth_def fun_eq_iff)
next
  case False
  then have c: "m_exclusive_count m = 0" "dom (m_shared_locks m) = {} \<or> dom (m_shared_locks m) = {t}"
    using l card_1_dom [of "dom (m_shared_locks m)" t]
    by (auto simp: mutex_lock_def mutex_preds word_greater_zero_iff split: if_splits)
  have m': "m' = start_exclusive_lock m t" using l False by (simp add: mutex_lock_def split: if_splits)
  have "dom (m_shared_locks m) \<subseteq> {t}" using c(2) by auto
  then have "mutex_inv m'" using inv by (auto simp: mutex_inv_def m' start_exclusive_lock_def)
  with c(1) show ?thesis
    by (auto simp: m' start_exclusive_lock_def exclusive_depth_def shared_depth_def fun_eq_iff)
qed

lemma exclusive_release:
  assumes inv: "mutex_inv m" and held: "exclusive_depth m t \<noteq> 0"
  shows "\<exists>m'. mutex_unlock t m = Inr m' \<and> mutex_inv m' \<and>
           exclusive_depth m' = (exclusive_depth m)(t := exclusive_depth m t - 1) \<and>
           shared_depth m' = shared_depth m"
proof -
  have o: "m_exclusive_thread_id m = Some t" and n: "m_exclusive_count m \<noteq> 0"
    using held by (auto simp: exclusive_depth_def split: if_splits)
  let ?m = "m\<lparr>m_exclusive_count := m_exclusive_count m - 1\<rparr>"
  have "mutex_unlock t m = Inr ?m"
    using o n by (simp add: mutex_unlock_def decrement_exclusive_lock_def)
  moreover have "mutex_inv ?m" using inv n by (auto simp: mutex_inv_def)
  moreover have "exclusive_depth ?m = (exclusive_depth m)(t := exclusive_depth m t - 1)"
    using o unat_pred [OF n] by (auto simp: exclusive_depth_def fun_eq_iff)
  ultimately show ?thesis by (auto simp: shared_depth_def)
qed

lemma shared_acquire:
  assumes inv: "mutex_inv m" and room: "lock_room (shared_depth m t)"
    and l: "mutex_lock_shared t m = Some m'"
  shows "mutex_inv m' \<and> shared_depth m' = (shared_depth m)(t := Suc (shared_depth m t)) \<and>
         exclusive_depth m' = exclusive_depth m"
proof -
  have m': "m' = increment_shared_lock m t" and c: "can_lock_shared m t"
    using l by (auto simp: mutex_lock_shared_def split: if_splits)
  have own: "m_exclusive_count m \<noteq> 0 \<Longrightarrow> m_exclusive_thread_id m = Some t"
    using c by (auto simp: mutex_preds word_greater_zero_iff)
  define k where "k = (case m_shared_locks m t of None \<Rightarrow> 1 | Some n \<Rightarrow> n + 1)"
  have k: "unat k = Suc (shared_depth m t)" "k \<noteq> 0"
    using room unat_Suc_room by (auto simp: k_def shared_depth_def split: option.splits)
  have e: "m' = m\<lparr>m_shared_locks := (m_shared_locks m)(t \<mapsto> k)\<rparr>"
    by (auto simp: m' increment_shared_lock_def k_def split: option.splits)
  have "mutex_inv m'" using inv own k(2) by (auto simp: mutex_inv_def e)
  with k(1) show ?thesis by (auto simp: e shared_depth_def exclusive_depth_def fun_eq_iff)
qed

lemma shared_release:
  assumes inv: "mutex_inv m" and held: "shared_depth m t \<noteq> 0"
  shows "\<exists>m'. mutex_unlock_shared t m = Inr m' \<and> mutex_inv m' \<and>
           shared_depth m' = (shared_depth m)(t := shared_depth m t - 1) \<and>
           exclusive_depth m' = exclusive_depth m"
proof -
  obtain n where n: "m_shared_locks m t = Some n" "n \<noteq> 0"
    using held by (cases "m_shared_locks m t") (auto simp: shared_depth_def unat_gt_0)
  have d: "dom (m_shared_locks m) \<noteq> {}" using n(1) by auto
  define k where "k = (if n = 1 then None else Some (n - 1))"
  define m' where "m' = m\<lparr>m_shared_locks := (m_shared_locks m)(t := k)\<rparr>"
  have "mutex_unlock_shared t m = Inr m'"
    using n d by (auto simp: mutex_unlock_shared_def decrement_shared_lock_def m'_def k_def)
  moreover have "mutex_inv m'"
    using inv n by (auto simp: mutex_inv_def m'_def k_def split: if_splits)
  moreover have "shared_depth m' = (shared_depth m)(t := shared_depth m t - 1)"
    using n unat_pred [OF n(2)] by (auto simp: shared_depth_def m'_def k_def fun_eq_iff)
  ultimately show ?thesis by (auto simp: exclusive_depth_def m'_def)
qed

interpretation exclusive_mode: nested_lock mutex_lock mutex_unlock exclusive_depth mutex_inv lock_room
proof unfold_locales
  fix m :: "'a mutex" and t m'
  show "mutex_inv m \<Longrightarrow> lock_room (exclusive_depth m t) \<Longrightarrow> mutex_lock t m = Some m' \<Longrightarrow>
      mutex_inv m' \<and> exclusive_depth m' = (exclusive_depth m)(t := Suc (exclusive_depth m t))"
    by (drule (2) exclusive_acquire) blast
  show "mutex_inv m \<Longrightarrow> exclusive_depth m t \<noteq> 0 \<Longrightarrow> mutex_lock t m \<noteq> None"
    by (simp only: exclusive_depth_pos)
      (simp add: mutex_lock_def can_exclusively_lock_def can_increment_exclusive_lock_def)
  show "mutex_inv m \<Longrightarrow> exclusive_depth m t \<noteq> 0 \<Longrightarrow> \<exists>m'. mutex_unlock t m = Inr m' \<and> mutex_inv m' \<and>
      exclusive_depth m' = (exclusive_depth m)(t := exclusive_depth m t - 1)"
    by (drule (1) exclusive_release) blast
  show "mutex_inv m \<Longrightarrow> exclusive_depth m t = 0 \<Longrightarrow> mutex_unlock t m = Inl Exception"
    using exclusive_depth_pos [of m t]
    by (auto simp: mutex_unlock_def decrement_exclusive_lock_def is_exclusive_locked_on_thread_def
        word_greater_zero_iff)
qed

interpretation shared_mode: nested_lock mutex_lock_shared mutex_unlock_shared shared_depth mutex_inv
  lock_room
proof unfold_locales
  fix m :: "'a mutex" and t m'
  show "mutex_inv m \<Longrightarrow> lock_room (shared_depth m t) \<Longrightarrow> mutex_lock_shared t m = Some m' \<Longrightarrow>
      mutex_inv m' \<and> shared_depth m' = (shared_depth m)(t := Suc (shared_depth m t))"
    by (drule (2) shared_acquire) blast
  show "mutex_inv m \<Longrightarrow> shared_depth m t \<noteq> 0 \<Longrightarrow> mutex_lock_shared t m \<noteq> None"
    using shared_depth_pos [of m t]
    by (auto simp: mutex_inv_def mutex_lock_shared_def can_lock_shared_def is_exclusive_locked_def
        is_exclusive_locked_on_thread_def word_greater_zero_iff)
  show "mutex_inv m \<Longrightarrow> shared_depth m t \<noteq> 0 \<Longrightarrow> \<exists>m'. mutex_unlock_shared t m = Inr m' \<and>
      mutex_inv m' \<and> shared_depth m' = (shared_depth m)(t := shared_depth m t - 1)"
    by (drule (1) shared_release) blast
  show "mutex_inv m \<Longrightarrow> shared_depth m t = 0 \<Longrightarrow> mutex_unlock_shared t m = Inl Exception"
    using shared_depth_pos [of m t]
    by (simp add: mutex_unlock_shared_def decrement_shared_lock_def split: option.splits)
qed

section \<open>Executions by several threads\<close>

text \<open>A reachable state of the lock with, beside it, what each thread has taken and not yet
  released: \<open>e\<close> counts its successful exclusive acquisitions, \<open>s\<close> the shared ones. A failed
  \<open>try\<close> and an operation that throws leave the state alone; a blocking operation is a step only
  when it does not wait.\<close>

inductive mutex_reach :: "'t mutex \<Rightarrow> ('t \<Rightarrow> nat) \<Rightarrow> ('t \<Rightarrow> nat) \<Rightarrow> bool" where
  start: "mutex_reach mutex_new (\<lambda>t. 0) (\<lambda>t. 0)"
| lock: "mutex_reach m e s \<Longrightarrow> lock_room (e t) \<Longrightarrow> mutex_lock t m = Some m' \<Longrightarrow>
    mutex_reach m' (e(t := Suc (e t))) s"
| try_lock: "mutex_reach m e s \<Longrightarrow> lock_room (e t) \<Longrightarrow> mutex_try_lock t m = (True, m') \<Longrightarrow>
    mutex_reach m' (e(t := Suc (e t))) s"
| unlock: "mutex_reach m e s \<Longrightarrow> mutex_unlock t m = Inr m' \<Longrightarrow> mutex_reach m' (e(t := e t - 1)) s"
| lock_shared: "mutex_reach m e s \<Longrightarrow> lock_room (s t) \<Longrightarrow> mutex_lock_shared t m = Some m' \<Longrightarrow>
    mutex_reach m' e (s(t := Suc (s t)))"
| try_lock_shared: "mutex_reach m e s \<Longrightarrow> lock_room (s t) \<Longrightarrow> mutex_try_lock_shared t m = (True, m') \<Longrightarrow>
    mutex_reach m' e (s(t := Suc (s t)))"
| unlock_shared: "mutex_reach m e s \<Longrightarrow> mutex_unlock_shared t m = Inr m' \<Longrightarrow>
    mutex_reach m' e (s(t := s t - 1))"

lemma mutex_reach_inv:
  assumes "mutex_reach m e s"
  shows "mutex_inv m \<and> e = exclusive_depth m \<and> s = shared_depth m"
  using assms
proof (induction rule: mutex_reach.induct)
  case start
  show ?case using mutex_inv_new
    by (auto simp: exclusive_depth_def shared_depth_def mutex_new_def fun_eq_iff)
next
  case (lock m e s t m')
  then show ?case using exclusive_acquire [of m t m'] by simp
next
  case (try_lock m e s t m')
  then have "mutex_lock t m = Some m'" by (auto simp: mutex_try_lock_iff split: option.splits)
  then show ?case using try_lock exclusive_acquire [of m t m'] by simp
next
  case (unlock m e s t m')
  then have "exclusive_depth m t \<noteq> 0" using exclusive_mode.release_not_held [of m t] by auto
  then show ?case using unlock exclusive_release [of m t] by auto
next
  case (lock_shared m e s t m')
  then show ?case using shared_acquire [of m t m'] by simp
next
  case (try_lock_shared m e s t m')
  then have "mutex_lock_shared t m = Some m'"
    by (auto simp: mutex_try_lock_shared_iff split: option.splits)
  then show ?case using try_lock_shared shared_acquire [of m t m'] by simp
next
  case (unlock_shared m e s t m')
  then have "shared_depth m t \<noteq> 0" using shared_mode.release_not_held [of m t] by auto
  then show ?case using unlock_shared shared_release [of m t] by auto
qed

section \<open>Properties\<close>

text \<open>C2: Mutual exclusion. In every state that any interleaving of the threads' operations
  reaches, while a thread has the lock exclusively (it took it more often than it released it) no
  other thread has it, neither exclusively nor shared.\<close>

theorem mutex_exclusion:
  assumes "mutex_reach m e s" and "0 < e t" and "u \<noteq> t"
  shows "e u = 0 \<and> s u = 0"
proof -
  note R = mutex_reach_inv [OF assms(1)]
  then have o: "m_exclusive_thread_id m = Some t" and n: "m_exclusive_count m \<noteq> 0"
    using assms(2) by (auto simp: exclusive_depth_def split: if_splits)
  then have "dom (m_shared_locks m) \<subseteq> {t}" using R by (auto simp: mutex_inv_def)
  with assms(3) have "m_shared_locks m u = None" by (auto simp: dom_def)
  with o R assms(3) show ?thesis by (simp add: exclusive_depth_def shared_depth_def)
qed

lemma mutex_reach_exclusive_1:
  "mutex_reach (start_exclusive_lock mutex_new (1::nat)) ((\<lambda>t. 0)(1 := 1)) (\<lambda>t. 0)"
proof -
  have "mutex_lock 1 mutex_new = Some (start_exclusive_lock mutex_new (1::nat))"
    by (simp add: mutex_lock_def mutex_preds mutex_new_def)
  from mutex_reach.lock [OF mutex_reach.start _ this] show ?thesis by (simp add: lock_room_def)
qed

theorem mutex_exclusion_witness:
  "mutex_reach (start_exclusive_lock mutex_new (1::nat)) ((\<lambda>t. 0)(1 := 1)) (\<lambda>t. 0) \<and>
   ((\<lambda>t::nat. 0::nat)(1 := 1)) 2 = 0 \<and> (\<lambda>t::nat. 0::nat) 2 = 0"
  using mutex_exclusion [OF mutex_reach_exclusive_1, of 1 2] mutex_reach_exclusive_1 by simp

text \<open>C32: The counters are exact. In every reachable state the owner and count of the
  exclusive side and the table of the shared side say, for each thread, how often it took the
  lock and did not release it, and a thread that holds the lock in some mode can take it again
  in that mode without waiting.\<close>

theorem mutex_counts_exact:
  assumes "mutex_reach m e s"
  shows "exclusive_depth m t = e t \<and> shared_depth m t = s t \<and>
         (e t = 0 \<or> mutex_lock t m \<noteq> None) \<and> (s t = 0 \<or> mutex_lock_shared t m \<noteq> None)"
  using mutex_reach_inv [OF assms] exclusive_mode.reacquire [of m t] shared_mode.reacquire [of m t]
  by auto

theorem mutex_counts_exact_witness:
  "exclusive_depth (start_exclusive_lock mutex_new (1::nat)) 1 = 1 \<and>
   mutex_lock 1 (start_exclusive_lock mutex_new (1::nat)) \<noteq> None"
  using mutex_counts_exact [OF mutex_reach_exclusive_1, of 1] by simp

text \<open>A thread that holds the lock exclusively \<open>n\<close> deep gets rid of it with exactly \<open>n\<close> calls
  of \<open>unlock\<close>: they all succeed, no other thread's holding changes, afterwards the thread holds
  nothing exclusively, and one more \<open>unlock\<close> throws.\<close>

theorem mutex_unlock_n:
  assumes "mutex_inv m" and "exclusive_depth m t = n"
  shows "\<exists>m'. exclusive_mode.release_n n t m = Inr m' \<and> mutex_inv m' \<and>
           exclusive_depth m' = (exclusive_depth m)(t := 0) \<and> mutex_unlock t m' = Inl Exception"
  by (rule exclusive_mode.release_all [OF assms])

theorem mutex_unlock_n_witness:
  "\<exists>m'. exclusive_mode.release_n 1 1 (start_exclusive_lock mutex_new (1::nat)) = Inr m' \<and>
     mutex_unlock 1 m' = Inl Exception"
proof -
  have "mutex_inv (start_exclusive_lock mutex_new (1::nat))"
    and "exclusive_depth (start_exclusive_lock mutex_new (1::nat)) 1 = 1"
    using mutex_reach_inv [OF mutex_reach_exclusive_1] by (auto dest: fun_cong [of _ _ 1])
  from mutex_unlock_n [OF this] show ?thesis by blast
qed

text \<open>Two threads that both hold the lock shared and then both ask for it exclusively wait
  for each other for ever: the state is reachable, both calls of \<open>lock\<close> wait in it, and neither
  has anything to wait for but the other.\<close>

theorem mutex_upgrade_deadlock:
  "\<exists>m e s. mutex_reach m e s \<and> s 1 = 1 \<and> s (2::nat) = 1 \<and> (\<forall>t. e t = 0) \<and>
     mutex_lock 1 m = None \<and> mutex_lock 2 m = None"
proof -
  let ?a = "increment_shared_lock mutex_new (1::nat)"
  let ?b = "increment_shared_lock ?a 2"
  have a: "mutex_lock_shared 1 mutex_new = Some ?a" and b: "mutex_lock_shared 2 ?a = Some ?b"
    by (simp_all add: mutex_lock_shared_def mutex_preds mutex_new_def increment_shared_lock_def)
  have "mutex_reach ?a (\<lambda>t. 0) ((\<lambda>t. 0)(1 := Suc 0))"
    using mutex_reach.lock_shared [OF mutex_reach.start _ a] by (simp add: lock_room_def)
  from mutex_reach.lock_shared [OF this _ b]
  have "mutex_reach ?b (\<lambda>t. 0) ((\<lambda>t. 0)(1 := Suc 0, 2 := Suc 0))" by (simp add: lock_room_def)
  moreover have "mutex_lock 1 ?b = None \<and> mutex_lock 2 ?b = None"
  proof -
    have "dom (m_shared_locks ?b) = {1, 2}"
      by (auto simp: increment_shared_lock_def mutex_new_def)
    then have "card (dom (m_shared_locks ?b)) = 2 \<and> dom (m_shared_locks ?b) \<noteq> {}" by simp
    moreover have "m_exclusive_count ?b = 0" by (simp add: increment_shared_lock_def mutex_new_def)
    ultimately show ?thesis
      by (simp only: mutex_lock_def mutex_preds) simp
  qed
  ultimately show ?thesis by fastforce
qed

end
