(* ===== verification/SR_Shared_Ptr.thy ===== *)
theory SR_Shared_Ptr
  imports SR_Prelude
begin

text \<open>
  \<open>SharedPtr<T>\<close> and its control block \<open>SharedPtrDynamicData\<close> (inc/Utils/Types/SharedPtr.h).

  The heap keeps the control blocks by address, the addresses of the live objects, for a class
  derived from \<open>SharedPtr\<close> the control block its base part points to, and the counter of
  \<open>SharedPtrDynamicDataCounter\<close>. Deleting a dead object and touching a deleted block are
  \<open>DanglingPointer\<close>. The destructor of the pointee is a template argument of the code and a
  parameter \<open>dtor\<close> here; the static choice "T derives from SharedPtr" is \<open>intrusive\<close>.
  The counters keep their 16 bits: the assertions of \<open>IncrementStrong\<close> and
  \<open>DecrementStrong\<close> only print, so the count wraps.
\<close>

section \<open>State and operations\<close>

datatype shared_ptr_policy = Automatic | Manually

record ptr_block =
  strongCount :: u16
  weakCount :: u16
  valid :: bool
  deallocated :: bool
  policy :: shared_ptr_policy

record sp_heap =
  blocks :: "nat \<Rightarrow> ptr_block option"
  next_block :: nat
  live :: "nat set"
  base_data :: "nat \<Rightarrow> nat option"
  m_count :: u64

record shared_ptr =
  m_data :: "nat option"
  m_ptr :: "nat option"
  m_basicManually :: bool

definition heap_new :: sp_heap where
  "heap_new = \<lparr>blocks = Map.empty, next_block = 0, live = {}, base_data = Map.empty, m_count = 0\<rparr>"

definition ptr_null :: shared_ptr where
  "ptr_null = \<lparr>m_data = None, m_ptr = None, m_basicManually = False\<rparr>"

definition new_block :: "u16 \<Rightarrow> u16 \<Rightarrow> bool \<Rightarrow> shared_ptr_policy \<Rightarrow> sp_heap \<Rightarrow> nat \<times> sp_heap" where
  "new_block strong weak v pol h =
     (next_block h, h\<lparr>blocks := (blocks h)(next_block h \<mapsto>
        \<lparr>strongCount = strong, weakCount = weak, valid = v, deallocated = False, policy = pol\<rparr>),
      next_block := next_block h + 1, m_count := m_count h + 1\<rparr>)"

definition get_block :: "sp_heap \<Rightarrow> nat \<Rightarrow> ptr_block result" where
  "get_block h b = (case blocks h b of None \<Rightarrow> Inl DanglingPointer | Some k \<Rightarrow> Inr k)"

definition set_block :: "sp_heap \<Rightarrow> nat \<Rightarrow> ptr_block \<Rightarrow> sp_heap" where
  "set_block h b k = h\<lparr>blocks := (blocks h)(b \<mapsto> k)\<rparr>"

definition delete_block :: "sp_heap \<Rightarrow> nat \<Rightarrow> sp_heap result" where
  "delete_block h b = (case blocks h b of None \<Rightarrow> Inl DanglingPointer
     | Some k \<Rightarrow> Inr (h\<lparr>blocks := (blocks h)(b := None), m_count := m_count h - 1\<rparr>))"

definition delete_object ::
    "(nat \<Rightarrow> sp_heap \<Rightarrow> sp_heap result) \<Rightarrow> nat option \<Rightarrow> sp_heap \<Rightarrow> sp_heap result" where
  "delete_object dtor ptr h = (case ptr of
     None \<Rightarrow> Inr h
   | Some a \<Rightarrow> if a \<notin> live h then Inl DanglingPointer
               else bind_res (dtor a h) (\<lambda>h. Inr (h\<lparr>live := live h - {a}\<rparr>)))"

definition IncrementStrong :: "sp_heap \<Rightarrow> nat \<Rightarrow> sp_heap result" where
  "IncrementStrong h b = bind_res (get_block h b) (\<lambda>k.
     Inr (set_block h b (k\<lparr>strongCount := strongCount k + 1\<rparr>)))"

definition DecrementStrong :: "sp_heap \<Rightarrow> nat \<Rightarrow> sp_heap result" where
  "DecrementStrong h b = bind_res (get_block h b) (\<lambda>k.
     Inr (set_block h b (k\<lparr>strongCount := strongCount k - 1\<rparr>)))"

definition CheckMemoryLeaks :: "sp_heap \<Rightarrow> bool" where
  "CheckMemoryLeaks h \<longleftrightarrow> m_count h = 0"

text \<open>The constructors.\<close>

definition ptr_from_raw :: "bool \<Rightarrow> sp_heap \<Rightarrow> nat option \<Rightarrow> (shared_ptr \<times> sp_heap) result" where
  "ptr_from_raw intrusive h ptr = (case ptr of
     None \<Rightarrow> Inr (ptr_null, h)
   | Some a \<Rightarrow>
       if intrusive then
         if a \<notin> live h then Inl DanglingPointer
         else (case base_data h a of
             None \<Rightarrow> Inr (ptr_null, h)
           | Some b \<Rightarrow> bind_res (IncrementStrong h b) (\<lambda>h.
               Inr (\<lparr>m_data = Some b, m_ptr = Some a, m_basicManually = False\<rparr>, h)))
       else
         (case new_block 1 0 True Automatic h of (b, h) \<Rightarrow>
            Inr (\<lparr>m_data = Some b, m_ptr = Some a, m_basicManually = False\<rparr>, h)))"

definition ptr_from_raw_policy ::
    "sp_heap \<Rightarrow> nat option \<Rightarrow> shared_ptr_policy \<Rightarrow> shared_ptr \<times> sp_heap" where
  "ptr_from_raw_policy h ptr pol =
     (case new_block 0 0 True pol h of (b, h) \<Rightarrow>
        (\<lparr>m_data = Some b, m_ptr = ptr, m_basicManually = True\<rparr>, h))"

definition ptr_copy :: "sp_heap \<Rightarrow> shared_ptr \<Rightarrow> (shared_ptr \<times> sp_heap) result" where
  "ptr_copy h p = (case m_data p of
     None \<Rightarrow> Inr (\<lparr>m_data = None, m_ptr = m_ptr p, m_basicManually = False\<rparr>, h)
   | Some b \<Rightarrow> bind_res (IncrementStrong h b) (\<lambda>h.
       Inr (\<lparr>m_data = Some b, m_ptr = m_ptr p, m_basicManually = False\<rparr>, h)))"

definition ptr_move :: "shared_ptr \<Rightarrow> shared_ptr \<times> shared_ptr" where
  "ptr_move p = (\<lparr>m_data = m_data p, m_ptr = m_ptr p, m_basicManually = False\<rparr>,
                 p\<lparr>m_data := None, m_ptr := None\<rparr>)"

definition ptr_Valid :: "sp_heap \<Rightarrow> shared_ptr \<Rightarrow> bool result" where
  "ptr_Valid h p = (case m_data p of None \<Rightarrow> Inr False
     | Some b \<Rightarrow> bind_res (get_block h b) (\<lambda>k. Inr (valid k)))"

text \<open>\<open>Reset\<close> forgets its own pointers first, so the pointer it returns is the same on
  every path.\<close>

definition ptr_Reset ::
    "(nat \<Rightarrow> sp_heap \<Rightarrow> sp_heap result) \<Rightarrow> sp_heap \<Rightarrow> shared_ptr \<Rightarrow> (shared_ptr \<times> sp_heap) result" where
  "ptr_Reset dtor h p =
     (let self = p\<lparr>m_data := None, m_ptr := None\<rparr> in
      case m_data p of
        None \<Rightarrow> Inr (self, h)
      | Some b \<Rightarrow> bind_res (get_block h b) (\<lambda>k.
          if strongCount k = 1 then
            bind_res (if policy k = Automatic \<and> valid k
                      then delete_object dtor (m_ptr p) (set_block h b (k\<lparr>valid := False\<rparr>))
                      else Inr h) (\<lambda>h.
            bind_res (get_block h b) (\<lambda>k.
            if weakCount k = 0 then bind_res (delete_block h b) (\<lambda>h. Inr (self, h))
            else Inr (self, h)))
          else bind_res (DecrementStrong h b) (\<lambda>h. Inr (self, h))))"

definition ptr_destroy ::
    "(nat \<Rightarrow> sp_heap \<Rightarrow> sp_heap result) \<Rightarrow> sp_heap \<Rightarrow> shared_ptr \<Rightarrow> sp_heap result" where
  "ptr_destroy dtor h p =
     (if m_data p = None \<or> m_basicManually p then Inr h
      else bind_res (ptr_Reset dtor h p) (\<lambda>(p, h). Inr h))"

text \<open>Assignment from another \<open>SharedPtr\<close> variable; assigning a variable to itself does
  nothing.\<close>

definition ptr_assign :: "(nat \<Rightarrow> sp_heap \<Rightarrow> sp_heap result) \<Rightarrow> sp_heap \<Rightarrow>
    shared_ptr \<Rightarrow> shared_ptr \<Rightarrow> (shared_ptr \<times> sp_heap) result" where
  "ptr_assign dtor h self p =
     bind_res (ptr_Reset dtor h self) (\<lambda>(self, h).
     case m_data p of
       None \<Rightarrow> Inr (self\<lparr>m_ptr := m_ptr p, m_data := None\<rparr>, h)
     | Some b \<Rightarrow> bind_res (get_block h b) (\<lambda>k.
         bind_res (IncrementStrong (set_block h b (k\<lparr>valid := m_ptr p \<noteq> None\<rparr>)) b) (\<lambda>h.
         Inr (self\<lparr>m_ptr := m_ptr p, m_data := Some b\<rparr>, h))))"

definition ptr_self_assign :: "shared_ptr \<Rightarrow> shared_ptr" where
  "ptr_self_assign self = self"

definition ptr_assign_raw :: "bool \<Rightarrow> (nat \<Rightarrow> sp_heap \<Rightarrow> sp_heap result) \<Rightarrow> sp_heap \<Rightarrow>
    shared_ptr \<Rightarrow> nat option \<Rightarrow> (shared_ptr \<times> sp_heap) result" where
  "ptr_assign_raw intrusive dtor h self ptr = (case ptr of
     None \<Rightarrow> ptr_Reset dtor h self
   | Some a \<Rightarrow>
       if m_ptr self = Some a then Inr (self, h)
       else bind_res (ptr_Reset dtor h self) (\<lambda>(self, h).
         if intrusive then
           if a \<notin> live h then Inl DanglingPointer
           else (case base_data h a of
               None \<Rightarrow> Inr (self\<lparr>m_data := None\<rparr>, h)
             | Some b \<Rightarrow> bind_res (IncrementStrong h b) (\<lambda>h.
                 Inr (self\<lparr>m_data := Some b, m_ptr := Some a\<rparr>, h)))
         else (case new_block 1 0 True Automatic h of (b, h) \<Rightarrow>
                 Inr (self\<lparr>m_ptr := Some a, m_data := Some b\<rparr>, h))))"

definition ptr_move_assign :: "(nat \<Rightarrow> sp_heap \<Rightarrow> sp_heap result) \<Rightarrow> sp_heap \<Rightarrow>
    shared_ptr \<Rightarrow> shared_ptr \<Rightarrow> (shared_ptr \<times> shared_ptr \<times> sp_heap) result" where
  "ptr_move_assign dtor h self p =
     bind_res (ptr_Reset dtor h self) (\<lambda>(self, h).
     Inr (self\<lparr>m_data := m_data p, m_ptr := m_ptr p\<rparr>, p\<lparr>m_data := None, m_ptr := None\<rparr>, h))"

definition ptr_eq :: "shared_ptr \<Rightarrow> shared_ptr \<Rightarrow> bool" where
  "ptr_eq l r \<longleftrightarrow> m_ptr l = m_ptr r"

text \<open>\<open>StaticCast\<close> (and \<open>DynamicCast\<close> when the object has the type) wraps the raw pointer anew.\<close>

definition ptr_StaticCast :: "bool \<Rightarrow> sp_heap \<Rightarrow> shared_ptr \<Rightarrow> (shared_ptr \<times> sp_heap) result" where
  "ptr_StaticCast intrusive h p = bind_res (ptr_Valid h p) (\<lambda>v.
     if v then ptr_from_raw intrusive h (m_ptr p) else Inr (ptr_null, h))"

definition ptr_DynamicCast ::
    "bool \<Rightarrow> (nat \<Rightarrow> bool) \<Rightarrow> sp_heap \<Rightarrow> shared_ptr \<Rightarrow> (shared_ptr \<times> sp_heap) result" where
  "ptr_DynamicCast intrusive has_type h p = bind_res (ptr_Valid h p) (\<lambda>v.
     if v then ptr_from_raw intrusive h
       (case m_ptr p of None \<Rightarrow> None | Some a \<Rightarrow> if has_type a then Some a else None)
     else Inr (ptr_null, h))"

definition FreeImpl ::
    "(nat option \<Rightarrow> sp_heap \<Rightarrow> sp_heap result) \<Rightarrow> sp_heap \<Rightarrow> shared_ptr \<Rightarrow> (bool \<times> sp_heap) result" where
  "FreeImpl freeFun h p = (case m_data p of
     None \<Rightarrow> Inr (False, h)
   | Some b \<Rightarrow> bind_res (get_block h b) (\<lambda>k.
       if valid k then
         bind_res (freeFun (m_ptr p) (set_block h b (k\<lparr>deallocated := True\<rparr>))) (\<lambda>h.
         bind_res (get_block h b) (\<lambda>k. Inr (True, set_block h b (k\<lparr>valid := False\<rparr>))))
       else Inr (False, set_block h b (k\<lparr>valid := False\<rparr>))))"

definition ptr_AutoFree_with ::
    "(nat option \<Rightarrow> sp_heap \<Rightarrow> sp_heap result) \<Rightarrow> sp_heap \<Rightarrow> shared_ptr \<Rightarrow> (bool \<times> sp_heap) result" where
  "ptr_AutoFree_with freeFun h p = bind_res (ptr_Valid h p) (\<lambda>v.
     if v then FreeImpl freeFun h p else Inr (False, h))"

definition ptr_AutoFree ::
    "(nat \<Rightarrow> sp_heap \<Rightarrow> sp_heap result) \<Rightarrow> sp_heap \<Rightarrow> shared_ptr \<Rightarrow> (bool \<times> sp_heap) result" where
  "ptr_AutoFree dtor h p = ptr_AutoFree_with (delete_object dtor) h p"

lemmas [op_defs] = get_block_def set_block_def delete_block_def delete_object_def new_block_def
  IncrementStrong_def DecrementStrong_def

section \<open>Programs over pointer variables\<close>

text \<open>A program holds \<open>SharedPtr\<close> variables; each operation below is one statement of it. The
  pointee is a class that does not derive from \<open>SharedPtr\<close> and whose destructor touches no
  \<open>SharedPtr\<close>: \<open>plain_dtor\<close>.\<close>

definition plain_dtor :: "nat \<Rightarrow> sp_heap \<Rightarrow> sp_heap result" where
  "plain_dtor a h = Inr h"

datatype sp_op =
    SpNull nat            \<comment> \<open>declare a null pointer\<close>
  | SpNew nat nat         \<comment> \<open>declare a pointer on a new object at this address\<close>
  | SpCopy nat nat        \<comment> \<open>declare a copy of another variable\<close>
  | SpMove nat nat        \<comment> \<open>declare a variable moved from another\<close>
  | SpAssign nat nat
  | SpMoveAssign nat nat
  | SpReset nat
  | SpAutoFree nat
  | SpDestroy nat         \<comment> \<open>end of the variable's scope\<close>

type_synonym sp_state = "sp_heap \<times> (nat \<Rightarrow> shared_ptr option)"

definition var_at :: "(nat \<Rightarrow> shared_ptr option) \<Rightarrow> nat \<Rightarrow> shared_ptr" where
  "var_at vars v = (case vars v of None \<Rightarrow> ptr_null | Some p \<Rightarrow> p)"

fun sp_exec :: "sp_op \<Rightarrow> sp_state \<Rightarrow> sp_state result" where
  "sp_exec (SpNull v) (h, vars) = Inr (h, vars(v \<mapsto> ptr_null))"
| "sp_exec (SpNew v a) (h, vars) =
     bind_res (ptr_from_raw False (h\<lparr>live := insert a (live h)\<rparr>) (Some a)) (\<lambda>(p, h).
     Inr (h, vars(v \<mapsto> p)))"
| "sp_exec (SpCopy v w) (h, vars) =
     bind_res (ptr_copy h (var_at vars w)) (\<lambda>(p, h). Inr (h, vars(v \<mapsto> p)))"
| "sp_exec (SpMove v w) (h, vars) =
     (case ptr_move (var_at vars w) of (p, q) \<Rightarrow> Inr (h, vars(v \<mapsto> p, w \<mapsto> q)))"
| "sp_exec (SpAssign v w) (h, vars) =
     bind_res (ptr_assign plain_dtor h (var_at vars v) (var_at vars w)) (\<lambda>(p, h).
     Inr (h, vars(v \<mapsto> p)))"
| "sp_exec (SpMoveAssign v w) (h, vars) =
     bind_res (ptr_move_assign plain_dtor h (var_at vars v) (var_at vars w)) (\<lambda>(p, q, h).
     Inr (h, vars(v \<mapsto> p, w \<mapsto> q)))"
| "sp_exec (SpReset v) (h, vars) =
     bind_res (ptr_Reset plain_dtor h (var_at vars v)) (\<lambda>(p, h). Inr (h, vars(v \<mapsto> p)))"
| "sp_exec (SpAutoFree v) (h, vars) =
     bind_res (ptr_AutoFree plain_dtor h (var_at vars v)) (\<lambda>(freed, h). Inr (h, vars))"
| "sp_exec (SpDestroy v) (h, vars) =
     bind_res (ptr_destroy plain_dtor h (var_at vars v)) (\<lambda>h. Inr (h, vars(v := None)))"

text \<open>What the program has to respect: variables are declared once and used in scope, a new
  object gets an unused address, a count stays below 65535, and a pointer is copied with
  \<open>operator=\<close> only while it is null or its object is alive.\<close>

definition count_room :: "sp_heap \<Rightarrow> shared_ptr \<Rightarrow> bool" where
  "count_room h p \<longleftrightarrow> (case m_data p of None \<Rightarrow> True | Some b \<Rightarrow>
     (case blocks h b of None \<Rightarrow> True | Some k \<Rightarrow> strongCount k \<noteq> 0xFFFF))"

fun sp_pre :: "sp_op \<Rightarrow> sp_state \<Rightarrow> bool" where
  "sp_pre (SpNull v) (h, vars) \<longleftrightarrow> vars v = None"
| "sp_pre (SpNew v a) (h, vars) \<longleftrightarrow> vars v = None \<and> a \<notin> live h"
| "sp_pre (SpCopy v w) (h, vars) \<longleftrightarrow> vars v = None \<and> vars w \<noteq> None \<and> count_room h (var_at vars w)"
| "sp_pre (SpMove v w) (h, vars) \<longleftrightarrow> vars v = None \<and> vars w \<noteq> None"
| "sp_pre (SpAssign v w) (h, vars) \<longleftrightarrow> vars v \<noteq> None \<and> vars w \<noteq> None \<and> v \<noteq> w \<and>
     count_room h (var_at vars w) \<and>
     (m_data (var_at vars w) = None \<or> ptr_Valid h (var_at vars w) = Inr True)"
| "sp_pre (SpMoveAssign v w) (h, vars) \<longleftrightarrow> vars v \<noteq> None \<and> vars w \<noteq> None \<and> v \<noteq> w"
| "sp_pre (SpReset v) (h, vars) \<longleftrightarrow> vars v \<noteq> None"
| "sp_pre (SpAutoFree v) (h, vars) \<longleftrightarrow> vars v \<noteq> None"
| "sp_pre (SpDestroy v) (h, vars) \<longleftrightarrow> vars v \<noteq> None"

section \<open>The invariant\<close>

definition data_of :: "(nat \<Rightarrow> shared_ptr option) \<Rightarrow> nat \<Rightarrow> nat option" where
  "data_of vars v = Option.bind (vars v) m_data"

definition refs :: "(nat \<Rightarrow> shared_ptr option) \<Rightarrow> nat \<Rightarrow> nat" where
  "refs vars b = card {v. data_of vars v = Some b}"

definition valid_blocks :: "sp_heap \<Rightarrow> nat set" where
  "valid_blocks h = {b. \<exists>k. blocks h b = Some k \<and> valid k}"

text \<open>\<open>own b\<close> is the object that block \<open>b\<close> was made for. Every variable on a block points to
  that object, the strong count is the number of variables on the block, and the live
  objects are those of the valid blocks, one block each.\<close>

definition ptr_ok :: "(nat \<Rightarrow> nat) \<Rightarrow> sp_heap \<Rightarrow> shared_ptr \<Rightarrow> bool" where
  "ptr_ok own h p \<longleftrightarrow> \<not> m_basicManually p \<and>
     (case m_data p of None \<Rightarrow> m_ptr p = None
      | Some b \<Rightarrow> m_ptr p = Some (own b) \<and> blocks h b \<noteq> None)"

definition block_ok :: "(nat \<Rightarrow> shared_ptr option) \<Rightarrow> nat \<Rightarrow> ptr_block \<Rightarrow> bool" where
  "block_ok vars b k \<longleftrightarrow> unat (strongCount k) = refs vars b \<and> strongCount k \<noteq> 0 \<and>
     weakCount k = 0 \<and> policy k = Automatic"

lemma block_ok_refs: "block_ok vars b k \<Longrightarrow> 0 < refs vars b"
  by (metis block_ok_def unat_gt_0)

definition sp_ok :: "(nat \<Rightarrow> nat) \<Rightarrow> sp_state \<Rightarrow> bool" where
  "sp_ok own st \<longleftrightarrow> (case st of (h, vars) \<Rightarrow>
     finite (dom vars) \<and>
     (\<forall>v p. vars v = Some p \<longrightarrow> ptr_ok own h p) \<and>
     (\<forall>b k. blocks h b = Some k \<longrightarrow> block_ok vars b k) \<and>
     live h = own ` valid_blocks h \<and> inj_on own (valid_blocks h) \<and>
     (\<forall>b. next_block h \<le> b \<longrightarrow> blocks h b = None))"

definition sp_inv :: "sp_state \<Rightarrow> bool" where
  "sp_inv st \<longleftrightarrow> (\<exists>own. sp_ok own st)"

lemma finite_refs: "finite (dom vars) \<Longrightarrow> finite {v. data_of vars v = Some b}"
  by (rule finite_subset [of _ "dom vars"]) (auto simp: data_of_def bind_eq_Some_conv)

lemma refs_upd:
  assumes "finite (dom vars)"
  shows "refs (vars(v := x)) b = refs vars b - (if data_of vars v = Some b then 1 else 0) +
           (if Option.bind x m_data = Some b then 1 else 0)"
proof -
  let ?A = "{u. data_of vars u = Some b}"
  have e: "{u. data_of (vars(v := x)) u = Some b} =
      (if Option.bind x m_data = Some b then insert v (?A - {v}) else ?A - {v})"
    by (auto simp: data_of_def)
  have f: "finite ?A" by (rule finite_refs [OF assms])
  have minus: "card (?A - {v}) = card ?A - (if data_of vars v = Some b then 1 else 0)"
    using f by (simp add: card_Diff_singleton_if)
  have plus: "card (insert v (?A - {v})) = Suc (card (?A - {v}))"
    using f by (intro card_insert_disjoint) auto
  show ?thesis
    unfolding refs_def e using minus plus by (simp split: if_splits)
qed

lemma refs_pos: "finite (dom vars) \<Longrightarrow> data_of vars v = Some b \<Longrightarrow> 0 < refs vars b"
  using finite_refs [of vars b] by (auto simp: refs_def card_gt_0_iff)

lemma refs_other: "data_of vars v \<noteq> Some b \<Longrightarrow> Option.bind x m_data \<noteq> Some b \<Longrightarrow>
    refs (vars(v := x)) b = refs vars b"
  unfolding refs_def by (rule arg_cong [of _ _ card]) (auto simp: data_of_def)

lemma sp_okD:
  assumes "sp_ok own (h, vars)"
  shows "finite (dom vars)"
    and "vars v = Some p \<Longrightarrow> ptr_ok own h p"
    and "blocks h b = Some k \<Longrightarrow> block_ok vars b k"
    and "live h = own ` valid_blocks h" and "inj_on own (valid_blocks h)"
    and "next_block h \<le> b \<Longrightarrow> blocks h b = None"
  using assms by (auto simp: sp_ok_def)

lemma block_of_var:
  assumes "sp_ok own (h, vars)" "vars v = Some p" "m_data p = Some b"
  obtains k where "blocks h b = Some k" "m_ptr p = Some (own b)" "block_ok vars b k"
    "data_of vars v = Some b"
proof -
  have "ptr_ok own h p" by (rule sp_okD(2) [OF assms(1,2)])
  then obtain k where k: "blocks h b = Some k" "m_ptr p = Some (own b)"
    using assms(3) by (auto simp: ptr_ok_def)
  moreover have "block_ok vars b k" by (rule sp_okD(3) [OF assms(1) k(1)])
  ultimately show thesis using that assms(2,3) by (simp add: data_of_def)
qed

section \<open>Each primitive step keeps it\<close>

text \<open>\<open>nulled p\<close> is what \<open>Reset\<close> leaves in the variable.\<close>

abbreviation nulled :: "shared_ptr \<Rightarrow> shared_ptr" where
  "nulled p \<equiv> p\<lparr>m_data := None, m_ptr := None\<rparr>"

lemma ok_null_var:
  assumes ok: "sp_ok own (h, vars)" and d: "data_of vars v = None"
    and x: "case x of None \<Rightarrow> True | Some p \<Rightarrow> \<not> m_basicManually p \<and> m_data p = None \<and> m_ptr p = None"
  shows "sp_ok own (h, vars(v := x))"
proof -
  have b: "Option.bind x m_data \<noteq> Some b" for b using x by (cases x) auto
  have "refs (vars(v := x)) b = refs vars b" for b
    using d b by (intro refs_other) auto
  with ok x show ?thesis
    by (cases x) (auto simp: sp_ok_def block_ok_def ptr_ok_def split: if_splits)
qed

lemma data_of_Some: "vars v = Some p \<Longrightarrow> data_of vars v = m_data p"
  by (simp add: data_of_def)

lemma unlink_last:
  assumes ok: "sp_ok own (h, vars)" and v: "vars v = Some p" "m_data p = Some b"
    and k: "blocks h b = Some k" "strongCount k = 1"
  shows "sp_ok own (h\<lparr>live := live h - (if valid k then {own b} else {}),
           blocks := (blocks h)(b := None), m_count := c\<rparr>, vars(v \<mapsto> nulled p))"
    (is "sp_ok own (?h, ?vars)")
proof -
  note D = sp_okD [OF ok]
  have fin: "finite (dom vars)" by (rule D(1))
  have dv: "data_of vars v = Some b" using v by (simp add: data_of_def)
  have one: "refs vars b = 1" using D(3) [OF k(1)] k(2) by (simp add: block_ok_def)
  have zero: "refs ?vars b = 0" using one dv by (simp add: refs_upd [OF fin])
  have none: "u = v" if "data_of vars u = Some b" for u
  proof -
    have "card {u. data_of vars u = Some b} = 1" using one by (simp add: refs_def)
    then obtain z where "{u. data_of vars u = Some b} = {z}" by (auto simp: card_1_singleton_iff)
    then have "\<And>w. data_of vars w = Some b \<Longrightarrow> w = z" by (auto simp: set_eq_iff)
    with that dv show ?thesis by metis
  qed
  have same: "refs ?vars c = refs vars c" if "c \<noteq> b" for c
    using that dv by (simp add: refs_upd [OF fin])
  have vb: "valid_blocks ?h = valid_blocks h - {b}" by (auto simp: valid_blocks_def)
  have "\<forall>u q. ?vars u = Some q \<longrightarrow> ptr_ok own ?h q"
  proof (intro allI impI)
    fix u q assume q: "?vars u = Some q"
    show "ptr_ok own ?h q"
    proof (cases "u = v")
      case True
      then show ?thesis using q D(2) [OF v(1)] by (auto simp: ptr_ok_def)
    next
      case False
      then have uq: "vars u = Some q" using q by simp
      have "m_data q \<noteq> Some b" using none [of u] False uq by (auto simp: data_of_def)
      then show ?thesis using D(2) [OF uq] by (auto simp: ptr_ok_def split: option.splits)
    qed
  qed
  moreover have "\<forall>c k. blocks ?h c = Some k \<longrightarrow> block_ok ?vars c k"
    using D(3) same by (auto simp: block_ok_def)
  moreover have "live ?h = own ` valid_blocks ?h"
  proof (cases "valid k")
    case True
    then have "b \<in> valid_blocks h" using k by (auto simp: valid_blocks_def)
    with D(5) have "own ` (valid_blocks h - {b}) = own ` valid_blocks h - {own b}"
      by (auto simp: inj_on_def)
    with True D(4) show ?thesis unfolding vb by simp
  next
    case False
    then have "valid_blocks h - {b} = valid_blocks h" using k by (auto simp: valid_blocks_def)
    with False D(4) show ?thesis unfolding vb by simp
  qed
  moreover have "inj_on own (valid_blocks ?h)" using D(5) vb by (auto intro: inj_on_subset)
  moreover have "\<forall>c. next_block ?h \<le> c \<longrightarrow> blocks ?h c = None" using D(6) by auto
  ultimately show ?thesis using fin by (simp add: sp_ok_def)
qed

text \<open>Writing a new count into a block that keeps its other fields.\<close>

lemma recount:
  assumes ok: "sp_ok own (h, vars)" and fin': "finite (dom vars')"
    and k: "blocks h b = Some k" and n: "unat n = refs vars' b" "n \<noteq> 0"
    and same: "\<And>c. c \<noteq> b \<Longrightarrow> refs vars' c = refs vars c"
    and ptrs: "\<And>u q. vars' u = Some q \<Longrightarrow> ptr_ok own h q"
  shows "sp_ok own (set_block h b (k\<lparr>strongCount := n\<rparr>), vars')" (is "sp_ok own (?h, _)")
proof -
  note D = sp_okD [OF ok]
  have vb: "valid_blocks ?h = valid_blocks h" using k by (auto simp: valid_blocks_def set_block_def)
  have "\<forall>u q. vars' u = Some q \<longrightarrow> ptr_ok own ?h q"
    using ptrs by (fastforce simp: ptr_ok_def set_block_def split: option.splits)
  moreover have "\<forall>c k. blocks ?h c = Some k \<longrightarrow> block_ok vars' c k"
    using D(3) same n D(3) [OF k] by (auto simp: block_ok_def set_block_def)
  moreover have "live ?h = live h" by (simp add: set_block_def)
  moreover have "\<forall>c. next_block ?h \<le> c \<longrightarrow> blocks ?h c = None"
    using D(6) k by (auto simp: set_block_def)
  ultimately show ?thesis using fin' D(4,5) vb by (simp add: sp_ok_def)
qed

text \<open>\<open>Reset\<close> revives no block and raises no count.\<close>

definition no_growth :: "sp_heap \<Rightarrow> sp_heap \<Rightarrow> bool" where
  "no_growth h h' \<longleftrightarrow> (\<forall>b k. blocks h' b = Some k \<longrightarrow>
     (\<exists>k0. blocks h b = Some k0 \<and> valid k = valid k0 \<and> unat (strongCount k) \<le> unat (strongCount k0)))"

lemma reset_ok:
  assumes ok: "sp_ok own (h, vars)" and v: "vars v = Some p"
  shows "\<exists>h'. ptr_Reset plain_dtor h p = Inr (nulled p, h') \<and> sp_ok own (h', vars(v \<mapsto> nulled p)) \<and>
           no_growth h h'"
proof (cases "m_data p")
  case None
  then have "ptr_Reset plain_dtor h p = Inr (nulled p, h)" by (simp add: ptr_Reset_def)
  moreover have "sp_ok own (h, vars(v \<mapsto> nulled p))"
    using sp_okD(2) [OF ok v] None v by (intro ok_null_var [OF ok]) (auto simp: data_of_def ptr_ok_def)
  moreover have "no_growth h h" by (simp add: no_growth_def)
  ultimately show ?thesis by blast
next
  case (Some b)
  from block_of_var [OF ok v Some] obtain k where
    k: "blocks h b = Some k" "m_ptr p = Some (own b)" "block_ok vars b k" "data_of vars v = Some b" .
  note D = sp_okD [OF ok]
  show ?thesis
  proof (cases "strongCount k = 1")
    case True
    let ?h = "h\<lparr>live := live h - (if valid k then {own b} else {}),
                blocks := (blocks h)(b := None), m_count := m_count h - 1\<rparr>"
    have "valid k \<Longrightarrow> own b \<in> live h" using D(4) k by (auto simp: valid_blocks_def)
    then have "ptr_Reset plain_dtor h p = Inr (nulled p, ?h)"
      using True Some k by (auto simp: ptr_Reset_def op_defs plain_dtor_def block_ok_def)
    moreover have "no_growth h ?h" by (simp add: no_growth_def)
    ultimately show ?thesis using unlink_last [OF ok v Some k(1) True] by blast
  next
    case False
    let ?n = "strongCount k - 1" and ?vars = "vars(v \<mapsto> nulled p)"
    have nz: "strongCount k \<noteq> 0" and cnt: "unat (strongCount k) = refs vars b"
      using k(3) by (auto simp: block_ok_def)
    have un: "unat ?n = unat (strongCount k) - 1" using nz by (metis unat_minus_one)
    have "ptr_Reset plain_dtor h p = Inr (nulled p, set_block h b (k\<lparr>strongCount := ?n\<rparr>))"
      using False Some k(1) by (simp add: ptr_Reset_def op_defs)
    moreover have "sp_ok own (set_block h b (k\<lparr>strongCount := ?n\<rparr>), ?vars)"
    proof (rule recount [OF ok _ k(1)])
      show "finite (dom ?vars)" using D(1) by simp
      show "unat ?n = refs ?vars b" using un cnt k(4) by (simp add: refs_upd [OF D(1)])
      show "?n \<noteq> 0" using False by (metis diff_eq_eq add_0)
      show "refs ?vars c = refs vars c" if "c \<noteq> b" for c
        using that k(4) by (simp add: refs_upd [OF D(1)])
      show "ptr_ok own h q" if "?vars u = Some q" for u q
        using that D(2) D(2) [OF v] by (auto simp: ptr_ok_def split: if_splits)
    qed
    moreover have "no_growth h (set_block h b (k\<lparr>strongCount := ?n\<rparr>))"
      using k(1) un by (simp add: no_growth_def set_block_def)
    ultimately show ?thesis by blast
  qed
qed

text \<open>Linking a variable that holds no block to the block of another.\<close>

lemma link_ok:
  assumes ok: "sp_ok own (h, vars)" and v: "data_of vars v = None"
    and w: "vars w = Some q" "m_data q = Some b" and room: "count_room h q"
    and p: "\<not> m_basicManually p" "m_data p = Some b" "m_ptr p = m_ptr q"
  shows "\<exists>h'. IncrementStrong h b = Inr h' \<and> sp_ok own (h', vars(v \<mapsto> p))"
proof -
  note D = sp_okD [OF ok]
  from block_of_var [OF ok w] obtain k where
    k: "blocks h b = Some k" "m_ptr q = Some (own b)" "block_ok vars b k" .
  have max: "strongCount k \<noteq> 0xFFFF" using room w(2) k(1) by (simp add: count_room_def)
  have "strongCount k + 1 \<noteq> 0"
  proof
    assume "strongCount k + 1 = 0"
    then have "strongCount k = 0 - 1" by (metis diff_eq_eq)
    with max show False by simp
  qed
  then have un: "unat (strongCount k + 1) = Suc (unat (strongCount k))"
    by (metis unatSuc Suc_eq_plus1 add.commute)
  let ?vars = "vars(v \<mapsto> p)"
  have "IncrementStrong h b = Inr (set_block h b (k\<lparr>strongCount := strongCount k + 1\<rparr>))"
    using k(1) by (simp add: IncrementStrong_def get_block_def)
  moreover have "sp_ok own (set_block h b (k\<lparr>strongCount := strongCount k + 1\<rparr>), ?vars)"
  proof (rule recount [OF ok _ k(1) _ \<open>strongCount k + 1 \<noteq> 0\<close>])
    show "finite (dom ?vars)" using D(1) by simp
    show "unat (strongCount k + 1) = refs ?vars b"
      using un k(3) v p by (simp add: refs_upd [OF D(1)] block_ok_def)
    show "refs ?vars c = refs vars c" if "c \<noteq> b" for c
      using that v p by (simp add: refs_upd [OF D(1)])
    show "ptr_ok own h r" if "?vars u = Some r" for u r
      using that D(2) p k(1,2) by (auto simp: ptr_ok_def split: if_splits)
  qed
  ultimately show ?thesis by blast
qed

lemma transfer_ok:
  assumes ok: "sp_ok own (h, vars)" and v: "data_of vars v = None" and w: "vars w = Some q" "v \<noteq> w"
    and p: "\<not> m_basicManually p" "m_data p = m_data q" "m_ptr p = m_ptr q"
  shows "sp_ok own (h, vars(v \<mapsto> p, w \<mapsto> nulled q))"
proof -
  note D = sp_okD [OF ok]
  have fin: "finite (dom (vars(v \<mapsto> p)))" using D(1) by simp
  have refs: "refs (vars(v \<mapsto> p, w \<mapsto> nulled q)) b = refs vars b" for b
  proof (cases "m_data q = Some b")
    case True
    then show ?thesis using v w p
      by (simp add: refs_upd [OF fin] refs_upd [OF D(1)]) (simp add: data_of_def)
  next
    case False
    then show ?thesis using v w p
      by (simp add: refs_upd [OF fin] refs_upd [OF D(1)]) (simp add: data_of_def)
  qed
  have "ptr_ok own h r" if "(vars(v \<mapsto> p, w \<mapsto> nulled q)) u = Some r" for u r
    using that D(2) [of u r] D(2) [OF w(1)] p
    by (auto simp: ptr_ok_def split: if_splits option.splits)
  with ok refs show ?thesis by (simp add: sp_ok_def block_ok_def)
qed

section \<open>A new object, AutoFree, and all statements together\<close>

lemma new_object_ok:
  assumes ok: "sp_ok own (h, vars)" and v: "vars v = None" and a: "a \<notin> live h"
  shows "\<exists>own' p h'. ptr_from_raw False (h\<lparr>live := insert a (live h)\<rparr>) (Some a) = Inr (p, h') \<and>
           sp_ok own' (h', vars(v \<mapsto> p))"
proof -
  note D = sp_okD [OF ok]
  define b where "b = next_block h"
  define k where "k = \<lparr>strongCount = 1, weakCount = 0, valid = True, deallocated = False, policy = Automatic\<rparr>"
  define p where "p = \<lparr>m_data = Some b, m_ptr = Some a, m_basicManually = False\<rparr>"
  define h' where "h' = h\<lparr>live := insert a (live h), blocks := (blocks h)(b \<mapsto> k),
      next_block := b + 1, m_count := m_count h + 1\<rparr>"
  let ?own = "own(b := a)" and ?vars = "vars(v \<mapsto> p)"
  have free: "blocks h b = None" using D(6) by (simp add: b_def)
  have no_ref: "data_of vars u \<noteq> Some b" for u
    using D(2) free by (fastforce simp: data_of_def ptr_ok_def bind_eq_Some_conv)
  have r0: "refs vars b = 0" using no_ref by (simp add: refs_def)
  have dv: "data_of vars v = None" using v by (simp add: data_of_def)
  have refs: "refs ?vars c = (if c = b then 1 else refs vars c)" for c
    using dv r0 by (simp add: refs_upd [OF D(1)] p_def)
  have vb: "valid_blocks h' = insert b (valid_blocks h)" "b \<notin> valid_blocks h"
    using free by (auto simp: valid_blocks_def h'_def k_def)
  have img: "?own ` valid_blocks h = own ` valid_blocks h" using vb(2) by auto
  have "\<forall>u q. ?vars u = Some q \<longrightarrow> ptr_ok ?own h' q"
    using D(2) free by (fastforce simp: ptr_ok_def h'_def p_def split: option.splits if_splits)
  moreover have "\<forall>c j. blocks h' c = Some j \<longrightarrow> block_ok ?vars c j"
    using D(3) refs by (auto simp: block_ok_def h'_def k_def)
  moreover have "live h' = ?own ` valid_blocks h'" using D(4) vb img by (auto simp: h'_def)
  moreover have "inj_on ?own (valid_blocks h')"
    using D(4,5) a vb by (auto simp: inj_on_def)
  moreover have "\<forall>c. next_block h' \<le> c \<longrightarrow> blocks h' c = None"
    using D(6) by (auto simp: h'_def b_def)
  ultimately have "sp_ok ?own (h', ?vars)" using D(1) by (simp add: sp_ok_def)
  moreover have "ptr_from_raw False (h\<lparr>live := insert a (live h)\<rparr>) (Some a) = Inr (p, h')"
    by (simp add: ptr_from_raw_def new_block_def p_def h'_def k_def b_def)
  ultimately show ?thesis by blast
qed

lemma autofree_ok:
  assumes ok: "sp_ok own (h, vars)" and v: "vars v = Some p"
  shows "\<exists>freed h'. ptr_AutoFree plain_dtor h p = Inr (freed, h') \<and> sp_ok own (h', vars) \<and>
           (\<forall>b. m_data p = Some b \<longrightarrow> b \<notin> valid_blocks h')"
proof (cases "m_data p")
  case None
  then have "ptr_AutoFree plain_dtor h p = Inr (False, h)"
    by (simp add: ptr_AutoFree_def ptr_AutoFree_with_def ptr_Valid_def)
  with ok None show ?thesis by auto
next
  case (Some b)
  from block_of_var [OF ok v Some] obtain k where
    k: "blocks h b = Some k" "m_ptr p = Some (own b)" "block_ok vars b k" .
  note D = sp_okD [OF ok]
  show ?thesis
  proof (cases "valid k")
    case False
    then show ?thesis using ok Some k(1)
      by (auto simp: ptr_AutoFree_def ptr_AutoFree_with_def ptr_Valid_def get_block_def valid_blocks_def)
  next
    case True
    define h' where "h' = h\<lparr>live := live h - {own b},
        blocks := (blocks h)(b \<mapsto> k\<lparr>deallocated := True, valid := False\<rparr>)\<rparr>"
    have bv: "b \<in> valid_blocks h" using True k(1) by (auto simp: valid_blocks_def)
    then have "ptr_AutoFree plain_dtor h p = Inr (True, h')"
      using True Some k D(4)
      by (auto simp: ptr_AutoFree_def ptr_AutoFree_with_def ptr_Valid_def FreeImpl_def op_defs
          plain_dtor_def h'_def)
    moreover have vb: "valid_blocks h' = valid_blocks h - {b}"
      by (auto simp: valid_blocks_def h'_def)
    moreover have "sp_ok own (h', vars)"
    proof -
      have "own ` (valid_blocks h - {b}) = own ` valid_blocks h - {own b}"
        using D(5) bv by (auto simp: inj_on_def)
      then have "live h' = own ` valid_blocks h'" unfolding vb using D(4) by (simp add: h'_def)
      moreover have "inj_on own (valid_blocks h')" unfolding vb using D(5) by (auto intro: inj_on_subset)
      moreover have "\<forall>u q. vars u = Some q \<longrightarrow> ptr_ok own h' q"
        using D(2) by (fastforce simp: ptr_ok_def h'_def split: option.splits)
      moreover have "\<forall>c j. blocks h' c = Some j \<longrightarrow> block_ok vars c j"
        using D(3) k(3) by (auto simp: block_ok_def h'_def)
      moreover have "\<forall>c. next_block h' \<le> c \<longrightarrow> blocks h' c = None"
        using D(6) k(1) by (auto simp: h'_def)
      ultimately show ?thesis using D(1) by (simp add: sp_ok_def)
    qed
    ultimately show ?thesis using Some by auto
  qed
qed

lemma var_at_Some: "vars v = Some p \<Longrightarrow> var_at vars v = p"
  by (simp add: var_at_def)

lemma revalidate: "blocks h b = Some k \<Longrightarrow> valid k \<Longrightarrow> set_block h b (k\<lparr>valid := True\<rparr>) = h"
  by (simp add: set_block_def fun_upd_idem)

lemma assign_ok:
  assumes ok: "sp_ok own (h, vars)" and v: "vars v = Some p" and w: "vars w = Some q" "v \<noteq> w"
    and room: "count_room h q" and src: "m_data q = None \<or> ptr_Valid h q = Inr True"
  shows "\<exists>p' h'. ptr_assign plain_dtor h p q = Inr (p', h') \<and> sp_ok own (h', vars(v \<mapsto> p'))"
proof -
  from reset_ok [OF ok v] obtain h1 where
    h1: "ptr_Reset plain_dtor h p = Inr (nulled p, h1)" and ok1: "sp_ok own (h1, vars(v \<mapsto> nulled p))"
    and ng: "no_growth h h1" by blast
  let ?vars = "vars(v \<mapsto> nulled p)"
  have w1: "?vars w = Some q" using w by simp
  show ?thesis
  proof (cases "m_data q")
    case None
    then have "m_ptr q = None" using sp_okD(2) [OF ok1 w1] by (simp add: ptr_ok_def)
    then have "ptr_assign plain_dtor h p q = Inr (nulled p, h1)"
      using None by (simp add: ptr_assign_def h1)
    with ok1 show ?thesis by blast
  next
    case (Some b)
    from block_of_var [OF ok w(1) Some] obtain k0 where
      k0: "blocks h b = Some k0" "block_ok vars b k0" "data_of vars w = Some b" .
    have valid0: "valid k0" using src Some k0(1) by (simp add: ptr_Valid_def get_block_def)
    from block_of_var [OF ok1 w1 Some] obtain k where
      k: "blocks h1 b = Some k" "m_ptr q = Some (own b)" "block_ok ?vars b k" .
    have k1: "valid k = valid k0" "unat (strongCount k) \<le> unat (strongCount k0)"
      using ng k(1) k0(1) unfolding no_growth_def by fastforce+
    have "strongCount k0 \<noteq> 0xFFFF" using room Some k0(1) by (simp add: count_room_def)
    then have "unat (strongCount k0) \<noteq> 0xFFFF"
      by (simp add: word_unat_eq_iff)
    then have "unat (strongCount k0) < 0xFFFF"
      using unat_u16_bound [of "strongCount k0"] by simp
    then have keep: "valid k = valid k0 \<and> strongCount k \<noteq> 0xFFFF"
      using k1 by auto
    have "count_room h1 q" using keep k(1) Some by (simp add: count_room_def)
    let ?p = "p\<lparr>m_ptr := m_ptr q, m_data := Some b\<rparr>"
    have "data_of ?vars v = None" "\<not> m_basicManually ?p" "m_data ?p = Some b" "m_ptr ?p = m_ptr q"
      using sp_okD(2) [OF ok v] by (auto simp: data_of_def ptr_ok_def)
    from link_ok [OF ok1 this(1) w1 Some \<open>count_room h1 q\<close> this(2-4)]
    obtain h2 where "IncrementStrong h1 b = Inr h2" "sp_ok own (h2, vars(v \<mapsto> ?p))"
      by (simp only: fun_upd_upd) blast
    moreover have "set_block h1 b (k\<lparr>valid := True\<rparr>) = h1"
      using keep valid0 k(1) by (intro revalidate) auto
    ultimately show ?thesis using Some k(1,2) by (simp add: ptr_assign_def h1 get_block_def)
  qed
qed

lemma sp_step_ok:
  assumes ok: "sp_ok own (h, vars)" and pre: "sp_pre st (h, vars)"
  shows "\<exists>st' own'. sp_exec st (h, vars) = Inr st' \<and> sp_ok own' st'"
proof (cases st)
  case (SpNull v)
  then have "sp_ok own (h, vars(v \<mapsto> ptr_null))"
    using pre by (intro ok_null_var [OF ok]) (auto simp: data_of_def ptr_null_def)
  then show ?thesis using SpNull by auto
next
  case (SpNew v a)
  with pre new_object_ok [OF ok, of v a] show ?thesis by auto
next
  case (SpCopy v w)
  then obtain q where w: "vars w = Some q" and v: "data_of vars v = None" and room: "count_room h q"
    using pre by (auto simp: var_at_def data_of_def)
  have q: "\<not> m_basicManually q" "m_data q = None \<longrightarrow> m_ptr q = None"
    using sp_okD(2) [OF ok w] by (auto simp: ptr_ok_def)
  show ?thesis
  proof (cases "m_data q")
    case None
    let ?p = "\<lparr>m_data = None, m_ptr = m_ptr q, m_basicManually = False\<rparr>"
    have "sp_ok own (h, vars(v \<mapsto> ?p))"
      using v None q by (intro ok_null_var [OF ok]) auto
    then show ?thesis using SpCopy None w by (auto simp: var_at_def ptr_copy_def)
  next
    case (Some b)
    let ?p = "\<lparr>m_data = Some b, m_ptr = m_ptr q, m_basicManually = False\<rparr>"
    from link_ok [OF ok v w Some room, of ?p] obtain h' where
      "IncrementStrong h b = Inr h'" "sp_ok own (h', vars(v \<mapsto> ?p))" by auto
    then show ?thesis using SpCopy Some w by (auto simp: var_at_def ptr_copy_def)
  qed
next
  case (SpMove v w)
  then obtain q where w: "vars w = Some q" and v: "data_of vars v = None" and vw: "v \<noteq> w"
    using pre by (cases "v = w") (auto simp: data_of_def)
  from transfer_ok [OF ok v w vw, of "\<lparr>m_data = m_data q, m_ptr = m_ptr q, m_basicManually = False\<rparr>"]
  show ?thesis using SpMove w by (auto simp: var_at_def ptr_move_def)
next
  case (SpAssign v w)
  then obtain p q where v: "vars v = Some p" and w: "vars w = Some q" "v \<noteq> w"
    and room: "count_room h q" and src: "m_data q = None \<or> ptr_Valid h q = Inr True"
    using pre by (auto simp: var_at_def)
  from assign_ok [OF ok v w room src] show ?thesis
    using SpAssign v w by (auto simp: var_at_def)
next
  case (SpMoveAssign v w)
  then obtain p q where v: "vars v = Some p" and w: "vars w = Some q" "v \<noteq> w"
    using pre by auto
  from reset_ok [OF ok v] obtain h1 where
    h1: "ptr_Reset plain_dtor h p = Inr (nulled p, h1)" and ok1: "sp_ok own (h1, vars(v \<mapsto> nulled p))"
    by blast
  have "sp_ok own (h1, vars(v \<mapsto> nulled p, v \<mapsto> (nulled p)\<lparr>m_data := m_data q, m_ptr := m_ptr q\<rparr>,
      w \<mapsto> nulled q))"
    using w sp_okD(2) [OF ok v] by (intro transfer_ok [OF ok1]) (auto simp: data_of_def ptr_ok_def)
  then show ?thesis using SpMoveAssign h1 v w by (auto simp: var_at_def ptr_move_assign_def)
next
  case (SpReset v)
  then obtain p where v: "vars v = Some p" using pre by auto
  from reset_ok [OF ok v] show ?thesis using SpReset v by (auto simp: var_at_def)
next
  case (SpAutoFree v)
  then obtain p where v: "vars v = Some p" using pre by auto
  from autofree_ok [OF ok v] show ?thesis using SpAutoFree v by (fastforce simp: var_at_def)
next
  case (SpDestroy v)
  then obtain p where v: "vars v = Some p" using pre by auto
  have nb: "\<not> m_basicManually p" using sp_okD(2) [OF ok v] by (simp add: ptr_ok_def)
  show ?thesis
  proof (cases "m_data p")
    case None
    have "sp_ok own (h, vars(v := None))"
      using None v by (intro ok_null_var [OF ok]) (auto simp: data_of_def)
    then show ?thesis using SpDestroy v None by (auto simp: var_at_def ptr_destroy_def)
  next
    case (Some b)
    from reset_ok [OF ok v] obtain h1 where
      h1: "ptr_Reset plain_dtor h p = Inr (nulled p, h1)" and ok1: "sp_ok own (h1, vars(v \<mapsto> nulled p))"
      by blast
    have "sp_ok own (h1, (vars(v \<mapsto> nulled p))(v := None))"
      by (rule ok_null_var [OF ok1]) (auto simp: data_of_def)
    then show ?thesis using SpDestroy v Some h1 nb by (auto simp: var_at_def ptr_destroy_def)
  qed
qed

fun sp_run :: "sp_op list \<Rightarrow> sp_state \<Rightarrow> sp_state result" where
  "sp_run [] s = Inr s"
| "sp_run (x # xs) s = bind_res (sp_exec x s) (sp_run xs)"

fun sp_run_pre :: "sp_op list \<Rightarrow> sp_state \<Rightarrow> bool" where
  "sp_run_pre [] s = True"
| "sp_run_pre (x # xs) s \<longleftrightarrow> sp_pre x s \<and>
     (case sp_exec x s of Inl e \<Rightarrow> True | Inr s' \<Rightarrow> sp_run_pre xs s')"

definition sp_start :: sp_state where
  "sp_start = (heap_new, Map.empty)"

lemma sp_inv_start: "sp_inv sp_start"
  by (auto simp: sp_inv_def sp_ok_def sp_start_def heap_new_def valid_blocks_def)

lemma sp_run_inv: "sp_inv s \<Longrightarrow> sp_run_pre xs s \<Longrightarrow> \<exists>s'. sp_run xs s = Inr s' \<and> sp_inv s'"
proof (induction xs arbitrary: s)
  case Nil
  then show ?case by simp
next
  case (Cons x xs)
  obtain h vars where s: "s = (h, vars)" by (cases s)
  from Cons.prems obtain own where "sp_ok own (h, vars)" by (auto simp: sp_inv_def s)
  then have "\<exists>st' own'. sp_exec x (h, vars) = Inr st' \<and> sp_ok own' st'"
    by (rule sp_step_ok) (use Cons.prems(2) s in simp)
  then obtain s1 where s1: "sp_exec x s = Inr s1" "sp_inv s1" unfolding sp_inv_def s by blast
  with Cons.prems(2) have "sp_run_pre xs s1" by simp
  from Cons.IH [OF s1(2) this] s1 show ?case by simp
qed

section \<open>Properties\<close>

text \<open>C1: Memory safety of shared ownership. A program that declares, copies, moves, assigns,
  resets, frees and destroys \<open>SharedPtr\<close> variables in any order, and copies with \<open>operator=\<close> only
  from pointers that are null or alive, never touches a deleted block and never deletes an object
  twice; afterwards an object is alive exactly when some variable has it and reports it valid.\<close>

theorem shared_ptr_memory_safe:
  assumes "sp_run_pre ops sp_start"
  shows "\<exists>h vars. sp_run ops sp_start = Inr (h, vars) \<and> sp_inv (h, vars) \<and>
           live h = {a. \<exists>v p. vars v = Some p \<and> m_ptr p = Some a \<and> ptr_Valid h p = Inr True}"
proof -
  from sp_run_inv [OF sp_inv_start assms] obtain h vars where
    r: "sp_run ops sp_start = Inr (h, vars)" and inv: "sp_inv (h, vars)" by force
  then obtain own where ok: "sp_ok own (h, vars)" by (auto simp: sp_inv_def)
  note D = sp_okD [OF ok]
  have "a \<in> live h \<longleftrightarrow> (\<exists>v p. vars v = Some p \<and> m_ptr p = Some a \<and> ptr_Valid h p = Inr True)" for a
  proof
    assume "a \<in> live h"
    then obtain b k where b: "a = own b" "blocks h b = Some k" "valid k"
      using D(4) by (auto simp: valid_blocks_def)
    have "refs vars b \<noteq> 0" using block_ok_refs [OF D(3) [OF b(2)]] by simp
    then have "{v. data_of vars v = Some b} \<noteq> {}" unfolding refs_def by (metis card.empty)
    then obtain v p where v: "vars v = Some p" "m_data p = Some b"
      by (auto simp: data_of_def bind_eq_Some_conv)
    moreover have "m_ptr p = Some a" using D(2) [OF v(1)] v(2) b(1) by (simp add: ptr_ok_def)
    moreover have "ptr_Valid h p = Inr True" using v(2) b by (simp add: ptr_Valid_def get_block_def)
    ultimately show "\<exists>v p. vars v = Some p \<and> m_ptr p = Some a \<and> ptr_Valid h p = Inr True" by blast
  next
    assume "\<exists>v p. vars v = Some p \<and> m_ptr p = Some a \<and> ptr_Valid h p = Inr True"
    then obtain v p where v: "vars v = Some p" "m_ptr p = Some a" "ptr_Valid h p = Inr True" by blast
    then obtain b k where b: "m_data p = Some b" "blocks h b = Some k" "valid k"
      by (auto simp: ptr_Valid_def get_block_def bind_res_eq_Inr split: option.splits)
    then show "a \<in> live h" using D(2) [OF v(1)] v(2) D(4)
      by (auto simp: ptr_ok_def valid_blocks_def)
  qed
  with r inv show ?thesis by blast
qed

definition sp_sample :: "sp_op list" where
  "sp_sample = [SpNew 0 10, SpCopy 1 0, SpNull 2, SpAssign 2 1, SpDestroy 0, SpAutoFree 1, SpDestroy 1]"

lemma sp_sample_pre: "sp_run_pre sp_sample sp_start"
  by (simp add: sp_sample_def sp_start_def heap_new_def ptr_from_raw_def op_defs var_at_def
      ptr_copy_def ptr_null_def ptr_assign_def ptr_Reset_def count_room_def ptr_Valid_def ptr_destroy_def
      ptr_AutoFree_def ptr_AutoFree_with_def FreeImpl_def plain_dtor_def)

theorem shared_ptr_memory_safe_witness:
  "\<exists>h vars. sp_run sp_sample sp_start = Inr (h, vars) \<and> sp_inv (h, vars)"
  using shared_ptr_memory_safe [OF sp_sample_pre] by blast

text \<open>C13: No leak. When such a program has ended the scope of all its variables, no object and no
  control block is left.\<close>

theorem shared_ptr_no_leak:
  assumes "sp_run_pre ops sp_start" and "sp_run ops sp_start = Inr (h, Map.empty)"
  shows "live h = {} \<and> blocks h = Map.empty"
proof -
  from sp_run_inv [OF sp_inv_start assms(1)] assms(2) obtain own where
    ok: "sp_ok own (h, Map.empty)" by (auto simp: sp_inv_def)
  have "refs Map.empty b = 0" for b by (simp add: refs_def data_of_def)
  then have none: "blocks h b = None" for b
    using block_ok_refs [OF sp_okD(3) [OF ok, of b]] by (cases "blocks h b") auto
  then have "valid_blocks h = {}" by (auto simp: valid_blocks_def)
  with none sp_okD(4) [OF ok] show ?thesis by (auto simp: fun_eq_iff)
qed

theorem shared_ptr_no_leak_witness:
  "\<exists>h. sp_run [SpNew 0 10, SpCopy 1 0, SpDestroy 0, SpDestroy 1] sp_start = Inr (h, Map.empty) \<and>
     live h = {} \<and> blocks h = Map.empty"
proof -
  let ?ops = "[SpNew 0 10, SpCopy 1 0, SpDestroy 0, SpDestroy 1]"
  have pre: "sp_run_pre ?ops sp_start"
    by (simp add: sp_start_def heap_new_def ptr_from_raw_def op_defs var_at_def
        ptr_copy_def ptr_Reset_def count_room_def ptr_destroy_def plain_dtor_def)
  have "\<exists>h. sp_run ?ops sp_start = Inr (h, Map.empty)"
    by (simp add: sp_start_def heap_new_def ptr_from_raw_def op_defs var_at_def
        ptr_copy_def ptr_Reset_def count_room_def ptr_destroy_def plain_dtor_def)
  then obtain h where r: "sp_run ?ops sp_start = Inr (h, Map.empty)" by blast
  from shared_ptr_no_leak [OF pre r] r show ?thesis by blast
qed

text \<open>The guard on \<open>operator=\<close> is needed: it marks the control block of the copied pointer
  valid again, so after \<open>AutoFree\<close> has deleted the object, copying one of the left-over pointers and
  letting them go out of scope deletes the object a second time.\<close>

theorem shared_ptr_assign_revives_freed:
  "sp_run [SpNew 0 10, SpNull 1, SpAutoFree 0, SpAssign 1 0, SpDestroy 0, SpDestroy 1] sp_start =
     Inl DanglingPointer"
  by (simp add: sp_start_def heap_new_def ptr_from_raw_def op_defs var_at_def ptr_null_def
      ptr_assign_def ptr_Reset_def ptr_Valid_def ptr_destroy_def
      ptr_AutoFree_def ptr_AutoFree_with_def FreeImpl_def plain_dtor_def)

text \<open>A cast of a pointer to a class that does not derive from \<open>SharedPtr\<close> makes a second
  control block for the same object: both pointers then delete it. For a class that derives from
  \<open>SharedPtr\<close> the cast finds the one block of the object again.\<close>

theorem shared_ptr_cast_double_delete:
  "bind_res (ptr_from_raw False (heap_new\<lparr>live := {10}\<rparr>) (Some 10)) (\<lambda>(p, h).
   bind_res (ptr_StaticCast False h p) (\<lambda>(q, h).
   bind_res (ptr_destroy plain_dtor h p) (\<lambda>h. ptr_destroy plain_dtor h q))) = Inl DanglingPointer \<and>
   (case ptr_from_raw_policy (heap_new\<lparr>live := {10}\<rparr>) (Some 10) Automatic of (base, h) \<Rightarrow>
     bind_res (ptr_from_raw True (h\<lparr>base_data := [10 \<mapsto> 0]\<rparr>) (Some 10)) (\<lambda>(p, h).
     bind_res (ptr_StaticCast True h p) (\<lambda>(q, h).
     bind_res (ptr_destroy plain_dtor h p) (\<lambda>h.
     bind_res (ptr_destroy plain_dtor h q) (\<lambda>h. Inr (live h, blocks h)))))) = Inr ({}, Map.empty)"
  by (simp add: heap_new_def ptr_from_raw_def ptr_from_raw_policy_def op_defs ptr_StaticCast_def
      ptr_Reset_def ptr_Valid_def ptr_destroy_def plain_dtor_def)

end
