(* ===== verification/SR_Safe_Ptr.thy ===== *)
theory SR_Safe_Ptr
  imports SR_Prelude
begin

text \<open>
  \<open>SafePtr<T>\<close> (inc/Utils/Types/SafePointer.h): a counted pointer whose control block
  \<open>SafePtrDynamicData\<close> is also a recursive spin lock.

  The first part models the operations as one thread runs them: the lock functions as
  transformations of a control block (\<open>None\<close> while the thread spins), the pointer functions on a
  heap of control blocks. The second part takes the atomic accesses of \<open>RecursiveLock\<close>,
  \<open>TryRecursiveLock\<close> and \<open>Unlock\<close> apart and interleaves those of any number of threads. The owner
  \<open>std::thread::id()\<close> is \<open>None\<close>; \<open>m_lockCount\<close> and \<open>m_useCount\<close> keep their 32 bits;
  \<open>SR_SAFE_PTR_ASSERT\<close> prints and goes on.
\<close>

section \<open>The control block and its lock\<close>

record 't safe_data =
  m_lock :: bool
  m_lockCount :: u32
  m_useCount :: u32
  m_valid :: bool
  m_owner :: "'t option"

definition safe_data_new :: "u32 \<Rightarrow> bool \<Rightarrow> 't safe_data" where
  "safe_data_new uses v =
     \<lparr>m_lock = False, m_lockCount = 0, m_useCount = uses, m_valid = v, m_owner = None\<rparr>"

definition safe_take :: "'t \<Rightarrow> 't safe_data \<Rightarrow> 't safe_data" where
  "safe_take t d = d\<lparr>m_lock := True, m_owner := Some t, m_lockCount := 1\<rparr>"

definition safe_Lock :: "'t \<Rightarrow> 't safe_data \<Rightarrow> 't safe_data option" where
  "safe_Lock t d = (if m_owner d = Some t then Some d
                    else if m_lock d then None else Some (safe_take t d))"

definition safe_Unlock :: "'t safe_data \<Rightarrow> 't safe_data" where
  "safe_Unlock d =
     (if m_lockCount d > 1 then d\<lparr>m_lockCount := m_lockCount d - 1\<rparr>
      else if m_lockCount d \<noteq> 0 then d\<lparr>m_owner := None, m_lockCount := 0, m_lock := False\<rparr>
      else d)"

definition safe_TryUnlock :: "'t safe_data \<Rightarrow> bool \<times> 't safe_data" where
  "safe_TryUnlock d =
     (if m_lockCount d > 1 then (True, d\<lparr>m_lockCount := m_lockCount d - 1\<rparr>)
      else if m_lockCount d \<noteq> 0 then (True, d\<lparr>m_owner := None, m_lockCount := 0, m_lock := False\<rparr>)
      else (False, d))"

definition safe_LockIfValid :: "'t \<Rightarrow> 't safe_data \<Rightarrow> (bool \<times> 't safe_data) option" where
  "safe_LockIfValid t d = (case safe_Lock t d of None \<Rightarrow> None
     | Some d \<Rightarrow> if m_valid d then Some (True, d) else Some (False, safe_Unlock d))"

definition safe_RecursiveLock :: "'t \<Rightarrow> 't safe_data \<Rightarrow> 't safe_data option" where
  "safe_RecursiveLock t d =
     (if m_owner d = Some t then Some (d\<lparr>m_lockCount := m_lockCount d + 1\<rparr>)
      else if m_lock d then None else Some (safe_take t d))"

definition safe_RecursiveLockIfValid :: "'t \<Rightarrow> 't safe_data \<Rightarrow> (bool \<times> 't safe_data) option" where
  "safe_RecursiveLockIfValid t d = (case safe_RecursiveLock t d of None \<Rightarrow> None
     | Some d \<Rightarrow> if m_valid d then Some (True, d) else Some (False, safe_Unlock d))"

definition safe_TryLock :: "'t \<Rightarrow> 't safe_data \<Rightarrow> bool \<times> 't safe_data" where
  "safe_TryLock t d = (if m_owner d = Some t then (False, d)
                       else if m_lock d then (False, d) else (True, safe_take t d))"

definition safe_TryLockIfValid :: "'t \<Rightarrow> 't safe_data \<Rightarrow> bool \<times> 't safe_data" where
  "safe_TryLockIfValid t d = (case safe_TryLock t d of (taken, d) \<Rightarrow>
     if \<not> taken then (False, d) else if m_valid d then (True, d) else (False, safe_Unlock d))"

definition safe_TryRecursiveLock :: "'t \<Rightarrow> 't safe_data \<Rightarrow> bool \<times> 't safe_data" where
  "safe_TryRecursiveLock t d =
     (if m_owner d = Some t then (True, d\<lparr>m_lockCount := m_lockCount d + 1\<rparr>)
      else if m_lock d then (False, d) else (True, safe_take t d))"

definition safe_TryRecursiveLockIfValid :: "'t \<Rightarrow> 't safe_data \<Rightarrow> bool \<times> 't safe_data" where
  "safe_TryRecursiveLockIfValid t d = (case safe_TryRecursiveLock t d of (taken, d) \<Rightarrow>
     if \<not> taken then (False, d) else if m_valid d then (True, d) else (False, safe_Unlock d))"

definition safe_RemoveAllLocks :: "'t safe_data \<Rightarrow> 't safe_data" where
  "safe_RemoveAllLocks d = d\<lparr>m_owner := None, m_lockCount := 0, m_lock := False\<rparr>"

text \<open>\<open>Do\<close> and \<open>TryDo\<close>: the function runs on the locked block and the caller's state; the
  result is \<open>None\<close> where the code returns false or the default.\<close>

definition safe_Do :: "'t \<Rightarrow> ('s \<Rightarrow> 't safe_data \<Rightarrow> 'r \<times> 's \<times> 't safe_data) \<Rightarrow>
    's \<Rightarrow> 't safe_data \<Rightarrow> ('r option \<times> 's \<times> 't safe_data) option" where
  "safe_Do t func s d = (case safe_RecursiveLockIfValid t d of None \<Rightarrow> None
     | Some (locked, d) \<Rightarrow>
         if locked then (case func s d of (r, s, d) \<Rightarrow> Some (Some r, s, safe_Unlock d))
         else Some (None, s, d))"

definition safe_TryDo :: "'t \<Rightarrow> ('s \<Rightarrow> 't safe_data \<Rightarrow> 'r \<times> 's \<times> 't safe_data) \<Rightarrow>
    's \<Rightarrow> 't safe_data \<Rightarrow> 'r option \<times> 's \<times> 't safe_data" where
  "safe_TryDo t func s d = (case safe_TryLockIfValid t d of (locked, d) \<Rightarrow>
     if locked then (case func s d of (r, s, d) \<Rightarrow> (Some r, s, safe_Unlock d)) else (None, s, d))"

section \<open>Pointers on a heap of control blocks\<close>

record 't safe_heap =
  datas :: "nat \<Rightarrow> 't safe_data option"
  next_data :: nat
  objects :: "nat set"

record safe_ptr =
  s_data :: "nat option"
  s_ptr :: "nat option"

definition data_at :: "'t safe_heap \<Rightarrow> nat \<Rightarrow> 't safe_data result" where
  "data_at h b = (case datas h b of None \<Rightarrow> Inl DanglingPointer | Some d \<Rightarrow> Inr d)"

definition data_put :: "'t safe_heap \<Rightarrow> nat \<Rightarrow> 't safe_data \<Rightarrow> 't safe_heap" where
  "data_put h b d = h\<lparr>datas := (datas h)(b \<mapsto> d)\<rparr>"

definition data_alloc :: "'t safe_heap \<Rightarrow> 't safe_data \<Rightarrow> nat \<times> 't safe_heap" where
  "data_alloc h d = (next_data h, (data_put h (next_data h) d)\<lparr>next_data := next_data h + 1\<rparr>)"

text \<open>Dropping a reference: what the destructor and both assignments do with the old block.\<close>

definition safe_release :: "'t safe_heap \<Rightarrow> safe_ptr \<Rightarrow> 't safe_heap result" where
  "safe_release h p = (case s_data p of None \<Rightarrow> Inr h
     | Some b \<Rightarrow> bind_res (data_at h b) (\<lambda>d.
         if m_useCount d \<le> 1 then Inr (h\<lparr>datas := (datas h)(b := None)\<rparr>)
         else Inr (data_put h b (d\<lparr>m_useCount := m_useCount d - 1\<rparr>))))"

text \<open>\<open>SafePtr(const T*)\<close> of a class that does not derive from \<open>SafePtr\<close>, the default constructor
  and the copy constructor.\<close>

definition safe_from_raw :: "'t safe_heap \<Rightarrow> nat option \<Rightarrow> safe_ptr \<times> 't safe_heap" where
  "safe_from_raw h ptr = (case ptr of
     None \<Rightarrow> (\<lparr>s_data = None, s_ptr = None\<rparr>, h)
   | Some a \<Rightarrow> (case data_alloc h (safe_data_new 1 True) of
       (b, h) \<Rightarrow> (\<lparr>s_data = Some b, s_ptr = Some a\<rparr>, h)))"

definition safe_new :: "'t safe_heap \<Rightarrow> safe_ptr \<times> 't safe_heap" where
  "safe_new h = (case data_alloc h (safe_data_new 1 False) of
     (b, h) \<Rightarrow> (\<lparr>s_data = Some b, s_ptr = None\<rparr>, h))"

definition safe_copy :: "'t safe_heap \<Rightarrow> safe_ptr \<Rightarrow> (safe_ptr \<times> 't safe_heap) result" where
  "safe_copy h p = (case s_data p of None \<Rightarrow> Inr (p, h)
     | Some b \<Rightarrow> bind_res (data_at h b) (\<lambda>d.
         Inr (p, data_put h b (d\<lparr>m_useCount := m_useCount d + 1\<rparr>))))"

definition safe_assign :: "'t safe_heap \<Rightarrow> safe_ptr \<Rightarrow> safe_ptr \<Rightarrow> (safe_ptr \<times> 't safe_heap) result" where
  "safe_assign h self p = bind_res (safe_release h self) (\<lambda>h.
     case s_data p of None \<Rightarrow> Inr (self\<lparr>s_data := None\<rparr>, h)
     | Some b \<Rightarrow> bind_res (data_at h b) (\<lambda>d.
         Inr (\<lparr>s_data = Some b, s_ptr = s_ptr p\<rparr>,
              data_put h b (d\<lparr>m_valid := s_ptr p \<noteq> None, m_useCount := m_useCount d + 1\<rparr>))))"

text \<open>Assigning a raw pointer, of a class that does not derive from \<open>SafePtr\<close>.\<close>

definition safe_assign_raw :: "'t safe_heap \<Rightarrow> safe_ptr \<Rightarrow> nat option \<Rightarrow> (safe_ptr \<times> 't safe_heap) result" where
  "safe_assign_raw h self ptr =
     bind_res (if s_ptr self \<noteq> ptr then
                 bind_res (safe_release h self) (\<lambda>h.
                 case data_alloc h (safe_data_new 1 False) of (b, h) \<Rightarrow> Inr (self\<lparr>s_data := Some b\<rparr>, h))
               else Inr (self, h)) (\<lambda>(self, h).
     case s_data self of None \<Rightarrow> Inr (self, h)
     | Some b \<Rightarrow> bind_res (data_at h b) (\<lambda>d.
         Inr (self\<lparr>s_ptr := ptr\<rparr>, data_put h b (d\<lparr>m_valid := ptr \<noteq> None\<rparr>))))"

definition safe_Valid :: "'t safe_heap \<Rightarrow> safe_ptr \<Rightarrow> bool result" where
  "safe_Valid h p = (case s_data p of None \<Rightarrow> Inr False
     | Some b \<Rightarrow> bind_res (data_at h b) (\<lambda>d. Inr (m_valid d)))"

definition safe_GetUseCount :: "'t safe_heap \<Rightarrow> safe_ptr \<Rightarrow> u32 result" where
  "safe_GetUseCount h p = (case s_data p of None \<Rightarrow> Inr 0
     | Some b \<Rightarrow> bind_res (data_at h b) (\<lambda>d. Inr (if m_valid d then m_useCount d else 0)))"

definition safe_delete :: "nat option \<Rightarrow> 't safe_heap \<Rightarrow> 't safe_heap result" where
  "safe_delete ptr h = (case ptr of None \<Rightarrow> Inr h
     | Some a \<Rightarrow> if a \<in> objects h then Inr (h\<lparr>objects := objects h - {a}\<rparr>) else Inl DanglingPointer)"

text \<open>\<open>AutoFree\<close> works on a copy of the pointer: lock it, delete the object, unlock; the copy is
  then destroyed. A thread that would spin is \<open>Inr None\<close>.\<close>

definition safe_FreeImpl :: "(nat option \<Rightarrow> 't safe_heap \<Rightarrow> 't safe_heap result) \<Rightarrow>
    't safe_heap \<Rightarrow> safe_ptr \<Rightarrow> (bool \<times> safe_ptr \<times> 't safe_heap) result" where
  "safe_FreeImpl freeFun h p = (case s_data p of None \<Rightarrow> Inr (False, p, h)
     | Some b \<Rightarrow> bind_res (data_at h b) (\<lambda>d.
         if m_valid d then
           bind_res (freeFun (s_ptr p) h) (\<lambda>h.
           bind_res (data_at h b) (\<lambda>d.
           Inr (True, p\<lparr>s_ptr := None\<rparr>, data_put h b (d\<lparr>m_valid := False\<rparr>))))
         else Inr (False, p, h)))"

definition safe_AutoFree_with :: "(nat option \<Rightarrow> 't safe_heap \<Rightarrow> 't safe_heap result) \<Rightarrow>
    't \<Rightarrow> 't safe_heap \<Rightarrow> safe_ptr \<Rightarrow> (bool \<times> 't safe_heap) option result" where
  "safe_AutoFree_with freeFun t h p =
     bind_res (safe_copy h p) (\<lambda>(copy, h).
     case s_data copy of None \<Rightarrow> bind_res (safe_release h copy) (\<lambda>h. Inr (Some (False, h)))
     | Some b \<Rightarrow> bind_res (data_at h b) (\<lambda>d.
         case safe_RecursiveLockIfValid t d of
           None \<Rightarrow> Inr None
         | Some (locked, d) \<Rightarrow>
             let h = data_put h b d in
             bind_res (if locked then
                 bind_res (safe_FreeImpl freeFun h copy) (\<lambda>(r, copy, h).
                 bind_res (data_at h b) (\<lambda>d. Inr (r, copy, data_put h b (safe_Unlock d))))
               else Inr (False, copy, h)) (\<lambda>(r, copy, h).
             bind_res (safe_release h copy) (\<lambda>h. Inr (Some (r, h))))))"

definition safe_AutoFree ::
    "'t \<Rightarrow> 't safe_heap \<Rightarrow> safe_ptr \<Rightarrow> (bool \<times> 't safe_heap) option result" where
  "safe_AutoFree t h p = safe_AutoFree_with safe_delete t h p"

lemmas [op_defs] = data_at_def data_put_def data_alloc_def safe_release_def safe_from_raw_def
  safe_new_def safe_copy_def safe_assign_def safe_delete_def safe_FreeImpl_def safe_AutoFree_with_def
  safe_AutoFree_def safe_data_new_def safe_RecursiveLockIfValid_def safe_RecursiveLock_def
  safe_take_def safe_Unlock_def

section \<open>Replace\<close>

definition ptr_lock :: "'t \<Rightarrow> 't safe_heap \<Rightarrow> safe_ptr \<Rightarrow> 't safe_heap option result" where
  "ptr_lock t h p = (case s_data p of None \<Rightarrow> Inr (Some h)
     | Some b \<Rightarrow> bind_res (data_at h b) (\<lambda>d. Inr (map_option (data_put h b) (safe_RecursiveLock t d))))"

definition ptr_unlock :: "'t safe_heap \<Rightarrow> safe_ptr \<Rightarrow> 't safe_heap result" where
  "ptr_unlock h p = (case s_data p of None \<Rightarrow> Inr h
     | Some b \<Rightarrow> bind_res (data_at h b) (\<lambda>d. Inr (data_put h b (safe_Unlock d))))"

text \<open>The common tail: lock a copy of the old pointer, assign, unlock the copy, destroy it.\<close>

definition replace_locked ::
    "'t \<Rightarrow> 't safe_heap \<Rightarrow> safe_ptr \<Rightarrow> safe_ptr \<Rightarrow> (safe_ptr \<times> 't safe_heap) option result" where
  "replace_locked t h self p =
     bind_res (safe_copy h self) (\<lambda>(copy, h).
     bind_res (ptr_lock t h copy) (\<lambda>locked. case locked of
       None \<Rightarrow> Inr None
     | Some h \<Rightarrow>
         bind_res (safe_assign h self p) (\<lambda>(self, h).
         bind_res (ptr_unlock h copy) (\<lambda>h.
         bind_res (safe_release h copy) (\<lambda>h. Inr (Some (self, h)))))))"

definition safe_Replace ::
    "'t \<Rightarrow> 't safe_heap \<Rightarrow> safe_ptr \<Rightarrow> safe_ptr \<Rightarrow> (safe_ptr \<times> 't safe_heap) option result" where
  "safe_Replace t h self p =
     (if s_ptr p = s_ptr self then Inr (Some (self, h)) else replace_locked t h self p)"

definition safe_ReplaceAndLock ::
    "'t \<Rightarrow> 't safe_heap \<Rightarrow> safe_ptr \<Rightarrow> safe_ptr \<Rightarrow> (safe_ptr \<times> 't safe_heap) option result" where
  "safe_ReplaceAndLock t h self p =
     (if s_ptr p = s_ptr self then Inr (Some (self, h))
      else bind_res (ptr_lock t h p) (\<lambda>locked. case locked of
          None \<Rightarrow> Inr None
        | Some h \<Rightarrow> replace_locked t h self p))"

section \<open>The spin lock, one atomic access at a time\<close>

text \<open>Where a thread is between two atomic accesses of the block. \<open>Idle\<close> is outside the lock
  functions. \<open>RecursiveLock\<close> and \<open>TryRecursiveLock\<close> read the owner, then try the exchange at
  \<open>Cas\<close>, then store the owner and the count. \<open>Unlock\<close> reads the count and either decrements it
  (\<open>Dec\<close>) or clears the owner, the count and the lock, in this order.\<close>

datatype pc = Idle | Cas | SetOwner | SetCount | Dec | ClearOwner | ClearCount | ClearLock

record 't spin =
  data :: "'t safe_data"
  pc :: "'t \<Rightarrow> pc"
  depth :: "'t \<Rightarrow> nat"    \<comment> \<open>how often the thread has taken the lock and not released it\<close>

definition spin_new :: "bool \<Rightarrow> 't spin" where
  "spin_new v = \<lparr>data = safe_data_new 1 v, pc = (\<lambda>t. Idle), depth = (\<lambda>t. 0)\<rparr>"

definition goto :: "'t \<Rightarrow> pc \<Rightarrow> 't spin \<Rightarrow> 't spin" where
  "goto t l s = s\<lparr>pc := (pc s)(t := l)\<rparr>"

definition set_depth :: "'t \<Rightarrow> nat \<Rightarrow> 't spin \<Rightarrow> 't spin" where
  "set_depth t n s = s\<lparr>depth := (depth s)(t := n)\<rparr>"

text \<open>\<open>spin_step t s\<close> are the states one access of thread \<open>t\<close> can lead to. A thread calls \<open>Unlock\<close>
  only while it holds the lock; the code leaves that to its callers. A thread takes the lock
  again only below \<open>2^32 - 1\<close>.\<close>

inductive spin_step :: "'t \<Rightarrow> 't spin \<Rightarrow> 't spin \<Rightarrow> bool" where
  again: "pc s t = Idle \<Longrightarrow> m_owner (data s) = Some t \<Longrightarrow> Suc (depth s t) < 2 ^ 32 \<Longrightarrow>
    spin_step t s (set_depth t (Suc (depth s t))
      (s\<lparr>data := (data s)\<lparr>m_lockCount := m_lockCount (data s) + 1\<rparr>\<rparr>))"
| not_owner: "pc s t = Idle \<Longrightarrow> m_owner (data s) \<noteq> Some t \<Longrightarrow> spin_step t s (goto t Cas s)"
| exchange: "pc s t = Cas \<Longrightarrow> \<not> m_lock (data s) \<Longrightarrow>
    spin_step t s (goto t SetOwner (s\<lparr>data := (data s)\<lparr>m_lock := True\<rparr>\<rparr>))"
| spins: "pc s t = Cas \<Longrightarrow> m_lock (data s) \<Longrightarrow> spin_step t s s"
| gives_up: "pc s t = Cas \<Longrightarrow> m_lock (data s) \<Longrightarrow> spin_step t s (goto t Idle s)"
| store_owner: "pc s t = SetOwner \<Longrightarrow>
    spin_step t s (goto t SetCount (s\<lparr>data := (data s)\<lparr>m_owner := Some t\<rparr>\<rparr>))"
| store_count: "pc s t = SetCount \<Longrightarrow>
    spin_step t s (set_depth t 1 (goto t Idle (s\<lparr>data := (data s)\<lparr>m_lockCount := 1\<rparr>\<rparr>)))"
| unlock_many: "pc s t = Idle \<Longrightarrow> 0 < depth s t \<Longrightarrow> m_lockCount (data s) > 1 \<Longrightarrow>
    spin_step t s (goto t Dec s)"
| decrement: "pc s t = Dec \<Longrightarrow>
    spin_step t s (set_depth t (depth s t - 1)
      (goto t Idle (s\<lparr>data := (data s)\<lparr>m_lockCount := m_lockCount (data s) - 1\<rparr>\<rparr>)))"
| unlock_last: "pc s t = Idle \<Longrightarrow> 0 < depth s t \<Longrightarrow> \<not> m_lockCount (data s) > 1 \<Longrightarrow>
    m_lockCount (data s) \<noteq> 0 \<Longrightarrow> spin_step t s (goto t ClearOwner s)"
| clear_owner: "pc s t = ClearOwner \<Longrightarrow>
    spin_step t s (goto t ClearCount (s\<lparr>data := (data s)\<lparr>m_owner := None\<rparr>\<rparr>))"
| clear_count: "pc s t = ClearCount \<Longrightarrow>
    spin_step t s (goto t ClearLock (s\<lparr>data := (data s)\<lparr>m_lockCount := 0\<rparr>\<rparr>))"
| clear_lock: "pc s t = ClearLock \<Longrightarrow>
    spin_step t s (set_depth t 0 (goto t Idle (s\<lparr>data := (data s)\<lparr>m_lock := False\<rparr>\<rparr>)))"

inductive spin_reach :: "'t spin \<Rightarrow> bool" where
  start: "spin_reach (spin_new v)"
| step: "spin_reach s \<Longrightarrow> spin_step t s s' \<Longrightarrow> spin_reach s'"

inductive_cases spin_stepE: "spin_step t s s'"

text \<open>The invariant. Being inside the lock is a matter of the thread's place and depth. One thread
  at most is inside; while it is, the flag \<open>m_lock\<close> is up; the owner field names nobody else; and
  while it holds the lock and is not in the last part of \<open>Unlock\<close>, the owner and count fields are
  its own.\<close>

definition inside_at :: "pc \<Rightarrow> nat \<Rightarrow> bool" where
  "inside_at l n \<longleftrightarrow> 0 < n \<or> l \<notin> {Idle, Cas}"

definition owns_at :: "pc \<Rightarrow> nat \<Rightarrow> bool" where
  "owns_at l n \<longleftrightarrow> 0 < n \<and> l \<in> {Idle, Dec, ClearOwner}"

definition place_ok :: "'t safe_data \<Rightarrow> 't \<Rightarrow> pc \<Rightarrow> nat \<Rightarrow> bool" where
  "place_ok d t l n \<longleftrightarrow>
     (inside_at l n \<longrightarrow> m_lock d) \<and>
     (m_owner d = Some t \<longleftrightarrow> owns_at l n \<or> l = SetCount) \<and>
     (owns_at l n \<longrightarrow> unat (m_lockCount d) = n) \<and>
     (l = Dec \<longrightarrow> 1 < n) \<and> (l = ClearOwner \<longrightarrow> n = 1) \<and>
     (l \<in> {Cas, SetOwner, SetCount} \<longrightarrow> n = 0)"

definition inside :: "'t spin \<Rightarrow> 't \<Rightarrow> bool" where
  "inside s t \<longleftrightarrow> inside_at (pc s t) (depth s t)"

definition spin_inv :: "'t spin \<Rightarrow> bool" where
  "spin_inv s \<longleftrightarrow> (\<forall>t u. inside s t \<longrightarrow> inside s u \<longrightarrow> t = u) \<and>
     (\<forall>t. place_ok (data s) t (pc s t) (depth s t))"

definition moves :: "'t \<Rightarrow> 't spin \<Rightarrow> 't safe_data \<Rightarrow> pc \<Rightarrow> nat \<Rightarrow> 't spin \<Rightarrow> bool" where
  "moves t s d l n s' \<longleftrightarrow> data s' = d \<and> pc s' = (pc s)(t := l) \<and> depth s' = (depth s)(t := n)"

lemma spin_inv_alone:
  assumes inv: "spin_inv s" and alone: "\<And>u. u \<noteq> t \<Longrightarrow> \<not> inside s u"
    and m: "moves t s d l n s'" and ok: "place_ok d t l n"
    and owner: "m_owner d = m_owner (data s) \<or> m_owner d = None \<or> m_owner d = Some t"
  shows "spin_inv s'"
proof -
  have "place_ok d u (pc s u) (depth s u)" if "u \<noteq> t" for u
  proof -
    have out: "\<not> inside_at (pc s u) (depth s u)" using alone [OF that] by (simp add: inside_def)
    have "place_ok (data s) u (pc s u) (depth s u)" using inv by (simp add: spin_inv_def)
    then show ?thesis using out owner that
      by (auto simp: place_ok_def inside_at_def owns_at_def)
  qed
  moreover have "\<not> inside s' u" if "u \<noteq> t" for u
    using alone [OF that] m that by (simp add: inside_def moves_def)
  moreover have "u = v" if "inside s' u" "inside s' v" for u v
    using that calculation(2) by metis
  ultimately show ?thesis using m ok unfolding spin_inv_def moves_def
    by (metis fun_upd_other fun_upd_same)
qed

lemma spin_inv_outside:
  assumes inv: "spin_inv s" and m: "moves t s (data s) l n s'" and ok: "place_ok (data s) t l n"
    and out: "\<not> inside_at l n"
  shows "spin_inv s'"
  using assms by (auto simp: spin_inv_def inside_def moves_def)

lemma spin_inv_within:
  assumes "spin_inv s" "inside s t" "moves t s d l n s'" "place_ok d t l n"
    and "m_owner d = m_owner (data s) \<or> m_owner d = None \<or> m_owner d = Some t"
  shows "spin_inv s'"
proof (rule spin_inv_alone [OF assms(1) _ assms(3-5)])
  fix u assume "u \<noteq> t"
  then show "\<not> inside s u" using assms(1,2) unfolding spin_inv_def by blast
qed

lemma spin_inv_step:
  assumes inv: "spin_inv s" and step: "spin_step t s s'"
  shows "spin_inv s'"
proof -
  have here: "place_ok (data s) t (pc s t) (depth s t)" using inv by (simp add: spin_inv_def)
  note defs = inside_def place_ok_def inside_at_def owns_at_def moves_def goto_def set_depth_def
  show ?thesis
    using step
  proof (cases rule: spin_step.cases)
    case again
    have o: "owns_at (pc s t) (depth s t)" using here again by (simp add: place_ok_def)
    have "unat (m_lockCount (data s) + 1) = Suc (depth s t)"
      using here o again by (subst unat_plus_1) (auto simp: place_ok_def)
    then show ?thesis using again here o
      by (intro spin_inv_within [OF inv, of t "data s'" Idle "Suc (depth s t)"]) (auto simp: defs)
  next
    case not_owner
    with here show ?thesis
      by (intro spin_inv_outside [OF inv, of t Cas "depth s t"]) (auto simp: defs)
  next
    case exchange
    have "\<not> inside s u" for u
    proof -
      have "place_ok (data s) u (pc s u) (depth s u)" using inv by (simp add: spin_inv_def)
      then show ?thesis using exchange by (auto simp: place_ok_def inside_def)
    qed
    with exchange here show ?thesis
      by (intro spin_inv_alone [OF inv, of t "data s'" SetOwner 0]) (auto simp: defs)
  next
    case spins
    then show ?thesis using inv by simp
  next
    case gives_up
    with here show ?thesis
      by (intro spin_inv_outside [OF inv, of t Idle "depth s t"]) (auto simp: defs)
  next
    case store_owner
    with here show ?thesis
      by (intro spin_inv_within [OF inv, of t "data s'" SetCount 0]) (auto simp: defs)
  next
    case store_count
    with here show ?thesis
      by (intro spin_inv_within [OF inv, of t "data s'" Idle 1]) (auto simp: defs)
  next
    case unlock_many
    then have "1 < unat (m_lockCount (data s))" by (simp add: word_less_nat_alt)
    with unlock_many here show ?thesis
      by (intro spin_inv_within [OF inv, of t "data s'" Dec "depth s t"]) (auto simp: defs)
  next
    case decrement
    then have "unat (m_lockCount (data s) - 1) = depth s t - 1"
      using here by (subst unat_minus_1) (auto simp: defs)
    with decrement here show ?thesis
      by (intro spin_inv_within [OF inv, of t "data s'" Idle "depth s t - 1"]) (auto simp: defs)
  next
    case unlock_last
    then have "unat (m_lockCount (data s)) \<le> 1" "unat (m_lockCount (data s)) \<noteq> 0"
      by (simp_all add: word_less_nat_alt not_less unat_eq_0)
    then have "unat (m_lockCount (data s)) = 1" by linarith
    with unlock_last here show ?thesis
      by (intro spin_inv_within [OF inv, of t "data s'" ClearOwner 1]) (auto simp: defs)
  next
    case clear_owner
    with here show ?thesis
      by (intro spin_inv_within [OF inv, of t "data s'" ClearCount 1]) (auto simp: defs)
  next
    case clear_count
    with here show ?thesis
      by (intro spin_inv_within [OF inv, of t "data s'" ClearLock "depth s t"]) (auto simp: defs)
  next
    case clear_lock
    with here show ?thesis
      by (intro spin_inv_within [OF inv, of t "data s'" Idle 0]) (auto simp: defs)
  qed
qed

lemma spin_reach_inv: "spin_reach s \<Longrightarrow> spin_inv s"
proof (induction rule: spin_reach.induct)
  case (start v)
  show ?case by (auto simp: spin_inv_def inside_def place_ok_def inside_at_def owns_at_def
      spin_new_def safe_data_new_def)
next
  case (step s t s')
  show ?case by (rule spin_inv_step [OF step.IH step.hyps(2)])
qed

section \<open>Uninterrupted runs are the operations of the first part\<close>

lemma rtranclp_two: "r a b \<Longrightarrow> r b c \<Longrightarrow> r\<^sup>*\<^sup>* a c"
  by (rule converse_rtranclp_into_rtranclp [OF _ r_into_rtranclp])

lemma rtranclp_four: "r a b \<Longrightarrow> r b c \<Longrightarrow> r c d \<Longrightarrow> r d e \<Longrightarrow> r\<^sup>*\<^sup>* a e"
  by (rule converse_rtranclp_into_rtranclp [OF _ converse_rtranclp_into_rtranclp [OF _ rtranclp_two]])

lemma spin_steps_lock:
  assumes inv: "spin_inv s" and idle: "pc s t = Idle" and room: "Suc (depth s t) < 2 ^ 32"
    and l: "safe_RecursiveLock t (data s) = Some d"
  shows "\<exists>s'. (spin_step t)\<^sup>*\<^sup>* s s' \<and> data s' = d \<and> pc s' = pc s \<and>
           depth s' = (depth s)(t := Suc (depth s t))"
proof (cases "m_owner (data s) = Some t")
  case True
  then have "d = (data s)\<lparr>m_lockCount := m_lockCount (data s) + 1\<rparr>"
    using l by (simp add: safe_RecursiveLock_def)
  with spin_step.again [OF idle True room] show ?thesis
    by (intro exI [of _ "set_depth t (Suc (depth s t)) (s\<lparr>data := d\<rparr>)"])
      (auto simp: set_depth_def intro: r_into_rtranclp)
next
  case False
  then have free: "\<not> m_lock (data s)" and d: "d = safe_take t (data s)"
    using l by (auto simp: safe_RecursiveLock_def split: if_splits)
  have "place_ok (data s) t Idle (depth s t)" using inv idle by (metis spin_inv_def)
  with free have "depth s t = 0" by (simp add: place_ok_def inside_at_def)
  define s1 where "s1 = goto t Cas s"
  define s2 where "s2 = goto t SetOwner (s1\<lparr>data := (data s1)\<lparr>m_lock := True\<rparr>\<rparr>)"
  define s3 where "s3 = goto t SetCount (s2\<lparr>data := (data s2)\<lparr>m_owner := Some t\<rparr>\<rparr>)"
  define s4 where "s4 = set_depth t 1 (goto t Idle (s3\<lparr>data := (data s3)\<lparr>m_lockCount := 1\<rparr>\<rparr>))"
  have "spin_step t s s1" unfolding s1_def by (rule spin_step.not_owner [OF idle False])
  moreover have "spin_step t s1 s2" unfolding s2_def
    by (rule spin_step.exchange) (use free in \<open>simp_all add: s1_def goto_def\<close>)
  moreover have "spin_step t s2 s3" unfolding s3_def
    by (rule spin_step.store_owner) (simp add: s2_def goto_def)
  moreover have "spin_step t s3 s4" unfolding s4_def
    by (rule spin_step.store_count) (simp add: s3_def goto_def)
  ultimately have "(spin_step t)\<^sup>*\<^sup>* s s4" by (rule rtranclp_four)
  moreover have "data s4 = d" by (simp add: s1_def s2_def s3_def s4_def goto_def set_depth_def d safe_take_def)
  moreover have "pc s4 = pc s" using idle
    by (auto simp: s1_def s2_def s3_def s4_def goto_def set_depth_def)
  moreover have "depth s4 = (depth s)(t := Suc (depth s t))" using \<open>depth s t = 0\<close>
    by (simp add: s1_def s2_def s3_def s4_def goto_def set_depth_def)
  ultimately show ?thesis by blast
qed

lemma spin_steps_unlock:
  assumes inv: "spin_inv s" and idle: "pc s t = Idle" and held: "0 < depth s t"
  shows "\<exists>s'. (spin_step t)\<^sup>*\<^sup>* s s' \<and> data s' = safe_Unlock (data s) \<and> pc s' = pc s \<and>
           depth s' = (depth s)(t := depth s t - 1)"
proof (cases "m_lockCount (data s) > 1")
  case True
  define s1 where "s1 = goto t Dec s"
  define s2 where "s2 = set_depth t (depth s1 t - 1) (goto t Idle
      (s1\<lparr>data := (data s1)\<lparr>m_lockCount := m_lockCount (data s1) - 1\<rparr>\<rparr>))"
  have "spin_step t s s1" unfolding s1_def by (rule spin_step.unlock_many [OF idle held True])
  moreover have "spin_step t s1 s2" unfolding s2_def
    by (rule spin_step.decrement) (simp add: s1_def goto_def)
  ultimately have "(spin_step t)\<^sup>*\<^sup>* s s2" by (rule rtranclp_two)
  moreover have "data s2 = safe_Unlock (data s) \<and> pc s2 = pc s \<and> depth s2 = (depth s)(t := depth s t - 1)"
    using True idle by (auto simp: s1_def s2_def goto_def set_depth_def safe_Unlock_def)
  ultimately show ?thesis by blast
next
  case False
  have "place_ok (data s) t Idle (depth s t)" using inv idle by (metis spin_inv_def)
  then have c: "unat (m_lockCount (data s)) = depth s t" using held
    by (simp add: place_ok_def owns_at_def)
  have "unat (m_lockCount (data s)) \<le> 1" using False by (simp add: word_less_nat_alt not_less)
  with c held have one: "depth s t = 1" by simp
  have nz: "m_lockCount (data s) \<noteq> 0" using c held by (metis less_numeral_extra(3) unat_0)
  define s1 where "s1 = goto t ClearOwner s"
  define s2 where "s2 = goto t ClearCount (s1\<lparr>data := (data s1)\<lparr>m_owner := None\<rparr>\<rparr>)"
  define s3 where "s3 = goto t ClearLock (s2\<lparr>data := (data s2)\<lparr>m_lockCount := 0\<rparr>\<rparr>)"
  define s4 where "s4 = set_depth t 0 (goto t Idle (s3\<lparr>data := (data s3)\<lparr>m_lock := False\<rparr>\<rparr>))"
  have "spin_step t s s1" unfolding s1_def by (rule spin_step.unlock_last [OF idle held False nz])
  moreover have "spin_step t s1 s2" unfolding s2_def
    by (rule spin_step.clear_owner) (simp add: s1_def goto_def)
  moreover have "spin_step t s2 s3" unfolding s3_def
    by (rule spin_step.clear_count) (simp add: s2_def goto_def)
  moreover have "spin_step t s3 s4" unfolding s4_def
    by (rule spin_step.clear_lock) (simp add: s3_def goto_def)
  ultimately have "(spin_step t)\<^sup>*\<^sup>* s s4" by (rule rtranclp_four)
  moreover have "data s4 = safe_Unlock (data s) \<and> pc s4 = pc s \<and> depth s4 = (depth s)(t := depth s t - 1)"
    using False nz idle one
    by (auto simp: s1_def s2_def s3_def s4_def goto_def set_depth_def safe_Unlock_def)
  ultimately show ?thesis by blast
qed

section \<open>Properties\<close>

text \<open>C3: Mutual exclusion of the spin lock. However the atomic accesses of the threads interleave,
  at most one thread holds the block, and while it does and is not about to give it up, the owner
  field names it and the count is the number of times it took the lock.\<close>

theorem safe_ptr_exclusion:
  assumes "spin_reach s" and "0 < depth s t"
  shows "m_lock (data s) \<and> (\<forall>u. 0 < depth s u \<longrightarrow> u = t) \<and>
         (pc s t = Idle \<longrightarrow> m_owner (data s) = Some t \<and> unat (m_lockCount (data s)) = depth s t)"
proof -
  have inv: "spin_inv s" by (rule spin_reach_inv [OF assms(1)])
  have i: "inside s u" if "0 < depth s u" for u using that by (simp add: inside_def inside_at_def)
  have p: "place_ok (data s) t (pc s t) (depth s t)" using inv by (simp add: spin_inv_def)
  show ?thesis
    using p i [OF assms(2)] assms(2) inv i
    by (auto simp: place_ok_def owns_at_def inside_def spin_inv_def)
qed

lemma spin_reach_rtrancl: "(spin_step t)\<^sup>*\<^sup>* s s' \<Longrightarrow> spin_reach s \<Longrightarrow> spin_reach s'"
  by (induction rule: rtranclp_induct) (auto intro: spin_reach.step)

lemma spin_reach_held:
  "\<exists>s. spin_reach s \<and> 0 < depth s (1::nat) \<and> pc s 1 = Idle \<and> spin_inv s"
proof -
  have l: "safe_RecursiveLock (1::nat) (data (spin_new True)) = Some (safe_take 1 (safe_data_new 1 True))"
    by (simp add: safe_RecursiveLock_def spin_new_def safe_data_new_def)
  have "spin_inv (spin_new True :: nat spin)" by (rule spin_reach_inv [OF spin_reach.start])
  from spin_steps_lock [OF this _ _ l] obtain s' where
    st: "(spin_step (1::nat))\<^sup>*\<^sup>* (spin_new True) s'" and "pc s' = pc (spin_new True)"
    "depth s' = (depth (spin_new True))(1 := Suc (depth (spin_new True) 1))"
    by (auto simp: spin_new_def)
  moreover have "spin_reach s'" by (rule spin_reach_rtrancl [OF st spin_reach.start])
  ultimately show ?thesis
    using spin_reach_inv [of s'] by (intro exI [of _ s']) (simp add: spin_new_def)
qed

theorem safe_ptr_exclusion_witness:
  "\<exists>s. spin_reach s \<and> m_owner (data s) = Some (1::nat) \<and> depth s 2 = 0"
proof -
  from spin_reach_held obtain s where s: "spin_reach s" "0 < depth s (1::nat)" "pc s 1 = Idle" by blast
  note E = safe_ptr_exclusion [OF s(1,2)]
  from E have "depth s 2 = 0" by (metis gr0I numeral_eq_one_iff semiring_norm(85))
  with E s show ?thesis by blast
qed

text \<open>C18: Run without interruption, the atomic accesses of a thread outside the lock functions do
  exactly what \<open>RecursiveLock\<close> does as one step, whenever it does not have to spin, and, when the
  thread holds the lock, what \<open>Unlock\<close> does.\<close>

theorem safe_ptr_steps_refine:
  assumes "spin_reach s" and "pc s t = Idle" and "Suc (depth s t) < 2 ^ 32"
  shows "(\<forall>d. safe_RecursiveLock t (data s) = Some d \<longrightarrow>
           (\<exists>s'. (spin_step t)\<^sup>*\<^sup>* s s' \<and> data s' = d \<and> pc s' = pc s \<and>
                 depth s' = (depth s)(t := Suc (depth s t)))) \<and>
         (0 < depth s t \<longrightarrow>
           (\<exists>s'. (spin_step t)\<^sup>*\<^sup>* s s' \<and> data s' = safe_Unlock (data s) \<and> pc s' = pc s \<and>
                 depth s' = (depth s)(t := depth s t - 1)))"
proof -
  have inv: "spin_inv s" by (rule spin_reach_inv [OF assms(1)])
  show ?thesis
    using spin_steps_lock [OF inv assms(2,3)] spin_steps_unlock [OF inv assms(2)] by blast
qed

theorem safe_ptr_steps_refine_witness:
  "\<exists>s'. (spin_step (1::nat))\<^sup>*\<^sup>* (spin_new True) s' \<and> data s' = safe_take 1 (safe_data_new 1 True)"
proof -
  have "safe_RecursiveLock (1::nat) (data (spin_new True)) = Some (safe_take 1 (safe_data_new 1 True))"
    by (simp add: safe_RecursiveLock_def spin_new_def safe_data_new_def)
  moreover have "pc (spin_new True) (1::nat) = Idle" "Suc (depth (spin_new True) (1::nat)) < 2 ^ 32"
    by (simp_all add: spin_new_def)
  ultimately show ?thesis
    using safe_ptr_steps_refine [OF spin_reach.start [of True], of "1::nat"] by blast
qed

definition lock_free :: "'t safe_data \<Rightarrow> bool" where
  "lock_free d \<longleftrightarrow> \<not> m_lock d \<and> m_owner d = None \<and> m_lockCount d = 0"

definition lock_mine :: "'t \<Rightarrow> 't safe_data \<Rightarrow> bool" where
  "lock_mine t d \<longleftrightarrow> m_lock d \<and> m_owner d = Some t \<and> m_lockCount d \<noteq> 0 \<and> m_lockCount d \<noteq> 0xFFFFFFFF"

definition same_lock :: "'t safe_data \<Rightarrow> 't safe_data \<Rightarrow> bool" where
  "same_lock d e \<longleftrightarrow> m_lock d = m_lock e \<and> m_owner d = m_owner e \<and> m_lockCount d = m_lockCount e"

lemma lock_unlock:
  assumes "lock_free d \<or> lock_mine t d"
  obtains d' where "safe_RecursiveLock t d = Some d'" "m_valid d' = m_valid d"
    "\<And>e. same_lock d' e \<Longrightarrow> same_lock d (safe_Unlock e)"
proof (cases "m_owner d = Some t")
  case True
  then have m: "lock_mine t d" using assms by (auto simp: lock_free_def)
  let ?c = "m_lockCount d"
  have "unat ?c \<noteq> 0xFFFFFFFF" using m by (auto simp: lock_mine_def word_unat_eq_iff)
  then have "unat (?c + 1) = Suc (unat ?c)"
    using unat_u32_bound [of ?c] by (intro unat_plus_1) simp
  moreover have "unat ?c \<noteq> 0" using m by (simp add: lock_mine_def unat_eq_0)
  ultimately have "?c + 1 > 1" by (simp add: word_less_nat_alt)
  then show thesis
    using True m by (intro that [of "d\<lparr>m_lockCount := ?c + 1\<rparr>"])
      (auto simp: safe_RecursiveLock_def same_lock_def safe_Unlock_def lock_mine_def
        dest: sym [of "m_lockCount d + 1"])
next
  case False
  then have "lock_free d" using assms by (auto simp: lock_mine_def)
  then show thesis
    by (intro that [of "safe_take t d"])
      (auto simp: safe_RecursiveLock_def same_lock_def safe_Unlock_def lock_free_def safe_take_def)
qed

text \<open>\<open>Do\<close> runs the function exactly when the pointer is valid, and leaves the lock as it found
  it, when the caller had it (less than \<open>2^32 - 1\<close> deep) or nobody had, and the function itself
  leaves the lock alone.\<close>

theorem safe_ptr_do:
  assumes "lock_free d \<or> lock_mine t d"
    and "\<And>s e r s' e'. func s e = (r, s', e') \<Longrightarrow> same_lock e e'"
  shows "\<exists>r s' d'. safe_Do t func s d = Some (r, s', d') \<and> same_lock d d' \<and> (r \<noteq> None) = m_valid d"
proof -
  from lock_unlock [OF assms(1)] obtain d1 where d1: "safe_RecursiveLock t d = Some d1"
    "m_valid d1 = m_valid d" "\<And>e. same_lock d1 e \<Longrightarrow> same_lock d (safe_Unlock e)" by blast
  obtain r s' e' where f: "func s d1 = (r, s', e')" by (metis prod_cases3)
  have "same_lock d1 d1" by (simp add: same_lock_def)
  with d1 f assms(2) [OF f] show ?thesis
    by (cases "m_valid d") (auto simp: safe_Do_def safe_RecursiveLockIfValid_def)
qed

theorem safe_ptr_do_witness:
  "\<exists>r s' d'. safe_Do (1::nat) (\<lambda>s e. (s + 1, s + 2, e)) (5::int) (safe_data_new 1 True) = Some (r, s', d') \<and>
     r \<noteq> None \<and> same_lock (safe_data_new 1 True) d'"
proof -
  have "lock_free (safe_data_new 1 True) \<or> lock_mine (1::nat) (safe_data_new 1 True)"
    by (simp add: lock_free_def safe_data_new_def)
  moreover have "m_valid (safe_data_new 1 True)" by (simp add: safe_data_new_def)
  ultimately show ?thesis
    using safe_ptr_do [of "safe_data_new 1 True" "1::nat" "\<lambda>s e. (s + 1, s + 2, e)" "5::int"]
    by (auto simp: same_lock_def)
qed

text \<open>Assigning a pointer that is alone on its block to itself uses the block after deleting
  it: \<open>operator=\<close> has no check for self-assignment.\<close>

theorem safe_ptr_self_assign:
  assumes "s_data p = Some b" and "datas h b = Some d" and "m_useCount d \<le> 1"
  shows "safe_assign h p p = Inl DanglingPointer"
  using assms by (simp add: safe_assign_def safe_release_def data_at_def)

theorem safe_ptr_self_assign_witness:
  "\<exists>h p. safe_assign (h :: nat safe_heap) p p = Inl DanglingPointer"
proof -
  let ?h = "\<lparr>datas = [0 \<mapsto> safe_data_new 1 True], next_data = 1, objects = {10}\<rparr> :: nat safe_heap"
  have "safe_assign ?h \<lparr>s_data = Some 0, s_ptr = Some 10\<rparr> \<lparr>s_data = Some 0, s_ptr = Some 10\<rparr> =
      Inl DanglingPointer"
    by (rule safe_ptr_self_assign [of _ 0 _ "safe_data_new 1 True"]) (simp_all add: safe_data_new_def)
  then show ?thesis by blast
qed

text \<open>\<open>operator=\<close> marks the block valid whenever the copied pointer still has an address, so after
  \<open>AutoFree\<close> deleted the object, copying the pointer it was called on makes the block valid again
  and a second \<open>AutoFree\<close> deletes the object twice.\<close>

theorem safe_ptr_assign_revives_freed:
  "let h = \<lparr>datas = Map.empty, next_data = 0, objects = {10}\<rparr> :: nat safe_heap;
       (p, h) = safe_from_raw h (Some 10);
       (q, h) = safe_new h
   in bind_res (safe_AutoFree 1 h p) (\<lambda>r. case r of
        None \<Rightarrow> Inr (False, h)
      | Some (freed, h) \<Rightarrow> bind_res (safe_assign h q p) (\<lambda>(q, h).
          bind_res (safe_Valid h q) (\<lambda>v. bind_res (safe_AutoFree 1 h q) (\<lambda>r. Inr (v, h)))))
      = Inl DanglingPointer"
  by (simp add: op_defs safe_Valid_def Let_def)

end
