(* ===== verification/SR_Cmd_Manager.thy ===== *)
theory SR_Cmd_Manager
  imports SR_Prelude
begin

text \<open>
  The undo history: \<open>CmdManager\<close> (src/Utils/CommandManager/CmdManager.cpp) and
  \<open>GroupCommand\<close> (src/Utils/CommandManager/ReversibleCommand.cpp).

  A command is an object behind an abstract class: an address, with its \<open>Redo\<close>, \<open>Undo\<close>
  and \<open>GetName\<close> in the parameter \<open>C\<close>, acting on the document \<open>doc\<close> the commands edit (they do not
  call the manager back). \<open>alive\<close> are the commands not yet deleted. The manager keeps a queue of
  requests, the history and the index \<open>m_historyPC\<close> of the last command done, \<open>UINT32_MAX\<close> when
  there is none. \<open>SRHalt\<close> and \<open>SRVerifyFalse2\<close> only print. Every public function holds the
  recursive mutex throughout, so it is one step.
\<close>

section \<open>State and operations\<close>

datatype sync_type = Sync | Async | Force

datatype cmd_type = CmdRedo | CmdUndo | CmdExecute

record 'd command_class =
  c_redo :: "nat \<Rightarrow> 'd \<Rightarrow> bool \<times> 'd"
  c_undo :: "nat \<Rightarrow> 'd \<Rightarrow> bool \<times> 'd"
  c_name :: "nat \<Rightarrow> string"

record 'd manager =
  m_commands :: "(nat option \<times> cmd_type) list"
  m_history :: "nat option list"
  m_historyPC :: u32
  m_maxHistorySize :: u32
  m_lastCmdName :: string
  alive :: "nat set"
  doc :: 'd

definition UINT32_MAX :: u32 where
  "UINT32_MAX = 0xFFFFFFFF"

definition mgr_new :: "nat set \<Rightarrow> 'd \<Rightarrow> 'd manager" where
  "mgr_new cmds d = \<lparr>m_commands = [], m_history = [], m_historyPC = UINT32_MAX,
     m_maxHistorySize = 128, m_lastCmdName = '''', alive = cmds, doc = d\<rparr>"

definition deref :: "'d manager \<Rightarrow> nat option \<Rightarrow> nat result" where
  "deref m p = (case p of None \<Rightarrow> Inl NullPointer
     | Some c \<Rightarrow> if c \<in> alive m then Inr c else Inl DanglingPointer)"

text \<open>\<open>delete p\<close> and \<open>SR_SAFE_DELETE_PTR\<close>: nothing for a null pointer.\<close>

definition delete_cmd :: "nat option \<Rightarrow> 'd manager \<Rightarrow> 'd manager result" where
  "delete_cmd p m = (case p of None \<Rightarrow> Inr m
     | Some c \<Rightarrow> if c \<in> alive m then Inr (m\<lparr>alive := alive m - {c}\<rparr>) else Inl DanglingPointer)"

definition call_redo :: "'d command_class \<Rightarrow> nat \<Rightarrow> 'd manager \<Rightarrow> bool \<times> 'd manager" where
  "call_redo C c m = (case c_redo C c (doc m) of (r, d) \<Rightarrow> (r, m\<lparr>doc := d\<rparr>))"

definition call_undo :: "'d command_class \<Rightarrow> nat \<Rightarrow> 'd manager \<Rightarrow> bool \<times> 'd manager" where
  "call_undo C c m = (case c_undo C c (doc m) of (r, d) \<Rightarrow> (r, m\<lparr>doc := d\<rparr>))"

text \<open>The private \<open>Execute\<close>. Its loop pops the history while \<open>size() - 1\<close>, at 64 bits, differs from
  \<open>m_historyPC\<close>; on an empty history \<open>std::prev(end())\<close> is undefined.\<close>

function prune_loop :: "'d manager \<Rightarrow> 'd manager result" where
  "prune_loop m =
     (if (of_nat (length (m_history m)) :: u64) - 1 = ucast (m_historyPC m) then Inr m
      else if m_history m = [] then Inl OutOfRange
      else bind_res (delete_cmd (last (m_history m)) m) (\<lambda>m'.
           prune_loop (m\<lparr>m_history := butlast (m_history m), alive := alive m'\<rparr>)))"
  by pat_completeness auto

termination prune_loop by (relation "measure (\<lambda>m. length (m_history m))") auto

declare prune_loop.simps [simp del]

definition exec_cmd :: "'d command_class \<Rightarrow> nat option \<Rightarrow> 'd manager \<Rightarrow> (bool \<times> 'd manager) result" where
  "exec_cmd C cmd m =
     bind_res (if m_historyPC m \<noteq> UINT32_MAX then prune_loop m else Inr m) (\<lambda>m.
     let m = m\<lparr>m_history := m_history m @ [cmd], m_historyPC := m_historyPC m + 1\<rparr> in
     bind_res (if m_historyPC m \<ge> m_maxHistorySize m
               then bind_res (delete_cmd (hd (m_history m)) m) (\<lambda>m.
                    Inr (m\<lparr>m_history := tl (m_history m)\<rparr>))
               else Inr m) (\<lambda>m.
     bind_res (deref m cmd) (\<lambda>c.
     Inr (call_redo C c (m\<lparr>m_lastCmdName := c_name C c\<rparr>)))))"

definition DoCmd :: "'d command_class \<Rightarrow> nat option \<times> cmd_type \<Rightarrow> 'd manager \<Rightarrow> (bool \<times> 'd manager) result" where
  "DoCmd C cmd m = (case snd cmd of
     CmdRedo \<Rightarrow>
       if ((ucast (m_historyPC m) :: u64) \<ge> of_nat (length (m_history m)) - 1 \<and> m_historyPC m \<noteq> UINT32_MAX)
          \<or> m_history m = [] then Inr (True, m)
       else let m = m\<lparr>m_historyPC := m_historyPC m + 1\<rparr> in
            bind_res (vec_at (m_history m) (unat (m_historyPC m))) (\<lambda>p.
            bind_res (deref m p) (\<lambda>c.
            Inr (call_redo C c (m\<lparr>m_lastCmdName := c_name C c\<rparr>))))
   | CmdUndo \<Rightarrow>
       if m_history m = [] \<or> m_historyPC m = UINT32_MAX then Inr (True, m)
       else if (ucast (m_historyPC m) :: u64) \<ge> of_nat (length (m_history m)) then Inr (False, m)
       else bind_res (vec_at (m_history m) (unat (m_historyPC m))) (\<lambda>p.
            let m = m\<lparr>m_historyPC := m_historyPC m - 1\<rparr> in
            bind_res (deref m p) (\<lambda>c.
            Inr (call_undo C c (m\<lparr>m_lastCmdName := c_name C c\<rparr>))))
   | CmdExecute \<Rightarrow> exec_cmd C (fst cmd) m)"

text \<open>\<open>Update\<close> and the drain of \<open>ExecuteImpl\<close> run the queue to its end and drop the results.\<close>

fun drain :: "'d command_class \<Rightarrow> (nat option \<times> cmd_type) list \<Rightarrow> 'd manager \<Rightarrow> 'd manager result" where
  "drain C [] m = Inr (m\<lparr>m_commands := []\<rparr>)"
| "drain C (cmd # cmds) m = bind_res (DoCmd C cmd m) (\<lambda>(r, m). drain C cmds m)"

definition mgr_Update :: "'d command_class \<Rightarrow> 'd manager \<Rightarrow> 'd manager result" where
  "mgr_Update C m = drain C (m_commands m) m"

definition ExecuteImpl ::
    "'d command_class \<Rightarrow> nat option \<Rightarrow> sync_type \<Rightarrow> 'd manager \<Rightarrow> (bool \<times> 'd manager) result" where
  "ExecuteImpl C cmd sync m = (case sync of
     Async \<Rightarrow> Inr (True, m\<lparr>m_commands := m_commands m @ [(cmd, CmdExecute)]\<rparr>)
   | Sync \<Rightarrow> bind_res (drain C (m_commands m) m) (DoCmd C (cmd, CmdExecute))
   | Force \<Rightarrow> bind_res (deref m cmd) (\<lambda>c. case call_redo C c m of (r, m) \<Rightarrow>
       bind_res (delete_cmd cmd m) (\<lambda>m. Inr (r, m))))"

text \<open>The public \<open>Execute\<close> drops the undone commands first: from the last index down to the one
  after \<open>m_historyPC\<close>, then \<open>resize\<close>, which fills with null pointers when it grows.\<close>

fun delete_above :: "nat \<Rightarrow> nat \<Rightarrow> 'd manager \<Rightarrow> 'd manager result" where
  "delete_above 0 limit m = Inr m"
| "delete_above (Suc i) limit m =
     (if Suc i > limit then
        bind_res (vec_at (m_history m) (Suc i)) (\<lambda>p.
        bind_res (delete_cmd p m) (\<lambda>m.
        delete_above i limit (m\<lparr>m_history := (m_history m)[Suc i := None]\<rparr>)))
      else Inr m)"

definition vec_resize :: "nat \<Rightarrow> 'a option list \<Rightarrow> 'a option list" where
  "vec_resize n xs = take n xs @ replicate (n - length xs) None"

fun delete_all :: "nat option list \<Rightarrow> 'd manager \<Rightarrow> 'd manager result" where
  "delete_all [] m = Inr m"
| "delete_all (p # ps) m = bind_res (delete_cmd p m) (delete_all ps)"

definition mgr_Execute ::
    "'d command_class \<Rightarrow> nat option \<Rightarrow> sync_type \<Rightarrow> 'd manager \<Rightarrow> (bool \<times> 'd manager) result" where
  "mgr_Execute C cmd sync m =
     bind_res (if m_historyPC m \<noteq> UINT32_MAX then
         bind_res (delete_above (unat ((of_nat (length (m_history m)) :: u32) - 1))
                     (unat (m_historyPC m)) m) (\<lambda>m.
         Inr (m\<lparr>m_history := vec_resize (unat (m_historyPC m + 1)) (m_history m)\<rparr>))
       else bind_res (delete_all (m_history m) m) (\<lambda>m. Inr (m\<lparr>m_history := []\<rparr>)))
     (ExecuteImpl C cmd sync)"

definition mgr_Clear :: "'d manager \<Rightarrow> 'd manager result" where
  "mgr_Clear m = bind_res (delete_all (m_history m @ map fst (m_commands m)) m) (\<lambda>m.
     Inr (m\<lparr>m_commands := [], m_history := [], m_historyPC := UINT32_MAX\<rparr>))"

definition mgr_Close :: "'d manager \<Rightarrow> (bool \<times> 'd manager) result" where
  "mgr_Close m = bind_res (mgr_Clear m) (\<lambda>m. Inr (True, m))"

definition mgr_Redo :: "'d manager \<Rightarrow> bool \<times> 'd manager" where
  "mgr_Redo m = (True, m\<lparr>m_commands := m_commands m @ [(None, CmdRedo)]\<rparr>)"

definition mgr_Cancel :: "'d manager \<Rightarrow> bool \<times> 'd manager" where
  "mgr_Cancel m = (True, m\<lparr>m_commands := m_commands m @ [(None, CmdUndo)]\<rparr>)"

definition GetLastCmdName :: "'d manager \<Rightarrow> string" where
  "GetLastCmdName m = m_lastCmdName m"

text \<open>\<open>GroupCommand\<close>: redo in order, undo from the last index down to 0; both ignore the results
  of their parts.\<close>

fun group_redo :: "'d command_class \<Rightarrow> nat list \<Rightarrow> 'd \<Rightarrow> 'd" where
  "group_redo C [] d = d"
| "group_redo C (c # cs) d = group_redo C cs (snd (c_redo C c d))"

definition group_Redo :: "'d command_class \<Rightarrow> nat list \<Rightarrow> 'd \<Rightarrow> bool \<times> 'd" where
  "group_Redo C cs d = (True, group_redo C cs d)"

fun group_undo :: "'d command_class \<Rightarrow> nat list \<Rightarrow> nat \<Rightarrow> 'd \<Rightarrow> 'd" where
  "group_undo C cs 0 d = d"
| "group_undo C cs (Suc i) d = group_undo C cs i (snd (c_undo C (cs ! i) d))"

definition group_Undo :: "'d command_class \<Rightarrow> nat list \<Rightarrow> 'd \<Rightarrow> bool \<times> 'd" where
  "group_Undo C cs d = (True, group_undo C cs (length cs) d)"

section \<open>The history as a zipper\<close>

text \<open>\<open>position m\<close> commands are done; \<open>UINT32_MAX + 1\<close> wraps to 0.\<close>

definition position :: "'d manager \<Rightarrow> nat" where
  "position m = unat (m_historyPC m + 1)"

definition done_cmds :: "'d manager \<Rightarrow> nat list" where
  "done_cmds m = map the (take (position m) (m_history m))"

definition undone_cmds :: "'d manager \<Rightarrow> nat list" where
  "undone_cmds m = map the (drop (position m) (m_history m))"

definition mgr_inv :: "'d manager \<Rightarrow> bool" where
  "mgr_inv m \<longleftrightarrow> m_commands m = [] \<and> m_maxHistorySize m = 128 \<and> length (m_history m) \<le> 128 \<and>
     position m \<le> length (m_history m) \<and> distinct (m_history m) \<and>
     set (m_history m) \<subseteq> Some ` alive m"

definition mgr_undo :: "'d command_class \<Rightarrow> 'd manager \<Rightarrow> 'd manager result" where
  "mgr_undo C m = mgr_Update C (snd (mgr_Cancel m))"

definition mgr_redo :: "'d command_class \<Rightarrow> 'd manager \<Rightarrow> 'd manager result" where
  "mgr_redo C m = mgr_Update C (snd (mgr_Redo m))"

definition mgr_do :: "'d command_class \<Rightarrow> nat \<Rightarrow> 'd manager \<Rightarrow> 'd manager result" where
  "mgr_do C c m = bind_res (mgr_Execute C (Some c) Sync m) (\<lambda>(r, m). Inr m)"

text \<open>What a client of an undo history relies on.\<close>

locale undo_history =
  fixes exec :: "'c \<Rightarrow> 'm \<Rightarrow> 'm result"
    and undo :: "'m \<Rightarrow> 'm result"
    and redo :: "'m \<Rightarrow> 'm result"
    and past :: "'m \<Rightarrow> 'c list"
    and future :: "'m \<Rightarrow> 'c list"
    and content :: "'m \<Rightarrow> 'd"
    and apply_c :: "'c \<Rightarrow> 'd \<Rightarrow> 'd"
    and revert_c :: "'c \<Rightarrow> 'd \<Rightarrow> 'd"
    and inv :: "'m \<Rightarrow> bool"
    and may :: "'c \<Rightarrow> 'm \<Rightarrow> bool"
  assumes exec_ok: "inv m \<Longrightarrow> may c m \<Longrightarrow> \<exists>m'. exec c m = Inr m' \<and> inv m' \<and>
      past m' = past m @ [c] \<and> future m' = [] \<and> content m' = apply_c c (content m)"
    and undo_ok: "inv m \<Longrightarrow> past m = cs @ [c] \<Longrightarrow> \<exists>m'. undo m = Inr m' \<and> inv m' \<and>
      past m' = cs \<and> future m' = c # future m \<and> content m' = revert_c c (content m)"
    and redo_ok: "inv m \<Longrightarrow> future m = c # cs \<Longrightarrow> \<exists>m'. redo m = Inr m' \<and> inv m' \<and>
      past m' = past m @ [c] \<and> future m' = cs \<and> content m' = apply_c c (content m)"
    and undo_none: "inv m \<Longrightarrow> past m = [] \<Longrightarrow> undo m = Inr m"
    and redo_none: "inv m \<Longrightarrow> future m = [] \<Longrightarrow> redo m = Inr m"
begin

primrec undo_n :: "nat \<Rightarrow> 'm \<Rightarrow> 'm result" where
  "undo_n 0 m = Inr m"
| "undo_n (Suc n) m = bind_res (undo m) (undo_n n)"

primrec redo_n :: "nat \<Rightarrow> 'm \<Rightarrow> 'm result" where
  "redo_n 0 m = Inr m"
| "redo_n (Suc n) m = bind_res (redo m) (redo_n n)"

lemma undo_suffix:
  "inv m \<Longrightarrow> past m = old @ bs \<Longrightarrow> \<exists>m'. undo_n (length bs) m = Inr m' \<and> inv m' \<and> past m' = old \<and>
     future m' = bs @ future m \<and> content m' = fold revert_c (rev bs) (content m)"
proof (induction bs arbitrary: m rule: rev_induct)
  case Nil
  then show ?case by simp
next
  case (snoc b bs)
  then obtain m1 where m1: "undo m = Inr m1" "inv m1" "past m1 = old @ bs"
    "future m1 = b # future m" "content m1 = revert_c b (content m)"
    using undo_ok [of m "old @ bs" b] by auto
  from snoc.IH [OF m1(2,3)] m1 show ?case by auto
qed

lemma redo_prefix:
  "inv m \<Longrightarrow> future m = bs @ cs \<Longrightarrow> \<exists>m'. redo_n (length bs) m = Inr m' \<and> inv m' \<and> past m' = past m @ bs \<and>
     future m' = cs \<and> content m' = fold apply_c bs (content m)"
proof (induction bs arbitrary: m)
  case Nil
  then show ?case by simp
next
  case (Cons b bs)
  then obtain m1 where m1: "redo m = Inr m1" "inv m1" "past m1 = past m @ [b]"
    "future m1 = bs @ cs" "content m1 = apply_c b (content m)"
    using redo_ok [of m b "bs @ cs"] by auto
  from Cons.IH [OF m1(2,4)] m1 show ?case by auto
qed

lemma undo_redo:
  assumes inv: "inv m" and p: "past m = old @ bs"
    and cancel: "\<And>c d. apply_c c (revert_c c d) = d"
  shows "\<exists>m' m''. undo_n (length bs) m = Inr m' \<and> redo_n (length bs) m' = Inr m'' \<and>
           past m'' = past m \<and> future m'' = future m \<and> content m'' = content m"
proof -
  from undo_suffix [OF inv p] obtain m' where
    m': "undo_n (length bs) m = Inr m'" "inv m'" "past m' = old" "future m' = bs @ future m"
    "content m' = fold revert_c (rev bs) (content m)" by blast
  from redo_prefix [OF m'(2,4)] obtain m'' where
    m'': "redo_n (length bs) m' = Inr m''" "past m'' = past m' @ bs" "future m'' = future m"
    "content m'' = fold apply_c bs (content m')" by blast
  have "fold apply_c bs (fold revert_c (rev bs) d) = d" for d
    by (induction bs) (simp_all add: cancel)
  with m' m'' p show ?thesis by auto
qed

end

section \<open>The manager keeps the zipper\<close>

lemma max32: "(w :: u32) = UINT32_MAX \<longleftrightarrow> w + 1 = 0"
proof
  assume "w + 1 = 0"
  then have "w = - 1" by (metis add_eq_0_iff2)
  then show "w = UINT32_MAX" by (simp add: UINT32_MAX_def)
qed (simp add: UINT32_MAX_def)

lemma position_MAX: "m_historyPC m = UINT32_MAX \<longleftrightarrow> position m = 0"
  by (simp add: position_def unat_eq_0 max32)

lemma position_Suc: "m_historyPC m \<noteq> UINT32_MAX \<Longrightarrow> position m = Suc (unat (m_historyPC m))"
  by (metis max32 position_def unatSuc Suc_eq_plus1 add.commute)

lemma position_pred: "m_historyPC m \<noteq> UINT32_MAX \<Longrightarrow>
    position (m\<lparr>m_historyPC := m_historyPC m - 1\<rparr>) = position m - 1"
  using position_Suc [of m] by (simp add: position_def)

lemma position_inc: "position m < 128 \<Longrightarrow> position (m\<lparr>m_historyPC := m_historyPC m + 1\<rparr>) = Suc (position m)"
  using unat_plus_1 [of "m_historyPC m + 1"] by (simp add: position_def)

lemma size_pred: "0 < n \<Longrightarrow> n \<le> 128 \<Longrightarrow> unat ((of_nat n :: u64) - 1) = n - 1"
  by (subst of_nat_pred) (simp, subst unat_of_nat_small, simp_all)

lemma unat_ucast_u64: "unat (ucast (w :: u32) :: u64) = unat w"
  by (simp add: unsigned_ucast_eq take_bit_nat_eq_self unat_u32_bound [THEN order.strict_trans])

lemma mgr_invD:
  assumes "mgr_inv m"
  shows "m_commands m = []" "m_maxHistorySize m = 128" "length (m_history m) \<le> 128"
    "position m \<le> length (m_history m)" "distinct (m_history m)"
    "\<And>i. i < length (m_history m) \<Longrightarrow> \<exists>c. m_history m ! i = Some c \<and> c \<in> alive m"
  using assms nth_mem unfolding mgr_inv_def by fast+

lemma done_snoc:
  assumes "mgr_inv m" "done_cmds m = cs @ [c]"
  shows "0 < position m" "position m - 1 < length (m_history m)"
    "m_history m ! (position m - 1) = Some c" "c \<in> alive m"
    "map the (take (position m - 1) (m_history m)) = cs"
proof -
  have l: "length (done_cmds m) = position m"
    using mgr_invD(4) [OF assms(1)] by (simp add: done_cmds_def)
  then show p: "0 < position m" using assms(2) by simp
  then show i: "position m - 1 < length (m_history m)" using mgr_invD(4) [OF assms(1)] by simp
  have t: "take (position m) (m_history m) =
      take (position m - 1) (m_history m) @ [m_history m ! (position m - 1)]"
    using i p by (metis Suc_diff_1 take_Suc_conv_app_nth)
  from mgr_invD(6) [OF assms(1) i] obtain d where d: "m_history m ! (position m - 1) = Some d"
    "d \<in> alive m" by blast
  with t assms(2) show "m_history m ! (position m - 1) = Some c" "c \<in> alive m"
    "map the (take (position m - 1) (m_history m)) = cs"
    by (auto simp: done_cmds_def)
qed

lemma undone_Cons:
  assumes "mgr_inv m" "undone_cmds m = c # cs"
  shows "position m < length (m_history m)" "m_history m ! position m = Some c" "c \<in> alive m"
    "map the (drop (Suc (position m)) (m_history m)) = cs"
proof -
  show i: "position m < length (m_history m)"
    using assms(2) by (auto simp: undone_cmds_def intro: ccontr)
  from mgr_invD(6) [OF assms(1) i] obtain d where d: "m_history m ! position m = Some d"
    "d \<in> alive m" by blast
  with assms(2) Cons_nth_drop_Suc [OF i]
  show "m_history m ! position m = Some c" "c \<in> alive m"
    "map the (drop (Suc (position m)) (m_history m)) = cs"
    by (metis list.inject list.simps(9) option.sel undone_cmds_def)+
qed

lemma mgr_undo_ok:
  assumes inv: "mgr_inv m" and d: "done_cmds m = cs @ [c]"
  shows "\<exists>m'. mgr_undo C m = Inr m' \<and> mgr_inv m' \<and> done_cmds m' = cs \<and>
           undone_cmds m' = c # undone_cmds m \<and> doc m' = snd (c_undo C c (doc m)) \<and>
           m_history m' = m_history m \<and> position m' = position m - 1"
proof -
  note I = mgr_invD [OF inv] and S = done_snoc [OF inv d]
  have nm: "m_historyPC m \<noteq> UINT32_MAX" using S(1) position_MAX by (metis less_numeral_extra(3))
  note p = position_Suc [OF nm]
  have small: "\<not> of_nat (length (m_history m)) \<le> (ucast (m_historyPC m) :: u64)"
    using I(3,4) p by (simp add: word_le_nat_alt unat_of_nat unsigned_ucast_eq take_bit_nat_eq_self)
  obtain r d' where u: "c_undo C c (doc m) = (r, d')" by fastforce
  define m' where "m' = m\<lparr>m_historyPC := m_historyPC m - 1, m_lastCmdName := c_name C c, doc := d'\<rparr>"
  have pos: "position m' = position m - 1"
    using position_pred [OF nm] by (simp add: m'_def position_def)
  have "mgr_undo C m = Inr m'"
    using I(1) S nm small p u
    by (auto simp: mgr_undo_def mgr_Update_def mgr_Cancel_def DoCmd_def Let_def deref_def call_undo_def m'_def)
  moreover have "mgr_inv m'" using inv pos S(1) by (auto simp: mgr_inv_def m'_def)
  moreover have "done_cmds m' = cs" using S(5) pos by (simp add: done_cmds_def m'_def)
  moreover have "undone_cmds m' = c # undone_cmds m"
    using S Cons_nth_drop_Suc [OF S(2)] pos by (simp add: undone_cmds_def m'_def) (metis list.simps(9) option.sel)
  ultimately show ?thesis using u pos by (auto simp: m'_def)
qed

lemma mgr_redo_ok:
  assumes inv: "mgr_inv m" and d: "undone_cmds m = c # cs"
  shows "\<exists>m'. mgr_redo C m = Inr m' \<and> mgr_inv m' \<and> done_cmds m' = done_cmds m @ [c] \<and>
           undone_cmds m' = cs \<and> doc m' = snd (c_redo C c (doc m))"
proof -
  note I = mgr_invD [OF inv] and S = undone_Cons [OF inv d]
  have ne: "m_history m \<noteq> []" using S(1) by auto
  have go: "\<not> (of_nat (length (m_history m)) - 1 \<le> (ucast (m_historyPC m) :: u64) \<and> m_historyPC m \<noteq> UINT32_MAX)"
  proof (cases "m_historyPC m = UINT32_MAX")
    case False
    then show ?thesis using I(3) S(1) position_Suc [OF False] ne
      by (simp add: word_le_nat_alt size_pred unat_ucast_u64)
  qed simp
  have pos: "position (m\<lparr>m_historyPC := m_historyPC m + 1\<rparr>) = Suc (position m)"
    using S(1) I(3) by (intro position_inc) simp
  obtain r d' where u: "c_redo C c (doc m) = (r, d')" by fastforce
  define m' where "m' = m\<lparr>m_historyPC := m_historyPC m + 1, m_lastCmdName := c_name C c, doc := d'\<rparr>"
  have "mgr_redo C m = Inr m'"
    using I(1) S ne go u
    by (auto simp: mgr_redo_def mgr_Update_def mgr_Redo_def DoCmd_def Let_def deref_def call_redo_def m'_def
        position_def)
  moreover have pos': "position m' = Suc (position m)" using pos by (simp add: m'_def position_def)
  moreover have "mgr_inv m'" using inv pos' S(1) by (auto simp: mgr_inv_def m'_def)
  moreover have "done_cmds m' = done_cmds m @ [c]"
    using S pos' by (simp add: done_cmds_def m'_def take_Suc_conv_app_nth)
  moreover have "undone_cmds m' = cs" using S(4) pos' by (simp add: undone_cmds_def m'_def)
  ultimately show ?thesis using u by (auto simp: m'_def)
qed

lemma mgr_undo_none: "mgr_inv m \<Longrightarrow> done_cmds m = [] \<Longrightarrow> mgr_undo C m = Inr m"
  using mgr_invD [of m] position_MAX [of m]
  by (auto simp: done_cmds_def mgr_undo_def mgr_Update_def mgr_Cancel_def DoCmd_def)

lemma mgr_redo_none:
  assumes inv: "mgr_inv m" and d: "undone_cmds m = []"
  shows "mgr_redo C m = Inr m"
proof -
  note I = mgr_invD [OF inv]
  have p: "position m = length (m_history m)" using I(4) d by (simp add: undone_cmds_def)
  have "m_history m = [] \<or>
      (of_nat (length (m_history m)) - 1 \<le> (ucast (m_historyPC m) :: u64) \<and> m_historyPC m \<noteq> UINT32_MAX)"
  proof (cases "m_history m = []")
    case False
    then have nm: "m_historyPC m \<noteq> UINT32_MAX" using p position_MAX [of m] by auto
    moreover have "0 < length (m_history m)" using False by simp
    ultimately show ?thesis using I(3) p position_Suc [OF nm] nm
      by (simp add: word_le_nat_alt size_pred unat_ucast_u64)
  qed simp
  then show ?thesis using I(1)
    by (auto simp: mgr_redo_def mgr_Update_def mgr_Redo_def DoCmd_def)
qed

lemma delete_above_spec:
  assumes "i < length (m_history m)" "distinct (take (Suc i) (m_history m))"
    and "\<And>k. k \<le> i \<Longrightarrow> \<exists>c. m_history m ! k = Some c \<and> c \<in> alive m"
  shows "\<exists>h. delete_above i limit m = Inr (m\<lparr>m_history := h, alive := alive m -
           {c. \<exists>k. limit < k \<and> k \<le> i \<and> m_history m ! k = Some c}\<rparr>) \<and>
           take (Suc limit) h = take (Suc limit) (m_history m) \<and> length h = length (m_history m)"
  using assms
proof (induction i arbitrary: m)
  case 0
  have "{c. \<exists>k. limit < k \<and> k \<le> 0 \<and> m_history m ! k = Some c} = {}" by auto
  then show ?case by (intro exI [of _ "m_history m"]) simp
next
  case (Suc i)
  show ?case
  proof (cases "limit < Suc i")
    case False
    then have e: "{c. \<exists>k. limit < k \<and> k \<le> Suc i \<and> m_history m ! k = Some c} = {}" by auto
    show ?thesis unfolding e using False by (intro exI [of _ "m_history m"]) simp
  next
    case True
    obtain c where c: "m_history m ! Suc i = Some c" "c \<in> alive m" using Suc.prems(3) by blast
    define m1 where "m1 = m\<lparr>alive := alive m - {c}, m_history := (m_history m)[Suc i := None]\<rparr>"
    have dist: "m_history m ! k \<noteq> Some c" if "k \<le> i" for k
    proof
      assume "m_history m ! k = Some c"
      then have "take (Suc (Suc i)) (m_history m) ! k = take (Suc (Suc i)) (m_history m) ! Suc i"
        using c that by simp
      with nth_eq_iff_index_eq [OF Suc.prems(2), of k "Suc i"] that Suc.prems(1) show False by simp
    qed
    have "distinct (take (Suc i) (m_history m1))"
      using Suc.prems(1,2) by (simp add: m1_def take_Suc_conv_app_nth)
    moreover have "\<exists>d. m_history m1 ! k = Some d \<and> d \<in> alive m1" if "k \<le> i" for k
      using Suc.prems(3) [of k] dist [of k] that by (auto simp: m1_def)
    ultimately obtain h where h: "delete_above i limit m1 = Inr (m1\<lparr>m_history := h, alive := alive m1 -
        {d. \<exists>k. limit < k \<and> k \<le> i \<and> m_history m1 ! k = Some d}\<rparr>)"
      "take (Suc limit) h = take (Suc limit) (m_history m1)" "length h = length (m_history m1)"
      using Suc.IH [of m1] Suc.prems(1) by (auto simp: m1_def)
    have "delete_above (Suc i) limit m = delete_above i limit m1"
      using True Suc.prems(1) c by (simp add: delete_cmd_def m1_def)
    moreover have "alive m1 - {d. \<exists>k. limit < k \<and> k \<le> i \<and> m_history m1 ! k = Some d} =
        alive m - {d. \<exists>k. limit < k \<and> k \<le> Suc i \<and> m_history m ! k = Some d}"
      using c(1) True by (auto simp: m1_def le_Suc_eq)
    moreover have "take (Suc limit) (m_history m1) = take (Suc limit) (m_history m)"
      using True by (simp add: m1_def take_update_cancel)
    ultimately show ?thesis using h by (intro exI [of _ h]) (simp add: m1_def)
  qed
qed

lemma delete_all_spec:
  "distinct ps \<Longrightarrow> set ps \<subseteq> Some ` alive m \<Longrightarrow>
     delete_all ps m = Inr (m\<lparr>alive := alive m - {c. Some c \<in> set ps}\<rparr>)"
proof (induction ps arbitrary: m)
  case Nil
  then show ?case by simp
next
  case (Cons p ps)
  then obtain c where c: "p = Some c" "c \<in> alive m" by auto
  have "set ps \<subseteq> Some ` (alive m - {c})" using Cons.prems c by auto
  then have "delete_all ps (m\<lparr>alive := alive m - {c}\<rparr>) =
      Inr (m\<lparr>alive := alive m - {c} - {d. Some d \<in> set ps}\<rparr>)"
    using Cons.IH [of "m\<lparr>alive := alive m - {c}\<rparr>"] Cons.prems by simp
  moreover have "alive m - {c} - {d. Some d \<in> set ps} = alive m - {d. Some d \<in> set (p # ps)}"
    using c by auto
  ultimately show ?case using c by (simp add: delete_cmd_def)
qed

text \<open>The public \<open>Execute\<close> drops and deletes the undone commands.\<close>

definition dropped :: "'d manager \<Rightarrow> 'd manager" where
  "dropped m = m\<lparr>alive := alive m - set (undone_cmds m), m_history := take (position m) (m_history m)\<rparr>"

lemma undone_set:
  assumes "mgr_inv m"
  shows "set (undone_cmds m) = {c. \<exists>k. position m \<le> k \<and> k < length (m_history m) \<and> m_history m ! k = Some c}"
proof -
  have "c \<in> set (undone_cmds m) \<longleftrightarrow> Some c \<in> set (drop (position m) (m_history m))" for c
  proof -
    have "\<exists>d. x = Some d" if "x \<in> set (drop (position m) (m_history m))" for x
      using that mgr_invD(6) [OF assms] by (auto simp: in_set_drop_iff)
    then show ?thesis by (force simp: undone_cmds_def)
  qed
  then show ?thesis by (auto simp: in_set_drop_iff)
qed

lemma mgr_Execute_dropped:
  assumes inv: "mgr_inv m"
  shows "mgr_Execute C cmd sync m = ExecuteImpl C cmd sync (dropped m)"
proof (cases "m_historyPC m = UINT32_MAX")
  case True
  then have p0: "position m = 0" by (simp add: position_MAX)
  have "delete_all (m_history m) m = Inr (m\<lparr>alive := alive m - {c. Some c \<in> set (m_history m)}\<rparr>)"
    using inv by (intro delete_all_spec) (auto simp: mgr_inv_def)
  moreover have "set (undone_cmds m) = {c. Some c \<in> set (m_history m)}"
    using undone_set [OF inv] p0 by (auto simp: in_set_conv_nth)
  then have "dropped m = m\<lparr>alive := alive m - {c. Some c \<in> set (m_history m)}, m_history := []\<rparr>"
    using p0 by (simp add: dropped_def)
  ultimately show ?thesis using True by (simp add: mgr_Execute_def)
next
  case False
  note I = mgr_invD [OF inv] and p = position_Suc [OF False]
  have ne: "0 < length (m_history m)" using I(4) p by linarith
  have i: "unat ((of_nat (length (m_history m)) :: u32) - 1) = length (m_history m) - 1"
    using I(3) ne by (simp add: of_nat_pred unat_of_nat_small)
  have dist: "distinct (take (Suc (length (m_history m) - 1)) (m_history m))"
    using I(5) by (rule distinct_take)
  have li: "length (m_history m) - 1 < length (m_history m)" using ne by simp
  have all: "\<exists>c. m_history m ! k = Some c \<and> c \<in> alive m" if "k \<le> length (m_history m) - 1" for k
    by (rule I(6)) (use that ne in linarith)
  from delete_above_spec [OF li dist all, of "unat (m_historyPC m)"] obtain h where
    h: "delete_above (length (m_history m) - 1) (unat (m_historyPC m)) m = Inr (m\<lparr>m_history := h,
        alive := alive m - {c. \<exists>k. unat (m_historyPC m) < k \<and> k \<le> length (m_history m) - 1 \<and>
          m_history m ! k = Some c}\<rparr>)"
      "take (position m) h = take (position m) (m_history m)" "length h = length (m_history m)"
    unfolding p by blast
  have "{c. \<exists>k. unat (m_historyPC m) < k \<and> k \<le> length (m_history m) - 1 \<and> m_history m ! k = Some c} =
      set (undone_cmds m)"
    using undone_set [OF inv] p ne by (auto simp: Suc_le_eq)
  moreover have "vec_resize (position m) h = take (position m) (m_history m)"
    using h(2,3) I(4) by (simp add: vec_resize_def)
  ultimately show ?thesis
    using False h(1) i by (simp add: mgr_Execute_def dropped_def position_def)
qed

lemma mgr_inv_dropped:
  assumes inv: "mgr_inv m"
  shows "mgr_inv (dropped m) \<and> done_cmds (dropped m) = done_cmds m \<and> undone_cmds (dropped m) = [] \<and>
         position (dropped m) = position m \<and> length (m_history (dropped m)) = position m"
proof -
  note I = mgr_invD [OF inv]
  have pos: "position (dropped m) = position m" by (simp add: dropped_def position_def)
  have "Some c \<in> set (take (position m) (m_history m)) \<Longrightarrow> c \<notin> set (undone_cmds m)" for c
  proof -
    assume a: "Some c \<in> set (take (position m) (m_history m))"
    have "set (take (position m) (m_history m)) \<inter> set (drop (position m) (m_history m)) = {}"
      using I(5) by (rule set_take_disj_set_drop_if_distinct) simp
    with a have "Some c \<notin> set (drop (position m) (m_history m))" by blast
    then show ?thesis using undone_set [OF inv] by (auto simp: in_set_drop_iff)
  qed
  then have "set (take (position m) (m_history m)) \<subseteq> Some ` (alive m - set (undone_cmds m))"
    using inv set_take_subset [of "position m" "m_history m"] by (fastforce simp: mgr_inv_def)
  then have "mgr_inv (dropped m)"
    using I pos by (simp add: mgr_inv_def dropped_def)
  with I(4) pos show ?thesis
    by (simp add: dropped_def done_cmds_def undone_cmds_def min_def)
qed

lemma exec_cmd_room:
  assumes inv: "mgr_inv m" and full: "length (m_history m) = position m" and room: "position m < 128"
    and c: "c \<in> alive m" "Some c \<notin> set (m_history m)"
  shows "\<exists>r m'. exec_cmd C (Some c) m = Inr (r, m') \<and> mgr_inv m' \<and> done_cmds m' = done_cmds m @ [c] \<and>
           undone_cmds m' = [] \<and> doc m' = snd (c_redo C c (doc m)) \<and> alive m' = alive m"
proof -
  note I = mgr_invD [OF inv]
  obtain r d' where u: "c_redo C c (doc m) = (r, d')" by fastforce
  define m' where "m' = m\<lparr>m_history := m_history m @ [Some c], m_historyPC := m_historyPC m + 1,
      m_lastCmdName := c_name C c, doc := d'\<rparr>"
  have prune: "(if m_historyPC m \<noteq> UINT32_MAX then prune_loop m else Inr m) = Inr m"
  proof (cases "m_historyPC m = UINT32_MAX")
    case False
    have p: "position m = Suc (unat (m_historyPC m))" by (rule position_Suc [OF False])
    then have "unat ((of_nat (length (m_history m)) :: u64) - 1) = unat (ucast (m_historyPC m) :: u64)"
      using full I(3) by (subst size_pred) (auto simp: unat_ucast_u64)
    then show ?thesis by (subst prune_loop.simps) (simp add: word_unat_eq_iff)
  qed simp
  have "unat (m_historyPC m + 1) < 128" using room by (simp add: position_def)
  then have small: "\<not> m_maxHistorySize m \<le> m_historyPC m + 1" using I(2) by (simp add: word_le_nat_alt)
  have "exec_cmd C (Some c) m = Inr (r, m')"
    unfolding exec_cmd_def prune using small c(1) u
    by (simp add: Let_def deref_def call_redo_def m'_def)
  moreover have pos: "position m' = Suc (position m)"
    using position_inc [OF room] by (simp add: m'_def position_def)
  moreover have "mgr_inv m'" using inv pos full room c by (auto simp: mgr_inv_def m'_def)
  moreover have "done_cmds m' = done_cmds m @ [c]" "undone_cmds m' = []"
    using pos full by (simp_all add: done_cmds_def undone_cmds_def m'_def)
  ultimately show ?thesis using u by (auto simp: m'_def)
qed

text \<open>A command may be executed when there is room in the history and it is a live object that is
  not in the history already.\<close>

definition may_exec :: "nat \<Rightarrow> 'd manager \<Rightarrow> bool" where
  "may_exec c m \<longleftrightarrow> position m < 128 \<and> c \<in> alive m \<and> Some c \<notin> set (m_history m)"

lemma mgr_do_ok:
  assumes inv: "mgr_inv m" and may: "may_exec c m"
  shows "\<exists>m'. mgr_do C c m = Inr m' \<and> mgr_inv m' \<and> done_cmds m' = done_cmds m @ [c] \<and>
           undone_cmds m' = [] \<and> doc m' = snd (c_redo C c (doc m)) \<and>
           alive m' = alive m - set (undone_cmds m)"
proof -
  note D = mgr_inv_dropped [OF inv]
  have "c \<notin> set (undone_cmds m)" using may undone_set [OF inv] nth_mem by (fastforce simp: may_exec_def)
  then have c: "c \<in> alive (dropped m)" "Some c \<notin> set (m_history (dropped m))"
    using may by (auto simp: may_exec_def dropped_def dest: in_set_takeD)
  have "mgr_inv (dropped m)" "length (m_history (dropped m)) = position (dropped m)"
    "position (dropped m) < 128" using D may by (auto simp: may_exec_def)
  from exec_cmd_room [OF this c, of C] obtain r m' where
    m': "exec_cmd C (Some c) (dropped m) = Inr (r, m')" "mgr_inv m'"
      "done_cmds m' = done_cmds (dropped m) @ [c]" "undone_cmds m' = []"
      "doc m' = snd (c_redo C c (doc (dropped m)))" "alive m' = alive (dropped m)" by blast
  have idle: "m_commands m = []" by (rule mgr_invD(1) [OF inv])
  then have q: "m_commands (dropped m) = []" "drain C [] (dropped m) = Inr (dropped m)"
    by (simp_all add: dropped_def)
  have "mgr_Execute C (Some c) Sync m = Inr (r, m')"
    using m'(1) by (simp only: mgr_Execute_dropped [OF inv] ExecuteImpl_def sync_type.case q
        bind_res_Inr DoCmd_def snd_conv fst_conv cmd_type.case)
  then have "mgr_do C c m = Inr m'" by (simp add: mgr_do_def)
  with m' D show ?thesis by (simp add: dropped_def)
qed

interpretation cmd_history: undo_history "mgr_do C" "mgr_undo C" "mgr_redo C" done_cmds undone_cmds doc
  "\<lambda>c d. snd (c_redo C c d)" "\<lambda>c d. snd (c_undo C c d)" mgr_inv may_exec for C
proof unfold_locales
  fix m :: "'a manager" and c cs
  show "mgr_inv m \<Longrightarrow> may_exec c m \<Longrightarrow> \<exists>m'. mgr_do C c m = Inr m' \<and> mgr_inv m' \<and>
      done_cmds m' = done_cmds m @ [c] \<and> undone_cmds m' = [] \<and> doc m' = snd (c_redo C c (doc m))"
    by (drule (1) mgr_do_ok [of m c C]) blast
  show "mgr_inv m \<Longrightarrow> done_cmds m = cs @ [c] \<Longrightarrow> \<exists>m'. mgr_undo C m = Inr m' \<and> mgr_inv m' \<and>
      done_cmds m' = cs \<and> undone_cmds m' = c # undone_cmds m \<and> doc m' = snd (c_undo C c (doc m))"
    by (drule (1) mgr_undo_ok [of m cs c C]) blast
  show "mgr_inv m \<Longrightarrow> undone_cmds m = c # cs \<Longrightarrow> \<exists>m'. mgr_redo C m = Inr m' \<and> mgr_inv m' \<and>
      done_cmds m' = done_cmds m @ [c] \<and> undone_cmds m' = cs \<and> doc m' = snd (c_redo C c (doc m))"
    by (rule mgr_redo_ok)
  show "mgr_inv m \<Longrightarrow> done_cmds m = [] \<Longrightarrow> mgr_undo C m = Inr m" by (rule mgr_undo_none)
  show "mgr_inv m \<Longrightarrow> undone_cmds m = [] \<Longrightarrow> mgr_redo C m = Inr m" by (rule mgr_redo_none)
qed

section \<open>Properties\<close>

text \<open>With an empty queue and room in the history, \<open>Execute\<close> runs the command once, puts it on
  top of the done commands, forgets what could have been redone and deletes exactly those commands.\<close>

theorem cmd_manager_execute:
  assumes "mgr_inv m" and "may_exec c m"
  shows "\<exists>r m'. mgr_Execute C (Some c) Sync m = Inr (r, m') \<and> mgr_inv m' \<and>
           done_cmds m' = done_cmds m @ [c] \<and> undone_cmds m' = [] \<and>
           doc m' = snd (c_redo C c (doc m)) \<and> alive m' = alive m - set (undone_cmds m)"
  using mgr_do_ok [OF assms, of C] by (fastforce simp: mgr_do_def bind_res_eq_Inr)

definition add_class :: "int command_class" where
  "add_class = \<lparr>c_redo = (\<lambda>c d. (True, d + int c)), c_undo = (\<lambda>c d. (True, d - int c)), c_name = (\<lambda>c. ''add'')\<rparr>"

definition mgr_sample :: "int manager" where
  "mgr_sample = \<lparr>m_commands = [], m_history = [Some 3, Some 4], m_historyPC = 1,
     m_maxHistorySize = 128, m_lastCmdName = ''add'', alive = {3, 4, 5}, doc = 107\<rparr>"

lemma mgr_sample_inv: "mgr_inv mgr_sample" "may_exec 5 mgr_sample"
  "done_cmds mgr_sample = [3, 4]" "undone_cmds mgr_sample = []"
  by (simp_all add: mgr_inv_def mgr_sample_def may_exec_def position_def done_cmds_def undone_cmds_def)

theorem cmd_manager_execute_witness:
  "\<exists>r m'. mgr_Execute add_class (Some 5) Sync mgr_sample = Inr (r, m') \<and> done_cmds m' = [3, 4, 5] \<and>
     doc m' = 112"
  using cmd_manager_execute [OF mgr_sample_inv(1,2), of add_class] mgr_sample_inv
  by (auto simp: add_class_def mgr_sample_def)



text \<open>\<open>Cancel\<close> and then \<open>Update\<close> takes the last done command back and makes it the next to redo.\<close>

theorem cmd_manager_cancel:
  assumes "mgr_inv m" and "done_cmds m = cs @ [c]"
  shows "\<exists>m'. mgr_Update C (snd (mgr_Cancel m)) = Inr m' \<and> mgr_inv m' \<and> done_cmds m' = cs \<and>
           undone_cmds m' = c # undone_cmds m \<and> doc m' = snd (c_undo C c (doc m))"
  using cmd_history.undo_ok [OF assms, of C] by (simp add: mgr_undo_def)

theorem cmd_manager_cancel_witness:
  "\<exists>m'. mgr_Update add_class (snd (mgr_Cancel mgr_sample)) = Inr m' \<and> done_cmds m' = [3] \<and> doc m' = 103"
  using cmd_manager_cancel [of mgr_sample "[3]" 4 add_class] mgr_sample_inv
  by (auto simp: add_class_def mgr_sample_def)

text \<open>A history that is full breaks undo: the 129th command pushes the first one out but
  \<open>m_historyPC\<close> is not moved back, so it stays past the end, and \<open>Cancel\<close> leaves the document as it is,
  although 128 commands could be undone.\<close>

theorem cmd_manager_overflow_breaks_undo:
  assumes "mgr_inv m" and "position m = 128" and "c \<in> alive m" and "Some c \<notin> set (m_history m)"
  shows "\<exists>r m' m''. mgr_Execute C (Some c) Sync m = Inr (r, m') \<and> length (m_history m') = 128 \<and>
           doc m' = snd (c_redo C c (doc m)) \<and>
           mgr_Update C (snd (mgr_Cancel m')) = Inr m'' \<and> doc m'' = doc m' \<and>
           m_history m'' = m_history m'"
proof -
  note I = mgr_invD [OF assms(1)]
  have len: "length (m_history m) = 128" using I(3,4) assms(2) by simp
  then have nil: "undone_cmds m = []" using assms(2) by (simp add: undone_cmds_def)
  have same: "dropped m = m" using len assms(2) nil by (simp add: dropped_def)
  have nm: "m_historyPC m \<noteq> UINT32_MAX" using assms(2) position_MAX [of m] by auto
  have pc: "unat (m_historyPC m) = 127" using position_Suc [OF nm] assms(2) by simp
  then have pc': "m_historyPC m = 127" by (simp add: word_unat_eq_iff)
  have prune: "prune_loop m = Inr m"
    by (subst prune_loop.simps) (simp add: pc' len)
  obtain p ps where h: "m_history m = p # ps" using len by (cases "m_history m") auto
  then obtain b where b: "p = Some b" "b \<in> alive m" using I(6) [of 0] by auto
  have "c \<noteq> b" using assms(4) h b by auto
  obtain r d' where u: "c_redo C c (doc m) = (r, d')" by fastforce
  define m' where "m' = m\<lparr>m_history := ps @ [Some c], m_historyPC := 128, alive := alive m - {b},
      m_lastCmdName := c_name C c, doc := d'\<rparr>"
  have "exec_cmd C (Some c) m = Inr (r, m')"
    using prune nm pc' I(2) h b \<open>c \<noteq> b\<close> assms(3) u
    by (simp add: exec_cmd_def Let_def delete_cmd_def deref_def call_redo_def m'_def)
  moreover have "drain C [] m = Inr m" using I(1) by simp
  ultimately have x: "mgr_Execute C (Some c) Sync m = Inr (r, m')"
    using I(1) by (simp only: mgr_Execute_dropped [OF assms(1)] same ExecuteImpl_def sync_type.case
        bind_res_Inr DoCmd_def snd_conv fst_conv cmd_type.case)
  have l': "length (m_history m') = 128" using len h by (simp add: m'_def)
  have "DoCmd C (None, CmdUndo) (snd (mgr_Cancel m')) = Inr (False, snd (mgr_Cancel m'))"
    using len h by (simp add: DoCmd_def mgr_Cancel_def m'_def UINT32_MAX_def)
  then have "mgr_Update C (snd (mgr_Cancel m')) = Inr ((snd (mgr_Cancel m'))\<lparr>m_commands := []\<rparr>)"
    using I(1) by (simp add: mgr_Update_def mgr_Cancel_def m'_def)
  with x l' u show ?thesis by (auto simp: m'_def mgr_Cancel_def)
qed

definition mgr_full :: "int manager" where
  "mgr_full = \<lparr>m_commands = [], m_history = map Some [0..<128], m_historyPC = 127,
     m_maxHistorySize = 128, m_lastCmdName = ''add'', alive = {0..128}, doc = 0\<rparr>"

theorem cmd_manager_overflow_breaks_undo_witness:
  "\<exists>r m' m''. mgr_Execute add_class (Some 128) Sync mgr_full = Inr (r, m') \<and>
     mgr_Update add_class (snd (mgr_Cancel m')) = Inr m'' \<and> doc m'' = 128"
proof -
  have "mgr_inv mgr_full"
    by (auto simp: mgr_inv_def mgr_full_def position_def distinct_map)
  moreover have "position mgr_full = 128" "128 \<in> alive mgr_full" "Some 128 \<notin> set (m_history mgr_full)"
    by (auto simp: mgr_full_def position_def)
  ultimately obtain r m' m'' where
    "mgr_Execute add_class (Some 128) Sync mgr_full = Inr (r, m')"
    "doc m' = snd (c_redo add_class 128 (doc mgr_full))"
    "mgr_Update add_class (snd (mgr_Cancel m')) = Inr m''" "doc m'' = doc m'"
    using cmd_manager_overflow_breaks_undo by blast
  then show ?thesis by (auto simp: add_class_def mgr_full_def)
qed

text \<open>Executing while an undo of the only command is still queued loses track of the history: the
  undone command is not dropped, \<open>m_historyPC\<close> points to it instead of the new command, and the
  next undo takes the old command back a second time.\<close>

theorem cmd_manager_queued_undo_confuses:
  "let m = mgr_new {3, 5} (100 :: int) in
   bind_res (mgr_Execute add_class (Some 3) Sync m) (\<lambda>(r, m).
   bind_res (mgr_Execute add_class (Some 5) Sync (snd (mgr_Cancel m))) (\<lambda>(r, m).
   bind_res (mgr_undo add_class m) (\<lambda>m'. Inr (doc m, m_history m, doc m'))))
   = Inr (105, [Some 3, Some 5], 102)"
  by (simp add: mgr_new_def mgr_Execute_def ExecuteImpl_def DoCmd_def exec_cmd_def mgr_Cancel_def
      mgr_undo_def mgr_Update_def UINT32_MAX_def deref_def call_redo_def call_undo_def add_class_def
      vec_resize_def Let_def)

text \<open>Undoing a group of commands after doing it restores the document when that holds of each
  member: the group undoes them in the opposite order.\<close>

theorem group_undo_redo:
  assumes "\<And>c d. c \<in> set cs \<Longrightarrow> snd (c_undo C c (snd (c_redo C c d))) = d"
  shows "snd (group_Undo C cs (snd (group_Redo C cs d))) = d"
proof -
  have append: "group_undo C (xs @ ys) (length xs) d = group_undo C xs (length xs) d" for xs ys d
  proof -
    have "n \<le> length xs \<Longrightarrow> group_undo C (xs @ ys) n d = group_undo C xs n d" for n
      by (induction n arbitrary: d) (auto simp: nth_append)
    then show ?thesis by simp
  qed
  have redo_snoc: "group_redo C (xs @ [c]) d = snd (c_redo C c (group_redo C xs d))" for xs c d
    by (induction xs arbitrary: d) auto
  have "group_undo C cs (length cs) (group_redo C cs d) = d"
    using assms
  proof (induction cs rule: rev_induct)
    case Nil
    then show ?case by simp
  next
    case (snoc c cs)
    then show ?case using append [of cs "[c]"] by (simp add: redo_snoc nth_append)
  qed
  then show ?thesis by (simp add: group_Undo_def group_Redo_def)
qed

theorem group_undo_redo_witness: "snd (group_Undo add_class [3, 4] (snd (group_Redo add_class [3, 4] 7))) = 7"
  by (rule group_undo_redo) (simp add: add_class_def)

end
