(* ===== verification/SR_Hashes.thy ===== *)
theory SR_Hashes
  imports SR_Prelude
begin

unbundle bit_operations_syntax

text \<open>
  The hash functions of inc/Utils/Common/Hashes.h: the table-driven CRC-32 in its run-time and
  compile-time forms, and FNV-1a in the forms \<open>ComputeHash\<close>, \<open>Encoder\<close> and
  \<open>FNV1AAppendBytes\<close>, with the combination of hashes. A C string is the list of its bytes with the
  terminating 0; \<open>char\<close> is signed, so a byte is sign-extended where the code uses it as \<open>int\<close>.

  The lemmas relate the table to the generator polynomial and the forms to each other.
\<close>

section \<open>CRC-32\<close>

definition crc_table :: "u32 list" where
  "crc_table = [
     0x00000000, 0x77073096, 0xee0e612c, 0x990951ba, 0x076dc419, 0x706af48f,
     0xe963a535, 0x9e6495a3, 0x0edb8832, 0x79dcb8a4, 0xe0d5e91e, 0x97d2d988,
     0x09b64c2b, 0x7eb17cbd, 0xe7b82d07, 0x90bf1d91, 0x1db71064, 0x6ab020f2,
     0xf3b97148, 0x84be41de, 0x1adad47d, 0x6ddde4eb, 0xf4d4b551, 0x83d385c7,
     0x136c9856, 0x646ba8c0, 0xfd62f97a, 0x8a65c9ec, 0x14015c4f, 0x63066cd9,
     0xfa0f3d63, 0x8d080df5, 0x3b6e20c8, 0x4c69105e, 0xd56041e4, 0xa2677172,
     0x3c03e4d1, 0x4b04d447, 0xd20d85fd, 0xa50ab56b, 0x35b5a8fa, 0x42b2986c,
     0xdbbbc9d6, 0xacbcf940, 0x32d86ce3, 0x45df5c75, 0xdcd60dcf, 0xabd13d59,
     0x26d930ac, 0x51de003a, 0xc8d75180, 0xbfd06116, 0x21b4f4b5, 0x56b3c423,
     0xcfba9599, 0xb8bda50f, 0x2802b89e, 0x5f058808, 0xc60cd9b2, 0xb10be924,
     0x2f6f7c87, 0x58684c11, 0xc1611dab, 0xb6662d3d, 0x76dc4190, 0x01db7106,
     0x98d220bc, 0xefd5102a, 0x71b18589, 0x06b6b51f, 0x9fbfe4a5, 0xe8b8d433,
     0x7807c9a2, 0x0f00f934, 0x9609a88e, 0xe10e9818, 0x7f6a0dbb, 0x086d3d2d,
     0x91646c97, 0xe6635c01, 0x6b6b51f4, 0x1c6c6162, 0x856530d8, 0xf262004e,
     0x6c0695ed, 0x1b01a57b, 0x8208f4c1, 0xf50fc457, 0x65b0d9c6, 0x12b7e950,
     0x8bbeb8ea, 0xfcb9887c, 0x62dd1ddf, 0x15da2d49, 0x8cd37cf3, 0xfbd44c65,
     0x4db26158, 0x3ab551ce, 0xa3bc0074, 0xd4bb30e2, 0x4adfa541, 0x3dd895d7,
     0xa4d1c46d, 0xd3d6f4fb, 0x4369e96a, 0x346ed9fc, 0xad678846, 0xda60b8d0,
     0x44042d73, 0x33031de5, 0xaa0a4c5f, 0xdd0d7cc9, 0x5005713c, 0x270241aa,
     0xbe0b1010, 0xc90c2086, 0x5768b525, 0x206f85b3, 0xb966d409, 0xce61e49f,
     0x5edef90e, 0x29d9c998, 0xb0d09822, 0xc7d7a8b4, 0x59b33d17, 0x2eb40d81,
     0xb7bd5c3b, 0xc0ba6cad, 0xedb88320, 0x9abfb3b6, 0x03b6e20c, 0x74b1d29a,
     0xead54739, 0x9dd277af, 0x04db2615, 0x73dc1683, 0xe3630b12, 0x94643b84,
     0x0d6d6a3e, 0x7a6a5aa8, 0xe40ecf0b, 0x9309ff9d, 0x0a00ae27, 0x7d079eb1,
     0xf00f9344, 0x8708a3d2, 0x1e01f268, 0x6906c2fe, 0xf762575d, 0x806567cb,
     0x196c3671, 0x6e6b06e7, 0xfed41b76, 0x89d32be0, 0x10da7a5a, 0x67dd4acc,
     0xf9b9df6f, 0x8ebeeff9, 0x17b7be43, 0x60b08ed5, 0xd6d6a3e8, 0xa1d1937e,
     0x38d8c2c4, 0x4fdff252, 0xd1bb67f1, 0xa6bc5767, 0x3fb506dd, 0x48b2364b,
     0xd80d2bda, 0xaf0a1b4c, 0x36034af6, 0x41047a60, 0xdf60efc3, 0xa867df55,
     0x316e8eef, 0x4669be79, 0xcb61b38c, 0xbc66831a, 0x256fd2a0, 0x5268e236,
     0xcc0c7795, 0xbb0b4703, 0x220216b9, 0x5505262f, 0xc5ba3bbe, 0xb2bd0b28,
     0x2bb45a92, 0x5cb36a04, 0xc2d7ffa7, 0xb5d0cf31, 0x2cd99e8b, 0x5bdeae1d,
     0x9b64c2b0, 0xec63f226, 0x756aa39c, 0x026d930a, 0x9c0906a9, 0xeb0e363f,
     0x72076785, 0x05005713, 0x95bf4a82, 0xe2b87a14, 0x7bb12bae, 0x0cb61b38,
     0x92d28e9b, 0xe5d5be0d, 0x7cdcefb7, 0x0bdbdf21, 0x86d3d2d4, 0xf1d4e242,
     0x68ddb3f8, 0x1fda836e, 0x81be16cd, 0xf6b9265b, 0x6fb077e1, 0x18b74777,
     0x88085ae6, 0xff0f6a70, 0x66063bca, 0x11010b5c, 0x8f659eff, 0xf862ae69,
     0x616bffd3, 0x166ccf45, 0xa00ae278, 0xd70dd2ee, 0x4e048354, 0x3903b3c2,
     0xa7672661, 0xd06016f7, 0x4969474d, 0x3e6e77db, 0xaed16a4a, 0xd9d65adc,
     0x40df0b66, 0x37d83bf0, 0xa9bcae53, 0xdebb9ec5, 0x47b2cf7f, 0x30b5ffe9,
     0xbdbdf21c, 0xcabac28a, 0x53b39330, 0x24b4a3a6, 0xbad03605, 0xcdd70693,
     0x54de5729, 0x23d967bf, 0xb3667a2e, 0xc4614ab8, 0x5d681b02, 0x2a6f2b94,
     0xb40bbe37, 0xc30c8ea1, 0x5a05df1b, 0x2d02ef8d]"

definition crc_step :: "u32 \<Rightarrow> u8 \<Rightarrow> u32" where
  "crc_step crc c = drop_bit 8 crc XOR crc_table ! unat ((crc XOR scast c) AND 0xFF)"

text \<open>The template recursion over the characters of a literal.\<close>

fun mm_crc32 :: "u8 list \<Rightarrow> u32 \<Rightarrow> u32" where
  "mm_crc32 [] prev_crc = prev_crc XOR 0xFFFFFFFF"
| "mm_crc32 (c # cs) prev_crc = mm_crc32 cs (crc_step prev_crc c)"

definition compile_time_crc32 :: "u8 list \<Rightarrow> u32" where
  "compile_time_crc32 str = mm_crc32 str 0xFFFFFFFF"

text \<open>The run-time loop stops at the first 0 byte; a string without one is read past its end.\<close>

fun crc32_loop :: "u8 list \<Rightarrow> u32 \<Rightarrow> u32 result" where
  "crc32_loop [] crc = Inl OutOfRange"
| "crc32_loop (c # cs) crc = (if c = 0 then Inr (NOT crc) else crc32_loop cs (crc_step crc c))"

definition crc32 :: "u8 list \<Rightarrow> u32 result" where
  "crc32 input = crc32_loop input 0xFFFFFFFF"

section \<open>FNV-1a\<close>

definition InitialHash :: u64 where
  "InitialHash = 0xcbf29ce484222325"

definition MagicPrime :: u64 where
  "MagicPrime = 0x100000001b3"

fun encode_char :: "u64 \<Rightarrow> u8 list \<Rightarrow> u64" where
  "encode_char hash [] = hash"
| "encode_char hash (c # cs) = encode_char ((hash XOR ucast c) * MagicPrime) cs"

definition ComputeHashConstexpr :: "u8 list \<Rightarrow> u64" where
  "ComputeHashConstexpr text = encode_char InitialHash text"

fun compute_hash_loop :: "u8 list \<Rightarrow> u64 \<Rightarrow> u64 result" where
  "compute_hash_loop [] hash = Inl OutOfRange"
| "compute_hash_loop (c # cs) hash =
     (if c = 0 then Inr hash else compute_hash_loop cs ((hash XOR ucast c) * MagicPrime))"

definition ComputeHash_cstr :: "u8 list \<Rightarrow> u64 result" where
  "ComputeHash_cstr text = compute_hash_loop text InitialHash"

definition ComputeHash :: "u8 list \<Rightarrow> u64" where
  "ComputeHash text = foldl (\<lambda>hash i. (hash XOR ucast i) * MagicPrime) InitialHash text"

definition SR_FNV_OFFSET_BASIS :: u64 where
  "SR_FNV_OFFSET_BASIS = 14695981039346656037"

definition SR_FNV_PRIME :: u64 where
  "SR_FNV_PRIME = 1099511628211"

fun FNV1AAppendBytes :: "u64 \<Rightarrow> u8 list \<Rightarrow> u64" where
  "FNV1AAppendBytes val [] = val"
| "FNV1AAppendBytes val (b # bs) = FNV1AAppendBytes ((val XOR ucast b) * SR_FNV_PRIME) bs"

text \<open>\<open>FNV1AAppendValue\<close> and \<open>HashArrayRepresentation\<close> hash the bytes of an object or an array.\<close>

definition HashArrayRepresentation :: "u8 list \<Rightarrow> u64" where
  "HashArrayRepresentation bytes = FNV1AAppendBytes SR_FNV_OFFSET_BASIS bytes"

text \<open>\<open>SR_HASH_STR\<close> and \<open>SR_HASH_STR_VIEW\<close>: the hash of the characters of a string.\<close>

definition hash_str :: "u8 list \<Rightarrow> u64" where
  "hash_str s = HashArrayRepresentation s"

text \<open>\<open>+\<close> binds stronger than \<open>^\<close> in the code.\<close>

definition HashCombine :: "u64 \<Rightarrow> u64 \<Rightarrow> u64" where
  "HashCombine calculated hash =
     hash XOR (calculated + 0x9e3779b9 + push_bit 6 hash + drop_bit 2 hash)"

definition CombineTwoHashes :: "u64 \<Rightarrow> u64 \<Rightarrow> u64" where
  "CombineTwoHashes hash1 hash2 =
     hash2 XOR (hash1 + 0x9e3779b9 + push_bit 6 hash2 + drop_bit 2 hash2)"

section \<open>The table is the polynomial\<close>

text \<open>One bit of the reference CRC: shift right, and subtract the reflected polynomial when a one
  falls out.\<close>

definition crc_bit :: "u32 \<Rightarrow> u32" where
  "crc_bit x = drop_bit 1 x XOR (if bit x 0 then 0xEDB88320 else 0)"

definition crc_byte :: "u32 \<Rightarrow> u8 \<Rightarrow> u32" where
  "crc_byte crc c = (crc_bit ^^ 8) (crc XOR ucast c)"

definition crc32_ref :: "u8 list \<Rightarrow> u32" where
  "crc32_ref s = NOT (foldl crc_byte 0xFFFFFFFF s)"

lemma length_crc_table [simp]: "length crc_table = 256"
  by (simp add: crc_table_def)

text \<open>The table is linear over exclusive or, so its first entries and those at the powers of two
  determine it.\<close>

lemma crc_bit_xor: "crc_bit (x XOR y) = crc_bit x XOR crc_bit y"
  by (auto simp: crc_bit_def drop_bit_xor bit_xor_iff ac_simps xor_self_eq)

lemma crc_bits_xor: "(crc_bit ^^ n) (x XOR y) = (crc_bit ^^ n) x XOR (crc_bit ^^ n) y"
  by (induction n) (simp_all add: crc_bit_xor)

lemma table_doubles:
  "map (\<lambda>x. crc_table ! (2 ^ 0) XOR x) (take (2 ^ 0) crc_table) = take (2 ^ 0) (drop (2 ^ 0) crc_table)"
  "map (\<lambda>x. crc_table ! (2 ^ 1) XOR x) (take (2 ^ 1) crc_table) = take (2 ^ 1) (drop (2 ^ 1) crc_table)"
  "map (\<lambda>x. crc_table ! (2 ^ 2) XOR x) (take (2 ^ 2) crc_table) = take (2 ^ 2) (drop (2 ^ 2) crc_table)"
  "map (\<lambda>x. crc_table ! (2 ^ 3) XOR x) (take (2 ^ 3) crc_table) = take (2 ^ 3) (drop (2 ^ 3) crc_table)"
  "map (\<lambda>x. crc_table ! (2 ^ 4) XOR x) (take (2 ^ 4) crc_table) = take (2 ^ 4) (drop (2 ^ 4) crc_table)"
  "map (\<lambda>x. crc_table ! (2 ^ 5) XOR x) (take (2 ^ 5) crc_table) = take (2 ^ 5) (drop (2 ^ 5) crc_table)"
  "map (\<lambda>x. crc_table ! (2 ^ 6) XOR x) (take (2 ^ 6) crc_table) = take (2 ^ 6) (drop (2 ^ 6) crc_table)"
  "map (\<lambda>x. crc_table ! (2 ^ 7) XOR x) (take (2 ^ 7) crc_table) = take (2 ^ 7) (drop (2 ^ 7) crc_table)"
  by (simp_all add: crc_table_def)

lemma crc_bit_chain:
  "crc_bit 0x80 = 0x40" "crc_bit 0x40 = 0x20" "crc_bit 0x20 = 0x10" "crc_bit 0x10 = 0x8" "crc_bit
  0x8 = 0x4" "crc_bit 0x4 = 0x2" "crc_bit 0x2 = 1" "crc_bit 1 = 0xedb88320" "crc_bit 0xedb88320 =
  0x76dc4190" "crc_bit 0x76dc4190 = 0x3b6e20c8" "crc_bit 0x3b6e20c8 = 0x1db71064" "crc_bit
  0x1db71064 = 0xedb8832" "crc_bit 0xedb8832 = 0x76dc419" "crc_bit 0x76dc419 = 0xee0e612c"
  "crc_bit 0xee0e612c = 0x77073096"
  by (simp_all add: crc_bit_def)

lemma table_powers:
  "crc_table ! (2 ^ 0) = (crc_bit ^^ 8) (2 ^ 0)" "crc_table ! (2 ^ 1) = (crc_bit ^^ 8) (2 ^ 1)"
  "crc_table ! (2 ^ 2) = (crc_bit ^^ 8) (2 ^ 2)" "crc_table ! (2 ^ 3) = (crc_bit ^^ 8) (2 ^ 3)"
  "crc_table ! (2 ^ 4) = (crc_bit ^^ 8) (2 ^ 4)" "crc_table ! (2 ^ 5) = (crc_bit ^^ 8) (2 ^ 5)"
  "crc_table ! (2 ^ 6) = (crc_bit ^^ 8) (2 ^ 6)" "crc_table ! (2 ^ 7) = (crc_bit ^^ 8) (2 ^ 7)"
  by (simp_all add: crc_table_def crc_bit_chain eval_nat_numeral)

lemma table_step:
  assumes "k < 8" and "i < 2 ^ k"
  shows "crc_table ! (2 ^ k + i) = crc_table ! (2 ^ k) XOR crc_table ! i"
proof -
  have d: "map (\<lambda>x. crc_table ! (2 ^ k) XOR x) (take (2 ^ k) crc_table) =
      take (2 ^ k) (drop (2 ^ k) crc_table)"
  proof -
    consider "k = 0" | "k = 1" | "k = 2" | "k = 3" | "k = 4" | "k = 5" | "k = 6" | "k = 7"
      using assms(1) by linarith
    then show ?thesis by cases (simp_all only: table_doubles)
  qed
  have le: "2 ^ k + 2 ^ k \<le> (256 :: nat)"
  proof -
    have "(2 :: nat) ^ Suc k \<le> 2 ^ 8" using assms(1) by (intro power_increasing) auto
    then show ?thesis by simp
  qed
  have "map (\<lambda>x. crc_table ! (2 ^ k) XOR x) (take (2 ^ k) crc_table) ! i =
      take (2 ^ k) (drop (2 ^ k) crc_table) ! i" by (simp only: d)
  then show ?thesis using assms(2) le by simp
qed

lemma of_nat_xor_add:
  assumes "i < 2 ^ k"
  shows "(of_nat (2 ^ k + i) :: 'a::len word) = of_nat (2 ^ k) XOR of_nat i"
proof -
  have "2 ^ k + i = 2 ^ k XOR i"
  proof (rule disjunctive_add_eq_xor)
    have "\<not> bit i k" using assms by (simp add: bit_iff_odd)
    then show "2 ^ k AND i = 0" by (simp add: and_exp_eq_0_iff_not_bit and.commute [of "2 ^ k"])
  qed
  then show ?thesis by (simp only: of_nat_xor_eq)
qed

lemma crc_table_byte: "k \<le> 8 \<Longrightarrow> i < 2 ^ k \<Longrightarrow> crc_table ! i = (crc_bit ^^ 8) (of_nat i)"
proof (induction k arbitrary: i)
  case 0
  have "(crc_bit ^^ n) 0 = 0" for n by (induction n) (simp_all add: crc_bit_def)
  with 0 show ?case by (simp add: crc_table_def)
next
  case (Suc k)
  show ?case
  proof (cases "i < 2 ^ k")
    case True
    with Suc show ?thesis by simp
  next
    case False
    define j where "j = i - 2 ^ k"
    have j: "i = 2 ^ k + j" "j < 2 ^ k" using False Suc.prems by (auto simp: j_def)
    have p: "crc_table ! (2 ^ k) = (crc_bit ^^ 8) (of_nat (2 ^ k))"
    proof -
      consider "k = 0" | "k = 1" | "k = 2" | "k = 3" | "k = 4" | "k = 5" | "k = 6" | "k = 7"
        using Suc.prems(1) by linarith
      then show ?thesis using table_powers by cases simp_all
    qed
    have "crc_table ! i = crc_table ! (2 ^ k) XOR crc_table ! j"
      unfolding j(1) by (rule table_step) (use Suc.prems j in auto)
    also have "\<dots> = (crc_bit ^^ 8) (of_nat (2 ^ k) XOR of_nat j)"
      using Suc.IH [OF _ j(2)] Suc.prems(1) p by (simp add: crc_bits_xor)
    finally show ?thesis by (simp only: j(1) of_nat_xor_add [OF j(2)])
  qed
qed

lemma low_byte_split: "(x :: u32) = (x AND 0xFF) XOR (push_bit 8 (drop_bit 8 x))"
proof -
  have "bit x n = bit ((x AND mask 8) XOR push_bit 8 (drop_bit 8 x)) n" if "n < 32" for n
    using that by (cases "n < 8") (auto simp: bit_simps)
  then have "x = (x AND mask 8) XOR push_bit 8 (drop_bit 8 x)"
    by (intro bit_eqI) auto
  then show ?thesis by (simp add: mask_eq_exp_minus_1)
qed

lemma crc_bits_high: "n \<le> 8 \<Longrightarrow> (crc_bit ^^ n) (push_bit 8 y) = drop_bit n (push_bit 8 (y :: u32))"
proof (induction n)
  case 0
  then show ?case by simp
next
  case (Suc n)
  then have "\<not> bit (drop_bit n (push_bit 8 y)) 0" by (simp add: bit_simps)
  with Suc show ?case by (simp add: crc_bit_def)
qed

lemma byte_sext: "(scast (c :: u8) :: u32) AND 0xFF = ucast c"
proof -
  have "bit ((scast c :: u32) AND mask 8) n = bit (ucast c :: u32) n" if "n < 32" for n
    using that by (cases "n < 8") (auto simp: bit_simps dest: bit_imp_le_length)
  then have "(scast c :: u32) AND mask 8 = ucast c" by (intro bit_eqI) auto
  then show ?thesis by (simp add: mask_eq_exp_minus_1)
qed

lemma crc_step_byte: "crc_step crc c = crc_byte crc c"
proof -
  define x where "x = crc XOR ucast c"
  have "bit (scast c :: u32) n = bit (ucast c :: u32) n" if "n < 8" for n
  proof -
    have "n < 7 \<or> n = 7" using that by linarith
    then show ?thesis by (auto simp: bit_simps)
  qed
  then have "(crc XOR scast c) AND mask 8 = x AND mask 8"
    by (intro bit_eqI) (auto simp: x_def bit_and_iff bit_xor_iff bit_mask_iff)
  then have low: "(crc XOR scast c) AND 0xFF = x AND 0xFF" by (simp add: mask_eq_exp_minus_1)
  have high: "drop_bit 8 crc = drop_bit 8 x"
    by (rule bit_eqI) (auto simp: x_def bit_simps dest: bit_imp_le_length)
  have lt: "unat (x AND 0xFF) < 2 ^ 8"
  proof -
    have "x AND mask 8 < 2 ^ 8" by (rule and_mask_less') simp
    then show ?thesis by (simp add: mask_eq_exp_minus_1 word_less_nat_alt)
  qed
  have "crc_byte crc c = (crc_bit ^^ 8) ((x AND 0xFF) XOR push_bit 8 (drop_bit 8 x))"
    using low_byte_split [of x] by (simp add: crc_byte_def x_def)
  also have "\<dots> = (crc_bit ^^ 8) (x AND 0xFF) XOR drop_bit 8 (push_bit 8 (drop_bit 8 x))"
    by (simp only: crc_bits_xor crc_bits_high [OF order.refl])
  also have "(crc_bit ^^ 8) (x AND 0xFF) = crc_table ! unat (x AND 0xFF)"
    using crc_table_byte [OF order.refl lt] by simp
  also have "drop_bit 8 (push_bit 8 (drop_bit 8 x)) = drop_bit 8 x"
    by (rule bit_eqI) (auto simp: bit_simps dest: bit_imp_le_length)
  finally show ?thesis by (simp add: crc_step_def low high xor.commute)
qed

section \<open>Properties\<close>

text \<open>C22: The table-driven CRC of both forms is the bit-by-bit CRC-32 of the reflected polynomial
  0xEDB88320: for a C string without inner 0 byte the run-time loop stops at its terminator with the
  reference value, and the compile-time template gives the same on the characters.\<close>

theorem crc32_is_reference:
  assumes "0 \<notin> set s"
  shows "crc32 (s @ [0]) = Inr (crc32_ref s) \<and> compile_time_crc32 s = crc32_ref s"
proof -
  have "crc32_loop (s @ [0]) crc = Inr (NOT (foldl crc_byte crc s))" for crc
    using assms by (induction s arbitrary: crc) (auto simp: crc_step_byte)
  moreover have "mm_crc32 s crc = foldl crc_byte crc s XOR 0xFFFFFFFF" for crc
    by (induction s arbitrary: crc) (auto simp: crc_step_byte)
  moreover have "x XOR 0xFFFFFFFF = NOT x" for x :: u32
  proof -
    have "(0xFFFFFFFF :: u32) = - 1" by simp
    then show ?thesis by (simp only: bit.xor_one_right)
  qed
  ultimately show ?thesis by (simp add: crc32_def compile_time_crc32_def crc32_ref_def)
qed

theorem crc32_is_reference_witness: "crc32 [97, 98, 0] = Inr (crc32_ref [97, 98])"
  using crc32_is_reference [of "[97, 98]"] by simp

text \<open>All forms of the string hash agree: the compile-time encoder, \<open>ComputeHash\<close> on a view, the
  generic hash of the characters, and, for a string without inner 0 byte, \<open>ComputeHash\<close> on the C
  string.\<close>

theorem fnv_forms_agree:
  assumes "0 \<notin> set s"
  shows "ComputeHash s = hash_str s \<and> ComputeHashConstexpr s = hash_str s \<and>
         ComputeHash_cstr (s @ [0]) = Inr (hash_str s)"
proof -
  have p: "SR_FNV_PRIME = MagicPrime" "SR_FNV_OFFSET_BASIS = InitialHash"
    by (simp_all add: SR_FNV_PRIME_def MagicPrime_def SR_FNV_OFFSET_BASIS_def InitialHash_def)
  have a: "foldl (\<lambda>hash i. (hash XOR ucast i) * MagicPrime) h s = FNV1AAppendBytes h s" for h
    by (induction s arbitrary: h) (auto simp: p)
  have b: "encode_char h s = FNV1AAppendBytes h s" for h
    by (induction s arbitrary: h) (auto simp: p)
  have c: "compute_hash_loop (s @ [0]) h = Inr (FNV1AAppendBytes h s)" for h
    using assms by (induction s arbitrary: h) (auto simp: p)
  show ?thesis
    by (simp add: ComputeHash_def ComputeHashConstexpr_def ComputeHash_cstr_def hash_str_def
        HashArrayRepresentation_def a b c p)
qed

theorem fnv_forms_agree_witness: "ComputeHash_cstr [97, 98, 0] = Inr (hash_str [97, 98])"
  using fnv_forms_agree [of "[97, 98]"] by simp

end
