(* ===== verification/SR_Hash_Manager.thy ===== *)
theory SR_Hash_Manager
  imports SR_Hashes "HOL-Library.Sublist"
begin

text \<open>
  String interning: \<open>HashManager\<close> (Common/HashManager.h, .cpp), \<open>StringAtom\<close> (Types/StringAtom.h,
  .cpp), the compile-time \<open>GlobalStringRegistry\<close>, and \<open>DataStorage\<close> (Types/DataStorage.h), a store
  keyed by interned names.

  A string is the list of its bytes. A \<open>string_view\<close> is the memory from its data pointer to the end
  of the block it points into, and a length: the view has no terminator of its own. Infos are
  never freed; the address of one is its index in \<open>infos\<close>. The manager is one object for the
  process, so it is threaded through the operations that register names. The mutex makes each
  operation one step.
\<close>

section \<open>The hash manager\<close>

type_synonym bytes = "u8 list"

record string_view =
  sv_mem :: bytes
  sv_len :: nat

definition sv_text :: "string_view \<Rightarrow> bytes" where
  "sv_text v = take (sv_len v) (sv_mem v)"

record string_hash_info =
  si_data :: bytes
  si_view :: bytes
  si_hash :: u64
  si_size :: u64

record hash_manager =
  m_strings :: "u64 \<Rightarrow> nat option"
  infos :: "string_hash_info list"

definition hm_new :: hash_manager where
  "hm_new = \<lparr>m_strings = Map.empty, infos = []\<rparr>"

text \<open>A C string is read up to its terminator.\<close>

fun c_string :: "bytes \<Rightarrow> bytes result" where
  "c_string [] = Inl OutOfRange"
| "c_string (c # cs) = (if c = 0 then Inr [] else bind_res (c_string cs) (\<lambda>s. Inr (c # s)))"

text \<open>\<open>std::map::insert\<close> keeps an entry that is there.\<close>

definition hm_Register :: "hash_manager \<Rightarrow> bytes \<Rightarrow> u64 \<Rightarrow> nat \<times> hash_manager" where
  "hm_Register m str hash =
     (let info = \<lparr>si_data = str, si_view = str, si_hash = hash, si_size = of_nat (length str)\<rparr>;
          p = length (infos m) in
      (p, \<lparr>m_strings = (case m_strings m hash of None \<Rightarrow> (m_strings m)(hash \<mapsto> p) | Some q \<Rightarrow> m_strings m),
           infos = infos m @ [info]\<rparr>))"

definition hm_GetOrAddInfo :: "hash_manager \<Rightarrow> bytes \<Rightarrow> nat \<times> hash_manager" where
  "hm_GetOrAddInfo m str =
     (let hash = hash_str str in
      case m_strings m hash of Some p \<Rightarrow> (p, m) | None \<Rightarrow> hm_Register m str hash)"

text \<open>The overload for views hashes the view and registers the C string at its data pointer.\<close>

definition hm_GetOrAddInfo_view :: "hash_manager \<Rightarrow> string_view \<Rightarrow> (nat \<times> hash_manager) result" where
  "hm_GetOrAddInfo_view m v =
     (let hash = hash_str (sv_text v) in
      case m_strings m hash of Some p \<Rightarrow> Inr (p, m)
      | None \<Rightarrow> bind_res (c_string (sv_mem v)) (\<lambda>str. Inr (hm_Register m str hash)))"

definition hm_GetOrAddInfo_cstr :: "hash_manager \<Rightarrow> bytes \<Rightarrow> (nat \<times> hash_manager) result" where
  "hm_GetOrAddInfo_cstr m mem = bind_res (c_string mem) (\<lambda>str.
     let hash = hash_str str in
     case m_strings m hash of Some p \<Rightarrow> Inr (p, m) | None \<Rightarrow> Inr (hm_Register m str hash))"

definition hm_AddHash :: "hash_manager \<Rightarrow> bytes \<Rightarrow> u64 \<times> hash_manager" where
  "hm_AddHash m str = (case hm_GetOrAddInfo m str of (p, m) \<Rightarrow> (si_hash (infos m ! p), m))"

definition hm_HashToString :: "hash_manager \<Rightarrow> u64 \<Rightarrow> bytes" where
  "hm_HashToString m hash = (case m_strings m hash of Some p \<Rightarrow> si_view (infos m ! p) | None \<Rightarrow> [])"

definition hm_Exists :: "hash_manager \<Rightarrow> u64 \<Rightarrow> bool" where
  "hm_Exists m hash \<longleftrightarrow> m_strings m hash \<noteq> None"

section \<open>String atoms\<close>

record string_atom =
  m_info :: "nat option"

text \<open>\<open>DEFAULT_STRING_INFO\<close> is the info of the empty string, registered when the program starts;
  it is the argument \<open>dflt\<close>.\<close>

definition atom_new :: "nat \<Rightarrow> string_atom" where
  "atom_new dflt = \<lparr>m_info = Some dflt\<rparr>"

definition atom_of_info :: "nat option \<Rightarrow> string_atom" where
  "atom_of_info p = \<lparr>m_info = p\<rparr>"

definition atom_of_string :: "hash_manager \<Rightarrow> bytes \<Rightarrow> string_atom \<times> hash_manager" where
  "atom_of_string m s = (case hm_GetOrAddInfo m s of (p, m) \<Rightarrow> (atom_of_info (Some p), m))"

definition atom_of_view :: "hash_manager \<Rightarrow> string_view \<Rightarrow> (string_atom \<times> hash_manager) result" where
  "atom_of_view m v = bind_res (hm_GetOrAddInfo_view m v) (\<lambda>(p, m). Inr (atom_of_info (Some p), m))"

definition hm_HashToStringAtom :: "hash_manager \<Rightarrow> nat \<Rightarrow> u64 \<Rightarrow> string_atom" where
  "hm_HashToStringAtom m dflt hash =
     (case m_strings m hash of Some p \<Rightarrow> atom_of_info (Some p) | None \<Rightarrow> atom_new dflt)"

definition atom_Clear :: "nat \<Rightarrow> string_atom \<Rightarrow> string_atom" where
  "atom_Clear dflt a = (case m_info a of None \<Rightarrow> a | Some p \<Rightarrow> \<lparr>m_info = Some dflt\<rparr>)"

definition atom_eq :: "string_atom \<Rightarrow> string_atom \<Rightarrow> bool" where
  "atom_eq a b \<longleftrightarrow> m_info a = m_info b"

definition atom_eq_string :: "hash_manager \<Rightarrow> string_atom \<Rightarrow> bytes \<Rightarrow> bool" where
  "atom_eq_string m a s = (case m_info a of None \<Rightarrow> False | Some p \<Rightarrow> si_data (infos m ! p) = s)"

definition atom_assign :: "hash_manager \<Rightarrow> string_atom \<Rightarrow> bytes \<Rightarrow> string_atom \<times> hash_manager" where
  "atom_assign m a s = (case hm_GetOrAddInfo m s of (p, m) \<Rightarrow> (a\<lparr>m_info := Some p\<rparr>, m))"

definition atom_Size :: "hash_manager \<Rightarrow> string_atom \<Rightarrow> u64" where
  "atom_Size m a = (case m_info a of None \<Rightarrow> 0 | Some p \<Rightarrow> si_size (infos m ! p))"

definition atom_Empty :: "hash_manager \<Rightarrow> string_atom \<Rightarrow> bool" where
  "atom_Empty m a = (case m_info a of None \<Rightarrow> True | Some p \<Rightarrow> si_size (infos m ! p) = 0)"

definition atom_GetHash :: "hash_manager \<Rightarrow> string_atom \<Rightarrow> u64" where
  "atom_GetHash m a = (case m_info a of None \<Rightarrow> 0 | Some p \<Rightarrow> si_hash (infos m ! p))"

definition atom_ToString :: "hash_manager \<Rightarrow> string_atom \<Rightarrow> bytes" where
  "atom_ToString m a = (case m_info a of None \<Rightarrow> [] | Some p \<Rightarrow> si_data (infos m ! p))"

definition atom_Contains :: "hash_manager \<Rightarrow> string_atom \<Rightarrow> bytes \<Rightarrow> bool" where
  "atom_Contains m a s = (case m_info a of None \<Rightarrow> False
     | Some p \<Rightarrow> if si_size (infos m ! p) = 0 then False else sublist s (si_data (infos m ! p)))"

definition atom_less :: "hash_manager \<Rightarrow> string_atom \<Rightarrow> string_atom \<Rightarrow> bool" where
  "atom_less m a b = (case m_info a of None \<Rightarrow> False | Some p \<Rightarrow> si_hash (infos m ! p) < atom_GetHash m b)"

definition atom_less_hash :: "hash_manager \<Rightarrow> string_atom \<Rightarrow> u64 \<Rightarrow> bool" where
  "atom_less_hash m a h = (case m_info a of None \<Rightarrow> False | Some p \<Rightarrow> si_hash (infos m ! p) < h)"

section \<open>The compile-time registry\<close>

record string_registry =
  r_entries :: "(bytes \<times> u64) list"
  r_count :: nat

definition registry_new :: string_registry where
  "registry_new = \<lparr>r_entries = replicate 512 ([], 0), r_count = 0\<rparr>"

definition registry_Register :: "string_registry \<Rightarrow> bytes \<Rightarrow> u64 \<Rightarrow> (u64 \<times> string_registry) result" where
  "registry_Register r str hash =
     (if r_count r < 512 then
        if \<exists>e \<in> set (take (r_count r) (r_entries r)). snd e = hash then Inr (hash, r)
        else bind_res (vec_set (r_entries r) (r_count r + 1) (str, hash)) (\<lambda>entries.
             Inr (hash, \<lparr>r_entries = entries, r_count = r_count r + 1\<rparr>))
      else Inl Exception)"

definition registry_Find :: "string_registry \<Rightarrow> u64 \<Rightarrow> bytes option" where
  "registry_Find r hash = map_option fst (find (\<lambda>e. snd e = hash) (take (r_count r) (r_entries r)))"

section \<open>Data storage\<close>

text \<open>A \<open>std::any\<close> is a value with the tag of its type; a pointer is an address, 0 when null, and
  carries no type.\<close>

record ('t, 'v) data_storage =
  ds_pointers :: "u64 \<Rightarrow> nat option"
  ds_values :: "u64 \<Rightarrow> ('t \<times> 'v) option"

definition ds_Clear :: "('t, 'v) data_storage \<Rightarrow> ('t, 'v) data_storage" where
  "ds_Clear d = d\<lparr>ds_pointers := Map.empty, ds_values := Map.empty\<rparr>"

definition ds_move :: "('t, 'v) data_storage \<Rightarrow> ('t, 'v) data_storage \<times> ('t, 'v) data_storage" where
  "ds_move d = (d, d\<lparr>ds_pointers := Map.empty, ds_values := Map.empty\<rparr>)"

definition ds_SetPointer_hash :: "u64 \<Rightarrow> nat \<Rightarrow> ('t, 'v) data_storage \<Rightarrow> ('t, 'v) data_storage" where
  "ds_SetPointer_hash h p d = d\<lparr>ds_pointers := (ds_pointers d)(h \<mapsto> p)\<rparr>"

definition ds_SetValue_hash :: "u64 \<Rightarrow> 't \<Rightarrow> 'v \<Rightarrow> ('t, 'v) data_storage \<Rightarrow> ('t, 'v) data_storage" where
  "ds_SetValue_hash h t v d = d\<lparr>ds_values := (ds_values d)(h \<mapsto> (t, v))\<rparr>"

definition ds_GetPointer_hash :: "u64 \<Rightarrow> ('t, 'v) data_storage \<Rightarrow> nat" where
  "ds_GetPointer_hash h d = (case ds_pointers d h of None \<Rightarrow> 0 | Some p \<Rightarrow> if p \<noteq> 0 then p else 0)"

definition ds_GetPointerDef_hash :: "u64 \<Rightarrow> nat \<Rightarrow> ('t, 'v) data_storage \<Rightarrow> nat" where
  "ds_GetPointerDef_hash h def d = (case ds_pointers d h of None \<Rightarrow> def | Some p \<Rightarrow> if p \<noteq> 0 then p else def)"

text \<open>\<open>T()\<close> is the argument \<open>zero\<close>.\<close>

definition ds_GetValue_hash :: "u64 \<Rightarrow> 't \<Rightarrow> 'v \<Rightarrow> ('t, 'v) data_storage \<Rightarrow> 'v" where
  "ds_GetValue_hash h t zero d = (case ds_values d h of None \<Rightarrow> zero
     | Some (t', v) \<Rightarrow> if t' = t then v else zero)"

definition ds_GetValueDef_hash :: "u64 \<Rightarrow> 't \<Rightarrow> 'v \<Rightarrow> ('t, 'v) data_storage \<Rightarrow> 'v" where
  "ds_GetValueDef_hash h t def d = (case ds_values d h of None \<Rightarrow> def
     | Some (t', v) \<Rightarrow> if t' = t then v else def)"

definition ds_RemovePointer_hash :: "u64 \<Rightarrow> ('t, 'v) data_storage \<Rightarrow> bool \<times> ('t, 'v) data_storage" where
  "ds_RemovePointer_hash h d = (case ds_pointers d h of None \<Rightarrow> (False, d)
     | Some p \<Rightarrow> (True, d\<lparr>ds_pointers := (ds_pointers d)(h := None)\<rparr>))"

definition ds_RemoveValue_hash :: "u64 \<Rightarrow> ('t, 'v) data_storage \<Rightarrow> bool \<times> ('t, 'v) data_storage" where
  "ds_RemoveValue_hash h d = (case ds_values d h of None \<Rightarrow> (False, d)
     | Some p \<Rightarrow> (True, d\<lparr>ds_values := (ds_values d)(h := None)\<rparr>))"

text \<open>The operations by name register the name first, also the ones that only read.\<close>

definition ds_SetPointer :: "hash_manager \<Rightarrow> bytes \<Rightarrow> nat \<Rightarrow> ('t, 'v) data_storage \<Rightarrow>
    hash_manager \<times> ('t, 'v) data_storage" where
  "ds_SetPointer m name p d = (case hm_AddHash m name of (h, m) \<Rightarrow> (m, ds_SetPointer_hash h p d))"

definition ds_SetValue :: "hash_manager \<Rightarrow> bytes \<Rightarrow> 't \<Rightarrow> 'v \<Rightarrow> ('t, 'v) data_storage \<Rightarrow>
    hash_manager \<times> ('t, 'v) data_storage" where
  "ds_SetValue m name t v d = (case hm_AddHash m name of (h, m) \<Rightarrow> (m, ds_SetValue_hash h t v d))"

definition ds_GetPointer :: "hash_manager \<Rightarrow> bytes \<Rightarrow> ('t, 'v) data_storage \<Rightarrow> hash_manager \<times> nat" where
  "ds_GetPointer m name d = (case hm_AddHash m name of (h, m) \<Rightarrow> (m, ds_GetPointer_hash h d))"

definition ds_GetPointerDef :: "hash_manager \<Rightarrow> bytes \<Rightarrow> nat \<Rightarrow> ('t, 'v) data_storage \<Rightarrow> hash_manager \<times> nat" where
  "ds_GetPointerDef m name def d = (case hm_AddHash m name of (h, m) \<Rightarrow> (m, ds_GetPointerDef_hash h def d))"

definition ds_GetValue :: "hash_manager \<Rightarrow> bytes \<Rightarrow> 't \<Rightarrow> 'v \<Rightarrow> ('t, 'v) data_storage \<Rightarrow> hash_manager \<times> 'v" where
  "ds_GetValue m name t zero d = (case hm_AddHash m name of (h, m) \<Rightarrow> (m, ds_GetValue_hash h t zero d))"

definition ds_GetValueDef :: "hash_manager \<Rightarrow> bytes \<Rightarrow> 't \<Rightarrow> 'v \<Rightarrow> ('t, 'v) data_storage \<Rightarrow> hash_manager \<times> 'v" where
  "ds_GetValueDef m name t def d = (case hm_AddHash m name of (h, m) \<Rightarrow> (m, ds_GetValueDef_hash h t def d))"

definition ds_RemovePointer :: "hash_manager \<Rightarrow> bytes \<Rightarrow> ('t, 'v) data_storage \<Rightarrow>
    hash_manager \<times> bool \<times> ('t, 'v) data_storage" where
  "ds_RemovePointer m name d = (case hm_AddHash m name of (h, m) \<Rightarrow> (m, ds_RemovePointer_hash h d))"

definition ds_RemoveValue :: "hash_manager \<Rightarrow> bytes \<Rightarrow> ('t, 'v) data_storage \<Rightarrow>
    hash_manager \<times> bool \<times> ('t, 'v) data_storage" where
  "ds_RemoveValue m name d = (case hm_AddHash m name of (h, m) \<Rightarrow> (m, ds_RemoveValue_hash h d))"

text \<open>\<open>GetValues\<close> walks the map in the order of the hashes and takes the values of the type.\<close>

definition ds_GetValues :: "hash_manager \<Rightarrow> 't \<Rightarrow> ('t, 'v) data_storage \<Rightarrow> (bytes \<times> 'v) list" where
  "ds_GetValues m t d = List.map_filter (\<lambda>h. case ds_values d h of None \<Rightarrow> None
     | Some (t', v) \<Rightarrow> if t' = t then Some (hm_HashToString m h, v) else None)
     (sorted_list_of_set (dom (ds_values d)))"

section \<open>The invariant of the manager\<close>

text \<open>Every entry of the table points to an info that carries the hash it is filed under.\<close>

definition hm_inv :: "hash_manager \<Rightarrow> bool" where
  "hm_inv m \<longleftrightarrow> (\<forall>h p. m_strings m h = Some p \<longrightarrow> p < length (infos m) \<and> si_hash (infos m ! p) = h)"

definition hm_extends :: "hash_manager \<Rightarrow> hash_manager \<Rightarrow> bool" where
  "hm_extends m m' \<longleftrightarrow> m_strings m \<subseteq>\<^sub>m m_strings m' \<and>
     (\<forall>p < length (infos m). p < length (infos m') \<and> infos m' ! p = infos m ! p)"

lemma hm_inv_new [inv_intros]: "hm_inv hm_new"
  by (simp add: hm_inv_def hm_new_def)

lemma hm_extends_refl: "hm_extends m m"
  by (simp add: hm_extends_def)

lemma hm_register_fresh:
  assumes "hm_inv m" "m_strings m hash = None"
  shows "\<exists>p m'. hm_Register m str hash = (p, m') \<and> hm_inv m' \<and> hm_extends m m' \<and>
           m_strings m' = (m_strings m)(hash \<mapsto> p) \<and> p < length (infos m') \<and>
           infos m' ! p = \<lparr>si_data = str, si_view = str, si_hash = hash, si_size = of_nat (length str)\<rparr>"
  using assms by (auto simp: hm_Register_def Let_def hm_inv_def hm_extends_def nth_append map_le_def
      split: if_splits; fastforce)

text \<open>Two names clash when they are different and have one hash.\<close>

definition no_clash :: "hash_manager \<Rightarrow> bytes \<Rightarrow> bool" where
  "no_clash m s \<longleftrightarrow> (\<forall>p. m_strings m (hash_str s) = Some p \<longrightarrow>
     si_data (infos m ! p) = s \<and> si_view (infos m ! p) = s \<and> si_size (infos m ! p) = of_nat (length s))"

lemma hm_get_or_add:
  assumes "hm_inv m"
  shows "\<exists>p m'. hm_GetOrAddInfo m s = (p, m') \<and> hm_inv m' \<and> hm_extends m m' \<and>
           m_strings m' (hash_str s) = Some p \<and> p < length (infos m') \<and> si_hash (infos m' ! p) = hash_str s \<and>
           (no_clash m s \<longrightarrow> si_data (infos m' ! p) = s \<and> si_view (infos m' ! p) = s \<and>
              si_size (infos m' ! p) = of_nat (length s))"
proof (cases "m_strings m (hash_str s)")
  case None
  from hm_register_fresh [OF assms None, of s] show ?thesis
    using None by (auto simp: hm_GetOrAddInfo_def)
next
  case (Some p)
  then show ?thesis
    using assms by (auto simp: hm_GetOrAddInfo_def hm_inv_def no_clash_def hm_extends_refl)
qed

lemma hm_extends_trans: "hm_extends a b \<Longrightarrow> hm_extends b c \<Longrightarrow> hm_extends a c"
  unfolding hm_extends_def by (metis map_le_trans)

lemma hm_extends_lookup: "hm_extends m m' \<Longrightarrow> m_strings m h = Some p \<Longrightarrow> m_strings m' h = Some p"
  by (auto simp: hm_extends_def map_le_def dom_def)

lemma hm_add_hash:
  assumes "hm_inv m"
  shows "\<exists>m'. hm_AddHash m s = (hash_str s, m') \<and> hm_inv m' \<and> hm_extends m m' \<and>
           m_strings m' (hash_str s) \<noteq> None"
  using hm_get_or_add [OF assms, of s] by (auto simp: hm_AddHash_def)

section \<open>An interning table\<close>

text \<open>The contract of interning: a name has one handle for ever, and two names have the same handle
  exactly when their keys are equal.\<close>

locale interning =
  fixes intern :: "'m \<Rightarrow> 's \<Rightarrow> 'h \<times> 'm"
    and inv :: "'m \<Rightarrow> bool"
    and extends :: "'m \<Rightarrow> 'm \<Rightarrow> bool"
    and known :: "'m \<Rightarrow> 'k \<Rightarrow> 'h option"
    and key :: "'s \<Rightarrow> 'k"
  assumes intern_ok: "inv m \<Longrightarrow> intern m s = (h, m') \<Longrightarrow> inv m' \<and> extends m m' \<and> known m' (key s) = Some h"
    and intern_known: "known m (key s) = Some h \<Longrightarrow> intern m s = (h, m)"
    and known_extends: "extends m m' \<Longrightarrow> known m k = Some h \<Longrightarrow> known m' k = Some h"
    and known_inj: "inv m \<Longrightarrow> known m k = Some h \<Longrightarrow> known m k' = Some h \<Longrightarrow> k = k'"
begin

lemma intern_again:
  assumes "inv m" "intern m s = (h, m')" "extends m' m''"
  shows "intern m'' s = (h, m'')"
  using intern_ok [OF assms(1,2)] known_extends [OF assms(3)] intern_known by blast

lemma handles_eq_iff:
  assumes "inv m" "intern m s = (h, m1)" "intern m1 t = (h', m2)"
  shows "h = h' \<longleftrightarrow> key s = key t"
proof -
  note A = intern_ok [OF assms(1,2)]
  then have "inv m1" by blast
  note B = intern_ok [OF this assms(3)]
  have "known m2 (key s) = Some h" using A B known_extends by blast
  with B known_inj show ?thesis by fastforce
qed

end

lemma hm_get_or_addD:
  assumes "hm_inv m" "hm_GetOrAddInfo m s = (p, m')"
  shows "hm_inv m'" "hm_extends m m'" "m_strings m' (hash_str s) = Some p"
    "si_hash (infos m' ! p) = hash_str s"
    "no_clash m s \<Longrightarrow> si_data (infos m' ! p) = s"
  using hm_get_or_add [OF assms(1), of s] assms(2) by auto

interpretation name_table: interning hm_GetOrAddInfo hm_inv hm_extends m_strings hash_str
proof unfold_locales
  fix m m' :: hash_manager and s h k k'
  show "hm_inv m \<Longrightarrow> hm_GetOrAddInfo m s = (h, m') \<Longrightarrow>
      hm_inv m' \<and> hm_extends m m' \<and> m_strings m' (hash_str s) = Some h"
    using hm_get_or_addD by blast
  show "m_strings m (hash_str s) = Some h \<Longrightarrow> hm_GetOrAddInfo m s = (h, m)"
    by (simp add: hm_GetOrAddInfo_def)
  show "hm_extends m m' \<Longrightarrow> m_strings m k = Some h \<Longrightarrow> m_strings m' k = Some h"
    by (rule hm_extends_lookup)
  show "hm_inv m \<Longrightarrow> m_strings m k = Some h \<Longrightarrow> m_strings m k' = Some h \<Longrightarrow> k = k'"
    by (auto simp: hm_inv_def)
qed

section \<open>Properties\<close>

text \<open>C33: Atoms made from two strings compare equal exactly when the strings have the same hash; an
  atom made again later from the same string is the same atom; and when no other string of
  the same hash was registered, the atom reads back as its string.\<close>

theorem string_atom_interning:
  assumes "hm_inv m" and "atom_of_string m s = (a, m1)" and "atom_of_string m1 t = (b, m2)"
  shows "hm_inv m2 \<and> (atom_eq a b \<longleftrightarrow> hash_str s = hash_str t) \<and> atom_of_string m2 s = (a, m2) \<and>
         (no_clash m s \<longrightarrow> atom_ToString m1 a = s)"
proof -
  obtain p where p: "hm_GetOrAddInfo m s = (p, m1)" "a = atom_of_info (Some p)"
    using assms(2) by (auto simp: atom_of_string_def split: prod.splits)
  obtain q where q: "hm_GetOrAddInfo m1 t = (q, m2)" "b = atom_of_info (Some q)"
    using assms(3) by (auto simp: atom_of_string_def split: prod.splits)
  note P = hm_get_or_addD [OF assms(1) p(1)]
  note Q = hm_get_or_addD [OF P(1) q(1)]
  have "p = q \<longleftrightarrow> hash_str s = hash_str t"
    by (rule name_table.handles_eq_iff [OF assms(1) p(1) q(1)])
  moreover have "hm_GetOrAddInfo m2 s = (p, m2)"
    by (rule name_table.intern_again [OF assms(1) p(1) Q(2)])
  ultimately show ?thesis
    using P Q p(2) q(2)
    by (auto simp: atom_eq_def atom_of_info_def atom_of_string_def atom_ToString_def)
qed

theorem string_atom_interning_witness:
  "\<exists>a m1 b m2. atom_of_string hm_new [97] = (a, m1) \<and> atom_of_string m1 [97] = (b, m2) \<and> atom_eq a b \<and>
     atom_ToString m1 a = [97]"
proof -
  obtain a m1 where a: "atom_of_string hm_new [97] = (a, m1)" by fastforce
  obtain b m2 where b: "atom_of_string m1 [97] = (b, m2)" by fastforce
  have "no_clash hm_new [97]" by (simp add: no_clash_def hm_new_def)
  with string_atom_interning [OF hm_inv_new a b] a b show ?thesis by blast
qed

text \<open>The hash handed out for a string gives the string back as long as it does not clash with
  one registered before, and it keeps doing so in every later state of the manager.\<close>

theorem hash_to_string_roundtrip:
  assumes "hm_inv m" and "no_clash m s" and "hm_AddHash m s = (h, m1)" and "hm_extends m1 m2"
  shows "h = hash_str s \<and> hm_Exists m2 h \<and> hm_HashToString m2 h = s"
proof -
  from hm_get_or_add [OF assms(1), of s] assms(2) obtain p where
    p: "hm_GetOrAddInfo m s = (p, m1)" "hm_inv m1" "m_strings m1 (hash_str s) = Some p"
      "p < length (infos m1)" "si_hash (infos m1 ! p) = hash_str s" "si_view (infos m1 ! p) = s"
    using assms(3) by (auto simp: hm_AddHash_def)
  then have h: "h = hash_str s" using assms(3) by (auto simp: hm_AddHash_def)
  have "m_strings m2 (hash_str s) = Some p" "infos m2 ! p = infos m1 ! p"
    using hm_extends_lookup [OF assms(4) p(3)] assms(4) p(4) by (auto simp: hm_extends_def)
  with h p(6) show ?thesis by (simp add: hm_Exists_def hm_HashToString_def)
qed

theorem hash_to_string_roundtrip_witness:
  "hm_HashToString (snd (hm_AddHash hm_new [97, 98])) (hash_str [97, 98]) = [97, 98]"
proof -
  obtain h m1 where r: "hm_AddHash hm_new [97, 98] = (h, m1)" by fastforce
  have "no_clash hm_new [97, 98]" by (simp add: no_clash_def hm_new_def)
  from hash_to_string_roundtrip [OF hm_inv_new this r hm_extends_refl] show ?thesis
    by (metis r snd_conv)
qed

text \<open>An atom made from a \<open>string_view\<close> that ends before its terminator reads back as the whole C
  string behind the view's data pointer: the atom of the first byte of "ab" is "ab", and it is not
  equal to the string of the view.\<close>

theorem string_atom_of_view_overreads:
  "\<exists>a m. atom_of_view hm_new \<lparr>sv_mem = [97, 98, 0], sv_len = 1\<rparr> = Inr (a, m) \<and>
     atom_ToString m a = [97, 98] \<and> atom_GetHash m a = hash_str [97] \<and> \<not> atom_eq_string m a [97]"
  by (simp add: atom_of_view_def hm_GetOrAddInfo_view_def hm_Register_def Let_def hm_new_def sv_text_def
      atom_of_info_def atom_ToString_def atom_GetHash_def atom_eq_string_def take_Cons')

text \<open>C4: On atoms of the manager, \<open>operator<\<close> and \<open>operator==\<close> fit together: the order is strict, total
  and transitive, and neither atom is below the other exactly when they are equal. A
  container ordered by \<open>operator<\<close> never confuses two atoms.\<close>

definition atom_ok :: "hash_manager \<Rightarrow> string_atom \<Rightarrow> bool" where
  "atom_ok m a \<longleftrightarrow> (\<exists>h p. m_info a = Some p \<and> m_strings m h = Some p)"

theorem string_atom_order:
  assumes "hm_inv m" and "atom_ok m a" and "atom_ok m b" and "atom_ok m c"
  shows "\<not> atom_less m a a \<and> (atom_less m a b \<and> atom_less m b c \<longrightarrow> atom_less m a c) \<and>
         (\<not> atom_less m a b \<and> \<not> atom_less m b a \<longleftrightarrow> atom_eq a b)"
proof -
  have h: "m_info x = Some p \<Longrightarrow> atom_ok m x \<Longrightarrow> m_strings m (si_hash (infos m ! p)) = Some p" for x p
    using assms(1) by (auto simp: atom_ok_def hm_inv_def)
  obtain pa pb pc where p: "m_info a = Some pa" "m_info b = Some pb" "m_info c = Some pc"
    using assms by (auto simp: atom_ok_def)
  have "si_hash (infos m ! pa) = si_hash (infos m ! pb) \<longleftrightarrow> pa = pb"
    by (metis h [OF p(1) assms(2)] h [OF p(2) assms(3)] option.inject)
  with p show ?thesis by (auto simp: atom_less_def atom_GetHash_def atom_eq_def)
qed

theorem string_atom_order_witness:
  "\<exists>a m. atom_of_string hm_new [97] = (a, m) \<and> \<not> atom_less m a a"
proof -
  obtain a m where a: "atom_of_string hm_new [97] = (a, m)" by fastforce
  then obtain p where p: "hm_GetOrAddInfo hm_new [97] = (p, m)" "a = atom_of_info (Some p)"
    by (auto simp: atom_of_string_def split: prod.splits)
  note P = hm_get_or_addD [OF hm_inv_new p(1)]
  then have "atom_ok m a" by (auto simp: atom_ok_def p(2) atom_of_info_def)
  from string_atom_order [OF P(1) this this this] have "\<not> atom_less m a a" by (rule conjunct1)
  with a show ?thesis by (intro exI [of _ a] exI [of _ m]) simp
qed

text \<open>The compile-time registry loses the first string it is given: \<open>Register\<close> stores at
  \<open>++count\<close>, so the last registered string lies outside the range that \<open>Find\<close> and the duplicate
  check look at; and the 512th string is written past the end of the array.\<close>

theorem string_registry_off_by_one:
  "(\<forall>str hash. hash \<noteq> 0 \<longrightarrow> (\<exists>r. registry_Register registry_new str hash = Inr (hash, r) \<and>
      registry_Find r hash = None)) \<and>
   (\<forall>r str hash. r_count r = 511 \<and> length (r_entries r) = 512 \<and>
      hash \<notin> snd ` set (take 511 (r_entries r)) \<longrightarrow> registry_Register r str hash = Inl OutOfRange)"
proof
  have "find P (take 1 ((replicate 512 e)[1 := x])) = None" if "\<not> P e" for P and e x :: "bytes \<times> u64"
    using that by (simp add: find_None_iff take_Suc_conv_app_nth numeral_eq_Suc)
  then show "\<forall>str hash. hash \<noteq> 0 \<longrightarrow> (\<exists>r. registry_Register registry_new str hash = Inr (hash, r) \<and>
      registry_Find r hash = None)"
    by (auto simp: registry_Register_def registry_new_def registry_Find_def)
  show "\<forall>r str hash. r_count r = 511 \<and> length (r_entries r) = 512 \<and>
      hash \<notin> snd ` set (take 511 (r_entries r)) \<longrightarrow> registry_Register r str hash = Inl OutOfRange"
    by (auto simp: registry_Register_def image_iff)
qed

theorem string_registry_off_by_one_witness:
  "\<exists>r. registry_Register registry_new [97] 5 = Inr (5, r) \<and> registry_Find r 5 = None"
  using string_registry_off_by_one by force

text \<open>A value stored under a name is found again under that name and its type, whatever names are
  registered in between; it is not found with another type; and a name with another hash keeps its
  entry.\<close>

theorem data_storage_get_set:
  assumes "hm_inv m" and "ds_SetValue m name t v d = (m1, d1)" and "hm_inv m2" and "hm_extends m1 m2"
  shows "snd (ds_GetValue m2 name t zero d1) = v \<and>
         (t' \<noteq> t \<longrightarrow> snd (ds_GetValue m2 name t' zero d1) = zero) \<and>
         (hash_str other \<noteq> hash_str name \<longrightarrow>
            snd (ds_GetValueDef m2 other t' def d1) = snd (ds_GetValueDef m2 other t' def d))"
proof -
  have d1: "d1 = ds_SetValue_hash (hash_str name) t v d"
    using hm_add_hash [OF assms(1), of name] assms(2) by (auto simp: ds_SetValue_def)
  obtain m3 m4 where "hm_AddHash m2 name = (hash_str name, m3)" "hm_AddHash m2 other = (hash_str other, m4)"
    using hm_add_hash [OF assms(3)] by blast
  then show ?thesis
    by (simp add: d1 ds_GetValue_def ds_GetValueDef_def ds_SetValue_hash_def ds_GetValue_hash_def
        ds_GetValueDef_hash_def)
qed

theorem data_storage_get_set_witness:
  "\<exists>m1 d1. ds_SetValue hm_new [97] ''int'' (5::int) \<lparr>ds_pointers = Map.empty, ds_values = Map.empty\<rparr> = (m1, d1) \<and>
     snd (ds_GetValue m1 [97] ''int'' 0 d1) = 5 \<and> snd (ds_GetValue m1 [97] ''bool'' 0 d1) = 0"
proof -
  obtain m1 d1 where r: "ds_SetValue hm_new [97] ''int'' (5::int)
      \<lparr>ds_pointers = Map.empty, ds_values = Map.empty\<rparr> = (m1, d1)" by fastforce
  then have "hm_inv m1" using hm_add_hash [OF hm_inv_new, of "[97]"] by (auto simp: ds_SetValue_def)
  note D = data_storage_get_set [OF hm_inv_new r this hm_extends_refl, of 0 "''bool''"]
  have "snd (ds_GetValue m1 [97] ''int'' 0 d1) = 5" using D by (rule conjunct1)
  moreover have "snd (ds_GetValue m1 [97] ''bool'' 0 d1) = 0" using D by simp
  ultimately show ?thesis using r by (intro exI [of _ m1] exI [of _ d1]) simp
qed

end
