(* ===== verification/SR_Stream.thy ===== *)
theory SR_Stream
  imports SR_Prelude
begin

text \<open>
  \<open>Stream\<close> (inc/Utils/Types/Stream.h, src/Utils/Types/Stream.cpp): a growing byte buffer with a
  position. The heap block behind \<open>m_data\<close> is a list of cells; a cell that \<open>malloc\<close> gave and nothing
  wrote is \<open>None\<close>. Sizes are 64-bit words. A copy outside a block is \<open>OutOfRange\<close>, through a null
  pointer \<open>NullPointer\<close>; copying 0 bytes does nothing. Reading the file into the constructor from
  an \<open>ifstream\<close> is outside; its result is the constructor from the file's bytes.
\<close>

section \<open>State and operations\<close>

type_synonym block = "u8 option list"

record stream =
  s_size :: u64
  s_pos :: u64
  s_capacity :: u64
  s_data :: "block option"

definition stream_default :: stream where
  "stream_default = \<lparr>s_size = 0, s_pos = 0, s_capacity = 0, s_data = None\<rparr>"

definition stream_Allocate :: "u64 \<Rightarrow> block" where
  "stream_Allocate n = replicate (unat n) None"

definition copy_in :: "block option \<Rightarrow> u64 \<Rightarrow> u8 option list \<Rightarrow> block option result" where
  "copy_in data off bytes =
     (if bytes = [] then Inr data
      else case data of None \<Rightarrow> Inl NullPointer
      | Some b \<Rightarrow> if unat off + length bytes \<le> length b
                  then Inr (Some (take (unat off) b @ bytes @ drop (unat off + length bytes) b))
                  else Inl OutOfRange)"

definition copy_out :: "block option \<Rightarrow> u64 \<Rightarrow> u64 \<Rightarrow> u8 option list result" where
  "copy_out data off count =
     (if count = 0 then Inr []
      else case data of None \<Rightarrow> Inl NullPointer
      | Some b \<Rightarrow> if unat off + unat count \<le> length b
                  then Inr (take (unat count) (drop (unat off) b)) else Inl OutOfRange)"

text \<open>\<open>Stream(const char*, size)\<close> and \<open>Stream(const std::string&)\<close>; the second allocates also for
  the empty string.\<close>

definition stream_of_data :: "u8 list \<Rightarrow> stream" where
  "stream_of_data bytes = \<lparr>s_size = of_nat (length bytes), s_pos = 0, s_capacity = of_nat (length bytes),
     s_data = (if bytes = [] then None else Some (map Some bytes))\<rparr>"

definition stream_of_string :: "u8 list \<Rightarrow> stream" where
  "stream_of_string bytes = \<lparr>s_size = of_nat (length bytes), s_pos = 0, s_capacity = of_nat (length bytes),
     s_data = Some (map Some bytes)\<rparr>"

definition stream_copy :: "stream \<Rightarrow> stream result" where
  "stream_copy other = bind_res (case s_data other of None \<Rightarrow> Inr None
     | Some b \<Rightarrow> bind_res (copy_out (Some b) 0 (s_capacity other)) (\<lambda>bytes.
         copy_in (Some (stream_Allocate (s_capacity other))) 0 bytes)) (\<lambda>data.
     Inr \<lparr>s_size = s_size other, s_pos = 0, s_capacity = s_capacity other, s_data = data\<rparr>)"

definition stream_move :: "stream \<Rightarrow> stream \<times> stream" where
  "stream_move other = (other, stream_default)"

text \<open>Copy assignment keeps the old block when the other stream has none.\<close>

definition stream_assign :: "stream \<Rightarrow> stream \<Rightarrow> stream result" where
  "stream_assign self other = bind_res (case s_data other of None \<Rightarrow> Inr (s_data self)
     | Some b \<Rightarrow> bind_res (copy_out (Some b) 0 (s_capacity other)) (\<lambda>bytes.
         copy_in (Some (stream_Allocate (s_capacity other))) 0 bytes)) (\<lambda>data.
     Inr \<lparr>s_size = s_size other, s_pos = 0, s_capacity = s_capacity other, s_data = data\<rparr>)"

definition stream_Valid :: "stream \<Rightarrow> bool" where
  "stream_Valid s \<longleftrightarrow> s_data s \<noteq> None"

text \<open>\<open>Read\<close> gives the bytes it copied to the caller's memory, \<open>None\<close> when it refused.\<close>

definition stream_Read :: "stream \<Rightarrow> u64 \<Rightarrow> (u8 option list option \<times> stream) result" where
  "stream_Read s count =
     (if count = 0 then Inr (Some [], s)
      else if s_pos s + count > s_size s then Inr (None, s)
      else bind_res (copy_out (s_data s) (s_pos s) count) (\<lambda>bytes.
           Inr (Some bytes, s\<lparr>s_pos := s_pos s + count\<rparr>)))"

definition stream_TryRead :: "stream \<Rightarrow> u64 \<Rightarrow> (u8 option list option \<times> stream) result" where
  "stream_TryRead s count =
     (if s_pos s + count > s_size s then Inr (None, s)
      else bind_res (copy_out (s_data s) (s_pos s) count) (\<lambda>bytes.
           Inr (Some bytes, s\<lparr>s_pos := s_pos s + count\<rparr>)))"

definition stream_Reserve :: "stream \<Rightarrow> u64 \<Rightarrow> stream result" where
  "stream_Reserve s capacity =
     (if s_capacity s \<ge> capacity then Inr s
      else bind_res (case s_data s of
          None \<Rightarrow> Inr (Some (stream_Allocate capacity))
        | Some old \<Rightarrow> bind_res (copy_out (Some old) 0 (s_capacity s)) (\<lambda>bytes.
            copy_in (Some (stream_Allocate capacity)) 0 bytes)) (\<lambda>data.
        Inr (s\<lparr>s_data := data, s_capacity := capacity\<rparr>)))"

definition stream_Write :: "stream \<Rightarrow> u8 list \<Rightarrow> stream result" where
  "stream_Write s src =
     (let count = of_nat (length src);
          s = s\<lparr>s_size := s_size s + count\<rparr> in
      bind_res (if s_size s \<ge> s_capacity s then stream_Reserve s (max (s_size s * 2) 64) else Inr s) (\<lambda>s.
      bind_res (copy_in (s_data s) (s_pos s) (map Some src)) (\<lambda>data.
      Inr (s\<lparr>s_data := data, s_pos := s_pos s + count\<rparr>))))"

definition stream_Skip :: "stream \<Rightarrow> u64 \<Rightarrow> stream" where
  "stream_Skip s count = s\<lparr>s_pos := s_pos s + count\<rparr>"

definition stream_ToString :: "stream \<Rightarrow> u8 option list result" where
  "stream_ToString s = (case s_data s of None \<Rightarrow> Inr [] | Some b \<Rightarrow> copy_out (Some b) 0 (s_size s))"

definition stream_SetData :: "stream \<Rightarrow> u8 list \<Rightarrow> stream result" where
  "stream_SetData s src =
     bind_res (stream_Reserve s (of_nat (length src))) (\<lambda>s.
     let s = s\<lparr>s_size := of_nat (length src), s_capacity := of_nat (length src)\<rparr> in
     bind_res (copy_in (s_data s) 0 (map Some src)) (\<lambda>data. Inr (s\<lparr>s_data := data\<rparr>)))"

definition stream_SetPosition :: "stream \<Rightarrow> u64 \<Rightarrow> stream" where
  "stream_SetPosition s position = s\<lparr>s_pos := position\<rparr>"

section \<open>The invariant\<close>

definition block_length :: "stream \<Rightarrow> nat" where
  "block_length s = (case s_data s of None \<Rightarrow> 0 | Some b \<Rightarrow> length b)"

definition stream_inv :: "stream \<Rightarrow> bool" where
  "stream_inv s \<longleftrightarrow> s_pos s \<le> s_size s \<and> s_size s \<le> s_capacity s \<and> unat (s_capacity s) \<le> block_length s"

text \<open>Sizes far from the end of the 64 bits, as those of any memory that exists.\<close>

definition stream_room :: "stream \<Rightarrow> nat \<Rightarrow> bool" where
  "stream_room s n \<longleftrightarrow> 2 * (unat (s_size s) + n) < 2 ^ 64"

definition content :: "stream \<Rightarrow> u8 option list" where
  "content s = (case s_data s of None \<Rightarrow> [] | Some b \<Rightarrow> take (unat (s_size s)) b)"

lemma stream_inv_default [inv_intros]: "stream_inv stream_default"
  by (simp add: stream_inv_def stream_default_def block_length_def)

lemma ToString_content: "stream_inv s \<Longrightarrow> stream_ToString s = Inr (content s)"
  by (auto simp: stream_ToString_def content_def copy_out_def stream_inv_def block_length_def
      word_le_nat_alt split: option.splits)

lemma reserve_spec:
  assumes "unat (s_capacity s) \<le> block_length s"
  shows "\<exists>s'. stream_Reserve s cap = Inr s' \<and> s_size s' = s_size s \<and> s_pos s' = s_pos s \<and>
           s_capacity s' = max (s_capacity s) cap \<and> unat (s_capacity s') \<le> block_length s' \<and>
           (\<forall>n \<le> unat (s_capacity s). take n (case s_data s' of None \<Rightarrow> [] | Some b \<Rightarrow> b) =
              take n (case s_data s of None \<Rightarrow> [] | Some b \<Rightarrow> b))"
proof (cases "cap \<le> s_capacity s")
  case True
  then show ?thesis using assms by (simp add: stream_Reserve_def max_def)
next
  case False
  then have lt: "unat (s_capacity s) < unat cap" by (simp add: word_less_nat_alt not_le)
  have m: "max (s_capacity s) cap = cap" using False by (simp add: max_def not_le less_imp_le)
  show ?thesis
  proof (cases "s_data s")
    case None
    then have "unat (s_capacity s) = 0" using assms by (simp add: block_length_def)
    then show ?thesis using None False m
      by (simp add: stream_Reserve_def stream_Allocate_def block_length_def)
  next
    case (Some b)
    have le: "unat (s_capacity s) \<le> length b" using assms Some by (simp add: block_length_def)
    let ?bytes = "take (unat (s_capacity s)) b"
    have o: "copy_out (Some b) 0 (s_capacity s) = Inr ?bytes"
      using le by (auto simp: copy_out_def unat_eq_0)
    let ?d = "?bytes @ drop (length ?bytes) (stream_Allocate cap)"
    have i: "copy_in (Some (stream_Allocate cap)) 0 ?bytes = Inr (Some ?d)"
      using lt le by (auto simp: copy_in_def stream_Allocate_def)
    have l: "length ?d = unat cap" using lt le by (simp add: stream_Allocate_def)
    have "\<forall>n \<le> unat (s_capacity s). take n ?d = take n b" using le by (simp add: min_def)
    then show ?thesis using Some False m o i l
      by (simp add: stream_Reserve_def block_length_def)
  qed
qed

lemma write_spec:
  assumes inv: "stream_inv s" and room: "stream_room s (length src)"
  shows "\<exists>s'. stream_Write s src = Inr s' \<and> stream_inv s' \<and> s_pos s' = s_pos s + of_nat (length src) \<and>
           s_size s' = s_size s + of_nat (length src) \<and>
           take (unat (s_pos s)) (content s') = take (unat (s_pos s)) (content s) \<and>
           take (length src) (drop (unat (s_pos s)) (content s')) = map Some src"
proof -
  let ?n = "length src"
  have I: "unat (s_pos s) \<le> unat (s_size s)" "unat (s_size s) \<le> unat (s_capacity s)"
    "unat (s_capacity s) \<le> block_length s"
    using inv by (auto simp: stream_inv_def word_le_nat_alt)
  have n: "unat (of_nat ?n :: u64) = ?n" using room by (intro unat_of_nat_small) (simp add: stream_room_def)
  have sz: "unat (s_size s + of_nat ?n) = unat (s_size s) + ?n"
    using room n by (simp add: unat_word_ariths stream_room_def)
  have ps: "unat (s_pos s + of_nat ?n) = unat (s_pos s) + ?n"
    using room n I(1) by (simp add: unat_word_ariths stream_room_def)
  have dbl: "unat ((s_size s + of_nat ?n) * 2) = 2 * (unat (s_size s) + ?n)"
  proof -
    have "unat ((s_size s + of_nat ?n) * 2) = (unat (s_size s + of_nat ?n) * unat (2 :: u64)) mod 2 ^ 64"
      by (simp only: unat_word_ariths) simp
    then show ?thesis using room sz by (simp add: stream_room_def)
  qed
  define s1 where "s1 = s\<lparr>s_size := s_size s + of_nat ?n\<rparr>"
  have c1: "unat (s_capacity s1) \<le> block_length s1" using I(3) by (simp add: s1_def block_length_def)
  obtain s2 where s2: "(if s_size s1 \<ge> s_capacity s1 then stream_Reserve s1 (max (s_size s1 * 2) 64) else Inr s1)
        = Inr s2" "s_size s2 = s_size s1" "s_pos s2 = s_pos s1" "s_size s2 \<le> s_capacity s2"
      "unat (s_capacity s2) \<le> block_length s2"
      "take (unat (s_pos s)) (case s_data s2 of None \<Rightarrow> [] | Some b \<Rightarrow> b) =
       take (unat (s_pos s)) (case s_data s of None \<Rightarrow> [] | Some b \<Rightarrow> b)"
  proof (cases "s_size s1 \<ge> s_capacity s1")
    case True
    from reserve_spec [OF c1, of "max (s_size s1 * 2) 64"] obtain s' where
      R: "stream_Reserve s1 (max (s_size s1 * 2) 64) = Inr s'" "s_size s' = s_size s1" "s_pos s' = s_pos s1"
        "s_capacity s' = max (s_capacity s1) (max (s_size s1 * 2) 64)"
        "unat (s_capacity s') \<le> block_length s'"
        "\<forall>k \<le> unat (s_capacity s1). take k (case s_data s' of None \<Rightarrow> [] | Some b \<Rightarrow> b) =
           take k (case s_data s1 of None \<Rightarrow> [] | Some b \<Rightarrow> b)" by blast
    have "s_size s1 \<le> s_size s1 * 2" using dbl sz by (simp add: s1_def word_le_nat_alt)
    then have "s_size s' \<le> s_capacity s'" using R(2,4) by (simp add: le_max_iff_disj)
    with R True that [of s'] I show thesis by (simp add: s1_def)
  next
    case False
    then have "(if s_size s1 \<ge> s_capacity s1 then stream_Reserve s1 (max (s_size s1 * 2) 64) else Inr s1) =
        Inr s1" "s_size s1 \<le> s_capacity s1" by auto
    from that [OF this(1) refl refl this(2) c1] show thesis by (simp add: s1_def)
  qed
  have pos2: "s_pos s2 = s_pos s" "unat (s_size s2) = unat (s_size s) + ?n"
    using s2 sz by (auto simp: s1_def)
  have fits: "unat (s_pos s) + ?n \<le> block_length s2"
    using s2(4,5) pos2(2) I(1) by (simp add: word_le_nat_alt)
  define base where "base = (case s_data s2 of None \<Rightarrow> [] | Some b \<Rightarrow> b)"
  define d where "d = (if src = [] then s_data s2
      else Some (take (unat (s_pos s)) base @ map Some src @ drop (unat (s_pos s) + ?n) base))"
  have len: "length base = block_length s2" by (simp add: base_def block_length_def split: option.splits)
  have c: "copy_in (s_data s2) (s_pos s2) (map Some src) = Inr d"
    using fits pos2(1) by (auto simp: copy_in_def d_def base_def block_length_def split: option.splits)
  define s' where "s' = s2\<lparr>s_data := d, s_pos := s_pos s2 + of_nat ?n\<rparr>"
  have w: "stream_Write s src = Inr s'"
    unfolding stream_Write_def Let_def s1_def [symmetric]
    by (simp only: s2(1) bind_res_Inr c s'_def)
  have bl: "block_length s' = block_length s2"
    using fits len by (auto simp: s'_def block_length_def d_def base_def split: option.splits)
  have cont: "content s' = take (unat (s_size s2)) (take (unat (s_pos s)) base @ map Some src @
      drop (unat (s_pos s) + ?n) base)"
  proof -
    have "(case d of None \<Rightarrow> [] | Some b \<Rightarrow> b) =
        take (unat (s_pos s)) base @ map Some src @ drop (unat (s_pos s) + ?n) base"
      by (cases "src = []") (simp_all add: d_def base_def)
    moreover have "content s' = take (unat (s_size s2)) (case d of None \<Rightarrow> [] | Some b \<Rightarrow> b)"
      by (simp add: content_def s'_def split: option.splits)
    ultimately show ?thesis by simp
  qed
  have szl: "unat (s_size s2) \<le> length base" using s2(4,5) len by (simp add: word_le_nat_alt)
  have a: "take (unat (s_pos s)) (content s') = take (unat (s_pos s)) (content s)"
  proof -
    have "take (unat (s_pos s)) (content s') = take (unat (s_pos s)) base"
      unfolding cont using pos2(2) I(1) szl by (simp add: min_def)
    also have "\<dots> = take (unat (s_pos s)) (content s)"
      using s2(6) I(1) by (auto simp: base_def content_def min_def split: option.splits)
    finally show ?thesis .
  qed
  have b: "take ?n (drop (unat (s_pos s)) (content s')) = map Some src"
  proof -
    have l: "length src \<le> unat (s_size s2) - unat (s_pos s)" "unat (s_pos s) \<le> length base"
      using pos2(2) I(1) szl by simp_all
    show ?thesis
    proof (cases "src = []")
      case False
      then have "min (unat (s_size s2)) (unat (s_pos s)) = unat (s_pos s)" using l(1) by (cases src) simp_all
      with l show ?thesis unfolding cont by (simp add: drop_take)
    qed simp
  qed
  have "stream_inv s'"
    using s2(4,5) bl pos2 ps I(1) sz
    by (simp add: stream_inv_def s'_def word_le_nat_alt block_length_def)
  with w a b pos2 s2(2) show ?thesis by (auto simp: s'_def s1_def)
qed

lemma read_spec:
  assumes inv: "stream_inv s" and n: "unat (s_pos s) + unat count \<le> unat (s_size s)"
  shows "stream_Read s count = Inr (Some (take (unat count) (drop (unat (s_pos s)) (content s))),
           s\<lparr>s_pos := s_pos s + count\<rparr>)"
proof -
  have I: "unat (s_size s) \<le> unat (s_capacity s)" "unat (s_capacity s) \<le> block_length s"
    using inv by (auto simp: stream_inv_def word_le_nat_alt)
  have "unat (s_pos s + count) = unat (s_pos s) + unat count"
    using n unat_u64_bound [of "s_size s"] by (simp add: unat_word_ariths)
  then have le: "\<not> s_pos s + count > s_size s" using n by (simp add: word_less_nat_alt)
  show ?thesis
  proof (cases "count = 0")
    case False
    then have "0 < unat count" by (simp add: unat_gt_0)
    then obtain b where b: "s_data s = Some b" "length b = block_length s"
      using I n by (cases "s_data s") (auto simp: block_length_def)
    have "copy_out (s_data s) (s_pos s) count = Inr (take (unat count) (drop (unat (s_pos s)) b))"
      using False b n I by (simp add: copy_out_def)
    moreover have "take (unat count) (drop (unat (s_pos s)) (content s)) = take (unat count) (drop (unat (s_pos s)) b)"
      using b(1) n by (simp add: content_def drop_take min_def)
    ultimately show ?thesis using False le by (simp add: stream_Read_def)
  qed (simp add: stream_Read_def)
qed

section \<open>Properties\<close>

text \<open>C37: What is written can be read back: from a well-formed stream, \<open>Write\<close> never leaves the
  block, keeps everything before the position, and after going back to the old position, \<open>Read\<close> of
  as many bytes returns exactly the bytes written and ends at the same position as the write.\<close>

theorem stream_write_read:
  assumes "stream_inv s" and "stream_room s (length src)"
  shows "\<exists>s'. stream_Write s src = Inr s' \<and> stream_inv s' \<and>
           take (unat (s_pos s)) (content s') = take (unat (s_pos s)) (content s) \<and>
           stream_Read (stream_SetPosition s' (s_pos s)) (of_nat (length src)) = Inr (Some (map Some src), s')"
proof -
  from write_spec [OF assms] obtain s' where
    w: "stream_Write s src = Inr s'" "stream_inv s'" "s_pos s' = s_pos s + of_nat (length src)"
      "s_size s' = s_size s + of_nat (length src)"
      "take (unat (s_pos s)) (content s') = take (unat (s_pos s)) (content s)"
      "take (length src) (drop (unat (s_pos s)) (content s')) = map Some src" by blast
  let ?t = "stream_SetPosition s' (s_pos s)"
  have I: "unat (s_pos s) \<le> unat (s_size s)" using assms(1) by (simp add: stream_inv_def word_le_nat_alt)
  have n: "unat (of_nat (length src) :: u64) = length src"
    using assms(2) by (intro unat_of_nat_small) (simp add: stream_room_def)
  have sz: "unat (s_size s') = unat (s_size s) + length src"
    using w(4) assms(2) n by (simp add: unat_word_ariths stream_room_def)
  have ti: "stream_inv ?t"
    using w(2) I sz by (simp add: stream_inv_def stream_SetPosition_def block_length_def word_le_nat_alt)
  have "stream_Read ?t (of_nat (length src)) =
      Inr (Some (take (unat (of_nat (length src) :: u64)) (drop (unat (s_pos ?t)) (content ?t))),
           ?t\<lparr>s_pos := s_pos ?t + of_nat (length src)\<rparr>)"
    by (rule read_spec [OF ti]) (use I sz n in \<open>simp add: stream_SetPosition_def\<close>)
  also have "content ?t = content s'" by (simp add: content_def stream_SetPosition_def split: option.splits)
  also have "?t\<lparr>s_pos := s_pos ?t + of_nat (length src)\<rparr> = s'"
    using w(3) by (simp add: stream_SetPosition_def)
  finally have "stream_Read ?t (of_nat (length src)) = Inr (Some (map Some src), s')"
    using w(6) n by (simp add: stream_SetPosition_def)
  with w show ?thesis by blast
qed

theorem stream_write_read_witness:
  "\<exists>s'. stream_Write stream_default [1, 2, 3] = Inr s' \<and>
     stream_Read (stream_SetPosition s' 0) 3 = Inr (Some [Some 1, Some 2, Some 3], s')"
  using stream_write_read [of stream_default "[1, 2, 3]"] stream_inv_default
  by (auto simp: stream_room_def stream_default_def)

text \<open>\<open>Read\<close> of a well-formed stream never leaves the block: it returns exactly the bytes at the
  position when enough are left, and refuses, leaving the stream alone, when they are not.\<close>

theorem stream_read_total:
  assumes "stream_inv s" and "unat (s_pos s) + unat count < 2 ^ 64"
  shows "stream_Read s count =
     (if unat (s_pos s) + unat count \<le> unat (s_size s)
      then Inr (Some (take (unat count) (drop (unat (s_pos s)) (content s))), s\<lparr>s_pos := s_pos s + count\<rparr>)
      else Inr (None, s))"
proof (cases "unat (s_pos s) + unat count \<le> unat (s_size s)")
  case True
  with read_spec [OF assms(1)] show ?thesis by simp
next
  case False
  have "unat (s_pos s + count) = unat (s_pos s) + unat count" using assms(2) by (simp add: unat_word_ariths)
  moreover have "count \<noteq> 0" using False assms(1) by (auto simp: stream_inv_def word_le_nat_alt)
  ultimately show ?thesis using False by (simp add: stream_Read_def word_less_nat_alt)
qed

theorem stream_read_total_witness: "stream_Read stream_default 5 = Inr (None, stream_default)"
  using stream_read_total [OF stream_inv_default, of 5] by (simp add: stream_default_def)

text \<open>\<open>Write\<close> in the middle of a stream overwrites but still grows the size by the number of bytes
  written: overwriting the first of three bytes leaves a stream of four whose last byte nothing
  ever wrote.\<close>

theorem stream_overwrite_grows:
  "bind_res (stream_Write (stream_SetPosition (stream_of_data [97, 98, 99]) 0) [120]) stream_ToString =
     Inr [Some 120, Some 98, Some 99, None]"
  by (simp add: stream_of_data_def stream_SetPosition_def stream_Write_def Let_def stream_Reserve_def
      copy_in_def copy_out_def stream_Allocate_def stream_ToString_def max_def take_Cons' drop_Cons')

text \<open>\<open>SetData\<close> leaves the position where it was and forgets how big the block is: after a longer
  stream it leaves a position behind the new end, and the next \<open>Write\<close> can write outside the block.\<close>

theorem stream_set_data_then_write:
  "bind_res (stream_Write stream_default (replicate 100 7)) (\<lambda>s.
   bind_res (stream_SetData s [1]) (\<lambda>s. stream_Write s [2])) = Inl OutOfRange"
proof -
  define s where "s = \<lparr>s_size = 100, s_pos = 100, s_capacity = 200,
      s_data = Some (replicate 100 (Some (7::u8)) @ replicate 100 None)\<rparr>"
  have "stream_Write stream_default (replicate 100 7) = Inr s"
    by (simp add: stream_Write_def stream_default_def stream_Reserve_def stream_Allocate_def copy_in_def
        Let_def max_def s_def)
  moreover have "stream_SetData s [1] = Inr \<lparr>s_size = 1, s_pos = 100, s_capacity = 1,
      s_data = Some (Some 1 # replicate 99 (Some 7) @ replicate 100 None)\<rparr>"
    by (simp add: stream_SetData_def s_def stream_Reserve_def copy_in_def Let_def drop_Cons')
  moreover have "stream_Write \<lparr>s_size = 1, s_pos = 100, s_capacity = 1,
      s_data = Some (Some 1 # replicate 99 (Some 7) @ replicate 100 None)\<rparr> [2] = Inl OutOfRange"
    by (simp add: stream_Write_def stream_Reserve_def stream_Allocate_def copy_in_def copy_out_def
        Let_def max_def word_le_nat_alt)
  ultimately show ?thesis by simp
qed

end
