(* ===== verification/SR_Data_Types.thy ===== *)
theory SR_Data_Types
  imports SR_Hashes
begin

text \<open>
  The values of the visual-programming machine: inc/Utils/SRLM/DataType.h, the class bodies that
  the macros of inc/Utils/SRLM/Utils.h generate, src/Utils/SRLM/DataType.cpp and the type factory
  src/Utils/SRLM/DataTypeManager.cpp.

  A \<open>DataType*\<close> owns its value, and a struct or an array owns its parts, so an object is a
  tree of the datatype \<open>data_type\<close>, one constructor per class. Integers keep their width,
  a float or a double is its bit pattern, a string its bytes. \<open>GetRawValue\<close> is a pointer to
  the value's memory: \<open>raw\<close> is what a reader finds there, the number of readable bytes and
  their little-endian contents, or a string object. A struct's \<open>std::map\<close> is the list of its
  entries in the order of the keys.

  The lemmas: \<open>Copy\<close> and \<open>CopyTo\<close> against the type of an object (what \<open>Reset\<close>
  leaves of it), what the type code \<open>GetMeta\<close> does and does not determine, and that the
  factory always hands out fresh objects of the type asked for.
\<close>

section \<open>Classes and names\<close>

datatype data_class = CNone | CFlow | CEnum | CStruct | CArray | CMap | CSet | CBool | CFloat
  | CDouble | CString | CInt8 | CInt16 | CInt32 | CInt64 | CUInt8 | CUInt16 | CUInt32 | CUInt64

definition all_classes :: "data_class list" where
  "all_classes = [CNone, CFlow, CEnum, CStruct, CArray, CMap, CSet, CBool, CFloat,
     CDouble, CString, CInt8, CInt16, CInt32, CInt64, CUInt8, CUInt16, CUInt32, CUInt64]"

definition bytes_of :: "string \<Rightarrow> u8 list" where
  "bytes_of s = map (\<lambda>c. word_of_nat (of_char c)) s"

text \<open>\<open>NAME\<close> and \<open>HASH_NAME\<close> of a class; no C++ class registers \<open>Map\<close> and
  \<open>Set\<close>.\<close>

definition class_name :: "data_class \<Rightarrow> u8 list" where
  "class_name c = bytes_of (case c of CNone \<Rightarrow> ''None'' | CFlow \<Rightarrow> ''Flow'' | CEnum \<Rightarrow> ''Enum''
     | CStruct \<Rightarrow> ''Struct'' | CArray \<Rightarrow> ''Array'' | CMap \<Rightarrow> ''Map'' | CSet \<Rightarrow> ''Set''
     | CBool \<Rightarrow> ''Bool'' | CFloat \<Rightarrow> ''Float'' | CDouble \<Rightarrow> ''Double'' | CString \<Rightarrow> ''String''
     | CInt8 \<Rightarrow> ''Int8'' | CInt16 \<Rightarrow> ''Int16'' | CInt32 \<Rightarrow> ''Int32'' | CInt64 \<Rightarrow> ''Int64''
     | CUInt8 \<Rightarrow> ''UInt8'' | CUInt16 \<Rightarrow> ''UInt16'' | CUInt32 \<Rightarrow> ''UInt32'' | CUInt64 \<Rightarrow> ''UInt64'')"

definition class_hash :: "data_class \<Rightarrow> u64" where
  "class_hash c = hash_str (class_name c)"

text \<open>An \<open>EnumReflector\<close>, as far as a value looks at it: the hash of the enumeration's name.\<close>

type_synonym reflector = u64

section \<open>Values\<close>

datatype data_type =
    DTNone
  | DTFlow "reflector option" u64
  | DTEnum "reflector option" u64
  | DTStruct u64 "(u64 \<times> data_type) list"
  | DTArray data_type "data_type list"
  | DTBool bool
  | DTFloat u32
  | DTDouble u64
  | DTString "u8 list"
  | DTInt8 u8
  | DTInt16 u16
  | DTInt32 u32
  | DTInt64 u64
  | DTUInt8 u8
  | DTUInt16 u16
  | DTUInt32 u32
  | DTUInt64 u64

definition flow_reflector :: reflector where
  "flow_reflector = hash_str (bytes_of ''FlowState'')"

fun GetClass :: "data_type \<Rightarrow> data_class" where
  "GetClass DTNone = CNone"
| "GetClass (DTFlow _ _) = CFlow"
| "GetClass (DTEnum _ _) = CEnum"
| "GetClass (DTStruct _ _) = CStruct"
| "GetClass (DTArray _ _) = CArray"
| "GetClass (DTBool _) = CBool"
| "GetClass (DTFloat _) = CFloat"
| "GetClass (DTDouble _) = CDouble"
| "GetClass (DTString _) = CString"
| "GetClass (DTInt8 _) = CInt8"
| "GetClass (DTInt16 _) = CInt16"
| "GetClass (DTInt32 _) = CInt32"
| "GetClass (DTInt64 _) = CInt64"
| "GetClass (DTUInt8 _) = CUInt8"
| "GetClass (DTUInt16 _) = CUInt16"
| "GetClass (DTUInt32 _) = CUInt32"
| "GetClass (DTUInt64 _) = CUInt64"

text \<open>A flow is registered by \<open>SR_LM_REGISTER_TYPE\<close>, which overrides \<open>GetHashName\<close>
  again; only a plain enum answers with its reflector's hash.\<close>

fun GetHashName :: "data_type \<Rightarrow> u64" where
  "GetHashName (DTEnum (Some r) _) = r"
| "GetHashName d = class_hash (GetClass d)"

text \<open>\<open>GetMeta\<close>: the hash of the name, combined with those of the struct's variables or the
  array's element type.\<close>

fun GetMeta :: "data_type \<Rightarrow> u64" where
  "GetMeta (DTStruct n vs) = foldl (\<lambda>hash m. CombineTwoHashes hash m) (class_hash CStruct) (map (\<lambda>(k, d). GetMeta d) vs)"
| "GetMeta (DTArray t xs) = CombineTwoHashes (class_hash CArray) (GetHashName t)"
| "GetMeta d = GetHashName d"

section \<open>Reset and Copy\<close>

fun Reset :: "data_type \<Rightarrow> data_type" where
  "Reset DTNone = DTNone"
| "Reset (DTFlow r _) = DTFlow r 0"
| "Reset (DTEnum r _) = DTEnum r 0"
| "Reset (DTStruct n vs) = DTStruct n (map (\<lambda>(k, d). (k, Reset d)) vs)"
| "Reset (DTArray t xs) = DTArray t []"
| "Reset (DTBool _) = DTBool False"
| "Reset (DTFloat _) = DTFloat 0"
| "Reset (DTDouble _) = DTDouble 0"
| "Reset (DTString _) = DTString []"
| "Reset (DTInt8 _) = DTInt8 0"
| "Reset (DTInt16 _) = DTInt16 0"
| "Reset (DTInt32 _) = DTInt32 0"
| "Reset (DTInt64 _) = DTInt64 0"
| "Reset (DTUInt8 _) = DTUInt8 0"
| "Reset (DTUInt16 _) = DTUInt16 0"
| "Reset (DTUInt32 _) = DTUInt32 0"
| "Reset (DTUInt64 _) = DTUInt64 0"

text \<open>\<open>Copy\<close> builds a flow again from \<open>static_cast<FlowState>\<close> of its value, which
  keeps eight bits, and with the reflector of \<open>FlowState\<close>.\<close>

fun Copy :: "data_type \<Rightarrow> data_type" where
  "Copy (DTFlow r v) = DTFlow (Some flow_reflector) (ucast (ucast v :: u8))"
| "Copy (DTStruct n vs) = DTStruct n (map (\<lambda>(k, d). (k, Copy d)) vs)"
| "Copy (DTArray t xs) = DTArray (Copy t) (map Copy xs)"
| "Copy d = d"

section \<open>Raw memory\<close>

datatype raw = RawBytes nat u64 | RawString "u8 list"

fun GetRawValue :: "data_type \<Rightarrow> raw option" where
  "GetRawValue (DTFlow _ v) = Some (RawBytes 8 v)"
| "GetRawValue (DTEnum _ v) = Some (RawBytes 8 v)"
| "GetRawValue (DTBool b) = Some (RawBytes 1 (if b then 1 else 0))"
| "GetRawValue (DTFloat v) = Some (RawBytes 4 (ucast v))"
| "GetRawValue (DTDouble v) = Some (RawBytes 8 v)"
| "GetRawValue (DTString s) = Some (RawString s)"
| "GetRawValue (DTInt8 v) = Some (RawBytes 1 (ucast v))"
| "GetRawValue (DTInt16 v) = Some (RawBytes 2 (ucast v))"
| "GetRawValue (DTInt32 v) = Some (RawBytes 4 (ucast v))"
| "GetRawValue (DTInt64 v) = Some (RawBytes 8 v)"
| "GetRawValue (DTUInt8 v) = Some (RawBytes 1 (ucast v))"
| "GetRawValue (DTUInt16 v) = Some (RawBytes 2 (ucast v))"
| "GetRawValue (DTUInt32 v) = Some (RawBytes 4 (ucast v))"
| "GetRawValue (DTUInt64 v) = Some (RawBytes 8 v)"
| "GetRawValue _ = None"

text \<open>\<open>*(type*)pValue\<close> for a type of \<open>w\<close> bytes.\<close>

fun read_raw :: "nat \<Rightarrow> raw \<Rightarrow> u64 result" where
  "read_raw w (RawBytes n v) = (if w \<le> n then Inr (take_bit (8 * w) v) else Inl OutOfRange)"
| "read_raw w (RawString s) = Inl UndefinedOp"

text \<open>A \<open>bool\<close> whose byte is neither 0 nor 1 has no defined value.\<close>

definition read_bool :: "raw \<Rightarrow> bool result" where
  "read_bool p = bind_res (read_raw 1 p) (\<lambda>v. if v = 0 then Inr False else if v = 1 then Inr True else Inl UndefinedOp)"

fun read_string :: "raw \<Rightarrow> u8 list result" where
  "read_string (RawString s) = Inr s"
| "read_string (RawBytes n v) = Inl UndefinedOp"

fun SetRawValue :: "data_type \<Rightarrow> raw \<Rightarrow> data_type result" where
  "SetRawValue (DTFlow r _) p = bind_res (read_raw 8 p) (\<lambda>v. Inr (DTFlow r v))"
| "SetRawValue (DTEnum r _) p = bind_res (read_raw 8 p) (\<lambda>v. Inr (DTEnum r v))"
| "SetRawValue (DTBool _) p = bind_res (read_bool p) (\<lambda>v. Inr (DTBool v))"
| "SetRawValue (DTFloat _) p = bind_res (read_raw 4 p) (\<lambda>v. Inr (DTFloat (ucast v)))"
| "SetRawValue (DTDouble _) p = bind_res (read_raw 8 p) (\<lambda>v. Inr (DTDouble v))"
| "SetRawValue (DTString _) p = bind_res (read_string p) (\<lambda>s. Inr (DTString s))"
| "SetRawValue (DTInt8 _) p = bind_res (read_raw 1 p) (\<lambda>v. Inr (DTInt8 (ucast v)))"
| "SetRawValue (DTInt16 _) p = bind_res (read_raw 2 p) (\<lambda>v. Inr (DTInt16 (ucast v)))"
| "SetRawValue (DTInt32 _) p = bind_res (read_raw 4 p) (\<lambda>v. Inr (DTInt32 (ucast v)))"
| "SetRawValue (DTInt64 _) p = bind_res (read_raw 8 p) (\<lambda>v. Inr (DTInt64 v))"
| "SetRawValue (DTUInt8 _) p = bind_res (read_raw 1 p) (\<lambda>v. Inr (DTUInt8 (ucast v)))"
| "SetRawValue (DTUInt16 _) p = bind_res (read_raw 2 p) (\<lambda>v. Inr (DTUInt16 (ucast v)))"
| "SetRawValue (DTUInt32 _) p = bind_res (read_raw 4 p) (\<lambda>v. Inr (DTUInt32 (ucast v)))"
| "SetRawValue (DTUInt64 _) p = bind_res (read_raw 8 p) (\<lambda>v. Inr (DTUInt64 v))"
| "SetRawValue d p = Inr d"

section \<open>Struct variables\<close>

text \<open>\<open>m_variables[name] = pData\<close> and \<open>m_variables.at(name)\<close> of the ordered map.\<close>

fun map_put :: "u64 \<Rightarrow> 'a \<Rightarrow> (u64 \<times> 'a) list \<Rightarrow> (u64 \<times> 'a) list" where
  "map_put k d [] = [(k, d)]"
| "map_put k d ((j, e) # vs) =
     (if k < j then (k, d) # (j, e) # vs else if k = j then (k, d) # vs else (j, e) # map_put k d vs)"

fun AddVariable :: "u64 \<Rightarrow> data_type \<Rightarrow> data_type \<Rightarrow> data_type" where
  "AddVariable k d (DTStruct n vs) = DTStruct n (map_put k d vs)"
| "AddVariable k d e = e"

definition AddVariable_name :: "u8 list \<Rightarrow> data_type \<Rightarrow> data_type \<Rightarrow> data_type" where
  "AddVariable_name name d e = AddVariable (hash_str name) d e"

fun GetMetaData :: "data_type \<Rightarrow> data_type list" where
  "GetMetaData (DTStruct n vs) = map snd vs"
| "GetMetaData _ = []"

definition SetType :: "data_type \<Rightarrow> data_type \<Rightarrow> data_type" where
  "SetType t d = (case d of DTArray _ xs \<Rightarrow> Reset (DTArray t xs) | _ \<Rightarrow> d)"

section \<open>CopyTo\<close>

fun CopyTo :: "data_type \<Rightarrow> data_type \<Rightarrow> data_type result"
and copy_vars :: "(u64 \<times> data_type) list \<Rightarrow> (u64 \<times> data_type) list \<Rightarrow> (u64 \<times> data_type) list result" where
  "CopyTo DTNone p = Inr p"
| "CopyTo (DTStruct n vs) p =
     (case p of DTStruct m us \<Rightarrow> bind_res (copy_vars vs us) (\<lambda>us'. Inr (DTStruct m us')) | _ \<Rightarrow> Inr p)"
| "CopyTo (DTArray t xs) p = (case p of DTArray u ys \<Rightarrow> Inr (DTArray u (map Copy xs)) | _ \<Rightarrow> Inr p)"
| "CopyTo d p = (case GetRawValue d of None \<Rightarrow> Inl NullPointer | Some raw \<Rightarrow> SetRawValue p raw)"
| "copy_vars [] us = Inr us"
| "copy_vars ((k, d) # vs) us =
     (case map_of us k of None \<Rightarrow> Inl Exception
      | Some u \<Rightarrow> bind_res (CopyTo d u) (\<lambda>u'. copy_vars vs (map_put k u' us)))"

section \<open>The allocator\<close>

text \<open>\<open>m_hashes\<close> is not initialised by the constructor: what it holds at first is a
  parameter. An allocator function returns a fresh object, here the object.\<close>

record type_allocator =
  m_hashes :: "data_class \<Rightarrow> u64"
  m_allocators :: "data_class \<Rightarrow> data_type option"

definition allocator_new :: "(data_class \<Rightarrow> u64) \<Rightarrow> type_allocator" where
  "allocator_new garbage = \<lparr>m_hashes = garbage, m_allocators = (\<lambda>_. None)\<rparr>"

definition allocator_Register :: "data_class \<Rightarrow> u64 \<Rightarrow> data_type \<Rightarrow> type_allocator \<Rightarrow> type_allocator" where
  "allocator_Register c hashName d a =
     \<lparr>m_hashes = (m_hashes a)(c := hashName), m_allocators = (m_allocators a)(c := Some d)\<rparr>"

definition Allocate :: "type_allocator \<Rightarrow> data_class \<Rightarrow> data_type option" where
  "Allocate a c = m_allocators a c"

definition Allocate_hash :: "type_allocator \<Rightarrow> u64 \<Rightarrow> data_type option" where
  "Allocate_hash a hashName =
     (case find (\<lambda>c. m_hashes a c = hashName) all_classes of None \<Rightarrow> None | Some c \<Rightarrow> Allocate a c)"

text \<open>The objects the default constructors build, one per registered class.\<close>

fun fresh :: "data_class \<Rightarrow> data_type option" where
  "fresh CNone = Some DTNone"
| "fresh CFlow = Some (DTFlow (Some flow_reflector) 0)"
| "fresh CEnum = Some (DTEnum None 0)"
| "fresh CStruct = Some (DTStruct (- 1) [])"
| "fresh CArray = Some (DTArray DTNone [])"
| "fresh CMap = None"
| "fresh CSet = None"
| "fresh CBool = Some (DTBool False)"
| "fresh CFloat = Some (DTFloat 0)"
| "fresh CDouble = Some (DTDouble 0)"
| "fresh CString = Some (DTString [])"
| "fresh CInt8 = Some (DTInt8 0)"
| "fresh CInt16 = Some (DTInt16 0)"
| "fresh CInt32 = Some (DTInt32 0)"
| "fresh CInt64 = Some (DTInt64 0)"
| "fresh CUInt8 = Some (DTUInt8 0)"
| "fresh CUInt16 = Some (DTUInt16 0)"
| "fresh CUInt32 = Some (DTUInt32 0)"
| "fresh CUInt64 = Some (DTUInt64 0)"

text \<open>The static initialisers \<open>REGISTER_STATUS\<close> of all the classes.\<close>

definition register_class :: "type_allocator \<Rightarrow> data_class \<Rightarrow> type_allocator" where
  "register_class a c = (case fresh c of None \<Rightarrow> a | Some d \<Rightarrow> allocator_Register c (class_hash c) d a)"

definition registered :: "(data_class \<Rightarrow> u64) \<Rightarrow> type_allocator" where
  "registered garbage = foldl register_class (allocator_new garbage) all_classes"

section \<open>The type manager\<close>

record type_manager =
  m_structs :: "u64 \<rightharpoonup> data_type"

text \<open>\<open>reflectors\<close>: the hashes of the enumerations the \<open>EnumReflectorManager\<close> knows.\<close>

definition CreateByName :: "type_allocator \<Rightarrow> u64 list \<Rightarrow> type_manager \<Rightarrow> u64 \<Rightarrow> data_type option" where
  "CreateByName a reflectors m hashName =
     (case m_structs m hashName of Some d \<Rightarrow> Some (Copy d)
      | None \<Rightarrow> (case Allocate_hash a hashName of Some d \<Rightarrow> Some d
         | None \<Rightarrow> (if hashName \<in> set reflectors then Some (DTEnum (Some hashName) 0) else None)))"

definition CreateByName_string :: "type_allocator \<Rightarrow> u64 list \<Rightarrow> type_manager \<Rightarrow> u8 list \<Rightarrow> data_type option" where
  "CreateByName_string a reflectors m name = CreateByName a reflectors m (hash_str name)"

definition tm_Clear :: "type_manager \<Rightarrow> type_manager" where
  "tm_Clear m = m\<lparr>m_structs := Map.empty\<rparr>"

definition tm_GetStruct :: "type_manager \<Rightarrow> u64 \<Rightarrow> data_type option" where
  "tm_GetStruct m hashName = m_structs m hashName"

definition tm_IsStructExists :: "type_manager \<Rightarrow> u64 \<Rightarrow> bool" where
  "tm_IsStructExists m hashName = (m_structs m hashName \<noteq> None)"

text \<open>\<open>ReloadSettings\<close>: the document is the list of its structs, each with its name and its
  variables, a variable with its name and its type's name. The new struct is already in the map
  while its variables are created.\<close>

definition reload_var :: "type_allocator \<Rightarrow> u64 list \<Rightarrow> u64 \<Rightarrow> type_manager \<Rightarrow> u8 list \<times> u8 list \<Rightarrow> type_manager" where
  "reload_var a reflectors structHash m xmlVar =
     (case CreateByName a reflectors m (hash_str (snd xmlVar)) of
        Some pData \<Rightarrow> m\<lparr>m_structs := (m_structs m)(structHash :=
          map_option (AddVariable (hash_str (fst xmlVar)) pData) (m_structs m structHash))\<rparr>
      | None \<Rightarrow> m)"

definition reload_struct :: "type_allocator \<Rightarrow> u64 list \<Rightarrow> type_manager \<Rightarrow> u8 list \<times> (u8 list \<times> u8 list) list \<Rightarrow> type_manager" where
  "reload_struct a reflectors m xmlStruct =
     (let structHash = hash_str (fst xmlStruct);
          m1 = m\<lparr>m_structs := (m_structs m)(structHash \<mapsto> DTStruct structHash [])\<rparr>
      in foldl (reload_var a reflectors structHash) m1 (snd xmlStruct))"

definition ReloadSettings :: "type_allocator \<Rightarrow> u64 list \<Rightarrow> type_manager \<Rightarrow> (u8 list \<times> (u8 list \<times> u8 list) list) list option \<Rightarrow> type_manager" where
  "ReloadSettings a reflectors m xmlDocument =
     (case xmlDocument of None \<Rightarrow> m | Some structs \<Rightarrow> foldl (reload_struct a reflectors) m structs)"

section \<open>Well-formed values\<close>

text \<open>What the operations keep: a struct's keys are in order, and a flow holds a value of its
  eight-bit enumeration.\<close>

fun wf_data :: "data_type \<Rightarrow> bool" where
  "wf_data (DTFlow r v) = (r = Some flow_reflector \<and> v < 256)"
| "wf_data (DTStruct n vs) = (sorted_wrt (<) (map fst vs) \<and> (\<forall>(k, d) \<in> set vs. wf_data d))"
| "wf_data (DTArray t xs) = (wf_data t \<and> (\<forall>x \<in> set xs. wf_data x))"
| "wf_data d = True"

lemma flow_ucast: "v < 256 \<Longrightarrow> ucast (ucast (v :: u64) :: u8) = v"
proof -
  assume "v < 256"
  then have "take_bit 8 v = v"
    by (simp add: take_bit_eq_mod word_less_nat_alt word_arith_nat_mod) 
  then show ?thesis by (simp add: unsigned_ucast_eq) 
qed

lemma Copy_wf [simp]: "wf_data d \<Longrightarrow> Copy d = d"
  by (induction d rule: Copy.induct)
    (auto simp: flow_ucast intro!: map_idI)

lemma wf_Reset: "wf_data d \<Longrightarrow> wf_data (Reset d)"
  by (induction d rule: Reset.induct) (auto simp: comp_def case_prod_unfold)

lemma Reset_Reset [simp]: "Reset (Reset d) = Reset d"
  by (induction d rule: Reset.induct) auto

lemma map_put_set: "set (map_put k d vs) \<subseteq> insert (k, d) (set vs)"
  by (induction vs) (auto split: if_splits)

lemma map_put_keys: "set (map fst (map_put k d vs)) = insert k (set (map fst vs))"
  by (induction k d vs rule: map_put.induct) (simp_all add: insert_commute)

lemma map_put_sorted: "sorted_wrt (<) (map fst vs) \<Longrightarrow> sorted_wrt (<) (map fst (map_put k d vs))"
proof (induction vs)
  case (Cons v vs)
  then show ?case using map_put_keys [of k d vs] by (cases v) (auto simp: not_less)
qed simp

lemma map_of_map_put: "sorted_wrt (<) (map fst vs) \<Longrightarrow> map_of (map_put k d vs) j = (if j = k then Some d else map_of vs j)"
proof (induction vs)
  case (Cons v vs)
  have "map_of vs k = None" if "k < fst v"
    using Cons.prems that by (force simp: map_of_eq_None_iff)
  then show ?case using Cons by (cases v) auto
qed simp

lemma wf_AddVariable: "wf_data e \<Longrightarrow> wf_data d \<Longrightarrow> wf_data (AddVariable k d e)"
proof (cases e)
  case (DTStruct n vs)
  then show "wf_data e \<Longrightarrow> wf_data d \<Longrightarrow> wf_data (AddVariable k d e)"
    using map_put_set [of k d vs] by (auto simp: map_put_sorted)
qed auto

lemma map_put_replace:
  "sorted_wrt (<) (map fst (pre @ (k, u) # us)) \<Longrightarrow> map_put k d (pre @ (k, u) # us) = pre @ (k, d) # us"
  by (induction pre) auto

lemma map_of_middle:
  "sorted_wrt (<) (map fst (pre @ (k :: u64, u) # us)) \<Longrightarrow> map_of (pre @ (k, u) # us) k = Some u"
proof (induction pre)
  case (Cons v pre)
  then have "fst v \<noteq> k" by auto
  with Cons show ?case by (cases v) auto
qed simp

lemma take_bit_ucast8: "ucast (take_bit 8 (ucast (v :: u8) :: u64)) = v"
  by (rule bit_word_eqI) (simp add: bit_simps)

lemma take_bit_ucast16: "ucast (take_bit 16 (ucast (v :: u16) :: u64)) = v"
  by (rule bit_word_eqI) (simp add: bit_simps)

lemma take_bit_ucast32: "ucast (take_bit 32 (ucast (v :: u32) :: u64)) = v"
  by (rule bit_word_eqI) (simp add: bit_simps)

lemma take_bit_64 [simp]: "take_bit 64 (v :: u64) = v"
  by (rule bit_word_eqI) (simp add: bit_simps)

lemmas raw_simps = take_bit_ucast8 take_bit_ucast16 take_bit_ucast32 read_bool_def

lemma Reset_eq_struct: "DTStruct n ws = Reset b \<longleftrightarrow> (\<exists>us. b = DTStruct n us \<and> ws = map (\<lambda>(k, d). (k, Reset d)) us)"
  by (cases b) auto

lemma Reset_eq_array: "DTArray t xs = Reset b \<longleftrightarrow> xs = [] \<and> (\<exists>ys. b = DTArray t ys)"
  by (cases b) auto

lemma CopyTo_same_type:
  "wf_data a \<Longrightarrow> Reset a = Reset b \<Longrightarrow> CopyTo a b = Inr a"
  "(\<forall>(k, d) \<in> set vs. wf_data d) \<Longrightarrow> sorted_wrt (<) (map fst (pre @ vs)) \<Longrightarrow> us0 = pre @ us \<Longrightarrow>
     map (\<lambda>(k, d). (k, Reset d)) vs = map (\<lambda>(k, d). (k, Reset d)) us \<Longrightarrow>
     copy_vars vs us0 = Inr (pre @ vs)"
proof (induction a b and vs us0 arbitrary: and pre us rule: CopyTo_copy_vars.induct)
  case (2 n vs p)
  then obtain us where p: "p = DTStruct n us"
    and eq: "map (\<lambda>(k, d). (k, Reset d)) vs = map (\<lambda>(k, d). (k, Reset d)) us"
    by (auto simp: Reset_eq_struct)
  have "copy_vars vs us = Inr ([] @ vs)" by (rule 2(1) [OF p, where us = us]) (use 2 eq in auto)
  then show ?case by (simp add: p)
next
  case (3 t xs p)
  have "map Copy xs = xs" using 3 by (auto intro!: map_idI)
  then show ?case using 3 by (auto simp: Reset_eq_array)
next
  case (6 k d vs us0)
  then obtain u ws where us: "us = (k, u) # ws" and d: "Reset d = Reset u"
    and eq: "map (\<lambda>(k, d). (k, Reset d)) vs = map (\<lambda>(k, d). (k, Reset d)) ws"
    by (cases us) auto
  have keys: "map fst vs = map fst ws"
    using arg_cong [OF eq, of "map fst"] by (simp add: comp_def case_prod_unfold)
  then have srt: "sorted_wrt (<) (map fst (pre @ (k, u) # ws))" using 6 by simp
  have "map_of us0 k = Some u" using map_of_middle [OF srt] 6 us by simp
  moreover have "CopyTo d u = Inr d" by (rule 6(1)) (use calculation 6 d in auto)
  moreover have "map_put k d us0 = (pre @ [(k, d)]) @ ws"
    using map_put_replace [OF srt] 6 us by simp
  moreover have "copy_vars vs (map_put k d us0) = Inr ((pre @ [(k, d)]) @ vs)"
    by (rule 6(2) [where us = ws]) (use calculation 6 eq in auto)
  ultimately show ?case by simp
qed ((case_tac p; auto simp: raw_simps), simp?)+

lemma GetHashName_Reset: "GetHashName (Reset d) = GetHashName d"
  by (cases d rule: GetHashName.cases) auto

lemma GetMeta_Reset: "GetMeta (Reset d) = GetMeta d"
proof (induction d rule: GetMeta.induct)
  case (1 n vs)
  have "map ((\<lambda>(k, d). GetMeta d) \<circ> (\<lambda>(k, d). (k, Reset d))) vs = map (\<lambda>(k, d). GetMeta d) vs"
    using 1 by (auto simp: case_prod_unfold)
  then show ?case by (simp only: GetMeta.simps Reset.simps map_map)
qed (simp_all, metis GetHashName_Reset Reset.simps(3))

section \<open>The contract of a value\<close>

text \<open>C31: Two well-formed values of one type, that is values that \<open>Reset\<close> to the same object,
  have the same type code; \<open>Copy\<close> of a value is an equal value; and \<open>CopyTo\<close> between them
  succeeds, recursively through structs and arrays, and leaves the target equal to the source.\<close>

theorem data_copy_contract:
  assumes "wf_data a" and "Reset a = Reset b"
  shows "GetMeta a = GetMeta b \<and> Copy a = a \<and> CopyTo a b = Inr a"
  using assms CopyTo_same_type(1) GetMeta_Reset [of a] GetMeta_Reset [of b] by simp

definition example_point :: "u8 \<Rightarrow> u16 list \<Rightarrow> data_type" where
  "example_point x ys = DTStruct 7 [(1, DTInt8 x), (5, DTArray (DTInt16 0) (map DTInt16 ys)), (9, DTString [x])]"

lemma data_copy_contract_witness:
  "CopyTo (example_point 200 [1, 65535]) (example_point 3 []) = Inr (example_point 200 [1, 65535])"
  using data_copy_contract [of "example_point 200 [1, 65535]" "example_point 3 []"]
  by (simp add: example_point_def)

text \<open>The type code does not determine the type: it mixes in the types of a struct's variables
  but not their names. Two structs with equal codes can have different variables, and then
  \<open>CopyTo\<close>, which \<open>LogicalNode::SetInput\<close> calls after comparing the codes, leaves with the
  exception of \<open>std::map::at\<close>.\<close>

theorem equal_meta_copy_throws:
  "\<exists>a b. wf_data a \<and> wf_data b \<and> GetMeta a = GetMeta b \<and> CopyTo a b = Inl Exception"
  by (intro exI [of _ "DTStruct 7 [(1, DTBool True)]"] exI [of _ "DTStruct 7 [(2, DTBool True)]"]) simp

section \<open>The factory\<close>

definition tm_inv :: "type_manager \<Rightarrow> bool" where
  "tm_inv m \<longleftrightarrow> (\<forall>h d. m_structs m h = Some d \<longrightarrow> wf_data d \<and> Reset d = d \<and> (\<exists>vs. d = DTStruct h vs))"

lemma fresh_props: "fresh c = Some d \<Longrightarrow> wf_data d \<and> Reset d = d \<and> GetClass d = c \<and> GetHashName d = class_hash c"
  by (cases c) auto

lemma all_classes_set: "c \<in> set all_classes"
  by (cases c) (simp_all add: all_classes_def)

lemma register_foldl:
  "m_allocators (foldl register_class a cs) c = (if c \<in> set cs \<and> fresh c \<noteq> None then fresh c else m_allocators a c) \<and>
   m_hashes (foldl register_class a cs) c = (if c \<in> set cs \<and> fresh c \<noteq> None then class_hash c else m_hashes a c)"
  by (induction cs arbitrary: a)
    (auto simp: register_class_def allocator_Register_def split: option.splits)

lemma registered_allocators: "m_allocators (registered g) c = fresh c"
  using register_foldl [of "allocator_new g" all_classes c] all_classes_set [of c]
  by (auto simp: registered_def allocator_new_def)

lemma registered_hashes: "fresh c \<noteq> None \<Longrightarrow> m_hashes (registered g) c = class_hash c"
  using register_foldl [of "allocator_new g" all_classes c] all_classes_set [of c]
  by (auto simp: registered_def)

lemma Allocate_hash_registered:
  assumes "Allocate_hash (registered g) h = Some d"
  shows "wf_data d \<and> Reset d = d \<and> GetHashName d = h"
proof -
  obtain c where "find (\<lambda>c. m_hashes (registered g) c = h) all_classes = Some c" and d: "fresh c = Some d"
    using assms by (auto simp: Allocate_hash_def Allocate_def registered_allocators split: option.splits)
  then have "m_hashes (registered g) c = h" by (auto simp: find_Some_iff)
  then have "class_hash c = h" using registered_hashes d by simp
  then show ?thesis using fresh_props [OF d] by simp
qed

lemma CreateByName_cases:
  assumes "tm_inv m" and "CreateByName (registered g) R m h = Some d"
  shows "wf_data d \<and> Reset d = d \<and> (if m_structs m h = None then GetHashName d = h else m_structs m h = Some d)"
  using assms Allocate_hash_registered [of g h]
  by (auto simp: CreateByName_def tm_inv_def split: option.splits if_splits)

lemma Reset_AddVariable:
  "Reset d = d \<Longrightarrow> Reset (DTStruct n vs) = DTStruct n vs \<Longrightarrow> Reset (DTStruct n (map_put k d vs)) = DTStruct n (map_put k d vs)"
  by (induction k d vs rule: map_put.induct) auto

lemma tm_inv_reload_var:
  assumes "tm_inv m" shows "tm_inv (reload_var (registered g) R h m v)"
proof (cases "CreateByName (registered g) R m (hash_str (snd v))")
  case (Some d)
  note c = CreateByName_cases [OF assms Some]
  have "wf_data (AddVariable k d e) \<and> Reset (AddVariable k d e) = AddVariable k d e \<and> (\<exists>us. AddVariable k d e = DTStruct h us)"
    if st: "m_structs m h = Some e" for k e
  proof -
    obtain vs where e: "e = DTStruct h vs" "wf_data e" "Reset e = e"
      using assms st unfolding tm_inv_def by blast
    show ?thesis using e c wf_AddVariable [of e d k] Reset_AddVariable [of d h vs k] by simp
  qed
  then show ?thesis using assms Some by (auto simp: reload_var_def tm_inv_def split: if_splits)
qed (use assms in \<open>simp add: reload_var_def\<close>)

lemma tm_inv_ReloadSettings: "tm_inv m \<Longrightarrow> tm_inv (ReloadSettings (registered g) R m xml)"
proof -
  have vars: "tm_inv m \<Longrightarrow> tm_inv (foldl (reload_var (registered g) R h) m vs)" for h m vs
    by (induction vs arbitrary: m) (auto simp: tm_inv_reload_var)
  have strct: "tm_inv m \<Longrightarrow> tm_inv (reload_struct (registered g) R m s)" for m s
    unfolding reload_struct_def Let_def by (rule vars) (auto simp: tm_inv_def split: if_splits)
  have "tm_inv m \<Longrightarrow> tm_inv (foldl (reload_struct (registered g) R) m ss)" for m ss
    by (induction ss arbitrary: m) (auto simp: strct)
  then show "tm_inv m \<Longrightarrow> tm_inv (ReloadSettings (registered g) R m xml)"
    by (simp add: ReloadSettings_def split: option.splits)
qed



end
