(* ===== verification/SR_Data_Operators.thy ===== *)
theory SR_Data_Operators
  imports SR_Data_Types
begin

text \<open>
  The operators of the visual-programming machine, src/Utils/SRLM/DataOperators.cpp: each is a
  static function of two values that allocates its result, or returns the null pointer (here
  \<open>None\<close>) when the classes differ or the operator does not know the class.

  The macros of the file are the definitions \<open>operator_calculation\<close> and
  \<open>logical_operator\<close>. Small integers are computed as \<open>int\<close>, the result is written through
  a pointer to the value's own type; signed overflow and division by zero are undefined. The
  floating-point operations are those of the hardware, a parameter on bit patterns. The logical
  operators compare what \<open>Get##type()\<close> returns, which is the address of the value, so they take
  the addresses of their operands too.

  The lemmas: integer arithmetic is exact whenever the exact result fits the class, division and
  modulo are the truncating pair, and what the comparisons really compute.
\<close>

section \<open>Arithmetic\<close>

datatype arith = OpAdd | OpSub | OpMul | OpDiv | OpMod

text \<open>C++ division truncates towards zero; the remainder has the sign of the dividend.\<close>

definition c_div :: "int \<Rightarrow> int \<Rightarrow> int" where
  "c_div x y = sgn x * sgn y * (\<bar>x\<bar> div \<bar>y\<bar>)"

definition c_mod :: "int \<Rightarrow> int \<Rightarrow> int" where
  "c_mod x y = sgn x * (\<bar>x\<bar> mod \<bar>y\<bar>)"

fun int_op :: "arith \<Rightarrow> int \<Rightarrow> int \<Rightarrow> int" where
  "int_op OpAdd x y = x + y"
| "int_op OpSub x y = x - y"
| "int_op OpMul x y = x * y"
| "int_op OpDiv x y = c_div x y"
| "int_op OpMod x y = c_mod x y"

text \<open>The operation in a signed type of \<open>w\<close> bits: undefined if the result does not fit, on a zero
  divisor, and for the remainder also when the quotient does not fit.\<close>

definition fits_signed :: "nat \<Rightarrow> int \<Rightarrow> bool" where
  "fits_signed w r \<longleftrightarrow> - (2 ^ (w - 1)) \<le> r \<and> r < 2 ^ (w - 1)"

definition signed_op :: "nat \<Rightarrow> arith \<Rightarrow> int \<Rightarrow> int \<Rightarrow> int result" where
  "signed_op w f x y =
     (if (f = OpDiv \<or> f = OpMod) \<and> y = 0 then Inl UndefinedOp
      else if f = OpMod \<and> \<not> fits_signed w (c_div x y) then Inl UndefinedOp
      else if fits_signed w (int_op f x y) then Inr (int_op f x y) else Inl UndefinedOp)"

text \<open>In an unsigned type the result wraps.\<close>

definition unsigned_op :: "nat \<Rightarrow> arith \<Rightarrow> int \<Rightarrow> int \<Rightarrow> int result" where
  "unsigned_op w f x y =
     (if (f = OpDiv \<or> f = OpMod) \<and> y = 0 then Inl UndefinedOp else Inr (int_op f x y mod 2 ^ w))"

record float_ops =
  float_op :: "arith \<Rightarrow> u32 \<Rightarrow> u32 \<Rightarrow> u32"
  double_op :: "arith \<Rightarrow> u64 \<Rightarrow> u64 \<Rightarrow> u64"

text \<open>An instance of the parameter, for the examples.\<close>

definition no_floats :: float_ops where
  "no_floats = \<lparr>float_op = (\<lambda>_ x y. 0), double_op = (\<lambda>_ x y. 0)\<rparr>"

text \<open>\<open>Allocate(class)->SetCustomValue(value)\<close>.\<close>

definition allocate_set :: "data_class \<Rightarrow> raw \<Rightarrow> data_type option result" where
  "allocate_set c p = (case fresh c of None \<Rightarrow> Inl NullPointer | Some d \<Rightarrow> bind_res (SetRawValue d p) (\<lambda>r. Inr (Some r)))"

definition set_int :: "data_class \<Rightarrow> nat \<Rightarrow> int result \<Rightarrow> data_type option result" where
  "set_int c n r = bind_res r (\<lambda>v. allocate_set c (RawBytes n (take_bit (8 * n) (word_of_int v))))"

text \<open>\<open>*p->Get##type()\<close>: the value read through the pointer at the type's width.\<close>

definition deref :: "nat \<Rightarrow> data_type \<Rightarrow> u64 result" where
  "deref w d = (case GetRawValue d of None \<Rightarrow> Inl NullPointer | Some p \<Rightarrow> read_raw w p)"

definition deref_string :: "data_type \<Rightarrow> u8 list result" where
  "deref_string d = (case GetRawValue d of None \<Rightarrow> Inl NullPointer | Some p \<Rightarrow> read_string p)"

definition with_operands :: "nat \<Rightarrow> data_type \<Rightarrow> data_type \<Rightarrow> (u64 \<Rightarrow> u64 \<Rightarrow> 'a result) \<Rightarrow> 'a result" where
  "with_operands w pFirst pSecond k = bind_res (deref w pFirst) (\<lambda>x. bind_res (deref w pSecond) (\<lambda>y. k x y))"

text \<open>\<open>SR_LM_OPERATOR_CALCULATION\<close>: the operands of up to two bytes are promoted to \<open>int\<close>.\<close>

fun operator_calculation :: "float_ops \<Rightarrow> arith \<Rightarrow> data_class \<Rightarrow> data_type \<Rightarrow> data_type \<Rightarrow> data_type option result" where
  "operator_calculation F f CFloat a b = with_operands 4 a b (\<lambda>x y.
     allocate_set CFloat (RawBytes 4 (ucast (float_op F f (ucast x) (ucast y)))))"
| "operator_calculation F f CDouble a b = with_operands 8 a b (\<lambda>x y.
     allocate_set CDouble (RawBytes 8 (double_op F f x y)))"
| "operator_calculation F f CInt8 a b = with_operands 1 a b (\<lambda>x y.
     set_int CInt8 4 (signed_op 32 f (sint (ucast x :: u8)) (sint (ucast y :: u8))))"
| "operator_calculation F f CInt16 a b = with_operands 2 a b (\<lambda>x y.
     set_int CInt16 4 (signed_op 32 f (sint (ucast x :: u16)) (sint (ucast y :: u16))))"
| "operator_calculation F f CInt32 a b = with_operands 4 a b (\<lambda>x y.
     set_int CInt32 4 (signed_op 32 f (sint (ucast x :: u32)) (sint (ucast y :: u32))))"
| "operator_calculation F f CInt64 a b = with_operands 8 a b (\<lambda>x y.
     set_int CInt64 8 (signed_op 64 f (sint x) (sint y)))"
| "operator_calculation F f CUInt8 a b = with_operands 1 a b (\<lambda>x y.
     set_int CUInt8 4 (signed_op 32 f (uint (ucast x :: u8)) (uint (ucast y :: u8))))"
| "operator_calculation F f CUInt16 a b = with_operands 2 a b (\<lambda>x y.
     set_int CUInt16 4 (signed_op 32 f (uint (ucast x :: u16)) (uint (ucast y :: u16))))"
| "operator_calculation F f CUInt32 a b = with_operands 4 a b (\<lambda>x y.
     set_int CUInt32 4 (unsigned_op 32 f (uint (ucast x :: u32)) (uint (ucast y :: u32))))"
| "operator_calculation F f CUInt64 a b = with_operands 8 a b (\<lambda>x y.
     set_int CUInt64 8 (unsigned_op 64 f (uint x) (uint y)))"
| "operator_calculation F f CString a b = bind_res (deref_string a) (\<lambda>x.
     bind_res (deref_string b) (\<lambda>y. allocate_set CString (RawString (x @ y))))"
| "operator_calculation F f c a b = Inr None"

definition integer_classes :: "data_class list" where
  "integer_classes = [CInt8, CInt16, CInt32, CInt64, CUInt8, CUInt16, CUInt32, CUInt64]"

definition numeric_classes :: "data_class list" where
  "numeric_classes = CFloat # integer_classes @ [CDouble]"

text \<open>The five functions: the classes their \<open>switch\<close> lists.\<close>

definition operator_switch :: "data_class list \<Rightarrow> float_ops \<Rightarrow> arith \<Rightarrow> data_type \<Rightarrow> data_type \<Rightarrow> data_type option result" where
  "operator_switch cases F f pFirst pSecond =
     (if GetClass pFirst \<noteq> GetClass pSecond then Inr None
      else if GetClass pFirst \<in> set cases then operator_calculation F f (GetClass pFirst) pFirst pSecond
      else Inr None)"

definition Calculate_Addition :: "float_ops \<Rightarrow> data_type \<Rightarrow> data_type \<Rightarrow> data_type option result" where
  "Calculate_Addition F = operator_switch (numeric_classes @ [CString]) F OpAdd"

definition Calculate_Subtraction :: "float_ops \<Rightarrow> data_type \<Rightarrow> data_type \<Rightarrow> data_type option result" where
  "Calculate_Subtraction F = operator_switch numeric_classes F OpSub"

definition Calculate_Multiplication :: "float_ops \<Rightarrow> data_type \<Rightarrow> data_type \<Rightarrow> data_type option result" where
  "Calculate_Multiplication F = operator_switch numeric_classes F OpMul"

definition Calculate_Division :: "float_ops \<Rightarrow> data_type \<Rightarrow> data_type \<Rightarrow> data_type option result" where
  "Calculate_Division F = operator_switch numeric_classes F OpDiv"

definition Calculate_Modulo :: "float_ops \<Rightarrow> data_type \<Rightarrow> data_type \<Rightarrow> data_type option result" where
  "Calculate_Modulo F = operator_switch integer_classes F OpMod"

fun Calculate :: "arith \<Rightarrow> float_ops \<Rightarrow> data_type \<Rightarrow> data_type \<Rightarrow> data_type option result" where
  "Calculate OpAdd = Calculate_Addition"
| "Calculate OpSub = Calculate_Subtraction"
| "Calculate OpMul = Calculate_Multiplication"
| "Calculate OpDiv = Calculate_Division"
| "Calculate OpMod = Calculate_Modulo"

section \<open>Comparisons\<close>

text \<open>\<open>SR_LM_LOGICAL_OPERATOR\<close> applies the operator to the two pointers \<open>Get##type()\<close>. An
  operand is its value and the address of its value.\<close>

type_synonym operand = "nat \<times> data_type"

definition logical_operator :: "data_class list \<Rightarrow> (nat \<Rightarrow> nat \<Rightarrow> bool) \<Rightarrow> operand \<Rightarrow> operand \<Rightarrow> data_type option result" where
  "logical_operator cases cmp pFirst pSecond =
     (if GetClass (snd pFirst) \<noteq> GetClass (snd pSecond) then Inr None
      else if GetClass (snd pFirst) \<in> set cases
        then allocate_set CBool (RawBytes 1 (if cmp (fst pFirst) (fst pSecond) then 1 else 0))
      else Inr None)"

definition Calculate_IsEqual :: "operand \<Rightarrow> operand \<Rightarrow> data_type option result" where
  "Calculate_IsEqual = logical_operator (numeric_classes @ [CString]) (=)"

definition Calculate_IsGreater :: "operand \<Rightarrow> operand \<Rightarrow> data_type option result" where
  "Calculate_IsGreater = logical_operator numeric_classes (>)"

definition Calculate_IsLess :: "operand \<Rightarrow> operand \<Rightarrow> data_type option result" where
  "Calculate_IsLess = logical_operator numeric_classes (<)"

text \<open>\<open>p->GetBool()\<close> as a condition: a virtual call through \<open>p\<close>, then a test that the
  pointer it returns is not null.\<close>

definition get_bool_pointer :: "data_type option \<Rightarrow> bool result" where
  "get_bool_pointer p = (case p of None \<Rightarrow> Inl NullPointer | Some d \<Rightarrow> Inr (GetRawValue d \<noteq> None))"

definition set_bool :: "data_type option \<Rightarrow> bool \<Rightarrow> data_type option result" where
  "set_bool p b = (case p of None \<Rightarrow> Inl NullPointer
     | Some d \<Rightarrow> bind_res (SetRawValue d (RawBytes 1 (if b then 1 else 0))) (\<lambda>r. Inr (Some r)))"

definition Calculate_IsNotEqual :: "operand \<Rightarrow> operand \<Rightarrow> data_type option result" where
  "Calculate_IsNotEqual pFirst pSecond =
     bind_res (Calculate_IsEqual pFirst pSecond) (\<lambda>result.
     bind_res (get_bool_pointer result) (\<lambda>p. set_bool result (\<not> p)))"

definition or_equal :: "data_type option \<Rightarrow> data_type option \<Rightarrow> data_type option result" where
  "or_equal isOrdered isEqual =
     bind_res (get_bool_pointer isOrdered) (\<lambda>p.
     bind_res (if p then Inr True else get_bool_pointer isEqual) (\<lambda>q.
     if q then set_bool (fresh CBool) True else Inr (fresh CBool)))"

definition Calculate_IsGreaterOrEqual :: "operand \<Rightarrow> operand \<Rightarrow> data_type option result" where
  "Calculate_IsGreaterOrEqual pFirst pSecond =
     bind_res (Calculate_IsGreater pFirst pSecond) (\<lambda>isGreater.
     bind_res (Calculate_IsEqual pFirst pSecond) (\<lambda>isEqual. or_equal isGreater isEqual))"

definition Calculate_IsLessOrEqual :: "operand \<Rightarrow> operand \<Rightarrow> data_type option result" where
  "Calculate_IsLessOrEqual pFirst pSecond =
     bind_res (Calculate_IsLess pFirst pSecond) (\<lambda>isLess.
     bind_res (Calculate_IsEqual pFirst pSecond) (\<lambda>isEqual. or_equal isLess isEqual))"

section \<open>Exactness\<close>

text \<open>The mathematical integer a value stands for, and the range of its class.\<close>

fun int_value :: "data_type \<Rightarrow> int option" where
  "int_value (DTInt8 v) = Some (sint v)"
| "int_value (DTInt16 v) = Some (sint v)"
| "int_value (DTInt32 v) = Some (sint v)"
| "int_value (DTInt64 v) = Some (sint v)"
| "int_value (DTUInt8 v) = Some (uint v)"
| "int_value (DTUInt16 v) = Some (uint v)"
| "int_value (DTUInt32 v) = Some (uint v)"
| "int_value (DTUInt64 v) = Some (uint v)"
| "int_value _ = None"

fun in_class :: "data_class \<Rightarrow> int \<Rightarrow> bool" where
  "in_class CInt8 r = fits_signed 8 r"
| "in_class CInt16 r = fits_signed 16 r"
| "in_class CInt32 r = fits_signed 32 r"
| "in_class CInt64 r = fits_signed 64 r"
| "in_class CUInt8 r = (0 \<le> r \<and> r < 2 ^ 8)"
| "in_class CUInt16 r = (0 \<le> r \<and> r < 2 ^ 16)"
| "in_class CUInt32 r = (0 \<le> r \<and> r < 2 ^ 32)"
| "in_class CUInt64 r = (0 \<le> r \<and> r < 2 ^ 64)"
| "in_class _ r = False"

text \<open>The value of class \<open>c\<close> with the integer \<open>r\<close>.\<close>

fun of_int_value :: "data_class \<Rightarrow> int \<Rightarrow> data_type" where
  "of_int_value CInt8 r = DTInt8 (word_of_int r)"
| "of_int_value CInt16 r = DTInt16 (word_of_int r)"
| "of_int_value CInt32 r = DTInt32 (word_of_int r)"
| "of_int_value CInt64 r = DTInt64 (word_of_int r)"
| "of_int_value CUInt8 r = DTUInt8 (word_of_int r)"
| "of_int_value CUInt16 r = DTUInt16 (word_of_int r)"
| "of_int_value CUInt32 r = DTUInt32 (word_of_int r)"
| "of_int_value CUInt64 r = DTUInt64 (word_of_int r)"
| "of_int_value _ r = DTNone"

lemma low_bits_8: "ucast (take_bit 8 (word_of_int v :: u64)) = (word_of_int v :: u8)"
  by (rule bit_word_eqI) (simp add: bit_simps)

lemma low_bits_16: "ucast (take_bit 16 (word_of_int v :: u64)) = (word_of_int v :: u16)"
  by (rule bit_word_eqI) (simp add: bit_simps)

lemma low_bits_32: "ucast (take_bit 32 (word_of_int v :: u64)) = (word_of_int v :: u32)"
  by (rule bit_word_eqI) (simp add: bit_simps)

lemma set_int_simps:
  "set_int CInt8 4 (Inr r) = Inr (Some (of_int_value CInt8 r))"
  "set_int CInt16 4 (Inr r) = Inr (Some (of_int_value CInt16 r))"
  "set_int CInt32 4 (Inr r) = Inr (Some (of_int_value CInt32 r))"
  "set_int CInt64 8 (Inr r) = Inr (Some (of_int_value CInt64 r))"
  "set_int CUInt8 4 (Inr r) = Inr (Some (of_int_value CUInt8 r))"
  "set_int CUInt16 4 (Inr r) = Inr (Some (of_int_value CUInt16 r))"
  "set_int CUInt32 4 (Inr r) = Inr (Some (of_int_value CUInt32 r))"
  "set_int CUInt64 8 (Inr r) = Inr (Some (of_int_value CUInt64 r))"
  "set_int c n (Inl e) = Inl e"
  by (simp_all add: set_int_def allocate_set_def low_bits_8 low_bits_16 low_bits_32)


lemma operator_switch_same:
  "GetClass a = GetClass b \<Longrightarrow> GetClass a \<in> set cs \<Longrightarrow>
     operator_switch cs F f a b = operator_calculation F f (GetClass a) a b"
  by (simp add: operator_switch_def)

lemma int_value_class: "int_value a = Some x \<Longrightarrow> GetClass a \<in> set integer_classes"
  by (cases a) (simp_all add: integer_classes_def)

lemma Calculate_integer:
  assumes "GetClass a = GetClass b" and "GetClass a \<in> set integer_classes"
  shows "Calculate f F a b = operator_calculation F f (GetClass a) a b"
  using assms
  by (cases f) (simp_all add: Calculate_Addition_def Calculate_Subtraction_def Calculate_Multiplication_def
      Calculate_Division_def Calculate_Modulo_def numeric_classes_def operator_switch_same)

definition class_op :: "data_class \<Rightarrow> arith \<Rightarrow> int \<Rightarrow> int \<Rightarrow> data_type option result" where
  "class_op c f x y = set_int c (if c \<in> {CInt64, CUInt64} then 8 else 4)
     (if c = CUInt32 then unsigned_op 32 f x y else if c = CUInt64 then unsigned_op 64 f x y
      else signed_op (if c = CInt64 then 64 else 32) f x y)"

lemmas operand_simps = with_operands_def deref_def take_bit_ucast8 take_bit_ucast16 take_bit_ucast32 class_op_def

lemma operator_calculation_class_op:
  assumes "int_value a = Some x" and "int_value b = Some y" and "GetClass a = GetClass b"
  shows "operator_calculation F f (GetClass a) a b = class_op (GetClass a) f x y"
  using assms by (cases a; simp; cases b; simp add: operand_simps)

lemma int_value_of_int_value: "in_class c r \<Longrightarrow> int_value (of_int_value c r) = Some r"
  by (cases c) (simp_all add: fits_signed_def signed_of_int signed_take_bit_int_eq_self unsigned_of_int
      take_bit_int_eq_self)

lemma in_class_fits_32: "in_class c r \<Longrightarrow> c \<notin> {CInt64, CUInt32, CUInt64} \<Longrightarrow> fits_signed 32 r"
  by (cases c) (auto simp: fits_signed_def)

lemma class_op_exact:
  assumes "in_class c (int_op f x y)" and "f = OpDiv \<or> f = OpMod \<Longrightarrow> y \<noteq> 0"
    and "f = OpMod \<Longrightarrow> in_class c (c_div x y)"
  shows "class_op c f x y = Inr (Some (of_int_value c (int_op f x y)))"
proof -
  consider "c = CInt64" | "c = CUInt32" | "c = CUInt64" | "c \<notin> {CInt64, CUInt32, CUInt64}" by blast
  then show ?thesis
  proof cases
    case 4
    then have "signed_op 32 f x y = Inr (int_op f x y)"
      using assms in_class_fits_32 [OF _ 4] by (auto simp: signed_op_def)
    then show ?thesis using 4 assms(1) by (cases c) (simp_all add: class_op_def set_int_simps)
  qed (use assms in \<open>auto simp: class_op_def signed_op_def unsigned_op_def set_int_simps\<close>)
qed




section \<open>Division\<close>

lemma c_div_c_mod: "c_div x y * y + c_mod x y = x"
proof -
  have "c_div x y * y + c_mod x y = sgn x * (\<bar>y\<bar> * (\<bar>x\<bar> div \<bar>y\<bar>) + \<bar>x\<bar> mod \<bar>y\<bar>)"
    by (simp add: c_div_def c_mod_def algebra_simps abs_sgn)
  then show ?thesis by (simp add: sgn_mult_abs)
qed

lemma c_mod_bound: "y \<noteq> 0 \<Longrightarrow> \<bar>c_mod x y\<bar> < \<bar>y\<bar>"
  by (simp add: c_mod_def abs_mult sgn_if)

lemma c_mod_le: "\<bar>c_mod x y\<bar> \<le> \<bar>x\<bar>"
proof -
  have "0 \<le> \<bar>x\<bar> mod \<bar>y\<bar>" by (cases "y = 0") simp_all
  moreover have "\<bar>x\<bar> mod \<bar>y\<bar> \<le> \<bar>x\<bar>" by (simp add: zmod_le_nonneg_dividend)
  ultimately show ?thesis unfolding c_mod_def by (simp add: abs_mult)
qed

lemma c_mod_sign: "0 \<le> x \<Longrightarrow> 0 \<le> c_mod x y" "x \<le> 0 \<Longrightarrow> c_mod x y \<le> 0"
proof -
  have m: "0 \<le> \<bar>x\<bar> mod \<bar>y\<bar>" by (cases "y = 0") simp_all
  show "0 \<le> x \<Longrightarrow> 0 \<le> c_mod x y" using m by (simp add: c_mod_def sgn_if)
  show "x \<le> 0 \<Longrightarrow> c_mod x y \<le> 0" using m by (simp add: c_mod_def sgn_if)
qed

lemma int_value_in_class: "int_value a = Some x \<Longrightarrow> in_class (GetClass a) x"
proof -
  have s8: "- (2 ^ 7) \<le> sint w \<and> sint w < 2 ^ 7" for w :: u8
    using sint_greater_eq [of w] sint_less [of w] by simp
  have s16: "- (2 ^ 15) \<le> sint w \<and> sint w < 2 ^ 15" for w :: u16
    using sint_greater_eq [of w] sint_less [of w] by simp
  have s32: "- (2 ^ 31) \<le> sint w \<and> sint w < 2 ^ 31" for w :: u32
    using sint_greater_eq [of w] sint_less [of w] by simp
  have s64: "- (2 ^ 63) \<le> sint w \<and> sint w < 2 ^ 63" for w :: u64
    using sint_greater_eq [of w] sint_less [of w] by simp
  have u8: "uint w < 2 ^ 8" for w :: u8 using uint_lt2p [of w] by simp
  have u16: "uint w < 2 ^ 16" for w :: u16 using uint_lt2p [of w] by simp
  have u32: "uint w < 2 ^ 32" for w :: u32 using uint_lt2p [of w] by simp
  have u64: "uint w < 2 ^ 64" for w :: u64 using uint_lt2p [of w] by simp
  show "int_value a = Some x \<Longrightarrow> in_class (GetClass a) x"
    using s8 s16 s32 s64 u8 u16 u32 u64 by (cases a) (auto simp: fits_signed_def)
qed

lemma in_class_smaller: "in_class c x \<Longrightarrow> \<bar>r\<bar> \<le> \<bar>x\<bar> \<Longrightarrow> (0 \<le> x \<Longrightarrow> 0 \<le> r) \<Longrightarrow> (x \<le> 0 \<Longrightarrow> r \<le> 0) \<Longrightarrow> in_class c r"
  by (cases c; cases "0 \<le> x") (auto simp: fits_signed_def)

text \<open>Division and modulo of one integer class by a nonzero divisor, when the quotient belongs to
  the class, return the truncating pair: quotient times divisor plus remainder is the dividend, the
  remainder is smaller than the divisor and has the sign of the dividend.\<close>

theorem division_modulo_pair:
  assumes "GetClass a = GetClass b" and "int_value a = Some x" and "int_value b = Some y"
    and "y \<noteq> 0" and "in_class (GetClass a) (c_div x y)"
  shows "\<exists>q r. Calculate_Division F a b = Inr (Some q) \<and> Calculate_Modulo F a b = Inr (Some r) \<and>
    (\<exists>i j. int_value q = Some i \<and> int_value r = Some j \<and> i * y + j = x \<and> \<bar>j\<bar> < \<bar>y\<bar> \<and> (0 \<le> x \<longrightarrow> 0 \<le> j) \<and> (x \<le> 0 \<longrightarrow> j \<le> 0))"
proof -
  have m: "in_class (GetClass a) (c_mod x y)"
    by (rule in_class_smaller [OF int_value_in_class [OF assms(2)] c_mod_le]) (simp_all add: c_mod_sign)
  have "class_op (GetClass a) OpDiv x y = Inr (Some (of_int_value (GetClass a) (c_div x y)))"
    using class_op_exact [of "GetClass a" OpDiv x y] assms by simp
  moreover have "class_op (GetClass a) OpMod x y = Inr (Some (of_int_value (GetClass a) (c_mod x y)))"
    using class_op_exact [of "GetClass a" OpMod x y] assms m by simp
  ultimately have "Calculate_Division F a b = Inr (Some (of_int_value (GetClass a) (c_div x y)))"
      "Calculate_Modulo F a b = Inr (Some (of_int_value (GetClass a) (c_mod x y)))"
    using Calculate_integer [OF assms(1) int_value_class [OF assms(2)], of OpDiv F]
      Calculate_integer [OF assms(1) int_value_class [OF assms(2)], of OpMod F]
      operator_calculation_class_op [OF assms(2,3,1), of F] by simp_all
  then show ?thesis
    using int_value_of_int_value [OF m] int_value_of_int_value [OF assms(5)]
      c_div_c_mod [of x y] c_mod_bound [OF assms(4), of x] c_mod_sign [of x y]
    by (intro exI conjI) (assumption | simp)+
qed

lemma division_modulo_pair_witness:
  "\<exists>q r. Calculate_Division no_floats (DTInt32 (- 7)) (DTInt32 2) = Inr (Some q) \<and>
     Calculate_Modulo no_floats (DTInt32 (- 7)) (DTInt32 2) = Inr (Some r)"
  using division_modulo_pair [of "DTInt32 (- 7)" "DTInt32 2" "- 7" 2 no_floats]
  by (auto simp: fits_signed_def c_div_def)

text \<open>Outside that range: products of \<open>UInt16\<close> values are computed as \<open>int\<close> and overflow
  it, although the result class is unsigned.\<close>

theorem uint16_product_overflows_int:
  "Calculate_Multiplication F (DTUInt16 65535) (DTUInt16 65535) = Inl UndefinedOp"
  using Calculate_integer [of "DTUInt16 65535" "DTUInt16 65535" OpMul F]
  by (simp add: integer_classes_def operand_simps signed_op_def fits_signed_def set_int_simps)

section \<open>What the comparisons compute\<close>

text \<open>On two numeric values of one class the comparisons ignore the values. \<open>==\<close> says whether
  the operands are the same object, \<open>!=\<close> is always false, \<open>>=\<close> and \<open><=\<close> are always
  true.\<close>

theorem comparisons_ignore_values:
  assumes "GetClass (snd a) = GetClass (snd b)" and "GetClass (snd a) \<in> set numeric_classes"
  shows "Calculate_IsEqual a b = Inr (Some (DTBool (fst a = fst b))) \<and>
    Calculate_IsNotEqual a b = Inr (Some (DTBool False)) \<and>
    Calculate_IsGreaterOrEqual a b = Inr (Some (DTBool True)) \<and>
    Calculate_IsLessOrEqual a b = Inr (Some (DTBool True))"
  using assms
  by (simp add: Calculate_IsEqual_def Calculate_IsNotEqual_def Calculate_IsGreaterOrEqual_def
      Calculate_IsLessOrEqual_def Calculate_IsGreater_def Calculate_IsLess_def logical_operator_def
      allocate_set_def read_bool_def get_bool_pointer_def set_bool_def or_equal_def)

lemma comparisons_ignore_values_witness:
  "Calculate_IsEqual (0, DTInt32 5) (8, DTInt32 5) = Inr (Some (DTBool False)) \<and>
   Calculate_IsGreaterOrEqual (0, DTInt32 1) (8, DTInt32 2) = Inr (Some (DTBool True))"
  using comparisons_ignore_values [of "(0, DTInt32 5)" "(8, DTInt32 5)"]
    comparisons_ignore_values [of "(0, DTInt32 1)" "(8, DTInt32 2)"]
  by (simp add: numeric_classes_def integer_classes_def)

text \<open>On values of different classes, where the other operators return the null pointer,
  \<open>!=\<close>, \<open>>=\<close> and \<open><=\<close> dereference it.\<close>

theorem mixed_comparison_null:
  assumes "GetClass (snd a) \<noteq> GetClass (snd b)"
  shows "Calculate_IsEqual a b = Inr None \<and> Calculate_IsNotEqual a b = Inl NullPointer \<and>
    Calculate_IsGreaterOrEqual a b = Inl NullPointer \<and> Calculate_IsLessOrEqual a b = Inl NullPointer"
  using assms
  by (simp add: Calculate_IsEqual_def Calculate_IsNotEqual_def Calculate_IsGreaterOrEqual_def
      Calculate_IsLessOrEqual_def Calculate_IsGreater_def Calculate_IsLess_def logical_operator_def
      get_bool_pointer_def or_equal_def)

lemma mixed_comparison_null_witness: "Calculate_IsNotEqual (0, DTInt32 5) (8, DTInt64 5) = Inl NullPointer"
  using mixed_comparison_null [of "(0, DTInt32 5)" "(8, DTInt64 5)"] by simp

end
