(* ===== verification/SR_Logical_Nodes.thy ===== *)
theory SR_Logical_Nodes
  imports SR_Data_Operators
begin

text \<open>
  The nodes of the visual-programming machine: src/Utils/SRLM/LogicalNode.cpp with
  inc/Utils/SRLM/LogicalNode.h, and the \<open>Execute\<close> and \<open>InitNode\<close> bodies of
  src/Utils/SRLM/LogicalNodes.cpp.

  The nodes live in a store, a map from addresses to nodes; an address without a node is a freed
  one. A pin has its connections, each a node pointer and a pin index, and its data. The kind of a
  node is its class. Reading an input of a node may execute the compute node that feeds it, which
  reads its own inputs: \<open>CalcInput\<close> recurses over the graph with fuel, one unit per node on the
  call stack.

  The lemmas: executing nodes never changes the graph; on a graph of compute nodes without cycles
  the fuel is enough, so evaluation returns; what the control-flow nodes do to their outputs; what
  \<open>CalcInput\<close> makes of the state of its neighbour; and that freshly initialised nodes execute
  without fault.
\<close>

unbundle bit_operations_syntax

section \<open>Nodes and pins\<close>

datatype node_kind = KConnector | KStartReset | KEndReset | KSynchronize | KSequence | KBranch
  | KCreateStruct | KBreakStruct | KDebugPrint | KStart | KConstructor | KPlus

datatype node_type = Compute | Executable | Connector | StartReset | EndReset

fun kind_type :: "node_kind \<Rightarrow> node_type" where
  "kind_type KConnector = Connector"
| "kind_type KStartReset = StartReset"
| "kind_type KEndReset = EndReset"
| "kind_type KSynchronize = Executable"
| "kind_type KSequence = Executable"
| "kind_type KBranch = Executable"
| "kind_type KCreateStruct = Compute"
| "kind_type KBreakStruct = Compute"
| "kind_type KDebugPrint = Executable"
| "kind_type KStart = Executable"
| "kind_type KConstructor = Compute"
| "kind_type KPlus = Compute"

record pin =
  connections :: "(nat option \<times> u32) list"
  pData :: "data_type option"
  hashName :: u64

record node =
  kind :: node_kind
  m_status :: u64
  m_inputs :: "pin list"
  m_outputs :: "pin list"
  m_dirty :: bool
  m_typeHash :: u64

type_synonym store = "nat \<rightharpoonup> node"

section \<open>Status flags\<close>

definition St_None :: u64 where "St_None = 1"
definition St_Success :: u64 where "St_Success = 2"
definition St_Incomplete :: u64 where "St_Incomplete = 8"
definition St_InputNullPtr :: u64 where "St_InputNullPtr = 16"
definition St_InputRangeError :: u64 where "St_InputRangeError = 32"
definition St_InputTypeError :: u64 where "St_InputTypeError = 64"
definition St_OutputRangeError :: u64 where "St_OutputRangeError = 128"
definition St_ExecutionError :: u64 where "St_ExecutionError = 256"
definition St_ComputeError :: u64 where "St_ComputeError = 512"
definition St_NotExecuted :: u64 where "St_NotExecuted = 1024"

definition St_ErrorStatus :: u64 where
  "St_ErrorStatus = St_Incomplete OR St_InputNullPtr OR St_InputRangeError OR St_InputTypeError OR
     St_OutputRangeError OR St_ExecutionError OR St_ComputeError OR St_NotExecuted"

lemmas status_defs = St_None_def St_Success_def St_Incomplete_def St_InputNullPtr_def St_InputRangeError_def
  St_InputTypeError_def St_OutputRangeError_def St_ExecutionError_def St_ComputeError_def St_NotExecuted_def
  St_ErrorStatus_def

definition GetType :: "node \<Rightarrow> node_type" where
  "GetType n = kind_type (kind n)"

definition HasErrors :: "node \<Rightarrow> bool" where
  "HasErrors n = (m_status n AND St_ErrorStatus \<noteq> 0)"

definition IsSuccessfullyCompleted :: "node \<Rightarrow> bool" where
  "IsSuccessfullyCompleted n = (m_status n AND St_Success \<noteq> 0 \<and> \<not> HasErrors n)"

definition IsDirty :: "node \<Rightarrow> bool" where
  "IsDirty n = (GetType n = Compute \<and> m_dirty n)"

definition add_status :: "u64 \<Rightarrow> node \<Rightarrow> node" where
  "add_status f n = n\<lparr>m_status := m_status n OR f\<rparr>"

definition GetFirstNode :: "pin \<Rightarrow> nat option" where
  "GetFirstNode p = (case connections p of [] \<Rightarrow> None | c # _ \<Rightarrow> fst c)"

definition GetFirstNodePin :: "pin \<Rightarrow> u32" where
  "GetFirstNodePin p = (case connections p of [] \<Rightarrow> - 1 | c # _ \<Rightarrow> snd c)"

section \<open>The store\<close>

definition get_node :: "store \<Rightarrow> nat \<Rightarrow> node result" where
  "get_node s n = (case s n of None \<Rightarrow> Inl DanglingPointer | Some x \<Rightarrow> Inr x)"

definition upd_node :: "store \<Rightarrow> nat \<Rightarrow> (node \<Rightarrow> node) \<Rightarrow> store result" where
  "upd_node s n f = bind_res (get_node s n) (\<lambda>x. Inr (s(n \<mapsto> f x)))"

text \<open>\<open>p->...\<close> on a data pointer that may be null.\<close>

definition non_null :: "'a option \<Rightarrow> 'a result" where
  "non_null p = (case p of None \<Rightarrow> Inl NullPointer | Some d \<Rightarrow> Inr d)"

definition set_input_data :: "nat \<Rightarrow> data_type option \<Rightarrow> node \<Rightarrow> node" where
  "set_input_data i d n = n\<lparr>m_inputs := (m_inputs n)[i := (m_inputs n ! i)\<lparr>pData := d\<rparr>]\<rparr>"

definition set_output_data :: "nat \<Rightarrow> data_type option \<Rightarrow> node \<Rightarrow> node" where
  "set_output_data i d n = n\<lparr>m_outputs := (m_outputs n)[i := (m_outputs n ! i)\<lparr>pData := d\<rparr>]\<rparr>"

text \<open>\<open>*GetEnum()\<close> read and written: eight bytes of the value's memory, whatever its class.\<close>

definition read_enum :: "data_type option \<Rightarrow> u64 result" where
  "read_enum p = bind_res (non_null p) (deref 8)"

definition write_enum :: "u64 \<Rightarrow> data_type option \<Rightarrow> data_type option result" where
  "write_enum v p = bind_res (non_null p) (\<lambda>d.
     case GetRawValue d of None \<Rightarrow> Inl NullPointer
     | Some (RawBytes w _) \<Rightarrow> (if w = 8 then bind_res (SetRawValue d (RawBytes 8 v)) (\<lambda>r. Inr (Some r)) else Inl OutOfRange)
     | Some (RawString _) \<Rightarrow> Inl UndefinedOp)"

definition NotAvailable :: u64 where "NotAvailable = 0"
definition Available :: u64 where "Available = 1"
definition Executed :: u64 where "Executed = 2"

text \<open>\<open>*m_outputs.at(i).pData->GetEnum() = v\<close> and \<open>*GetOutput(i)->GetEnum() = v\<close>: out of range,
  the first throws and the second dereferences null.\<close>

definition write_output :: "fault \<Rightarrow> store \<Rightarrow> nat \<Rightarrow> nat \<Rightarrow> u64 \<Rightarrow> store result" where
  "write_output e s n i v = bind_res (get_node s n) (\<lambda>x.
     if i < length (m_outputs x)
     then bind_res (write_enum v (pData (m_outputs x ! i))) (\<lambda>d. Inr (s(n \<mapsto> set_output_data i d x)))
     else Inl e)"

section \<open>Pins and connections\<close>

definition AddInputData :: "data_type option \<Rightarrow> u64 \<Rightarrow> node \<Rightarrow> node" where
  "AddInputData d h n = n\<lparr>m_inputs := m_inputs n @ [\<lparr>connections = [], pData = d, hashName = h\<rparr>]\<rparr>"

definition AddOutputData :: "data_type option \<Rightarrow> u64 \<Rightarrow> node \<Rightarrow> node" where
  "AddOutputData d h n = n\<lparr>m_outputs := m_outputs n @ [\<lparr>connections = [], pData = d, hashName = h\<rparr>]\<rparr>"

definition add_connection :: "nat option \<times> u32 \<Rightarrow> pin \<Rightarrow> pin" where
  "add_connection c p = p\<lparr>connections := connections p @ [c]\<rparr>"

definition AddInputConnection :: "nat option \<Rightarrow> u32 \<Rightarrow> u32 \<Rightarrow> node \<Rightarrow> node" where
  "AddInputConnection pNode nodePinIndex pinIndex n =
     (if length (m_inputs n) \<le> unat pinIndex then n
      else n\<lparr>m_inputs := (m_inputs n)[unat pinIndex := add_connection (pNode, nodePinIndex) (m_inputs n ! unat pinIndex)]\<rparr>)"

definition AddOutputConnection :: "nat option \<Rightarrow> u32 \<Rightarrow> u32 \<Rightarrow> node \<Rightarrow> node" where
  "AddOutputConnection pNode nodePinIndex pinIndex n =
     (if length (m_outputs n) \<le> unat pinIndex then n
      else n\<lparr>m_outputs := (m_outputs n)[unat pinIndex := add_connection (pNode, nodePinIndex) (m_outputs n ! unat pinIndex)]\<rparr>)"

text \<open>The first connection to the node is erased; the pin index is not checked.\<close>

fun erase_connection :: "nat option \<Rightarrow> (nat option \<times> u32) list \<Rightarrow> (nat option \<times> u32) list" where
  "erase_connection p [] = []"
| "erase_connection p (c # cs) = (if fst c = p then cs else c # erase_connection p cs)"

definition drop_connection :: "nat option \<Rightarrow> pin \<Rightarrow> pin" where
  "drop_connection pNode p = p\<lparr>connections := erase_connection pNode (connections p)\<rparr>"

definition RemoveOutputConnection :: "nat option \<Rightarrow> u32 \<Rightarrow> node \<Rightarrow> node result" where
  "RemoveOutputConnection pNode pinIndex n = bind_res (vec_at (m_outputs n) (unat pinIndex)) (\<lambda>p.
     Inr (n\<lparr>m_outputs := (m_outputs n)[unat pinIndex := drop_connection pNode p]\<rparr>))"

definition RemoveInputConnection :: "nat option \<Rightarrow> u32 \<Rightarrow> node \<Rightarrow> node result" where
  "RemoveInputConnection pNode pinIndex n = bind_res (vec_at (m_inputs n) (unat pinIndex)) (\<lambda>p.
     Inr (n\<lparr>m_inputs := (m_inputs n)[unat pinIndex := drop_connection pNode p]\<rparr>))"

text \<open>\<open>RemoveInput\<close> and \<open>RemoveOutput\<close>: the neighbours' connections first, at the same pin index
  as the removed pin, then the pin.\<close>

fun detach_all :: "(nat option \<Rightarrow> u32 \<Rightarrow> node \<Rightarrow> node result) \<Rightarrow> nat \<Rightarrow> u32 \<Rightarrow> (nat option \<times> u32) list \<Rightarrow> store \<Rightarrow> store result" where
  "detach_all remove n index [] s = Inr s"
| "detach_all remove n index (c # cs) s =
     (case fst c of None \<Rightarrow> Inl NullPointer
      | Some m \<Rightarrow> bind_res (get_node s m) (\<lambda>x. bind_res (remove (Some n) index x) (\<lambda>x'.
          detach_all remove n index cs (s(m \<mapsto> x')))))"

definition RemoveInput :: "store \<Rightarrow> nat \<Rightarrow> u32 \<Rightarrow> store result" where
  "RemoveInput s n index = bind_res (get_node s n) (\<lambda>x.
     if unat index < length (m_inputs x)
     then bind_res (detach_all RemoveOutputConnection n index (connections (m_inputs x ! unat index)) s) (\<lambda>s'.
       upd_node s' n (\<lambda>y. y\<lparr>m_inputs := vec_erase (m_inputs y) (unat index)\<rparr>))
     else Inr s)"

definition RemoveOutput :: "store \<Rightarrow> nat \<Rightarrow> u32 \<Rightarrow> store result" where
  "RemoveOutput s n index = bind_res (get_node s n) (\<lambda>x.
     if unat index < length (m_outputs x)
     then bind_res (detach_all RemoveInputConnection n index (connections (m_outputs x ! unat index)) s) (\<lambda>s'.
       upd_node s' n (\<lambda>y. y\<lparr>m_outputs := vec_erase (m_outputs y) (unat index)\<rparr>))
     else Inr s)"

section \<open>Data of a node\<close>

definition SetInput :: "data_type option \<Rightarrow> u32 \<Rightarrow> node \<Rightarrow> node result" where
  "SetInput pInput index n =
     (case pInput of None \<Rightarrow> Inr (add_status St_InputNullPtr n)
      | Some d \<Rightarrow>
          if length (m_inputs n) \<le> unat index then Inr (add_status St_InputRangeError n)
          else bind_res (non_null (pData (m_inputs n ! unat index))) (\<lambda>self.
            if GetMeta self \<noteq> GetMeta d then Inr (add_status St_InputTypeError n)
            else bind_res (CopyTo d self) (\<lambda>r. Inr (set_input_data (unat index) (Some r) n))))"

fun reset_pins :: "pin list \<Rightarrow> pin list result" where
  "reset_pins [] = Inr []"
| "reset_pins (p # ps) = bind_res (non_null (pData p)) (\<lambda>d.
     bind_res (reset_pins ps) (\<lambda>qs. Inr (p\<lparr>pData := Some (Reset d)\<rparr> # qs)))"

definition node_Reset :: "node \<Rightarrow> node result" where
  "node_Reset n = bind_res (reset_pins (m_inputs n)) (\<lambda>ins. bind_res (reset_pins (m_outputs n)) (\<lambda>outs.
     Inr (n\<lparr>m_status := St_None, m_inputs := ins, m_outputs := outs\<rparr>)))"

fun reset_flows :: "pin list \<Rightarrow> pin list result" where
  "reset_flows [] = Inr []"
| "reset_flows (p # ps) = bind_res (non_null (pData p)) (\<lambda>d.
     bind_res (if GetClass d = CFlow then write_enum NotAvailable (Some d) else Inr (Some d)) (\<lambda>d'.
     bind_res (reset_flows ps) (\<lambda>qs. Inr (p\<lparr>pData := d'\<rparr> # qs))))"

definition ResetInputFlows :: "node \<Rightarrow> node result" where
  "ResetInputFlows n = bind_res (reset_flows (m_inputs n)) (\<lambda>ps. Inr (n\<lparr>m_inputs := ps\<rparr>))"

definition ResetOutputFlows :: "node \<Rightarrow> node result" where
  "ResetOutputFlows n = bind_res (reset_flows (m_outputs n)) (\<lambda>ps. Inr (n\<lparr>m_outputs := ps\<rparr>))"

definition ResetStatus :: "node \<Rightarrow> node" where
  "ResetStatus n = n\<lparr>m_status := St_None\<rparr>"

definition ClearLogicalNode :: "node \<Rightarrow> node" where
  "ClearLogicalNode n = n\<lparr>m_inputs := [], m_outputs := []\<rparr>"

definition GetOutput :: "store \<Rightarrow> nat \<Rightarrow> u32 \<Rightarrow> (store \<times> data_type option) result" where
  "GetOutput s n index = bind_res (get_node s n) (\<lambda>x.
     if length (m_outputs x) \<le> unat index then Inr (s(n \<mapsto> add_status St_OutputRangeError x), None)
     else Inr (s, pData (m_outputs x ! unat index)))"

section \<open>Execution\<close>

text \<open>\<open>CalcInput\<close>, given how a node executes.\<close>

definition own_data :: "store \<Rightarrow> nat \<Rightarrow> nat \<Rightarrow> u64 \<Rightarrow> (store \<times> data_type option) result" where
  "own_data s n i f = bind_res (get_node s n) (\<lambda>x. Inr (s(n \<mapsto> add_status f x), pData (m_inputs x ! i)))"

definition calc_body :: "(store \<Rightarrow> nat \<Rightarrow> store result) \<Rightarrow> store \<Rightarrow> nat \<Rightarrow> nat \<Rightarrow> (store \<times> data_type option) result" where
  "calc_body exec s n i =
     bind_res (get_node s n) (\<lambda>self.
     bind_res (vec_at (m_inputs self) i) (\<lambda>pin.
     case GetFirstNode pin of None \<Rightarrow> Inr (s, pData pin)
     | Some p \<Rightarrow>
       bind_res (get_node s p) (\<lambda>pNode.
       if GetType pNode = Compute then
         bind_res (if IsDirty pNode then exec s p else Inr s) (\<lambda>s1.
         bind_res (get_node s1 p) (\<lambda>pNode1.
         if HasErrors pNode1 then own_data s1 n i St_ComputeError
         else GetOutput s1 p (GetFirstNodePin pin)))
       else bind_res (non_null (pData pin)) (\<lambda>d.
         if GetClass d = CFlow then
           (if HasErrors self then own_data s n i St_NotExecuted else GetOutput s p (GetFirstNodePin pin))
         else if \<not> IsSuccessfullyCompleted self then own_data s n i St_NotExecuted
         else GetOutput s p (GetFirstNodePin pin)))))"

text \<open>The bodies of \<open>Execute\<close>; \<open>calc\<close> is \<open>CalcInput\<close> of the executing node.
  \<open>LogicalNode::Execute\<close> comes last.\<close>

type_synonym calc = "store \<Rightarrow> nat \<Rightarrow> (store \<times> data_type option) result"

definition base_Execute :: "store \<Rightarrow> nat \<Rightarrow> store result" where
  "base_Execute s n = upd_node s n (add_status St_Success)"

definition Start_Execute :: "store \<Rightarrow> nat \<Rightarrow> store result" where
  "Start_Execute s n = bind_res (write_output Exception s n 0 Available) (\<lambda>s1. base_Execute s1 n)"

text \<open>The message and its type are read, here from left to right, and handed to the log.\<close>

definition DebugPrint_Execute :: "calc \<Rightarrow> store \<Rightarrow> nat \<Rightarrow> store result" where
  "DebugPrint_Execute calc s n =
     bind_res (calc s 1) (\<lambda>(s1, msg). bind_res (non_null msg) (\<lambda>m. bind_res (deref_string m) (\<lambda>_.
     bind_res (calc s1 2) (\<lambda>(s2, typ). bind_res (read_enum typ) (\<lambda>_.
     bind_res (write_output Exception s2 n 0 Available) (\<lambda>s3. base_Execute s3 n))))))"

fun sequence_pins :: "pin list \<Rightarrow> pin list result" where
  "sequence_pins [] = Inr []"
| "sequence_pins (p # ps) =
     bind_res (read_enum (pData p)) (\<lambda>v.
     bind_res (if v \<noteq> NotAvailable then Inr (pData p) else write_enum Available (pData p)) (\<lambda>d.
     bind_res (sequence_pins ps) (\<lambda>qs. Inr (p\<lparr>pData := d\<rparr> # qs))))"

definition Sequence_Execute :: "store \<Rightarrow> nat \<Rightarrow> store result" where
  "Sequence_Execute s n = bind_res (get_node s n) (\<lambda>x. bind_res (sequence_pins (m_outputs x)) (\<lambda>ps.
     base_Execute (s(n \<mapsto> x\<lparr>m_outputs := ps\<rparr>)) n))"

definition Branch_Execute :: "calc \<Rightarrow> store \<Rightarrow> nat \<Rightarrow> store result" where
  "Branch_Execute calc s n =
     bind_res (calc s 1) (\<lambda>(s1, cond). bind_res (non_null cond) (\<lambda>c.
     bind_res (case GetRawValue c of None \<Rightarrow> Inl NullPointer | Some p \<Rightarrow> read_bool p) (\<lambda>b.
     bind_res (write_output NullPointer s1 n 0 (if b then Available else NotAvailable)) (\<lambda>s2.
     bind_res (write_output NullPointer s2 n 1 (if b then NotAvailable else Available)) (\<lambda>s3.
     base_Execute s3 n)))))"

definition Reset_node_Execute :: "store \<Rightarrow> nat \<Rightarrow> store result" where
  "Reset_node_Execute s n = bind_res (write_output NullPointer s n 0 Available) (\<lambda>s1. base_Execute s1 n)"

text \<open>The inputs from index \<open>i\<close> on; whether all of them are executed.\<close>

fun synchronize_loop :: "calc \<Rightarrow> store \<Rightarrow> nat list \<Rightarrow> (store \<times> bool) result" where
  "synchronize_loop calc s [] = Inr (s, True)"
| "synchronize_loop calc s (i # is) =
     bind_res (calc s i) (\<lambda>(s1, d). bind_res (read_enum d) (\<lambda>v.
     if v \<noteq> Executed then Inr (s1, False) else synchronize_loop calc s1 is))"

definition Synchronize_Execute :: "calc \<Rightarrow> store \<Rightarrow> nat \<Rightarrow> store result" where
  "Synchronize_Execute calc s n =
     bind_res (get_node s n) (\<lambda>x.
     bind_res (synchronize_loop calc s [0..<length (m_inputs x)]) (\<lambda>(s1, all).
     bind_res (write_output NullPointer s1 n 0 (if all then Available else NotAvailable)) (\<lambda>s2.
     base_Execute s2 n)))"

text \<open>\<open>src->CopyTo(p)\<close>: the classes without memory of their own test \<open>p\<close> by a
  \<open>dynamic_cast\<close>, the others call through it.\<close>

definition copy_to_pointer :: "data_type \<Rightarrow> data_type option \<Rightarrow> data_type option result" where
  "copy_to_pointer src p = (case p of
       None \<Rightarrow> (if GetRawValue src = None then Inr None else Inl NullPointer)
     | Some d \<Rightarrow> bind_res (CopyTo src d) (\<lambda>r. Inr (Some r)))"

definition Constructor_Execute :: "calc \<Rightarrow> store \<Rightarrow> nat \<Rightarrow> store result" where
  "Constructor_Execute calc s n =
     bind_res (calc s 0) (\<lambda>(s1, d). bind_res (non_null d) (\<lambda>src.
     bind_res (get_node s1 n) (\<lambda>x. bind_res (vec_at (m_outputs x) 0) (\<lambda>pin.
     bind_res (copy_to_pointer src (pData pin)) (\<lambda>r.
     base_Execute (s1(n \<mapsto> (set_output_data 0 r x)\<lparr>m_dirty := False\<rparr>)) n)))))"

text \<open>One turn of the loop of \<open>CreateStructNode\<close>: input \<open>i\<close> into the variable of its name.\<close>

definition create_struct_input :: "calc \<Rightarrow> store \<Rightarrow> nat \<Rightarrow> nat \<Rightarrow> store result" where
  "create_struct_input calc s n i =
     bind_res (calc s i) (\<lambda>(s1, pInput).
     bind_res (get_node s1 n) (\<lambda>x.
     bind_res (vec_at (m_inputs x) i) (\<lambda>pin.
     case pData (m_outputs x ! 0) of
       Some (DTStruct name vs) \<Rightarrow>
         (case map_of vs (hashName pin) of None \<Rightarrow> Inr s1
          | Some var \<Rightarrow> bind_res (non_null pInput) (\<lambda>d.
              if GetClass var \<noteq> GetClass d then Inr s1
              else bind_res (CopyTo d var) (\<lambda>r.
                Inr (s1(n \<mapsto> set_output_data 0 (Some (DTStruct name (map_put (hashName pin) r vs))) x)))))
     | _ \<Rightarrow> Inr s1)))"

fun create_struct_loop :: "calc \<Rightarrow> store \<Rightarrow> nat \<Rightarrow> nat list \<Rightarrow> store result" where
  "create_struct_loop calc s n [] = Inr s"
| "create_struct_loop calc s n (i # is) =
     bind_res (create_struct_input calc s n i) (\<lambda>s1. create_struct_loop calc s1 n is)"

definition is_struct :: "data_type option \<Rightarrow> bool" where
  "is_struct p = (case p of Some (DTStruct _ _) \<Rightarrow> True | _ \<Rightarrow> False)"

definition CreateStruct_Execute :: "calc \<Rightarrow> store \<Rightarrow> nat \<Rightarrow> store result" where
  "CreateStruct_Execute calc s n =
     bind_res (get_node s n) (\<lambda>x.
     if m_outputs x = [] then Inl Exception
     else bind_res (if is_struct (pData (m_outputs x ! 0))
                    then create_struct_loop calc s n [0..<length (m_inputs x)] else Inr s) (\<lambda>s1.
     base_Execute s1 n))"

fun break_pins :: "(u64 \<times> data_type) list \<Rightarrow> pin list \<Rightarrow> pin list result" where
  "break_pins vs [] = Inr []"
| "break_pins vs (p # ps) =
     bind_res (case map_of vs (hashName p) of None \<Rightarrow> Inr (pData p)
       | Some var \<Rightarrow> bind_res (non_null (pData p)) (\<lambda>out.
           if GetClass var \<noteq> GetClass out then Inr (Some out)
           else bind_res (CopyTo var out) (\<lambda>r. Inr (Some r)))) (\<lambda>d.
     bind_res (break_pins vs ps) (\<lambda>qs. Inr (p\<lparr>pData := d\<rparr> # qs)))"

definition BreakStruct_Execute :: "calc \<Rightarrow> store \<Rightarrow> nat \<Rightarrow> store result" where
  "BreakStruct_Execute calc s n =
     bind_res (calc s 0) (\<lambda>(s1, d).
     case d of Some (DTStruct _ vs) \<Rightarrow>
         bind_res (get_node s1 n) (\<lambda>x. bind_res (break_pins vs (m_outputs x)) (\<lambda>ps.
         base_Execute (s1(n \<mapsto> x\<lparr>m_outputs := ps\<rparr>)) n))
     | _ \<Rightarrow> base_Execute s1 n)"

text \<open>\<open>PlusNode\<close> adds the data stored in its own input pins; the switch is over the class of the
  output and knows the integer classes.\<close>

definition Plus_Execute :: "float_ops \<Rightarrow> store \<Rightarrow> nat \<Rightarrow> store result" where
  "Plus_Execute F s n =
     bind_res (get_node s n) (\<lambda>x.
     bind_res (vec_at (m_outputs x) 0) (\<lambda>o0. bind_res (vec_at (m_inputs x) 0) (\<lambda>i0. bind_res (vec_at (m_inputs x) 1) (\<lambda>i1.
     bind_res (non_null (pData o0)) (\<lambda>out.
     if GetClass out \<in> set integer_classes
     then bind_res (non_null (pData i0)) (\<lambda>a. bind_res (non_null (pData i1)) (\<lambda>b.
          bind_res (operator_calculation F OpAdd (GetClass out) a b) (\<lambda>r.
          base_Execute (s(n \<mapsto> set_output_data 0 r x)) n)))
     else base_Execute s n)))))"

definition node_execute :: "float_ops \<Rightarrow> (store \<Rightarrow> nat \<Rightarrow> nat \<Rightarrow> (store \<times> data_type option) result) \<Rightarrow> store \<Rightarrow> nat \<Rightarrow> store result" where
  "node_execute F calc s n =
     bind_res (get_node s n) (\<lambda>x.
     let c = (\<lambda>t i. calc t n i) in
     case kind x of
       KConnector \<Rightarrow> base_Execute s n
     | KStartReset \<Rightarrow> Reset_node_Execute s n
     | KEndReset \<Rightarrow> Reset_node_Execute s n
     | KSynchronize \<Rightarrow> Synchronize_Execute c s n
     | KSequence \<Rightarrow> Sequence_Execute s n
     | KBranch \<Rightarrow> Branch_Execute c s n
     | KCreateStruct \<Rightarrow> CreateStruct_Execute c s n
     | KBreakStruct \<Rightarrow> BreakStruct_Execute c s n
     | KDebugPrint \<Rightarrow> DebugPrint_Execute c s n
     | KStart \<Rightarrow> Start_Execute s n
     | KConstructor \<Rightarrow> Constructor_Execute c s n
     | KPlus \<Rightarrow> Plus_Execute F s n)"

fun CalcInput :: "float_ops \<Rightarrow> nat \<Rightarrow> store \<Rightarrow> nat \<Rightarrow> nat \<Rightarrow> (store \<times> data_type option) result" where
  "CalcInput F 0 s n i = Inl OutOfFuel"
| "CalcInput F (Suc k) s n i = calc_body (node_execute F (CalcInput F k)) s n i"

definition Execute :: "float_ops \<Rightarrow> nat \<Rightarrow> store \<Rightarrow> nat \<Rightarrow> store result" where
  "Execute F k s n = node_execute F (CalcInput F k) s n"

text \<open>\<open>MarkDirty\<close> follows every connection of the outputs; fuel again bounds the call stack.\<close>

fun dirty_targets :: "pin list \<Rightarrow> nat list" where
  "dirty_targets ps = List.map_filter fst (concat (map connections ps))"

fun mark_all :: "(store \<Rightarrow> nat \<Rightarrow> store result) \<Rightarrow> store \<Rightarrow> nat list \<Rightarrow> store result" where
  "mark_all mark s [] = Inr s"
| "mark_all mark s (m # ms) = bind_res (mark s m) (\<lambda>s1. mark_all mark s1 ms)"

fun MarkDirty :: "nat \<Rightarrow> store \<Rightarrow> nat \<Rightarrow> store result" where
  "MarkDirty 0 s n = Inl OutOfFuel"
| "MarkDirty (Suc k) s n =
     bind_res (get_node s n) (\<lambda>x.
     if GetType x = Compute then mark_all (MarkDirty k) (s(n \<mapsto> x\<lparr>m_dirty := True\<rparr>)) (dirty_targets (m_outputs x))
     else if GetType x = Connector then mark_all (MarkDirty k) s (dirty_targets (m_outputs x))
     else Inr s)"

section \<open>Initialisation\<close>

definition node_new :: "node_kind \<Rightarrow> u64 \<Rightarrow> node" where
  "node_new k h = \<lparr>kind = k, m_status = St_None, m_inputs = [], m_outputs = [], m_dirty = True, m_typeHash = h\<rparr>"

definition new_flow :: "data_type option" where
  "new_flow = fresh CFlow"

definition name_hash :: "string \<Rightarrow> u64" where
  "name_hash s = hash_str (bytes_of s)"

fun add_vars :: "(data_type option \<Rightarrow> u64 \<Rightarrow> node \<Rightarrow> node) \<Rightarrow> (u64 \<times> data_type) list \<Rightarrow> node \<Rightarrow> node" where
  "add_vars add [] n = n"
| "add_vars add ((k, d) # vs) n = add_vars add vs (add (Some (Copy d)) k n)"

definition Connector_InitNode :: "node \<Rightarrow> node" where
  "Connector_InitNode n = n"

definition Start_InitNode :: "node \<Rightarrow> node" where
  "Start_InitNode n = AddOutputData new_flow (- 1) n"

definition Sequence_InitNode :: "node \<Rightarrow> node" where
  "Sequence_InitNode n = AddOutputData new_flow (name_hash ''Then 1'') (AddOutputData new_flow (name_hash ''Then 0'')
     (AddInputData new_flow (- 1) n))"

definition Branch_InitNode :: "node \<Rightarrow> node" where
  "Branch_InitNode n = AddOutputData new_flow (name_hash ''False'') (AddOutputData new_flow (name_hash ''True'')
     (AddInputData (fresh CBool) (name_hash ''Condition'') (AddInputData new_flow (- 1) n)))"

definition Reset_InitNode :: "node \<Rightarrow> node" where
  "Reset_InitNode n = AddOutputData new_flow (- 1) (AddInputData new_flow (- 1) n)"

definition Synchronize_InitNode :: "node \<Rightarrow> node" where
  "Synchronize_InitNode n = AddOutputData new_flow (- 1) (AddInputData new_flow (name_hash ''If 1'')
     (AddInputData new_flow (name_hash ''If 0'') n))"

text \<open>\<open>DebugLogType::Log\<close> is the enumerator passed as \<open>logValue\<close>.\<close>

definition DebugPrint_InitNode :: "u64 \<Rightarrow> node \<Rightarrow> node" where
  "DebugPrint_InitNode logValue n = AddOutputData new_flow (- 1)
     (AddInputData (Some (DTEnum (Some (name_hash ''DebugLogType'')) logValue)) (name_hash ''Type'')
     (AddInputData (fresh CString) (name_hash ''Msg'') (AddInputData new_flow (- 1) n)))"

definition DebugPrint_InitValues :: "node \<Rightarrow> node result" where
  "DebugPrint_InitValues n = (if length (m_inputs n) \<le> 1 then Inl Exception
     else bind_res (non_null (pData (m_inputs n ! 1))) (\<lambda>d.
       bind_res (SetRawValue d (RawString (bytes_of ''Hello World!''))) (\<lambda>r. Inr (set_input_data 1 (Some r) n))))"

definition Constructor_InitNode :: "type_allocator \<Rightarrow> u64 list \<Rightarrow> type_manager \<Rightarrow> node \<Rightarrow> node" where
  "Constructor_InitNode a R m n = AddOutputData (CreateByName a R m (m_typeHash n)) (- 1)
     (AddInputData (CreateByName a R m (m_typeHash n)) (- 1) n)"

definition CreateStruct_InitNode :: "type_manager \<Rightarrow> node \<Rightarrow> node" where
  "CreateStruct_InitNode m n = (case tm_GetStruct m (m_typeHash n) of
       Some (DTStruct h vs) \<Rightarrow> AddOutputData (Some (Copy (DTStruct h vs))) (- 1) (add_vars AddInputData vs n) | _ \<Rightarrow> n)"

definition BreakStruct_InitNode :: "type_manager \<Rightarrow> node \<Rightarrow> node" where
  "BreakStruct_InitNode m n = (case tm_GetStruct m (m_typeHash n) of
       Some (DTStruct h vs) \<Rightarrow> AddInputData (Some (Copy (DTStruct h vs))) (- 1) (add_vars AddOutputData vs n) | _ \<Rightarrow> n)"

definition InitNode :: "type_allocator \<Rightarrow> u64 list \<Rightarrow> type_manager \<Rightarrow> u64 \<Rightarrow> node \<Rightarrow> node" where
  "InitNode a R m logValue n = (case kind n of
       KConnector \<Rightarrow> Connector_InitNode n
     | KStartReset \<Rightarrow> Reset_InitNode n
     | KEndReset \<Rightarrow> Reset_InitNode n
     | KSynchronize \<Rightarrow> Synchronize_InitNode n
     | KSequence \<Rightarrow> Sequence_InitNode n
     | KBranch \<Rightarrow> Branch_InitNode n
     | KCreateStruct \<Rightarrow> CreateStruct_InitNode m n
     | KBreakStruct \<Rightarrow> BreakStruct_InitNode m n
     | KDebugPrint \<Rightarrow> DebugPrint_InitNode logValue n
     | KStart \<Rightarrow> Start_InitNode n
     | KConstructor \<Rightarrow> Constructor_InitNode a R m n
     | KPlus \<Rightarrow> n)"

section \<open>What execution keeps\<close>

text \<open>\<open>holds E m Q\<close>: \<open>m\<close> fails only with a fault of \<open>E\<close>, and its result satisfies
  \<open>Q\<close>.\<close>

definition holds :: "fault set \<Rightarrow> 'a result \<Rightarrow> ('a \<Rightarrow> bool) \<Rightarrow> bool" where
  "holds E m Q = (case m of Inl e \<Rightarrow> e \<in> E | Inr x \<Rightarrow> Q x)"

lemma holds_simps [simp]: "holds E (Inl e) Q \<longleftrightarrow> e \<in> E" "holds E (Inr x) Q \<longleftrightarrow> Q x"
  by (simp_all add: holds_def)

lemma holds_bind [simp]: "holds E (bind_res m f) Q \<longleftrightarrow> holds E m (\<lambda>x. holds E (f x) Q)"
  by (simp add: holds_def bind_res_def split: sum.splits)

lemma holds_mono: "holds E m P \<Longrightarrow> (\<And>x. P x \<Longrightarrow> Q x) \<Longrightarrow> holds E m Q"
  by (auto simp: holds_def split: sum.splits)

lemma holds_True: "holds E m (\<lambda>_. True) \<longleftrightarrow> (\<forall>e. m = Inl e \<longrightarrow> e \<in> E)"
  by (simp add: holds_def split: sum.splits)

lemma holds_True_mono: "holds E m (\<lambda>_. True) \<Longrightarrow> (\<And>x. Q x) \<Longrightarrow> holds E m Q"
  by (rule holds_mono)

text \<open>The kinds and the connections of all the nodes.\<close>

definition node_shape :: "node \<Rightarrow> node_kind \<times> (nat option \<times> u32) list list \<times> (nat option \<times> u32) list list" where
  "node_shape x = (kind x, map connections (m_inputs x), map connections (m_outputs x))"

definition graph :: "store \<Rightarrow> nat \<rightharpoonup> node_kind \<times> (nat option \<times> u32) list list \<times> (nat option \<times> u32) list list" where
  "graph s = (\<lambda>n. map_option node_shape (s n))"

definition has_graph :: "(nat \<rightharpoonup> node_kind \<times> (nat option \<times> u32) list list \<times> (nat option \<times> u32) list list) \<Rightarrow> store \<Rightarrow> bool" where
  "has_graph G s \<longleftrightarrow> graph s = G"

lemma graph_upd: "s n = Some x \<Longrightarrow> node_shape y = node_shape x \<Longrightarrow> has_graph G (s(n \<mapsto> y)) \<longleftrightarrow> has_graph G s"
proof -
  assume "s n = Some x" and "node_shape y = node_shape x"
  then have "graph (s(n \<mapsto> y)) = graph s" by (auto simp: graph_def)
  then show ?thesis by (simp add: has_graph_def)
qed

lemma map_connections_update: "map connections (ps[i := (ps ! i)\<lparr>pData := d\<rparr>]) = map connections ps"
proof (cases "i < length ps")
  case True
  then have "(map connections ps)[i := connections (ps ! i)] = map connections ps"
    by (metis list_update_id nth_map)
  then show ?thesis by (simp add: map_update)
qed (simp add: list_update_beyond)

lemma node_shape_simps [simp]:
  "node_shape (add_status f x) = node_shape x"
  "node_shape (set_input_data i d x) = node_shape x"
  "node_shape (set_output_data i d x) = node_shape x"
  "node_shape (x\<lparr>m_dirty := b\<rparr>) = node_shape x"
  "map connections ps = map connections (m_outputs x) \<Longrightarrow> node_shape (x\<lparr>m_outputs := ps\<rparr>) = node_shape x"
  by (simp_all add: node_shape_def add_status_def set_input_data_def set_output_data_def map_connections_update)

text \<open>No operation on data runs out of fuel.\<close>

definition plain :: "'a result \<Rightarrow> bool" where
  "plain m \<longleftrightarrow> m \<noteq> Inl OutOfFuel"

lemma plain_Inr [simp]: "plain (Inr x)"
  by (simp add: plain_def)

lemma plain_bind: "plain m \<Longrightarrow> (\<And>x. m = Inr x \<Longrightarrow> plain (f x)) \<Longrightarrow> plain (bind_res m f)"
  by (auto simp: plain_def bind_res_def split: sum.splits)

lemma plain_read_raw [simp]: "plain (read_raw w p)"
  by (cases p) (simp_all add: plain_def)

lemma plain_read_bool [simp]: "plain (read_bool p)"
  by (auto simp: read_bool_def intro!: plain_bind) (simp add: plain_def)

lemma plain_read_string [simp]: "plain (read_string p)"
  by (cases p) (simp_all add: plain_def)

lemma plain_SetRawValue [simp]: "plain (SetRawValue d p)"
  by (cases d) (auto intro!: plain_bind)

lemma plain_CopyTo: "plain (CopyTo d p)" "plain (copy_vars vs us)"
  by (induction d p and vs us rule: CopyTo_copy_vars.induct)
    (auto intro!: plain_bind split: data_type.splits option.splits, auto simp: plain_def)

lemmas [simp] = plain_CopyTo(1)

lemma plain_non_null [simp]: "plain (non_null p)"
  by (simp add: plain_def non_null_def split: option.splits)

lemma plain_deref [simp]: "plain (deref w d)"
  by (auto simp: deref_def split: option.splits) (simp add: plain_def)

lemma plain_deref_string [simp]: "plain (deref_string d)"
  by (auto simp: deref_string_def split: option.splits) (simp add: plain_def)

lemma plain_read_enum [simp]: "plain (read_enum p)"
  by (auto simp: read_enum_def intro!: plain_bind)

lemma plain_write_enum [simp]: "plain (write_enum v p)"
  by (auto simp: write_enum_def intro!: plain_bind split: option.splits raw.splits) (simp_all add: plain_def)

lemma plain_vec_at [simp]: "plain (vec_at xs i)"
  by (simp add: plain_def vec_at_def)

lemma plain_sequence_pins [simp]: "plain (sequence_pins ps)"
  by (induction ps) (auto intro!: plain_bind)

lemma plain_break_pins [simp]: "plain (break_pins vs ps)"
  by (induction ps) (auto intro!: plain_bind split: option.splits)

lemma plain_copy_to_pointer [simp]: "plain (copy_to_pointer d p)"
  by (auto simp: copy_to_pointer_def intro!: plain_bind split: option.splits) (simp add: plain_def)

lemma plain_allocate_set [simp]: "plain (allocate_set c p)"
  by (auto simp: allocate_set_def intro!: plain_bind split: option.splits) (simp add: plain_def)

lemma plain_operator_calculation [simp]: "plain (operator_calculation F f c a b)"
  by (cases c) (auto simp: with_operands_def set_int_def signed_op_def unsigned_op_def intro!: plain_bind,
      auto simp: plain_def)

lemma sequence_pins_connections: "sequence_pins ps = Inr qs \<Longrightarrow> map connections qs = map connections ps"
  by (induction ps arbitrary: qs) (auto simp: bind_res_eq_Inr)

lemma break_pins_connections: "break_pins vs ps = Inr qs \<Longrightarrow> map connections qs = map connections ps"
  by (induction ps arbitrary: qs) (auto simp: bind_res_eq_Inr)

section \<open>The interface between a node and its inputs\<close>

text \<open>A node body calls \<open>CalcInput\<close> for its inputs. It relies on this only: the call leaves the
  graph as it is, and fails with the faults of \<open>E\<close>. What the bodies then promise is the same
  of themselves.\<close>

locale evaluator =
  fixes E :: "fault set"
    and G :: "nat \<rightharpoonup> node_kind \<times> (nat option \<times> u32) list list \<times> (nat option \<times> u32) list list"
    and calc :: "store \<Rightarrow> nat \<Rightarrow> (store \<times> data_type option) result"
  assumes faults: "e \<noteq> OutOfFuel \<Longrightarrow> e \<in> E"
    and calc_graph: "has_graph G s \<Longrightarrow> holds E (calc s i) (\<lambda>r. has_graph G (fst r))"
begin

lemma holds_plain: "plain m \<Longrightarrow> (\<And>x. m = Inr x \<Longrightarrow> Q x) \<Longrightarrow> holds E m Q"
  using faults by (auto simp: holds_def plain_def split: sum.splits)

lemma holds_get: "(\<And>x. s n = Some x \<Longrightarrow> Q x) \<Longrightarrow> holds E (get_node s n) Q"
  using faults by (simp add: get_node_def split: option.splits)

lemma holds_calc: "has_graph G s \<Longrightarrow> (\<And>t d. has_graph G t \<Longrightarrow> Q (t, d)) \<Longrightarrow> holds E (calc s i) Q"
  by (rule holds_mono [OF calc_graph]) auto

lemma write_output_keeps:
  "has_graph G s \<Longrightarrow> e \<in> {Exception, NullPointer} \<Longrightarrow> (\<And>t. has_graph G t \<Longrightarrow> Q t) \<Longrightarrow> holds E (write_output e s n i v) Q"
  using faults by (auto simp: write_output_def graph_upd intro!: holds_get holds_plain [OF plain_write_enum])

lemma base_Execute_keeps: "has_graph G s \<Longrightarrow> holds E (base_Execute s n) (\<lambda>t. has_graph G t)"
  by (auto simp: base_Execute_def upd_node_def graph_upd intro!: holds_get)

lemmas keeps_intros = holds_get holds_calc write_output_keeps base_Execute_keeps
  holds_plain [OF plain_non_null] holds_plain [OF plain_deref] holds_plain [OF plain_deref_string]
  holds_plain [OF plain_read_bool] holds_plain [OF plain_read_enum] holds_plain [OF plain_write_enum]
  holds_plain [OF plain_vec_at] holds_plain [OF plain_sequence_pins] holds_plain [OF plain_break_pins]
  holds_plain [OF plain_CopyTo(1)] holds_plain [OF plain_copy_to_pointer]
  holds_plain [OF plain_operator_calculation]

lemma Start_keeps: "has_graph G s \<Longrightarrow> holds E (Start_Execute s n) (\<lambda>t. has_graph G t)"
  by (auto simp: Start_Execute_def intro!: keeps_intros)

lemma Reset_keeps: "has_graph G s \<Longrightarrow> holds E (Reset_node_Execute s n) (\<lambda>t. has_graph G t)"
  by (auto simp: Reset_node_Execute_def intro!: keeps_intros)

lemma DebugPrint_keeps: "has_graph G s \<Longrightarrow> holds E (DebugPrint_Execute calc s n) (\<lambda>t. has_graph G t)"
  by (auto simp: DebugPrint_Execute_def intro!: keeps_intros)

lemma Sequence_keeps: "has_graph G s \<Longrightarrow> holds E (Sequence_Execute s n) (\<lambda>t. has_graph G t)"
  by (auto simp: Sequence_Execute_def graph_upd sequence_pins_connections intro!: keeps_intros)

lemma Branch_keeps: "has_graph G s \<Longrightarrow> holds E (Branch_Execute calc s n) (\<lambda>t. has_graph G t)"
  using faults [of NullPointer]
  by (auto simp: Branch_Execute_def intro!: keeps_intros split: option.splits)

lemma synchronize_loop_keeps:
  "has_graph G s \<Longrightarrow> (\<And>t b. has_graph G t \<Longrightarrow> Q (t, b)) \<Longrightarrow> holds E (synchronize_loop calc s is) Q"
  by (induction "is" arbitrary: s) (auto intro!: keeps_intros)

lemma Synchronize_keeps: "has_graph G s \<Longrightarrow> holds E (Synchronize_Execute calc s n) (\<lambda>t. has_graph G t)"
  by (auto simp: Synchronize_Execute_def intro!: keeps_intros synchronize_loop_keeps)

lemma Constructor_keeps: "has_graph G s \<Longrightarrow> holds E (Constructor_Execute calc s n) (\<lambda>t. has_graph G t)"
  by (auto simp: Constructor_Execute_def graph_upd intro!: keeps_intros)

lemma create_struct_input_keeps: "has_graph G s \<Longrightarrow> holds E (create_struct_input calc s n i) (\<lambda>t. has_graph G t)"
  by (auto simp: create_struct_input_def graph_upd intro!: keeps_intros split: option.splits data_type.splits)

lemma create_struct_loop_keeps: "has_graph G s \<Longrightarrow> holds E (create_struct_loop calc s n is) (\<lambda>t. has_graph G t)"
  by (induction "is" arbitrary: s) (auto intro: holds_mono [OF create_struct_input_keeps])

lemma CreateStruct_keeps: "has_graph G s \<Longrightarrow> holds E (CreateStruct_Execute calc s n) (\<lambda>t. has_graph G t)"
  using faults [of Exception]
  by (auto simp: CreateStruct_Execute_def base_Execute_keeps
      intro!: holds_get holds_mono [OF create_struct_loop_keeps])

lemma BreakStruct_keeps: "has_graph G s \<Longrightarrow> holds E (BreakStruct_Execute calc s n) (\<lambda>t. has_graph G t)"
  by (auto simp: BreakStruct_Execute_def graph_upd break_pins_connections
      intro!: keeps_intros split: option.splits data_type.splits)

lemma Plus_keeps: "has_graph G s \<Longrightarrow> holds E (Plus_Execute F s n) (\<lambda>t. has_graph G t)"
  by (auto simp: Plus_Execute_def graph_upd intro!: keeps_intros)

lemmas body_keeps = Start_keeps Reset_keeps DebugPrint_keeps Sequence_keeps Branch_keeps Synchronize_keeps
  Constructor_keeps CreateStruct_keeps BreakStruct_keeps Plus_keeps base_Execute_keeps

end

lemma node_execute_keeps:
  assumes "evaluator E (graph s) (\<lambda>t i. calc t n i)"
  shows "holds E (node_execute F calc s n) (\<lambda>t. has_graph (graph s) t)"
  using evaluator.body_keeps [OF assms, of s]
  by (auto simp: has_graph_def node_execute_def Let_def intro!: evaluator.holds_get [OF assms] split: node_kind.splits)

section \<open>Evaluation terminates\<close>

text \<open>\<open>feeds G n m\<close>: the compute node \<open>m\<close> is the first connection of an input of
  \<open>n\<close>.\<close>

definition feeds :: "(nat \<rightharpoonup> node_kind \<times> (nat option \<times> u32) list list \<times> (nat option \<times> u32) list list) \<Rightarrow> nat \<Rightarrow> nat \<Rightarrow> bool" where
  "feeds G n m \<longleftrightarrow> (\<exists>k ins outs i cs k' ins' outs'. G n = Some (k, ins, outs) \<and> (Some m, i) # cs \<in> set ins \<and>
     G m = Some (k', ins', outs') \<and> kind_type k' = Compute)"

text \<open>A rank that decreases along the feeding connections: there is one exactly when the compute
  nodes above every node form no cycle.\<close>

definition ranked :: "store \<Rightarrow> (nat \<Rightarrow> nat) \<Rightarrow> bool" where
  "ranked s r \<longleftrightarrow> (\<forall>n m. feeds (graph s) n m \<longrightarrow> r m < r n)"

lemma feedsI:
  assumes "s n = Some x" and "p \<in> set (m_inputs x)" and "GetFirstNode p = Some m"
    and "s m = Some y" and "GetType y = Compute"
  shows "feeds (graph s) n m"
proof -
  obtain i cs where "connections p = (Some m, i) # cs"
    using assms(3) by (auto simp: GetFirstNode_def split: list.splits)
  then have "(Some m, i) # cs \<in> set (map connections (m_inputs x))" using assms(2) by (metis image_eqI set_map)
  then show ?thesis using assms unfolding feeds_def graph_def node_shape_def GetType_def by auto
qed

lemma has_graph_refl [simp]: "has_graph (graph s) s"
  by (simp add: has_graph_def)

lemma calc_body_keeps:
  assumes E: "\<And>e. e \<noteq> OutOfFuel \<Longrightarrow> e \<in> E"
    and exec: "\<And>p. feeds (graph s) n p \<Longrightarrow> holds E (exec s p) (has_graph (graph s))"
  shows "holds E (calc_body exec s n i) (\<lambda>r. has_graph (graph s) (fst r))"
proof -
  have get: "holds E (get_node t m) Q" if "\<And>x. t m = Some x \<Longrightarrow> Q x" for t m Q
    using that E by (simp add: get_node_def split: option.splits)
  have pl: "holds E m Q" if "plain m" "\<And>x. m = Inr x \<Longrightarrow> Q x" for m and Q :: "'z \<Rightarrow> bool"
    using that E by (auto simp: holds_def plain_def split: sum.splits)
  have own: "holds E (own_data t n i f) (\<lambda>r. has_graph (graph s) (fst r))" if "has_graph (graph s) t" for t f
    using that by (auto simp: own_data_def graph_upd intro!: get)
  have out: "holds E (GetOutput t p j) (\<lambda>r. has_graph (graph s) (fst r))" if "has_graph (graph s) t" for t p j
    using that by (auto simp: GetOutput_def graph_upd intro!: get)
  have step: "holds E (if IsDirty y then exec s p else Inr s) (has_graph (graph s))"
    if "s n = Some x" "vec_at (m_inputs x) i = Inr pin" "GetFirstNode pin = Some p" "s p = Some y" "GetType y = Compute" for x y p pin
  proof -
    have "pin \<in> set (m_inputs x)" using that(2) by (auto simp: vec_at_def split: if_splits)
    then show ?thesis using exec [OF feedsI [OF that(1) _ that(3,4,5)]] by simp
  qed
  show ?thesis unfolding calc_body_def holds_bind
  proof (rule get, rule pl [OF plain_vec_at])
    fix x pin
    assume x: "s n = Some x" and pin: "vec_at (m_inputs x) i = Inr pin"
    show "holds E (case GetFirstNode pin of None \<Rightarrow> Inr (s, pData pin) | Some p \<Rightarrow>
       bind_res (get_node s p) (\<lambda>pNode.
       if GetType pNode = Compute then
         bind_res (if IsDirty pNode then exec s p else Inr s) (\<lambda>s1.
         bind_res (get_node s1 p) (\<lambda>pNode1.
         if HasErrors pNode1 then own_data s1 n i St_ComputeError
         else GetOutput s1 p (GetFirstNodePin pin)))
       else bind_res (non_null (pData pin)) (\<lambda>d.
         if GetClass d = CFlow then
           (if HasErrors x then own_data s n i St_NotExecuted else GetOutput s p (GetFirstNodePin pin))
         else if \<not> IsSuccessfullyCompleted x then own_data s n i St_NotExecuted
         else GetOutput s p (GetFirstNodePin pin)))) (\<lambda>r. has_graph (graph s) (fst r))"
    proof (cases "GetFirstNode pin")
      case (Some p)
      show ?thesis unfolding Some option.case holds_bind
      proof (rule get)
        fix y assume y: "s p = Some y"
        show "holds E (if GetType y = Compute then
           bind_res (if IsDirty y then exec s p else Inr s) (\<lambda>s1.
           bind_res (get_node s1 p) (\<lambda>pNode1.
           if HasErrors pNode1 then own_data s1 n i St_ComputeError
           else GetOutput s1 p (GetFirstNodePin pin)))
         else bind_res (non_null (pData pin)) (\<lambda>d.
           if GetClass d = CFlow then
             (if HasErrors x then own_data s n i St_NotExecuted else GetOutput s p (GetFirstNodePin pin))
           else if \<not> IsSuccessfullyCompleted x then own_data s n i St_NotExecuted
           else GetOutput s p (GetFirstNodePin pin))) (\<lambda>r. has_graph (graph s) (fst r))"
        proof (cases "GetType y = Compute")
          case True
          show ?thesis unfolding if_P [OF True] holds_bind
            by (rule holds_mono [OF step [OF x pin Some y True]], rule get) (simp add: own out)
        next
          case False
          show ?thesis unfolding if_not_P [OF False] holds_bind
            by (rule pl [OF plain_non_null]) (simp add: own out)
        qed
      qed
    qed simp
  qed
qed

lemma has_graph_trans: "has_graph (graph s) t \<Longrightarrow> graph t = graph s"
  by (simp add: has_graph_def)

lemma CalcInput_keeps_graph: "holds UNIV (CalcInput F k s n i) (\<lambda>r. has_graph (graph s) (fst r))"
proof (induction k arbitrary: s n i)
  case (Suc k)
  have "holds UNIV (node_execute F (CalcInput F k) s p) (has_graph (graph s))" for p
  proof (rule node_execute_keeps)
    show "evaluator UNIV (graph s) (\<lambda>t i. CalcInput F k t p i)"
    proof
      show "holds UNIV (CalcInput F k t p i) (\<lambda>r. has_graph (graph s) (fst r))" if "has_graph (graph s) t" for t i
        using Suc.IH [of t p i] that by (simp add: has_graph_def)
    qed simp
  qed
  then show ?case by (auto intro: calc_body_keeps)
qed simp

lemma CalcInput_enough_fuel:
  "ranked s r \<Longrightarrow> r n < k \<Longrightarrow> holds (- {OutOfFuel}) (CalcInput F k s n i) (\<lambda>r. has_graph (graph s) (fst r))"
proof (induction k arbitrary: s n i)
  case (Suc k)
  have "holds (- {OutOfFuel}) (node_execute F (CalcInput F k) s p) (has_graph (graph s))" if "feeds (graph s) n p" for p
  proof (rule node_execute_keeps)
    have "r p < k" using Suc that by (fastforce simp: ranked_def)
    moreover have "ranked t r" if "has_graph (graph s) t" for t
      using Suc that by (simp add: ranked_def has_graph_def)
    ultimately have "holds (- {OutOfFuel}) (CalcInput F k t p i) (\<lambda>r. has_graph (graph s) (fst r))"
      if "has_graph (graph s) t" for t i
      using Suc.IH [of t p i] that by (simp add: has_graph_def)
    then show "evaluator (- {OutOfFuel}) (graph s) (\<lambda>t i. CalcInput F k t p i)"
      by unfold_locales auto
  qed
  then show ?case by (auto intro: calc_body_keeps)
qed simp

text \<open>The provider of the interface: \<open>CalcInput\<close> with any fuel, on any graph.\<close>

interpretation calc_input: evaluator UNIV G "\<lambda>s i. CalcInput F k s n i" for G F k n
proof
  show "has_graph G s \<Longrightarrow> holds UNIV (CalcInput F k s n i) (\<lambda>r. has_graph G (fst r))" for s i
    using CalcInput_keeps_graph [of F k s n i] by (simp add: has_graph_def)
qed simp

text \<open>C12: On a graph whose compute nodes form no cycle, evaluating an input of a node, and executing
  the node, always returns, with a result or with a fault of the code, when the fuel exceeds the
  rank of the node; and it changes neither the kinds of the nodes nor their connections.\<close>

theorem evaluation_terminates:
  assumes "ranked s r" and "r n < k"
  shows "CalcInput F k s n i \<noteq> Inl OutOfFuel \<and> Execute F k s n \<noteq> Inl OutOfFuel \<and>
    (\<forall>t. Execute F k s n = Inr t \<longrightarrow> graph t = graph s)"
proof -
  have e: "evaluator (- {OutOfFuel}) (graph s) (\<lambda>t i. CalcInput F k t n i)"
  proof
    show "holds (- {OutOfFuel}) (CalcInput F k t n i) (\<lambda>r. has_graph (graph s) (fst r))" if "has_graph (graph s) t" for t i
      using CalcInput_enough_fuel [of t r n k F i] assms that by (simp add: ranked_def has_graph_def)
  qed simp
  have "holds (- {OutOfFuel}) (Execute F k s n) (has_graph (graph s))"
    unfolding Execute_def by (rule node_execute_keeps [where calc = "CalcInput F k" and n = n, OF e])
  then show ?thesis using CalcInput_enough_fuel [OF assms, of F i]
    by (auto simp: holds_def has_graph_def split: sum.splits)
qed

section \<open>Reading an input\<close>

lemma upd_triv: "s n = Some x \<Longrightarrow> s(n \<mapsto> x) = s"
  by (auto simp: fun_eq_iff)

lemma calc_unconnected:
  assumes "s n = Some x" and "i < length (m_inputs x)" and "connections (m_inputs x ! i) = []" and "0 < k"
  shows "CalcInput F k s n i = Inr (s, pData (m_inputs x ! i))"
  using assms by (cases k) (simp_all add: calc_body_def get_node_def GetFirstNode_def)

text \<open>An input that is connected to an executable node is judged by the state of the reading
  node, not of the connected one: as long as the reader itself has not completed, the input is
  refused, whatever the neighbour has done, and the reader is marked \<open>NotExecuted\<close>, which is an
  error.\<close>

theorem input_judged_by_reader:
  assumes "s n = Some x" and "i < length (m_inputs x)" and "GetFirstNode (m_inputs x ! i) = Some p"
    and "s p = Some y" and "GetType y \<noteq> Compute" and "pData (m_inputs x ! i) = Some d"
    and "GetClass d \<noteq> CFlow" and "m_status x AND St_Success = 0"
  shows "CalcInput F (Suc k) s n i = Inr (s(n \<mapsto> add_status St_NotExecuted x), Some d) \<and>
    HasErrors (add_status St_NotExecuted x)"
proof
  show "CalcInput F (Suc k) s n i = Inr (s(n \<mapsto> add_status St_NotExecuted x), Some d)"
    using assms by (simp add: calc_body_def get_node_def non_null_def IsSuccessfullyCompleted_def own_data_def)
  have "bit (m_status (add_status St_NotExecuted x) AND St_ErrorStatus) 10"
    by (simp add: add_status_def status_defs bit_simps)
  then show "HasErrors (add_status St_NotExecuted x)"
    unfolding HasErrors_def by (metis bit_0_eq bot_apply bot_bool_def)
qed

definition linked :: "nat \<Rightarrow> u32 \<Rightarrow> data_type \<Rightarrow> pin" where
  "linked m j d = \<lparr>connections = [(Some m, j)], pData = Some d, hashName = 0\<rparr>"

lemma input_judged_by_reader_witness:
  "\<exists>s. (\<exists>y. s 1 = Some y \<and> IsSuccessfullyCompleted y) \<and> (\<exists>t. CalcInput no_floats 1 s 0 0 = Inr (t, Some (DTBool False)))"
proof -
  let ?x = "(node_new KBranch 0)\<lparr>m_inputs := [linked 1 0 (DTBool False)]\<rparr>"
  let ?y = "(node_new KDebugPrint 0)\<lparr>m_status := 3\<rparr>"
  have "IsSuccessfullyCompleted ?y"
    by (simp add: IsSuccessfullyCompleted_def HasErrors_def status_defs)
  then show ?thesis
    using input_judged_by_reader [of "[0 \<mapsto> ?x, 1 \<mapsto> ?y]" 0 ?x 0 1 ?y "DTBool False" no_floats 0]
    by (intro exI [of _ "[0 \<mapsto> ?x, 1 \<mapsto> ?y]"])
      (auto simp: node_new_def linked_def GetFirstNode_def GetType_def status_defs)
qed

section \<open>Control flow\<close>

lemma write_enum_flow: "write_enum v (Some (DTFlow r w)) = Inr (Some (DTFlow r v))"
  by (simp add: write_enum_def non_null_def)

lemma read_enum_flow: "read_enum (Some (DTFlow r v)) = Inr v"
  by (simp add: read_enum_def non_null_def deref_def)

lemma write_output_flow:
  "t n = Some y \<Longrightarrow> i < length (m_outputs y) \<Longrightarrow> pData (m_outputs y ! i) = Some (DTFlow r w) \<Longrightarrow>
     write_output e t n i v = Inr (t(n \<mapsto> set_output_data i (Some (DTFlow r v)) y))"
  by (simp add: write_output_def get_node_def write_enum_flow)

lemma base_Execute_some: "t n = Some y \<Longrightarrow> base_Execute t n = Inr (t(n \<mapsto> add_status St_Success y))"
  by (simp add: base_Execute_def upd_node_def get_node_def)

text \<open>A branch whose condition evaluates to \<open>b\<close> makes exactly one of its two outputs
  available, the first if \<open>b\<close> holds and the second otherwise, and marks itself successful; it
  changes nothing else.\<close>

theorem branch_takes_one_side:
  assumes "s n = Some x" and "kind x = KBranch" and "CalcInput F k s n 1 = Inr (t, Some (DTBool b))"
    and "t n = Some y" and "m_outputs y = [p0, p1]" and "pData p0 = Some (DTFlow r0 v0)" and "pData p1 = Some (DTFlow r1 v1)"
  shows "Execute F k s n = Inr (t(n \<mapsto> y\<lparr>
     m_outputs := [p0\<lparr>pData := Some (DTFlow r0 (if b then Available else NotAvailable))\<rparr>,
                   p1\<lparr>pData := Some (DTFlow r1 (if b then NotAvailable else Available))\<rparr>],
     m_status := m_status y OR St_Success\<rparr>))"
  using assms
  by (simp add: Execute_def node_execute_def Branch_Execute_def get_node_def non_null_def read_bool_def
      write_output_def write_enum_flow base_Execute_def upd_node_def set_output_data_def add_status_def)

lemma branch_takes_one_side_witness:
  "\<exists>u z. Execute no_floats 1 [0 \<mapsto> Branch_InitNode (node_new KBranch 0)] 0 = Inr u \<and> u 0 = Some z \<and>
     map (\<lambda>p. read_enum (pData p)) (m_outputs z) = [Inr NotAvailable, Inr Available]"
proof -
  let ?x = "Branch_InitNode (node_new KBranch 0)"
  have x: "m_inputs ?x ! 1 = \<lparr>connections = [], pData = Some (DTBool False), hashName = name_hash ''Condition''\<rparr>"
      "length (m_inputs ?x) = 2" "kind ?x = KBranch"
    and outs: "m_outputs ?x = [\<lparr>connections = [], pData = new_flow, hashName = name_hash ''True''\<rparr>,
      \<lparr>connections = [], pData = new_flow, hashName = name_hash ''False''\<rparr>]"
    by (simp_all add: Branch_InitNode_def node_new_def AddInputData_def AddOutputData_def)
  have "CalcInput no_floats 1 [0 \<mapsto> ?x] 0 1 = Inr ([0 \<mapsto> ?x], Some (DTBool False))"
    using calc_unconnected [of "[0 \<mapsto> ?x]" 0 ?x 1 1 no_floats] x by simp
  from branch_takes_one_side [OF _ x(3) this _ outs, of "Some flow_reflector" 0 "Some flow_reflector" 0] show ?thesis
    by (auto simp: new_flow_def read_enum_flow)
qed

lemma synchronize_loop_pure:
  assumes "\<forall>i \<in> set is. calc s i = Inr (s, Some (DTFlow (r i) (v i)))"
  shows "synchronize_loop calc s is = Inr (s, \<forall>i \<in> set is. v i = Executed)"
  using assms by (induction "is") (auto simp: read_enum_flow)

text \<open>A synchronisation node, all of whose inputs read flows, makes its output available exactly
  when every one of them is \<open>Executed\<close>, and otherwise withdraws it.\<close>

theorem synchronize_waits_for_all:
  assumes "s n = Some x" and "kind x = KSynchronize"
    and "\<forall>i < length (m_inputs x). CalcInput F k s n i = Inr (s, Some (DTFlow (r i) (v i)))"
    and "m_outputs x = [p]" and "pData p = Some (DTFlow r0 v0)"
  shows "Execute F k s n = Inr (s(n \<mapsto> x\<lparr>
     m_outputs := [p\<lparr>pData := Some (DTFlow r0 (if \<forall>i < length (m_inputs x). v i = Executed then Available else NotAvailable))\<rparr>],
     m_status := m_status x OR St_Success\<rparr>))"
proof -
  have "synchronize_loop (\<lambda>t i. CalcInput F k t n i) s [0..<length (m_inputs x)] =
      Inr (s, \<forall>i \<in> set [0..<length (m_inputs x)]. v i = Executed)"
    by (rule synchronize_loop_pure) (use assms in auto)
  moreover have "(\<forall>i \<in> set [0..<length (m_inputs x)]. v i = Executed) = (\<forall>i < length (m_inputs x). v i = Executed)"
    by auto
  ultimately show ?thesis using assms
    by (simp add: Execute_def node_execute_def Synchronize_Execute_def get_node_def
        write_output_def write_enum_flow base_Execute_def upd_node_def set_output_data_def add_status_def)
qed

lemma synchronize_waits_for_all_witness:
  "\<exists>u. Execute no_floats 1 [0 \<mapsto> Synchronize_InitNode (node_new KSynchronize 0)] 0 = Inr u"
proof -
  let ?x = "Synchronize_InitNode (node_new KSynchronize 0)"
  have x: "length (m_inputs ?x) = 2" "kind ?x = KSynchronize"
    and outs: "m_outputs ?x = [\<lparr>connections = [], pData = new_flow, hashName = - 1\<rparr>]"
    by (simp_all add: Synchronize_InitNode_def node_new_def AddInputData_def AddOutputData_def)
  have ins: "i < 2 \<Longrightarrow> connections (m_inputs ?x ! i) = [] \<and> pData (m_inputs ?x ! i) = new_flow" for i
    by (auto simp: Synchronize_InitNode_def node_new_def AddInputData_def AddOutputData_def less_2_cases_iff)
  have c: "\<forall>i < length (m_inputs ?x). CalcInput no_floats 1 [0 \<mapsto> ?x] 0 i = Inr ([0 \<mapsto> ?x], Some (DTFlow (Some flow_reflector) 0))"
    using calc_unconnected [of "[0 \<mapsto> ?x]" 0 ?x _ 1 no_floats] x ins by (simp add: new_flow_def)
  show ?thesis
    using synchronize_waits_for_all [OF _ x(2) c outs, of "Some flow_reflector" 0] by (auto simp: new_flow_def)
qed

section \<open>Structs taken apart and put together\<close>

definition var_pin :: "u64 \<times> data_type \<Rightarrow> pin" where
  "var_pin v = \<lparr>connections = [], pData = Some (snd v), hashName = fst v\<rparr>"

lemma set_output_data_single:
  "m_outputs x = [p] \<Longrightarrow> set_output_data 0 d x = x\<lparr>m_outputs := [p\<lparr>pData := d\<rparr>]\<rparr>"
  by (simp add: set_output_data_def)

lemma GetClass_Reset [simp]: "GetClass (Reset d) = GetClass d"
  by (cases d) simp_all

lemma Reset_eq_class: "Reset a = Reset b \<Longrightarrow> GetClass a = GetClass b"
  by (metis GetClass_Reset)

lemma create_struct_loop_copies:
  assumes "s n = Some x" and "m_inputs x = map var_pin vals" and "m_outputs x = [p]"
    and "pData p = Some (DTStruct h (take j vals @ us))" and "0 < k"
    and "map (\<lambda>(k, d). (k, Reset d)) (drop j vals) = map (\<lambda>(k, d). (k, Reset d)) us"
    and "\<forall>(k, d) \<in> set vals. wf_data d" and "sorted_wrt (<) (map fst vals)" and "j \<le> length vals"
  shows "create_struct_loop (\<lambda>t i. CalcInput F k t n i) s n [j..<length vals] =
    Inr (s(n \<mapsto> x\<lparr>m_outputs := [p\<lparr>pData := Some (DTStruct h vals)\<rparr>]\<rparr>))"
  using assms
proof (induction "length vals - j" arbitrary: j s x p us)
  case 0
  then have "us = []" "take j vals = vals" by auto
  then have "x\<lparr>m_outputs := [p\<lparr>pData := Some (DTStruct h vals)\<rparr>]\<rparr> = x" using 0 by simp
  then show ?case using 0 by (simp add: upd_triv)
next
  case (Suc m)
  then have j: "j < length vals" by simp
  obtain key d where v: "vals ! j = (key, d)" by fastforce
  have dj: "drop j vals = (key, d) # drop (Suc j) vals" using j v by (metis Cons_nth_drop_Suc)
  then obtain u ws where us: "us = (key, u) # ws" and r: "Reset d = Reset u"
    and eq: "map (\<lambda>(k, d). (k, Reset d)) (drop (Suc j) vals) = map (\<lambda>(k, d). (k, Reset d)) ws"
    using Suc.prems(6) by (cases us) auto
  have keys: "map fst (drop (Suc j) vals) = map fst ws"
    using arg_cong [OF eq, of "map fst"] by (simp add: comp_def case_prod_unfold)
  have "map fst (take j vals @ (key, u) # ws) = map fst (take j vals @ (key, d) # drop (Suc j) vals)"
    using keys by simp
  also have "\<dots> = map fst vals" using dj by (metis append_take_drop_id)
  finally have srt: "sorted_wrt (<) (map fst (take j vals @ (key, u) # ws))" using Suc.prems(8) by simp
  have wf: "wf_data d" using Suc.prems(7) j v by (metis (mono_tags, lifting) case_prodD nth_mem)
  let ?x1 = "x\<lparr>m_outputs := [p\<lparr>pData := Some (DTStruct h (take j vals @ (key, d) # ws))\<rparr>]\<rparr>"
  have c: "CalcInput F k s n j = Inr (s, Some d)"
    using calc_unconnected [of s n x j k F] Suc.prems j v by (simp add: var_pin_def)
  have "create_struct_input (\<lambda>t i. CalcInput F k t n i) s n j = Inr (s(n \<mapsto> ?x1))"
    unfolding create_struct_input_def c bind_res_Inr prod.case
    using Suc.prems(1-3) Suc.prems(4) [unfolded us] j v map_of_middle [OF srt] map_put_replace [OF srt, of d]
      CopyTo_same_type(1) [OF wf r] Reset_eq_class [OF r, symmetric]
    by (simp add: get_node_def non_null_def var_pin_def set_output_data_def)
  moreover have "create_struct_loop (\<lambda>t i. CalcInput F k t n i) (s(n \<mapsto> ?x1)) n [Suc j..<length vals] =
      Inr ((s(n \<mapsto> ?x1))(n \<mapsto> ?x1\<lparr>m_outputs := [p\<lparr>pData := Some (DTStruct h (take j vals @ (key, d) # ws))\<rparr>\<lparr>pData := Some (DTStruct h vals)\<rparr>]\<rparr>))"
    by (rule Suc.hyps(1) [where us = ws]) (use Suc j v eq in \<open>auto simp: take_Suc_conv_app_nth\<close>)
  ultimately show ?case using j by (simp add: upt_conv_Cons)
qed

lemma break_pins_copies:
  "list_all2 (\<lambda>p (k, d). hashName p = k \<and> map_of vs k = Some d \<and> (\<exists>e. pData p = Some e \<and> wf_data d \<and> Reset d = Reset e)) ps ws \<Longrightarrow>
   \<exists>qs. break_pins vs ps = Inr qs \<and> map pData qs = map (\<lambda>(k, d). Some d) ws"
proof (induction ps ws rule: list_all2_induct)
  case (Cons p ps w ws)
  then obtain k d e where "w = (k, d)" "hashName p = k" "map_of vs k = Some d" "pData p = Some e" "wf_data d" "Reset d = Reset e"
    by auto
  moreover from this have "CopyTo d e = Inr d" "GetClass d = GetClass e"
    using CopyTo_same_type(1) [of d e] Reset_eq_class [of d e] by simp_all
  moreover obtain qs where "break_pins vs ps = Inr qs" "map pData qs = map (\<lambda>(k, d). Some d) ws" using Cons(3) by blast
  ultimately show ?case by (intro exI [of _ "p\<lparr>pData := Some d\<rparr> # qs"]) (simp add: non_null_def)
qed simp

text \<open>C30: A \<open>BreakStruct\<close> node connected to a \<open>CreateStruct\<close> node gives back, pin by pin,
  the values on the inputs of the \<open>CreateStruct\<close> node, when the values have the types of the
  struct's variables: evaluation runs the create node, its struct crosses the connection, and the
  break node copies the variables out.\<close>

theorem create_break_roundtrip:
  assumes "s c = Some x" and "kind x = KCreateStruct" and "m_dirty x" and "\<not> HasErrors x"
    and "m_inputs x = map var_pin vals" and "m_outputs x = [p]" and "pData p = Some (DTStruct h tmpl)"
    and "map (\<lambda>(k, d). (k, Reset d)) vals = map (\<lambda>(k, d). (k, Reset d)) tmpl"
    and "wf_data (DTStruct h vals)"
    and "s b = Some y" and "b \<noteq> c" and "kind y = KBreakStruct" and "m_inputs y = [q]" and "GetFirstNode q = Some c"
    and "GetFirstNodePin q = 0" and "m_outputs y = map var_pin tmpl" and "2 \<le> k"
  shows "\<exists>t z. Execute F k s b = Inr t \<and> t b = Some z \<and> map pData (m_outputs z) = map (\<lambda>(k, d). Some d) vals"
proof -
  obtain j where k: "k = Suc (Suc j)" using assms(17) by (metis add_2_eq_Suc le_Suc_ex)
  let ?x1 = "x\<lparr>m_outputs := [p\<lparr>pData := Some (DTStruct h vals)\<rparr>]\<rparr>"
  let ?s1 = "s(c \<mapsto> add_status St_Success ?x1)"
  have "create_struct_loop (\<lambda>t i. CalcInput F (Suc j) t c i) s c [0..<length vals] = Inr (s(c \<mapsto> ?x1))"
    by (rule create_struct_loop_copies [where us = tmpl]) (use assms in auto)
  then have exec: "node_execute F (CalcInput F (Suc j)) s c = Inr ?s1"
    using assms by (simp add: node_execute_def get_node_def CreateStruct_Execute_def is_struct_def base_Execute_def upd_node_def)
  have "\<not> HasErrors (add_status St_Success ?x1)"
  proof -
    have "(m_status x OR St_Success) AND St_ErrorStatus = (m_status x AND St_ErrorStatus) OR (St_Success AND St_ErrorStatus)"
      by (simp add: bit.conj_disj_distrib2)
    also have "St_Success AND St_ErrorStatus = 0" by (simp add: status_defs)
    finally show ?thesis using assms(4) by (simp add: HasErrors_def add_status_def)
  qed
  then have calc: "CalcInput F k s b 0 = Inr (?s1, Some (DTStruct h vals))"
    using assms exec
    by (simp add: k calc_body_def get_node_def GetType_def IsDirty_def GetOutput_def) (simp add: add_status_def)
  have len: "length vals = length tmpl" using arg_cong [OF assms(8), of length] by simp
  have "list_all2 (\<lambda>p (k, d). hashName p = k \<and> map_of vals k = Some d \<and> (\<exists>e. pData p = Some e \<and> wf_data d \<and> Reset d = Reset e))
      (map var_pin tmpl) vals"
  proof (rule list_all2_all_nthI)
    fix i assume i: "i < length (map var_pin tmpl)"
    obtain key d where v: "vals ! i = (key, d)" by fastforce
    have "(\<lambda>(k, d). (k, Reset d)) (vals ! i) = (\<lambda>(k, d). (k, Reset d)) (tmpl ! i)"
      using arg_cong [OF assms(8), of "\<lambda>l. l ! i"] i len by simp
    then obtain e where t: "tmpl ! i = (key, e)" and r: "Reset d = Reset e" using v by (cases "tmpl ! i") auto
    have "(key, d) \<in> set vals" using v i len by (metis length_map nth_mem)
    moreover have "distinct (map fst vals)"
      using assms(9) by (simp add: strict_sorted_iff)
    ultimately have "map_of vals key = Some d" "wf_data d" using assms(9) by auto
    then show "case vals ! i of (k, d) \<Rightarrow> hashName (map var_pin tmpl ! i) = k \<and> map_of vals k = Some d \<and>
        (\<exists>e. pData (map var_pin tmpl ! i) = Some e \<and> wf_data d \<and> Reset d = Reset e)"
      using v t r i by (simp add: var_pin_def)
  qed (simp add: len)
  then obtain qs where "break_pins vals (map var_pin tmpl) = Inr qs" "map pData qs = map (\<lambda>(k, d). Some d) vals"
    using break_pins_copies by blast
  then show ?thesis using assms calc
    by (simp add: Execute_def node_execute_def get_node_def BreakStruct_Execute_def base_Execute_some) (simp add: add_status_def)
qed

definition example_create :: node where
  "example_create = (node_new KCreateStruct 7)\<lparr>m_inputs := map var_pin [(1, DTBool True), (4, DTInt8 5)],
     m_outputs := [\<lparr>connections = [(Some 1, 0)], pData = Some (DTStruct 7 [(1, DTBool False), (4, DTInt8 0)]), hashName = 0\<rparr>]\<rparr>"

definition example_break :: node where
  "example_break = (node_new KBreakStruct 7)\<lparr>m_inputs := [linked 0 0 (DTStruct 7 [(1, DTBool False), (4, DTInt8 0)])],
     m_outputs := map var_pin [(1, DTBool False), (4, DTInt8 0)]\<rparr>"

definition example_store :: store where
  "example_store = [0 \<mapsto> example_create, 1 \<mapsto> example_break]"

lemma create_break_roundtrip_witness:
  "\<exists>t z. Execute no_floats 2 example_store 1 = Inr t \<and> t 1 = Some z \<and>
     map pData (m_outputs z) = [Some (DTBool True), Some (DTInt8 5)]"
proof -
  have "\<exists>t z. Execute no_floats 2 example_store 1 = Inr t \<and> t 1 = Some z \<and>
      map pData (m_outputs z) = map (\<lambda>(k, d). Some d) [(1 :: u64, DTBool True), (4, DTInt8 5)]"
    by (rule create_break_roundtrip [where c = 0 and x = example_create and y = example_break and h = 7
        and tmpl = "[(1, DTBool False), (4, DTInt8 0)]" and q = "linked 0 0 (DTStruct 7 [(1, DTBool False), (4, DTInt8 0)])"])
      (simp_all add: example_store_def example_create_def example_break_def node_new_def linked_def
        GetFirstNode_def GetFirstNodePin_def HasErrors_def status_defs, simp_all)
  then show ?thesis by simp
qed

lemma evaluation_terminates_witness:
  "CalcInput no_floats 2 example_store 1 0 \<noteq> Inl OutOfFuel"
proof -
  have "feeds (graph example_store) n m \<Longrightarrow> n = 1 \<and> m = 0" for n m
    by (auto simp: feeds_def graph_def example_store_def node_shape_def example_create_def example_break_def
        node_new_def linked_def var_pin_def split: if_splits)
  then have "ranked example_store (\<lambda>n. n)" by (auto simp: ranked_def)
  from evaluation_terminates [OF this, of 1 2 no_floats 0] show ?thesis by simp
qed

section \<open>Dirty marks\<close>

definition cyclic_store :: store where
  "cyclic_store = [0 \<mapsto> (node_new KConstructor 0)\<lparr>m_outputs := [linked 1 0 DTNone]\<rparr>,
     1 \<mapsto> (node_new KConstructor 0)\<lparr>m_outputs := [linked 0 0 DTNone]\<rparr>]"

lemma MarkDirty_cycle:
  assumes "s 0 = Some x" and "GetType x = Compute" and "dirty_targets (m_outputs x) = [1]"
    and "s 1 = Some y" and "GetType y = Compute" and "dirty_targets (m_outputs y) = [0]" and "n < 2"
  shows "MarkDirty k s n = Inl OutOfFuel"
  using assms
proof (induction k arbitrary: s n x y)
  case (Suc k)
  have "n = 0 \<or> n = 1" using Suc.prems by auto
  then show ?case
  proof
    assume "n = 0"
    moreover have "MarkDirty k (s(0 \<mapsto> x\<lparr>m_dirty := True\<rparr>)) 1 = Inl OutOfFuel"
      by (rule Suc.IH [of _ "x\<lparr>m_dirty := True\<rparr>" y]) (use Suc.prems in \<open>simp_all add: GetType_def\<close>)
    ultimately show ?thesis using Suc.prems by (simp add: get_node_def)
  next
    assume "n = 1"
    moreover have "MarkDirty k (s(1 \<mapsto> y\<lparr>m_dirty := True\<rparr>)) 0 = Inl OutOfFuel"
      by (rule Suc.IH [of _ x "y\<lparr>m_dirty := True\<rparr>"]) (use Suc.prems in \<open>simp_all add: GetType_def\<close>)
    ultimately show ?thesis using Suc.prems by (simp add: get_node_def)
  qed
qed simp

text \<open>\<open>MarkDirty\<close> does not stop at a node that is dirty already: two compute nodes whose
  outputs are connected to each other make it recurse without end, however deep the stack.\<close>

theorem mark_dirty_cycle_diverges: "MarkDirty k cyclic_store 0 = Inl OutOfFuel"
  by (rule MarkDirty_cycle [of _ "the (cyclic_store 0)" "the (cyclic_store 1)"])
    (simp_all add: cyclic_store_def GetType_def node_new_def linked_def map_filter_def)

section \<open>Fresh nodes\<close>

lemma write_output_Inr:
  assumes "s n = Some x" and "i < length (m_outputs x)" and "pData (m_outputs x ! i) = new_flow"
  shows "write_output e s n i v = Inr (s(n \<mapsto> set_output_data i (Some (DTFlow (Some flow_reflector) v)) x))"
  using assms by (simp add: new_flow_def write_output_flow)

lemmas fresh_simps = node_new_def AddInputData_def AddOutputData_def new_flow_def Execute_def node_execute_def
  get_node_def base_Execute_def upd_node_def write_output_def write_enum_flow read_enum_flow set_output_data_def

lemma fresh_input:
  assumes "i < length (m_inputs x)" and "connections (m_inputs x ! i) = []"
  shows "CalcInput F (Suc k) [n \<mapsto> x] n i = Inr ([n \<mapsto> x], pData (m_inputs x ! i))"
  by (rule calc_unconnected) (use assms in simp_all)

text \<open>Every node that is not a compute node executes without fault right after
  \<open>InitNode\<close>, before anything is connected.\<close>

theorem fresh_nodes_execute:
  assumes "kind_type kd \<noteq> Compute"
  shows "ok (Execute F (Suc k) [n \<mapsto> InitNode a R m l (node_new kd h)] n)"
proof (cases kd)
  case KSynchronize
  then show ?thesis
    using fresh_input [of _ "InitNode a R m l (node_new kd h)" F k n]
    by (simp add: InitNode_def Synchronize_InitNode_def Synchronize_Execute_def fresh_simps upt_rec)
next
  case KBranch
  then show ?thesis
    using fresh_input [of 1 "InitNode a R m l (node_new kd h)" F k n]
    by (simp add: InitNode_def Branch_InitNode_def Branch_Execute_def fresh_simps non_null_def read_bool_def)
next
  case KDebugPrint
  then show ?thesis
    using fresh_input [of 1 "InitNode a R m l (node_new kd h)" F k n] fresh_input [of 2 "InitNode a R m l (node_new kd h)" F k n]
    by (simp add: InitNode_def DebugPrint_InitNode_def DebugPrint_Execute_def fresh_simps non_null_def deref_string_def
        read_enum_def deref_def)
qed (simp_all add: InitNode_def Connector_InitNode_def Start_InitNode_def Start_Execute_def Reset_InitNode_def
    Reset_node_Execute_def Sequence_InitNode_def Sequence_Execute_def fresh_simps,
    use assms in simp_all)

lemma fresh_nodes_execute_witness: "ok (Execute no_floats 1 [0 \<mapsto> InitNode (allocator_new (\<lambda>_. 0)) [] \<lparr>m_structs = Map.empty\<rparr> 0 (node_new KDebugPrint 0)] 0)"
  using fresh_nodes_execute [of KDebugPrint no_floats 0 0 "allocator_new (\<lambda>_. 0)" "[]" "\<lparr>m_structs = Map.empty\<rparr>" 0 0] by simp

text \<open>A compute node whose type the manager does not know gets null pins or none, and executing
  it dereferences null or throws, instead of reporting an error status.\<close>

theorem fresh_unknown_type_faults:
  assumes "CreateByName a R m h = None" and "tm_GetStruct m h = None"
  shows "Execute F (Suc k) [n \<mapsto> InitNode a R m l (node_new KConstructor h)] n = Inl NullPointer \<and>
    Execute F (Suc k) [n \<mapsto> InitNode a R m l (node_new KCreateStruct h)] n = Inl Exception"
proof
  show "Execute F (Suc k) [n \<mapsto> InitNode a R m l (node_new KConstructor h)] n = Inl NullPointer"
    using assms fresh_input [of 0 "InitNode a R m l (node_new KConstructor h)" F k n]
    by (simp add: InitNode_def Constructor_InitNode_def Constructor_Execute_def fresh_simps non_null_def)
  show "Execute F (Suc k) [n \<mapsto> InitNode a R m l (node_new KCreateStruct h)] n = Inl Exception"
    using assms by (simp add: InitNode_def CreateStruct_InitNode_def CreateStruct_Execute_def fresh_simps)
qed

lemma fresh_unknown_type_faults_witness:
  "Execute no_floats 1 [0 \<mapsto> InitNode (allocator_new (\<lambda>_. 0)) [] \<lparr>m_structs = Map.empty\<rparr> 0 (node_new KConstructor 1)] 0 = Inl NullPointer"
  using fresh_unknown_type_faults [of "allocator_new (\<lambda>_. 0)" "[]" "\<lparr>m_structs = Map.empty\<rparr>" 1 no_floats 0 0 0]
  by (simp add: CreateByName_def Allocate_hash_def allocator_new_def all_classes_def tm_GetStruct_def)

end
