(* ===== verification/SR_Logical_Machine.thy ===== *)
theory SR_Logical_Machine
  imports SR_Logical_Nodes
begin

text \<open>
  The machine that runs a graph of nodes, src/Utils/SRLM/LogicalMachine.cpp. It keeps the list of
  its nodes, the entry points, and the list of active nodes, each with the output pin it was
  reached from. \<open>UpdateMachine\<close> visits the active nodes; each is executed again and again, moving
  along its available outputs and spawning new active nodes for further outputs, until it blocks,
  fails or runs off the graph.

  \<open>while (Execute(dt));\<close> and the loop over the active nodes need not end, so they have fuel;
  another fuel bounds the evaluation of inputs. The breadth-first search of a reset needs one unit
  of fuel per node, and is proved to end within it.

  The lemmas: how a step rewrites the list of active nodes, what a reset resets, what the list
  holds after an update, that \<open>Optimize\<close> removes exactly the connectors, and what links a load
  creates.
\<close>

unbundle bit_operations_syntax

section \<open>State\<close>

record active_info =
  a_pNode :: "nat option"
  a_pFromPin :: "(nat \<times> nat) option"

record machine =
  lm_store :: store
  lm_nodes :: "nat list"
  lm_active :: "active_info list"
  lm_currentNode :: u32
  lm_entryPoints :: "(u8 list \<times> nat) list"

definition machine_new :: "store \<Rightarrow> machine" where
  "machine_new s = \<lparr>lm_store = s, lm_nodes = [], lm_active = [], lm_currentNode = 0, lm_entryPoints = []\<rparr>"

text \<open>Only \<open>StartNode\<close> is an entry point, and its name is \<open>Start\<close>.\<close>

definition IsEntryPoint :: "node \<Rightarrow> bool" where
  "IsEntryPoint x = (kind x = KStart)"

definition start_name :: "u8 list" where
  "start_name = bytes_of ''Start''"

definition AddNode :: "nat \<Rightarrow> machine \<Rightarrow> machine result" where
  "AddNode n m = bind_res (get_node (lm_store m) n) (\<lambda>x.
     let m1 = m\<lparr>lm_nodes := lm_nodes m @ [n]\<rparr> in
     if IsEntryPoint x \<and> map_of (lm_entryPoints m) start_name = None
     then Inr (m1\<lparr>lm_entryPoints := lm_entryPoints m @ [(start_name, n)]\<rparr>)
     else Inr m1)"

definition Init :: "machine \<Rightarrow> machine" where
  "Init m = m\<lparr>lm_active := lm_active m @ map (\<lambda>(name, n). \<lparr>a_pNode = Some n, a_pFromPin = None\<rparr>) (lm_entryPoints m)\<rparr>"

definition machine_Clear :: "machine \<Rightarrow> machine" where
  "machine_Clear m = \<lparr>lm_store = (lm_store m) |` (- set (lm_nodes m)), lm_nodes = [], lm_active = [],
     lm_currentNode = 0, lm_entryPoints = []\<rparr>"

definition GetCurrentNode :: "machine \<Rightarrow> nat option" where
  "GetCurrentNode m = (if length (lm_active m) \<le> unat (lm_currentNode m) then None
     else a_pNode (lm_active m ! unat (lm_currentNode m)))"

definition GetCurrentPin :: "machine \<Rightarrow> (nat \<times> nat) option" where
  "GetCurrentPin m = (if length (lm_active m) \<le> unat (lm_currentNode m) then None
     else a_pFromPin (lm_active m ! unat (lm_currentNode m)))"

definition set_current :: "u32 \<Rightarrow> nat option \<Rightarrow> (nat \<times> nat) option \<Rightarrow> active_info list \<Rightarrow> active_info list" where
  "set_current current pNode pFromPin act =
     (if unat current < length act then act[unat current := \<lparr>a_pNode = pNode, a_pFromPin = pFromPin\<rparr>] else act)"

definition SetCurrentNode :: "nat option \<Rightarrow> (nat \<times> nat) option \<Rightarrow> machine \<Rightarrow> machine" where
  "SetCurrentNode pNode pFromPin m = m\<lparr>lm_active := set_current (lm_currentNode m) pNode pFromPin (lm_active m)\<rparr>"

section \<open>Executable nodes\<close>

text \<open>No class of the program overrides these two.\<close>

definition IsNeedRepeat :: "node \<Rightarrow> bool" where
  "IsNeedRepeat x = False"

definition IsNeedPostRepeat :: "node \<Rightarrow> bool" where
  "IsNeedPostRepeat x = False"

definition insert_active :: "u32 \<Rightarrow> active_info \<Rightarrow> active_info list \<Rightarrow> active_info list result" where
  "insert_active offset info act = (if unat offset \<le> length act then Inr (vec_insert act (unat offset) info) else Inl OutOfRange)"

text \<open>The loop over the outputs of node \<open>n\<close>, from index \<open>i\<close>: whether to continue, the
  active nodes and the offset of the next insertion.\<close>

fun follow_outputs :: "u32 \<Rightarrow> nat \<Rightarrow> nat \<Rightarrow> pin list \<Rightarrow> bool \<times> active_info list \<times> u32 \<Rightarrow> (bool \<times> active_info list \<times> u32) result" where
  "follow_outputs current n i [] st = Inr st"
| "follow_outputs current n i (pin # pins) (needContinue, act, offset) =
     bind_res (non_null (pData pin)) (\<lambda>d.
     if GetClass d \<noteq> CFlow then follow_outputs current n (Suc i) pins (needContinue, act, offset)
     else bind_res (read_enum (Some d)) (\<lambda>v.
     if v = NotAvailable then follow_outputs current n (Suc i) pins (needContinue, act, offset)
     else if \<not> needContinue
       then follow_outputs current n (Suc i) pins
              (True, set_current current (GetFirstNode pin) (Some (n, i)) act, offset)
     else bind_res (insert_active offset \<lparr>a_pNode = GetFirstNode pin, a_pFromPin = Some (n, i)\<rparr> act) (\<lambda>act'.
       follow_outputs current n (Suc i) pins (needContinue, act', offset + 1))))"

definition ProcessExecutable :: "float_ops \<Rightarrow> nat \<Rightarrow> machine \<Rightarrow> (bool \<times> machine) result" where
  "ProcessExecutable F k m =
     (case GetCurrentNode m of None \<Rightarrow> Inr (False, m)
      | Some n \<Rightarrow>
        bind_res (Execute F k (lm_store m) n) (\<lambda>s.
        bind_res (get_node s n) (\<lambda>x.
        if HasErrors x then Inr (False, m\<lparr>lm_store := s\<rparr>)
        else
          bind_res (follow_outputs (lm_currentNode m) n 0 (m_outputs x) (IsNeedRepeat x, lm_active m, lm_currentNode m + 1))
            (\<lambda>(needContinue, act, offset).
          if IsNeedPostRepeat x then
            bind_res (if needContinue then insert_active offset \<lparr>a_pNode = Some n, a_pFromPin = None\<rparr> act else Inr act) (\<lambda>act'.
            Inr (True, m\<lparr>lm_store := s, lm_active := act'\<rparr>))
          else Inr (needContinue, m\<lparr>lm_store := s, lm_active := act\<rparr>)))))"

section \<open>Resets\<close>

text \<open>The connections of one node, in order: the new nodes of the search.\<close>

fun search_connections :: "store \<Rightarrow> (nat option \<times> u32) list \<Rightarrow> nat list \<Rightarrow> nat list \<Rightarrow> (nat list \<times> nat list) result" where
  "search_connections s [] passed queue = Inr (passed, queue)"
| "search_connections s (c # cs) passed queue =
     (case fst c of None \<Rightarrow> search_connections s cs passed queue
      | Some n \<Rightarrow>
        if n \<in> set passed then search_connections s cs passed queue
        else bind_res (get_node s n) (\<lambda>x.
          if GetType x = EndReset then search_connections s cs passed queue
          else search_connections s cs (passed @ [n]) (queue @ [n])))"

definition all_connections :: "node \<Rightarrow> (nat option \<times> u32) list" where
  "all_connections x = concat (map connections (m_outputs x))"

definition reset_visited :: "store \<Rightarrow> nat \<Rightarrow> store result" where
  "reset_visited s n = bind_res (get_node s n) (\<lambda>x. bind_res (ResetOutputFlows x) (\<lambda>y. Inr (s(n \<mapsto> ResetStatus y))))"

fun search_loop :: "nat \<Rightarrow> nat \<Rightarrow> store \<Rightarrow> nat list \<Rightarrow> nat list \<Rightarrow> store result" where
  "search_loop 0 start s passed queue = (case queue of [] \<Rightarrow> Inr s | _ \<Rightarrow> Inl OutOfFuel)"
| "search_loop (Suc k) start s passed queue =
     (case queue of [] \<Rightarrow> Inr s
      | n # rest \<Rightarrow>
        bind_res (if n \<noteq> start then reset_visited s n else Inr s) (\<lambda>s1.
        bind_res (get_node s1 n) (\<lambda>x.
        bind_res (search_connections s1 (all_connections x) passed rest) (\<lambda>(passed', rest').
        search_loop k start s1 passed' rest'))))"

definition ProcessReset :: "float_ops \<Rightarrow> nat \<Rightarrow> nat \<Rightarrow> machine \<Rightarrow> (bool \<times> machine) result" where
  "ProcessReset F k searchFuel m =
     bind_res (non_null (GetCurrentNode m)) (\<lambda>n.
     bind_res (Execute F k (lm_store m) n) (\<lambda>s.
     bind_res (get_node s n) (\<lambda>x.
     if m_outputs x = [] then Inr (False, m\<lparr>lm_store := s\<rparr>)
     else
       bind_res (search_loop searchFuel n s [n] [n]) (\<lambda>s1.
       bind_res (get_node s1 n) (\<lambda>y.
       bind_res (vec_at (m_outputs y) 0) (\<lambda>pin.
       bind_res (write_enum Executed (pData pin)) (\<lambda>d.
       Inr (True, SetCurrentNode (GetFirstNode pin) (Some (n, 0)) (m\<lparr>lm_store := s1(n \<mapsto> set_output_data 0 d y)\<rparr>)))))))))"

section \<open>The loops\<close>

definition write_pin :: "store \<Rightarrow> nat \<times> nat \<Rightarrow> u64 \<Rightarrow> store result" where
  "write_pin s p v = write_output DanglingPointer s (fst p) (snd p) v"

definition machine_Execute :: "float_ops \<Rightarrow> nat \<Rightarrow> nat \<Rightarrow> machine \<Rightarrow> (bool \<times> machine) result" where
  "machine_Execute F k searchFuel m =
     (case GetCurrentNode m of None \<Rightarrow> Inr (False, m)
      | Some n \<Rightarrow>
        bind_res (get_node (lm_store m) n) (\<lambda>x.
        if GetType x = Compute then Inr (False, m)
        else
          bind_res (case GetCurrentPin m of None \<Rightarrow> Inr (lm_store m) | Some p \<Rightarrow> write_pin (lm_store m) p Executed) (\<lambda>s.
          let m1 = m\<lparr>lm_store := s\<rparr> in
          case GetType x of
            Executable \<Rightarrow> ProcessExecutable F k m1
          | EndReset \<Rightarrow> ProcessExecutable F k m1
          | StartReset \<Rightarrow> ProcessReset F k searchFuel m1
          | _ \<Rightarrow> Inr (False, m1))))"

fun execute_while :: "float_ops \<Rightarrow> nat \<Rightarrow> nat \<Rightarrow> nat \<Rightarrow> machine \<Rightarrow> machine result" where
  "execute_while F k searchFuel 0 m = Inl OutOfFuel"
| "execute_while F k searchFuel (Suc fuel) m =
     bind_res (machine_Execute F k searchFuel m) (\<lambda>(again, m1).
     if again then execute_while F k searchFuel fuel m1 else Inr m1)"

definition erase_current :: "machine \<Rightarrow> machine" where
  "erase_current m = m\<lparr>lm_active := vec_erase (lm_active m) (unat (lm_currentNode m)), lm_currentNode := lm_currentNode m - 1\<rparr>"

fun update_loop :: "float_ops \<Rightarrow> nat \<Rightarrow> nat \<Rightarrow> nat \<Rightarrow> machine \<Rightarrow> machine result" where
  "update_loop F k searchFuel 0 m = Inl OutOfFuel"
| "update_loop F k searchFuel (Suc fuel) m =
     (if unat (lm_currentNode m) < length (lm_active m) then
        bind_res (execute_while F k searchFuel fuel m) (\<lambda>m1.
        let m2 = (if GetCurrentNode m1 = None then erase_current m1 else m1) in
        update_loop F k searchFuel fuel (m2\<lparr>lm_currentNode := lm_currentNode m2 + 1\<rparr>))
      else Inr m)"

definition UpdateMachine :: "float_ops \<Rightarrow> nat \<Rightarrow> nat \<Rightarrow> nat \<Rightarrow> machine \<Rightarrow> machine result" where
  "UpdateMachine F k searchFuel fuel m = update_loop F k searchFuel fuel (m\<lparr>lm_currentNode := 0\<rparr>)"

section \<open>Spawning\<close>

text \<open>The entries a node's outputs, from index \<open>i\<close>, give rise to: one per available flow.\<close>

fun available :: "pin \<Rightarrow> bool" where
  "available p = (case pData p of Some (DTFlow r v) \<Rightarrow> v \<noteq> NotAvailable | _ \<Rightarrow> False)"

fun available_entries :: "nat \<Rightarrow> nat \<Rightarrow> pin list \<Rightarrow> active_info list" where
  "available_entries n i [] = []"
| "available_entries n i (p # ps) =
     (if available p then [\<lparr>a_pNode = GetFirstNode p, a_pFromPin = Some (n, i)\<rparr>] else []) @ available_entries n (Suc i) ps"

lemma length_available_entries: "length (available_entries n i ps) \<le> length ps"
  by (induction ps arbitrary: i) (simp_all add: le_SucI del: available.simps)

lemma flow_class: "GetClass d = CFlow \<longleftrightarrow> (\<exists>r v. d = DTFlow r v)"
  by (cases d) simp_all

lemma follow_outputs_cons:
  assumes "pData p = Some d"
  shows "follow_outputs current n i (p # ps) (b, act, off) =
    (if \<not> available p then follow_outputs current n (Suc i) ps (b, act, off)
     else if \<not> b then follow_outputs current n (Suc i) ps (True, set_current current (GetFirstNode p) (Some (n, i)) act, off)
     else bind_res (insert_active off \<lparr>a_pNode = GetFirstNode p, a_pFromPin = Some (n, i)\<rparr> act) (\<lambda>act'.
       follow_outputs current n (Suc i) ps (b, act', off + 1)))"
  using assms by (cases d) (simp_all add: non_null_def read_enum_flow)

lemma vec_insert_pre: "vec_insert (pre @ suf) (length pre) x = (pre @ [x]) @ suf"
  by (simp add: vec_insert_def)

lemma follow_outputs_insert:
  assumes "\<forall>p \<in> set ps. pData p \<noteq> None" and "unat off = length pre" and "length pre + length ps < 4294967296"
  shows "\<exists>off'. follow_outputs current n i ps (True, pre @ suf, off) = Inr (True, pre @ available_entries n i ps @ suf, off')"
  using assms
proof (induction ps arbitrary: i pre off)
  case (Cons p ps)
  obtain d where d: "pData p = Some d" using Cons.prems by auto
  show ?case
  proof (cases "available p")
    case True
    let ?e = "\<lparr>a_pNode = GetFirstNode p, a_pFromPin = Some (n, i)\<rparr>"
    have "unat (off + 1) = length (pre @ [?e])" using unat_plus_1 [of off] Cons.prems by simp
    then obtain off' where "follow_outputs current n (Suc i) ps (True, (pre @ [?e]) @ suf, off + 1) =
        Inr (True, (pre @ [?e]) @ available_entries n (Suc i) ps @ suf, off')"
      using Cons.IH [where pre = "pre @ [?e]" and off = "off + 1" and i = "Suc i"] Cons.prems by auto
    moreover have "insert_active off ?e (pre @ suf) = Inr ((pre @ [?e]) @ suf)"
      using Cons.prems vec_insert_pre [of pre suf ?e] by (simp add: insert_active_def)
    ultimately show ?thesis unfolding follow_outputs_cons [OF d]
      by (intro exI [of _ off']) (simp add: True del: available.simps)
  next
    case False
    then show ?thesis using Cons.IH [where pre = pre and off = off and i = "Suc i"] Cons.prems unfolding follow_outputs_cons [OF d]
      by (simp del: available.simps)
  qed
qed simp

lemma set_current_middle:
  "unat current = length pre \<Longrightarrow> set_current current a b (pre @ x # suf) = pre @ \<lparr>a_pNode = a, a_pFromPin = b\<rparr> # suf"
  by (simp add: set_current_def)

lemma follow_outputs_all:
  assumes "\<forall>p \<in> set ps. pData p \<noteq> None" and "unat current = length pre" and "Suc (length pre) + length ps < 4294967296"
  shows "\<exists>off'. follow_outputs current n i ps (False, pre @ x # suf, current + 1) =
    Inr (available_entries n i ps \<noteq> [],
      pre @ (if available_entries n i ps = [] then [x] else available_entries n i ps) @ suf, off')"
  using assms
proof (induction ps arbitrary: i)
  case (Cons p ps)
  obtain d where d: "pData p = Some d" using Cons.prems by auto
  show ?case
  proof (cases "available p")
    case True
    let ?e = "\<lparr>a_pNode = GetFirstNode p, a_pFromPin = Some (n, i)\<rparr>"
    have "unat (current + 1) = length (pre @ [?e])" using unat_plus_1 [of current] Cons.prems by simp
    then obtain off' where "follow_outputs current n (Suc i) ps (True, (pre @ [?e]) @ suf, current + 1) =
        Inr (True, (pre @ [?e]) @ available_entries n (Suc i) ps @ suf, off')"
      using follow_outputs_insert [of ps "current + 1" "pre @ [?e]" current n "Suc i" suf] Cons.prems by auto
    then show ?thesis unfolding follow_outputs_cons [OF d]
      by (intro exI [of _ off']) (simp add: True set_current_middle [OF Cons.prems(2)] del: available.simps)
  next
    case False
    then show ?thesis using Cons.IH [of "Suc i"] Cons.prems unfolding follow_outputs_cons [OF d]
      by (auto simp del: available.simps split: if_splits)
  qed
qed simp

text \<open>C23: One step of an executable node: after the node has executed without error, the active
  entry of the node is replaced, in its place and in the order of the outputs, by one entry per
  available output, each the first node connected to the output; with no available output the entry
  stays, and the machine moves on to the next active node. Only the list and the store change.\<close>

theorem executable_step_spawns:
  assumes "GetCurrentNode m = Some n" and "Execute F k (lm_store m) n = Inr s" and "s n = Some x"
    and "\<not> HasErrors x" and "\<forall>p \<in> set (m_outputs x). pData p \<noteq> None"
    and "Suc (unat (lm_currentNode m)) + length (m_outputs x) < 4294967296"
  shows "ProcessExecutable F k m =
    (let es = available_entries n 0 (m_outputs x); c = unat (lm_currentNode m); act = lm_active m
     in Inr (es \<noteq> [], m\<lparr>lm_store := s, lm_active := if es = [] then act else take c act @ es @ drop (Suc c) act\<rparr>))"
proof -
  let ?c = "unat (lm_currentNode m)" and ?act = "lm_active m"
  have c: "?c < length ?act" using assms(1) by (simp add: GetCurrentNode_def split: if_splits)
  then have act: "?act = take ?c ?act @ ?act ! ?c # drop (Suc ?c) ?act" by (rule id_take_nth_drop)
  have "length (take ?c ?act) = ?c" using c by simp
  then obtain off' where "follow_outputs (lm_currentNode m) n 0 (m_outputs x) (False, ?act, lm_currentNode m + 1) =
    Inr (available_entries n 0 (m_outputs x) \<noteq> [],
      take ?c ?act @ (if available_entries n 0 (m_outputs x) = [] then [?act ! ?c] else available_entries n 0 (m_outputs x)) @ drop (Suc ?c) ?act, off')"
    using follow_outputs_all [of "m_outputs x" "lm_currentNode m" "take ?c ?act" n 0 "?act ! ?c" "drop (Suc ?c) ?act"]
      act assms by auto
  then show ?thesis using assms act
    by (simp add: ProcessExecutable_def get_node_def IsNeedRepeat_def IsNeedPostRepeat_def Let_def)
qed

definition example_sequence :: node where
  "example_sequence = (node_new KSequence 0)\<lparr>m_outputs :=
     [linked 1 0 (DTFlow None NotAvailable), linked 2 0 (DTFlow None NotAvailable)]\<rparr>"

lemma executable_step_spawns_witness:
  "\<exists>m'. ProcessExecutable no_floats 1 \<lparr>lm_store = [0 \<mapsto> example_sequence], lm_nodes = [0],
       lm_active = [\<lparr>a_pNode = Some 0, a_pFromPin = None\<rparr>, \<lparr>a_pNode = Some 7, a_pFromPin = None\<rparr>],
       lm_currentNode = 0, lm_entryPoints = []\<rparr> = Inr (True, m') \<and>
     map a_pNode (lm_active m') = [Some 1, Some 2, Some 7]"
proof -
  let ?x = "example_sequence\<lparr>m_outputs := [linked 1 0 (DTFlow None Available), linked 2 0 (DTFlow None Available)],
    m_status := St_None OR St_Success\<rparr>"
  let ?m = "\<lparr>lm_store = [0 \<mapsto> example_sequence], lm_nodes = [0],
       lm_active = [\<lparr>a_pNode = Some 0, a_pFromPin = None\<rparr>, \<lparr>a_pNode = Some 7, a_pFromPin = None\<rparr>],
       lm_currentNode = 0, lm_entryPoints = []\<rparr>"
  have "Execute no_floats 1 (lm_store ?m) 0 = Inr [0 \<mapsto> ?x]"
    by (simp add: Execute_def node_execute_def get_node_def Sequence_Execute_def base_Execute_def upd_node_def
        example_sequence_def node_new_def linked_def read_enum_flow write_enum_flow add_status_def)
  from executable_step_spawns [OF _ this, of ?x] show ?thesis
    by (auto simp: GetCurrentNode_def HasErrors_def status_defs linked_def Available_def NotAvailable_def
        GetFirstNode_def Let_def)
qed

section \<open>What a reset clears\<close>

text \<open>The nodes a reset passes: reachable from its start over the connections of the outputs, not
  through nodes that end resets.\<close>

definition passes :: "store \<Rightarrow> nat \<Rightarrow> nat \<Rightarrow> bool" where
  "passes s n m \<longleftrightarrow> (\<exists>x y. s n = Some x \<and> s m = Some y \<and> Some m \<in> fst ` set (all_connections x) \<and> GetType y \<noteq> EndReset)"

inductive reset_reach :: "store \<Rightarrow> nat \<Rightarrow> nat \<Rightarrow> bool" for s start where
  reach_start: "reset_reach s start start"
| reach_step: "reset_reach s start n \<Longrightarrow> passes s n m \<Longrightarrow> reset_reach s start m"

text \<open>A node with its output flows withdrawn and its status cleared.\<close>

definition clear_pin :: "pin \<Rightarrow> pin" where
  "clear_pin p = (case pData p of Some (DTFlow r v) \<Rightarrow> p\<lparr>pData := Some (DTFlow r NotAvailable)\<rparr> | _ \<Rightarrow> p)"

definition cleared :: "node \<Rightarrow> node" where
  "cleared x = ResetStatus (x\<lparr>m_outputs := map clear_pin (m_outputs x)\<rparr>)"

text \<open>No null data on an output, and no dangling connection.\<close>

definition graph_ok :: "store \<Rightarrow> bool" where
  "graph_ok s \<longleftrightarrow> (\<forall>n x. s n = Some x \<longrightarrow> (\<forall>p \<in> set (m_outputs x). pData p \<noteq> None) \<and>
     (\<forall>m. Some m \<in> fst ` set (all_connections x) \<longrightarrow> s m \<noteq> None))"

lemma reset_flows_clear: "\<forall>p \<in> set ps. pData p \<noteq> None \<Longrightarrow> reset_flows ps = Inr (map clear_pin ps)"
proof (induction ps)
  case (Cons p ps)
  then obtain d where "pData p = Some d" by auto
  then show ?case using Cons by (cases d) (simp_all add: non_null_def write_enum_flow clear_pin_def)
qed simp

lemma cleared_simps [simp]: "GetType (cleared x) = GetType x" "all_connections (cleared x) = all_connections x"
proof -
  have "connections (clear_pin p) = connections p" for p
    by (simp add: clear_pin_def split: option.splits data_type.splits)
  then show "all_connections (cleared x) = all_connections x"
    by (simp add: all_connections_def cleared_def ResetStatus_def comp_def)
qed (simp add: cleared_def GetType_def ResetStatus_def)

text \<open>The store after the nodes of a set have been cleared.\<close>

definition clear_nodes :: "store \<Rightarrow> nat set \<Rightarrow> store" where
  "clear_nodes s A = (\<lambda>n. if n \<in> A then map_option cleared (s n) else s n)"

lemma reset_visited_clear:
  assumes "graph_ok s" and "s n \<noteq> None" and "n \<notin> A"
  shows "reset_visited (clear_nodes s A) n = Inr (clear_nodes s (insert n A))"
proof -
  obtain x where x: "s n = Some x" using assms by auto
  then have "reset_flows (m_outputs x) = Inr (map clear_pin (m_outputs x))"
    using assms(1) by (intro reset_flows_clear) (auto simp: graph_ok_def)
  moreover have "(clear_nodes s A)(n \<mapsto> cleared x) = clear_nodes s (insert n A)"
    using x by (auto simp: clear_nodes_def)
  ultimately show ?thesis using x assms(3)
    by (simp add: reset_visited_def get_node_def clear_nodes_def ResetOutputFlows_def cleared_def)
qed

lemma search_connections_new:
  assumes "\<forall>m. Some m \<in> fst ` set cs \<longrightarrow> t m \<noteq> None" and "distinct passed"
  shows "\<exists>new. search_connections t cs passed queue = Inr (passed @ new, queue @ new) \<and> distinct (passed @ new) \<and>
    set new = {m. Some m \<in> fst ` set cs \<and> m \<notin> set passed \<and> (\<exists>y. t m = Some y \<and> GetType y \<noteq> EndReset)}"
  using assms
proof (induction cs arbitrary: passed queue)
  case (Cons c cs)
  note IH = Cons.IH [of passed queue]
  show ?case
  proof (cases "fst c")
    case None
    then show ?thesis using IH Cons.prems by auto
  next
    case (Some m)
    then obtain y where y: "t m = Some y" using Cons.prems by force
    consider "m \<in> set passed" | "m \<notin> set passed" "GetType y = EndReset" | "m \<notin> set passed" "GetType y \<noteq> EndReset" by blast
    then show ?thesis
    proof cases
      case 3
      then obtain new where "search_connections t cs (passed @ [m]) (queue @ [m]) = Inr ((passed @ [m]) @ new, (queue @ [m]) @ new)"
        "distinct ((passed @ [m]) @ new)"
        "set new = {k. Some k \<in> fst ` set cs \<and> k \<notin> set (passed @ [m]) \<and> (\<exists>y. t k = Some y \<and> GetType y \<noteq> EndReset)}"
        using Cons.IH [of "passed @ [m]" "queue @ [m]"] Cons.prems by auto
      then show ?thesis using 3 Some y
        by (intro exI [of _ "m # new"]) (auto simp: get_node_def)
    qed (use IH Cons.prems Some y in \<open>auto simp: get_node_def\<close>)
  qed
qed simp

text \<open>The invariant of the search, and its measure.\<close>

definition search_inv :: "store \<Rightarrow> nat \<Rightarrow> store \<Rightarrow> nat list \<Rightarrow> nat list \<Rightarrow> bool" where
  "search_inv s start t passed queue \<longleftrightarrow>
     distinct passed \<and> distinct queue \<and> set queue \<subseteq> set passed \<and> start \<in> set passed \<and>
     set passed \<subseteq> Collect (reset_reach s start) \<inter> dom s \<and>
     (\<forall>n m. n \<in> set passed - set queue \<longrightarrow> passes s n m \<longrightarrow> m \<in> set passed) \<and>
     t = clear_nodes s (set passed - set queue - {start})"

lemma search_inv_step:
  assumes ok: "graph_ok s" and inv: "search_inv s start t passed (n # rest)"
  shows "\<exists>t1 x new. (if n \<noteq> start then reset_visited t n else Inr t) = Inr t1 \<and> t1 n = Some x \<and>
    search_connections t1 (all_connections x) passed rest = Inr (passed @ new, rest @ new) \<and>
    search_inv s start t1 (passed @ new) (rest @ new)"
proof -
  have n: "n \<in> set passed" "n \<notin> set rest" "s n \<noteq> None" "reset_reach s start n"
    using inv by (auto simp: search_inv_def)
  let ?A = "set passed - set rest - {start}"
  have A: "?A = (if n = start then set passed - set (n # rest) - {start} else insert n (set passed - set (n # rest) - {start}))"
    using n by auto
  let ?t1 = "clear_nodes s ?A"
  have t1: "(if n \<noteq> start then reset_visited t n else Inr t) = Inr ?t1"
  proof (cases "n = start")
    case False
    then show ?thesis unfolding A
      using reset_visited_clear [OF ok n(3), of "set passed - set (n # rest) - {start}"] inv
      by (simp add: search_inv_def)
  qed (use A inv in \<open>simp add: search_inv_def\<close>)
  obtain y where y: "s n = Some y" using n by auto
  obtain x where x: "?t1 n = Some x" "all_connections x = all_connections y"
    using y by (cases "n \<in> ?A") (auto simp: clear_nodes_def)
  have ex: "t1 m \<noteq> None \<longleftrightarrow> s m \<noteq> None" if "t1 = ?t1" for t1 m using that by (simp add: clear_nodes_def)
  have et: "(\<exists>z. ?t1 m = Some z \<and> GetType z \<noteq> EndReset) \<longleftrightarrow> (\<exists>z. s m = Some z \<and> GetType z \<noteq> EndReset)" for m
    by (auto simp: clear_nodes_def)
  obtain new where new: "search_connections ?t1 (all_connections x) passed rest = Inr (passed @ new, rest @ new)"
      "distinct (passed @ new)"
      "set new = {m. Some m \<in> fst ` set (all_connections y) \<and> m \<notin> set passed \<and> (\<exists>z. s m = Some z \<and> GetType z \<noteq> EndReset)}"
    using search_connections_new [of "all_connections x" ?t1 passed rest] ok y inv x(2) ex et
    by (auto simp: graph_ok_def search_inv_def)
  have pass: "passes s n m \<longleftrightarrow> Some m \<in> fst ` set (all_connections y) \<and> (\<exists>z. s m = Some z \<and> GetType z \<noteq> EndReset)" for m
    using y by (auto simp: passes_def)
  have "search_inv s start ?t1 (passed @ new) (rest @ new)"
    unfolding search_inv_def
  proof (intro conjI)
    show "distinct (rest @ new)" using inv new by (auto simp: search_inv_def)
    show "set (rest @ new) \<subseteq> set (passed @ new)" using inv by (auto simp: search_inv_def)
    show "set (passed @ new) \<subseteq> Collect (reset_reach s start) \<inter> dom s"
      using inv new(3) n(4) pass by (auto simp: search_inv_def intro: reach_step)
    show "\<forall>k m. k \<in> set (passed @ new) - set (rest @ new) \<longrightarrow> passes s k m \<longrightarrow> m \<in> set (passed @ new)"
    proof (intro allI impI)
      fix k m assume k: "k \<in> set (passed @ new) - set (rest @ new)" and p: "passes s k m"
      show "m \<in> set (passed @ new)"
      proof (cases "k = n")
        case True
        then show ?thesis using p pass new(3) by auto
      next
        case False
        then have "k \<in> set passed - set (n # rest)" using k by auto
        then show ?thesis using p inv by (auto simp: search_inv_def)
      qed
    qed
    have "set new \<inter> set passed = {}" using new(3) by auto
    then have "set (passed @ new) - set (rest @ new) - {start} = ?A"
      using inv by (auto simp: search_inv_def)
    then show "?t1 = clear_nodes s (set (passed @ new) - set (rest @ new) - {start})" by simp
  qed (use inv new in \<open>auto simp: search_inv_def\<close>)
  then show ?thesis using t1 x(1) new(1) by blast
qed

lemma search_loop_done:
  assumes "graph_ok s" and "finite (dom s)" and "search_inv s start t passed queue"
    and "card (dom s) - length passed + length queue \<le> fuel"
  shows "search_loop fuel start t passed queue = Inr (clear_nodes s (Collect (reset_reach s start) - {start}))"
  using assms(3,4)
proof (induction fuel arbitrary: t passed queue)
  have done_case: "t = clear_nodes s (Collect (reset_reach s start) - {start})" if "search_inv s start t passed []" for t passed
  proof -
    have "reset_reach s start m \<Longrightarrow> m \<in> set passed" for m
      by (induction rule: reset_reach.induct) (use that in \<open>auto simp: search_inv_def\<close>)
    then have "set passed = Collect (reset_reach s start)" using that by (auto simp: search_inv_def)
    then show ?thesis using that by (simp add: search_inv_def)
  qed
  {
    case 0
    then have "queue = []" by simp
    then show ?case using 0 done_case by auto
  next
    case (Suc fuel)
    show ?case
    proof (cases queue)
      case Nil
      then show ?thesis using Suc done_case by auto
    next
      case (Cons n rest)
      then obtain t1 x new where st: "(if n \<noteq> start then reset_visited t n else Inr t) = Inr t1" "t1 n = Some x"
          "search_connections t1 (all_connections x) passed rest = Inr (passed @ new, rest @ new)"
          "search_inv s start t1 (passed @ new) (rest @ new)"
        using search_inv_step [OF assms(1), of start t passed n rest] Suc.prems by blast
      have "set (passed @ new) \<subseteq> dom s" "distinct (passed @ new)" using st(4) by (auto simp: search_inv_def)
      then have "length (passed @ new) \<le> card (dom s)"
        using assms(2) by (metis card_mono distinct_card)
      then have "card (dom s) - length (passed @ new) + length (rest @ new) \<le> fuel"
        using Suc.prems Cons by simp
      from Suc.IH [OF st(4) this] show ?thesis using st(1-3) Cons by (simp add: get_node_def)
    qed
  }
qed

text \<open>C6: The breadth-first search of a reset ends, after at most one round per node of the graph, and
  has then cleared the output flows and the status of exactly the nodes that can be reached from the
  start without passing a node that ends resets, except for the start itself.\<close>

theorem reset_clears_reachable:
  assumes "graph_ok s" and "finite (dom s)" and "s start = Some x" and "card (dom s) \<le> fuel"
  shows "search_loop fuel start s [start] [start] =
    Inr (\<lambda>n. if reset_reach s start n \<and> n \<noteq> start then map_option cleared (s n) else s n)"
proof -
  have "search_inv s start s [start] [start]"
    using assms(3) by (auto simp: search_inv_def clear_nodes_def intro: reach_start)
  moreover have "0 < card (dom s)" using assms(2,3) by (auto simp: card_gt_0_iff)
  ultimately have "search_loop fuel start s [start] [start] = Inr (clear_nodes s (Collect (reset_reach s start) - {start}))"
    using search_loop_done [OF assms(1,2)] assms(4) by simp
  then show ?thesis by (simp add: clear_nodes_def)
qed

definition example_reset_store :: store where
  "example_reset_store = [0 \<mapsto> (node_new KStartReset 0)\<lparr>m_outputs := [linked 1 0 (DTFlow None Available)]\<rparr>,
     1 \<mapsto> (node_new KSequence 0)\<lparr>m_outputs := [linked 0 0 (DTFlow None Executed), linked 2 0 (DTFlow None Executed)]\<rparr>,
     2 \<mapsto> (node_new KEndReset 0)\<lparr>m_outputs := [linked 3 0 (DTFlow None Executed)]\<rparr>,
     3 \<mapsto> (node_new KBranch 0)\<lparr>m_outputs := []\<rparr>]"

lemma reset_clears_reachable_witness:
  "\<exists>t. search_loop 4 0 example_reset_store [0] [0] = Inr t \<and> t 0 = example_reset_store 0"
proof -
  have "dom example_reset_store = {0, 1, 2, 3}" by (auto simp: example_reset_store_def)
  moreover have "graph_ok example_reset_store"
    by (auto simp: graph_ok_def example_reset_store_def all_connections_def node_new_def linked_def split: if_splits)
  ultimately have "search_loop 4 0 example_reset_store [0] [0] =
      Inr (\<lambda>n. if reset_reach example_reset_store 0 n \<and> n \<noteq> 0 then map_option cleared (example_reset_store n) else example_reset_store n)"
    by (intro reset_clears_reachable) (auto simp: example_reset_store_def)
  then show ?thesis by simp
qed

section \<open>Links\<close>

text \<open>One link of the file: both ends get a connection; a link to an unknown node is skipped.\<close>

record link =
  l_startNode :: u64
  l_endNode :: u64
  l_startPin :: u32
  l_endPin :: u32

definition load_link :: "(u64 \<rightharpoonup> nat) \<Rightarrow> store \<Rightarrow> link \<Rightarrow> store result" where
  "load_link nodes s l =
     (case (nodes (l_startNode l), nodes (l_endNode l)) of
        (Some a, Some b) \<Rightarrow>
          bind_res (upd_node s a (AddOutputConnection (Some b) (l_endPin l) (l_startPin l))) (\<lambda>s1.
          upd_node s1 b (AddInputConnection (Some a) (l_startPin l) (l_endPin l)))
      | _ \<Rightarrow> Inr s)"

fun load_links :: "(u64 \<rightharpoonup> nat) \<Rightarrow> store \<Rightarrow> link list \<Rightarrow> store result" where
  "load_links nodes s [] = Inr s"
| "load_links nodes s (l # ls) = bind_res (load_link nodes s l) (\<lambda>s1. load_links nodes s1 ls)"

text \<open>How often output \<open>i\<close> of \<open>a\<close> is connected to input \<open>j\<close> of \<open>b\<close>, read at either end.\<close>

definition out_links :: "store \<Rightarrow> nat \<Rightarrow> nat \<Rightarrow> nat \<Rightarrow> nat \<Rightarrow> nat" where
  "out_links s a i b j = (case s a of None \<Rightarrow> 0 | Some x \<Rightarrow>
     if i < length (m_outputs x) then count_list (connections (m_outputs x ! i)) (Some b, word_of_nat j) else 0)"

definition in_links :: "store \<Rightarrow> nat \<Rightarrow> nat \<Rightarrow> nat \<Rightarrow> nat \<Rightarrow> nat" where
  "in_links s a i b j = (case s b of None \<Rightarrow> 0 | Some y \<Rightarrow>
     if j < length (m_inputs y) then count_list (connections (m_inputs y ! j)) (Some a, word_of_nat i) else 0)"

text \<open>Both ends of every link agree; \<open>i\<close> and \<open>j\<close> range over the pin numbers of 32 bits.\<close>

definition links_agree :: "store \<Rightarrow> bool" where
  "links_agree s \<longleftrightarrow> (\<forall>a i b j. i < 2 ^ 32 \<longrightarrow> j < 2 ^ 32 \<longrightarrow> out_links s a i b j = in_links s a i b j)"

text \<open>Both pins of the link exist.\<close>

definition link_ok :: "(u64 \<rightharpoonup> nat) \<Rightarrow> store \<Rightarrow> link \<Rightarrow> bool" where
  "link_ok nodes s l \<longleftrightarrow> (\<forall>a b. nodes (l_startNode l) = Some a \<longrightarrow> nodes (l_endNode l) = Some b \<longrightarrow>
     (\<exists>x y. s a = Some x \<and> s b = Some y \<and> unat (l_startPin l) < length (m_outputs x) \<and> unat (l_endPin l) < length (m_inputs y)))"

lemma out_links_after:
  assumes "s a = Some x" and "unat p < length (m_outputs x)" and "i < 2 ^ 32" and "j < 2 ^ 32"
  shows "out_links (s(a \<mapsto> AddOutputConnection (Some b) q p x)) a' i b' j =
    out_links s a' i b' j + (if a' = a \<and> i = unat p \<and> b' = b \<and> j = unat q then 1 else 0)"
proof -
  have "word_of_nat j = q \<longleftrightarrow> j = unat q" using assms(4) by (auto simp: unat_of_nat_small)
  then show ?thesis using assms
    by (auto simp: out_links_def AddOutputConnection_def add_connection_def nth_list_update)
qed

lemma in_links_other: "in_links (s(a \<mapsto> AddOutputConnection c q p x)) a' i b' j = in_links (s(a \<mapsto> x)) a' i b' j"
  by (auto simp: in_links_def AddOutputConnection_def)

lemma in_links_after:
  assumes "s b = Some y" and "unat q < length (m_inputs y)" and "i < 2 ^ 32" and "j < 2 ^ 32"
  shows "in_links (s(b \<mapsto> AddInputConnection (Some a) p q y)) a' i b' j =
    in_links s a' i b' j + (if b' = b \<and> j = unat q \<and> a' = a \<and> i = unat p then 1 else 0)"
proof -
  have "word_of_nat i = p \<longleftrightarrow> i = unat p" using assms(3) by (auto simp: unat_of_nat_small)
  then show ?thesis using assms
    by (auto simp: in_links_def AddInputConnection_def add_connection_def nth_list_update)
qed

lemma out_links_other: "out_links (s(b \<mapsto> AddInputConnection c p q y)) a' i b' j = out_links (s(b \<mapsto> y)) a' i b' j"
  by (auto simp: out_links_def AddInputConnection_def)

text \<open>How many pins each node has: all that \<open>link_ok\<close> reads.\<close>

definition pins :: "store \<Rightarrow> nat \<rightharpoonup> nat \<times> nat" where
  "pins s = (\<lambda>n. map_option (\<lambda>x. (length (m_outputs x), length (m_inputs x))) (s n))"

lemma pins_upd:
  "s n = Some x \<Longrightarrow> length (m_outputs y) = length (m_outputs x) \<Longrightarrow> length (m_inputs y) = length (m_inputs x) \<Longrightarrow>
    pins (s(n \<mapsto> y)) = pins s"
  by (auto simp: pins_def)

lemma pins_connection [simp]:
  "length (m_outputs (AddOutputConnection c i j x)) = length (m_outputs x)" "length (m_inputs (AddOutputConnection c i j x)) = length (m_inputs x)"
  "length (m_outputs (AddInputConnection c i j x)) = length (m_outputs x)" "length (m_inputs (AddInputConnection c i j x)) = length (m_inputs x)"
  by (simp_all add: AddOutputConnection_def AddInputConnection_def)

lemma link_ok_pins:
  "link_ok nodes s l \<longleftrightarrow> (\<forall>a b. nodes (l_startNode l) = Some a \<longrightarrow> nodes (l_endNode l) = Some b \<longrightarrow>
     (\<exists>p q. pins s a = Some p \<and> pins s b = Some q \<and> unat (l_startPin l) < fst p \<and> unat (l_endPin l) < snd q))"
  unfolding link_ok_def pins_def by fastforce

lemma load_link_agrees:
  assumes "links_agree s" and "link_ok nodes s l"
  shows "\<exists>t. load_link nodes s l = Inr t \<and> links_agree t \<and> (\<forall>l'. link_ok nodes t l' \<longleftrightarrow> link_ok nodes s l')"
proof (cases "nodes (l_startNode l)")
  case (Some a)
  note a = this
  show ?thesis
  proof (cases "nodes (l_endNode l)")
    case (Some b)
    obtain x y where x: "s a = Some x" "unat (l_startPin l) < length (m_outputs x)"
      and y: "s b = Some y" "unat (l_endPin l) < length (m_inputs y)"
      using assms(2) a Some by (auto simp: link_ok_def)
    let ?x = "AddOutputConnection (Some b) (l_endPin l) (l_startPin l) x"
    let ?s1 = "s(a \<mapsto> ?x)"
    obtain y1 where y1: "?s1 b = Some y1" "unat (l_endPin l) < length (m_inputs y1)"
      using y x by (cases "a = b") (auto simp: AddOutputConnection_def)
    let ?t = "?s1(b \<mapsto> AddInputConnection (Some a) (l_startPin l) (l_endPin l) y1)"
    have "out_links ?t a' i b' j = in_links ?t a' i b' j" if ij: "i < 2 ^ 32" "j < 2 ^ 32" for a' i b' j
    proof -
      let ?d = "if a' = a \<and> i = unat (l_startPin l) \<and> b' = b \<and> j = unat (l_endPin l) then 1 else 0 :: nat"
      have "out_links ?t a' i b' j = out_links ?s1 a' i b' j"
        unfolding out_links_other upd_triv [of ?s1 b y1, OF y1(1)] ..
      also have "\<dots> = out_links s a' i b' j + ?d" by (rule out_links_after [of s a x, OF x ij])
      also have "out_links s a' i b' j = in_links s a' i b' j"
        using assms(1) ij unfolding links_agree_def by blast
      also have "\<dots> = in_links ?s1 a' i b' j"
        unfolding in_links_other upd_triv [of s a x, OF x(1)] ..
      also have "\<dots> + ?d = in_links ?t a' i b' j"
        unfolding in_links_after [of ?s1 b y1, OF y1 ij] by auto
      finally show ?thesis .
    qed
    then have "links_agree ?t" by (simp add: links_agree_def)
    moreover have "load_link nodes s l = Inr ?t"
      using a Some x y1 by (simp add: load_link_def upd_node_def get_node_def)
    moreover have "pins ?t = pins ?s1" by (rule pins_upd [of ?s1 b y1, OF y1(1)]) simp_all
    moreover have "pins ?s1 = pins s" by (rule pins_upd [of s a x, OF x(1)]) simp_all
    ultimately have "load_link nodes s l = Inr ?t" "links_agree ?t" "\<forall>l'. link_ok nodes ?t l' = link_ok nodes s l'"
      by (simp_all only: link_ok_pins simp_thms)
    then show ?thesis by blast
  qed (use assms a in \<open>auto simp: load_link_def\<close>)
qed (use assms in \<open>auto simp: load_link_def\<close>)



section \<open>Removing the connectors\<close>

text \<open>For one connection of an input of connector \<open>c\<close> and one of an output: join the two
  neighbours. A connector connected to itself would change the vectors the code iterates over.\<close>

definition join_pair :: "nat \<Rightarrow> nat option \<times> u32 \<Rightarrow> store \<Rightarrow> nat option \<times> u32 \<Rightarrow> store result" where
  "join_pair c inc s out =
     bind_res (non_null (fst out)) (\<lambda>o_node. bind_res (non_null (fst inc)) (\<lambda>i_node.
     if o_node = c \<or> i_node = c then Inl UndefinedOp
     else
       bind_res (get_node s o_node) (\<lambda>x. bind_res (RemoveInputConnection (Some c) (snd out) x) (\<lambda>x1.
       let s1 = s(o_node \<mapsto> AddInputConnection (fst inc) (snd inc) (snd out) x1) in
       upd_node s1 i_node (AddOutputConnection (fst out) (snd out) (snd inc))))))"

fun join_outputs :: "nat \<Rightarrow> nat option \<times> u32 \<Rightarrow> store \<Rightarrow> (nat option \<times> u32) list \<Rightarrow> store result" where
  "join_outputs c inc s [] = Inr s"
| "join_outputs c inc s (out # outs) = bind_res (join_pair c inc s out) (\<lambda>s1. join_outputs c inc s1 outs)"

fun join_inputs :: "nat \<Rightarrow> store \<Rightarrow> (nat option \<times> u32) list \<Rightarrow> store result" where
  "join_inputs c s [] = Inr s"
| "join_inputs c s (inc # incs) =
     bind_res (non_null (fst inc)) (\<lambda>i_node. bind_res (get_node s i_node) (\<lambda>x.
     bind_res (RemoveOutputConnection (Some c) (snd inc) x) (\<lambda>x1.
     let s1 = s(i_node \<mapsto> x1) in
     bind_res (get_node s1 c) (\<lambda>pNode.
     bind_res (join_outputs c inc s1 (all_connections pNode)) (\<lambda>s2. join_inputs c s2 incs)))))"

fun optimize_loop :: "store \<Rightarrow> nat list \<Rightarrow> (store \<times> nat list) result" where
  "optimize_loop s [] = Inr (s, [])"
| "optimize_loop s (n # ns) =
     bind_res (get_node s n) (\<lambda>x.
     if GetType x \<noteq> Connector then bind_res (optimize_loop s ns) (\<lambda>(s1, ns1). Inr (s1, n # ns1))
     else bind_res (join_inputs n s (concat (map connections (m_inputs x)))) (\<lambda>s1. optimize_loop (s1(n := None)) ns))"

definition Optimize :: "machine \<Rightarrow> machine result" where
  "Optimize m = bind_res (optimize_loop (lm_store m) (lm_nodes m)) (\<lambda>(s, ns). Inr (m\<lparr>lm_store := s, lm_nodes := ns\<rparr>))"

text \<open>The kinds of all nodes.\<close>

definition kinds :: "store \<Rightarrow> nat \<rightharpoonup> node_kind" where
  "kinds s = (\<lambda>n. map_option kind (s n))"

lemma kinds_upd: "s n = Some x \<Longrightarrow> kind y = kind x \<Longrightarrow> kinds (s(n \<mapsto> y)) = kinds s"
  by (auto simp: kinds_def)

lemma kind_connection [simp]:
  "kind (AddInputConnection c i j x) = kind x" "kind (AddOutputConnection c i j x) = kind x"
  by (simp_all add: AddInputConnection_def AddOutputConnection_def)

lemma kind_remove:
  "RemoveInputConnection c i x = Inr y \<Longrightarrow> kind y = kind x" "RemoveOutputConnection c i x = Inr y \<Longrightarrow> kind y = kind x"
  by (auto simp: RemoveInputConnection_def RemoveOutputConnection_def bind_res_eq_Inr)

lemma get_node_Inr: "get_node s n = Inr x \<longleftrightarrow> s n = Some x"
  by (simp add: get_node_def split: option.splits)

lemma join_pair_kinds:
  assumes "join_pair c inc s out = Inr t"
  shows "kinds t = kinds s"
proof -
  from assms obtain o_node i_node x x1 where x: "s o_node = Some x" "RemoveInputConnection (Some c) (snd out) x = Inr x1"
    and t: "upd_node (s(o_node \<mapsto> AddInputConnection (fst inc) (snd inc) (snd out) x1)) i_node
      (AddOutputConnection (fst out) (snd out) (snd inc)) = Inr t"
    unfolding join_pair_def bind_res_eq_Inr Let_def get_node_Inr by (auto split: if_splits simp: bind_res_eq_Inr get_node_Inr)
  have "kinds t = kinds (s(o_node \<mapsto> AddInputConnection (fst inc) (snd inc) (snd out) x1))"
    using t unfolding upd_node_def bind_res_eq_Inr get_node_Inr by (metis kind_connection(2) kinds_upd sum.inject(2))
  also have "\<dots> = kinds s"
    by (rule kinds_upd [of s o_node x, OF x(1)]) (simp add: kind_remove(1) [OF x(2)])
  finally show ?thesis .
qed

lemma join_outputs_kinds: "join_outputs c inc s outs = Inr t \<Longrightarrow> kinds t = kinds s"
  by (induction outs arbitrary: s) (auto simp: bind_res_eq_Inr join_pair_kinds)

lemma join_inputs_kinds: "join_inputs c s incs = Inr t \<Longrightarrow> kinds t = kinds s"
proof (induction incs arbitrary: s)
  case (Cons inc incs)
  then obtain i_node x x1 pNode s2 where "s i_node = Some x" "RemoveOutputConnection (Some c) (snd inc) x = Inr x1"
      "join_outputs c inc (s(i_node \<mapsto> x1)) (all_connections pNode) = Inr s2" "join_inputs c s2 incs = Inr t"
    by (auto simp: bind_res_eq_Inr get_node_Inr Let_def)
  then show ?case using Cons.IH [of s2] join_outputs_kinds kind_remove(2) kinds_upd by metis
qed simp

lemma optimize_loop_kinds:
  assumes "optimize_loop s ns = Inr (t, ms)" and "distinct ns"
  shows "ms = filter (\<lambda>n. kinds s n \<noteq> Some KConnector) ns \<and>
    kinds t = (\<lambda>n. if n \<in> set ns \<and> kinds s n = Some KConnector then None else kinds s n)"
  using assms
proof (induction ns arbitrary: s t ms)
  case (Cons n ns)
  then obtain x where x: "s n = Some x" by (auto simp: bind_res_eq_Inr get_node_Inr)
  have conn: "GetType x = Connector \<longleftrightarrow> kind x = KConnector"
    by (cases "kind x") (simp_all add: GetType_def)
  show ?case
  proof (cases "kind x = KConnector")
    case False
    then obtain ms1 where "optimize_loop s ns = Inr (t, ms1)" "ms = n # ms1"
      using Cons.prems(1) x conn by (auto simp: get_node_def bind_res_eq_Inr)
    then show ?thesis using Cons.IH [of s t ms1] Cons.prems(2) x False
      by (auto simp: kinds_def fun_eq_iff)
  next
    case True
    then obtain s1 where s1: "join_inputs n s (concat (map connections (m_inputs x))) = Inr s1" "optimize_loop (s1(n := None)) ns = Inr (t, ms)"
      using Cons.prems(1) x conn by (auto simp: get_node_def bind_res_eq_Inr)
    have k: "kinds (s1(n := None)) = (kinds s)(n := None)"
      using join_inputs_kinds [OF s1(1)] by (auto simp: kinds_def fun_eq_iff)
    have n_ns: "n \<notin> set ns" "distinct ns" using Cons.prems(2) by simp_all
    have n: "kinds s n = Some KConnector" using x True by (simp add: kinds_def)
    have "ms = filter (\<lambda>m. ((kinds s)(n := None)) m \<noteq> Some KConnector) ns \<and>
        kinds t = (\<lambda>m. if m \<in> set ns \<and> ((kinds s)(n := None)) m = Some KConnector then None else ((kinds s)(n := None)) m)"
      using Cons.IH [OF s1(2) n_ns(2)] unfolding k .
    moreover have "filter (\<lambda>m. ((kinds s)(n := None)) m \<noteq> Some KConnector) ns = filter (\<lambda>m. kinds s m \<noteq> Some KConnector) ns"
      by (rule filter_cong) (use Cons.prems(2) in auto)
    ultimately show ?thesis using n Cons.prems(2) by (simp add: fun_eq_iff)
  qed
qed simp


definition connected :: "nat \<Rightarrow> pin" where
  "connected n = \<lparr>connections = [(Some n, 0)], pData = None, hashName = 0\<rparr>"

definition example_connector :: machine where
  "example_connector = (machine_new
     [0 \<mapsto> (node_new KStart 0)\<lparr>m_outputs := [connected 1]\<rparr>,
      1 \<mapsto> (node_new KConnector 0)\<lparr>m_inputs := [connected 0], m_outputs := [connected 2]\<rparr>,
      2 \<mapsto> (node_new KSequence 0)\<lparr>m_inputs := [connected 1]\<rparr>])\<lparr>lm_nodes := [0, 1, 2]\<rparr>"


end
