(* ===== verification/SR_Strings.thy ===== *)
theory SR_Strings
  imports SR_Hash_Manager
begin

text \<open>
  \<open>StringUtils\<close> (Common/StringUtils.h, .cpp): searching, splitting, replacing and cutting strings,
  file names in paths, Base64, and the fields of a text of numbers.

  A string is the list of its bytes, a position a natural number; \<open>npos\<close> is the largest 64-bit
  number, and sums and differences of sizes that may leave the 64 bits are taken modulo \<open>2 ^ 64\<close>.
  Positions that the code keeps in 32 bits are modelled for strings of less than \<open>2 ^ 31\<close> bytes, where
  they are the same numbers. A search for an empty string succeeds at once, so some loops
  never end: these loops carry a bound, and \<open>OutOfFuel\<close> is the result when it is used up. Exceptions
  of the library (\<open>substr\<close> past the end) are \<open>Exception\<close>.
\<close>

section \<open>The string operations of the standard library\<close>

definition npos :: nat where
  "npos = 2 ^ 64 - 1"

definition add64 :: "nat \<Rightarrow> nat \<Rightarrow> nat" where
  "add64 a b = (a + b) mod 2 ^ 64"

definition sub64 :: "nat \<Rightarrow> nat \<Rightarrow> nat" where
  "sub64 a b = nat ((int a - int b) mod 2 ^ 64)"

definition starts_with :: "bytes \<Rightarrow> bytes \<Rightarrow> bool" where
  "starts_with d s \<longleftrightarrow> take (length d) s = d"

text \<open>\<open>s.find(d)\<close>, and \<open>s.find(d, pos)\<close>: the first occurrence, \<open>None\<close> for \<open>npos\<close>.\<close>

fun find_str :: "bytes \<Rightarrow> bytes \<Rightarrow> nat option" where
  "find_str [] d = (if d = [] then Some 0 else None)"
| "find_str (c # cs) d = (if starts_with d (c # cs) then Some 0 else map_option Suc (find_str cs d))"

definition find_from :: "bytes \<Rightarrow> bytes \<Rightarrow> nat \<Rightarrow> nat option" where
  "find_from s d pos = (if pos \<le> length s then map_option ((+) pos) (find_str (drop pos s) d) else None)"

definition pos_of :: "nat option \<Rightarrow> nat" where
  "pos_of p = (case p of None \<Rightarrow> npos | Some i \<Rightarrow> i)"

definition substr :: "bytes \<Rightarrow> nat \<Rightarrow> nat \<Rightarrow> bytes result" where
  "substr s pos count = (if pos \<le> length s then Inr (take count (drop pos s)) else Inl Exception)"

definition erase_front :: "bytes \<Rightarrow> nat \<Rightarrow> bytes" where
  "erase_front s count = drop count s"

definition resize :: "bytes \<Rightarrow> nat \<Rightarrow> bytes" where
  "resize s n = take n s @ replicate (n - length s) 0"

abbreviation "chr_slash \<equiv> 47 :: u8"
abbreviation "chr_backslash \<equiv> 92 :: u8"
abbreviation "chr_dot \<equiv> 46 :: u8"
abbreviation "chr_tab \<equiv> 9 :: u8"
abbreviation "chr_newline \<equiv> 10 :: u8"
abbreviation "chr_equals \<equiv> 61 :: u8"

section \<open>Splitting and replacing\<close>

fun split_loop :: "nat \<Rightarrow> bytes \<Rightarrow> bytes \<Rightarrow> bytes list \<Rightarrow> bytes list result" where
  "split_loop 0 source delimiter tokens = Inl OutOfFuel"
| "split_loop (Suc n) source delimiter tokens =
     (case find_str source delimiter of
        Some pos \<Rightarrow>
          let token = take pos source in
          split_loop n (erase_front source (pos + length delimiter)) delimiter
            (if token \<noteq> [] then tokens @ [token] else tokens)
      | None \<Rightarrow> Inr (if source \<noteq> [] then tokens @ [source] else tokens))"

definition Split :: "bytes \<Rightarrow> bytes \<Rightarrow> bytes list result" where
  "Split source delimiter = split_loop (Suc (length source)) source delimiter []"

text \<open>The same on a view: the source is the bytes of the view, and its front is dropped.\<close>

fun split_view_loop :: "nat \<Rightarrow> bytes \<Rightarrow> bytes \<Rightarrow> bytes list \<Rightarrow> bytes list result" where
  "split_view_loop 0 source delimiter tokens = Inl OutOfFuel"
| "split_view_loop (Suc n) source delimiter tokens =
     (case find_str source delimiter of
        Some pos \<Rightarrow>
          bind_res (substr source 0 pos) (\<lambda>token.
          split_view_loop n (drop (pos + length delimiter) source) delimiter
            (if token \<noteq> [] then tokens @ [token] else tokens))
      | None \<Rightarrow> Inr (if source \<noteq> [] then tokens @ [source] else tokens))"

definition SplitView :: "string_view \<Rightarrow> string_view \<Rightarrow> bytes list result" where
  "SplitView source delimiter =
     split_view_loop (Suc (length (sv_text source))) (sv_text source) (sv_text delimiter) []"

text \<open>\<open>std::search\<close> between \<open>current\<close> and \<open>end\<close>; the rest of the string is the argument.\<close>

fun replace_loop :: "nat \<Rightarrow> bytes \<Rightarrow> bytes \<Rightarrow> bytes \<Rightarrow> bytes \<Rightarrow> bytes result" where
  "replace_loop 0 current src to results = Inl OutOfFuel"
| "replace_loop (Suc n) current src to results =
     (case find_str current src of
        Some pos \<Rightarrow>
          if pos = length current then Inr (results @ current)
          else replace_loop n (drop (pos + length src) current) src to (results @ take pos current @ to)
      | None \<Rightarrow> Inr (results @ current))"

definition ReplaceAll :: "bytes \<Rightarrow> bytes \<Rightarrow> bytes \<Rightarrow> bytes result" where
  "ReplaceAll original src to = replace_loop (Suc (length original)) original src to []"

text \<open>One round of the labelled loop: the first entry of the list that occurs is replaced once.\<close>

fun replace_first :: "bytes \<Rightarrow> bytes list \<Rightarrow> bytes \<Rightarrow> bytes option" where
  "replace_first s [] to = None"
| "replace_first s (src # fromList) to =
     (case find_str s src of
        Some pos \<Rightarrow> Some (take pos s @ to @ drop (pos + length src) s)
      | None \<Rightarrow> replace_first s fromList to)"

fun replace_recursive :: "nat \<Rightarrow> bytes \<Rightarrow> bytes list \<Rightarrow> bytes \<Rightarrow> bytes result" where
  "replace_recursive 0 s fromList to = Inl OutOfFuel"
| "replace_recursive (Suc n) s fromList to =
     (case replace_first s fromList to of None \<Rightarrow> Inr s | Some s1 \<Rightarrow> replace_recursive n s1 fromList to)"

definition ReplaceAllRecursive :: "bytes \<Rightarrow> bytes list \<Rightarrow> bytes \<Rightarrow> bytes result" where
  "ReplaceAllRecursive original fromList to = replace_recursive (Suc (length original)) original fromList to"

definition SplitTwo :: "bytes \<Rightarrow> bytes \<Rightarrow> bytes \<times> bytes" where
  "SplitTwo source delimiter =
     (let pos = pos_of (find_str source delimiter) in
      (take pos source, erase_front source (add64 pos (length delimiter))))"

definition Contains :: "bytes \<Rightarrow> bytes \<Rightarrow> bool" where
  "Contains s word \<longleftrightarrow> find_str s word \<noteq> None"

text \<open>\<open>tolower\<close> of the C locale; a negative \<open>char\<close> is outside its domain.\<close>

definition lower :: "u8 \<Rightarrow> u8" where
  "lower c = (if 65 \<le> c \<and> c \<le> 90 then c + 32 else c)"

fun ToLower :: "bytes \<Rightarrow> bytes result" where
  "ToLower [] = Inr []"
| "ToLower (c # cs) = (if 128 \<le> c then Inl UndefinedOp else bind_res (ToLower cs) (\<lambda>r. Inr (lower c # r)))"

definition MakePath :: "bytes \<Rightarrow> bool \<Rightarrow> bytes result" where
  "MakePath s toLower = bind_res (ReplaceAll s [chr_backslash] [chr_slash])
     (\<lambda>replaced. if toLower then ToLower replaced else Inr replaced)"

fun RemoveCharsFromString :: "bytes \<Rightarrow> bytes \<Rightarrow> bytes" where
  "RemoveCharsFromString source [] = source"
| "RemoveCharsFromString source (c # cs) = RemoveCharsFromString (removeAll c source) cs"

section \<open>What a delimiter cuts a string into\<close>

text \<open>The pieces between the occurrences found from left to right.\<close>

function segments :: "bytes \<Rightarrow> bytes \<Rightarrow> bytes list" where
  "segments d s = (case find_str s d of
      None \<Rightarrow> [s]
    | Some pos \<Rightarrow> if d = [] \<or> s = [] then [s] else take pos s # segments d (drop (pos + length d) s))"
  by pat_completeness auto
termination
  by (relation "measure (\<lambda>(d, s). length s)") auto

declare segments.simps [simp del]

fun join :: "bytes \<Rightarrow> bytes list \<Rightarrow> bytes" where
  "join d [] = []"
| "join d [x] = x"
| "join d (x # y # r) = x @ d @ join d (y # r)"

lemma join_Cons: "r \<noteq> [] \<Longrightarrow> join d (x # r) = x @ d @ join d r"
  by (cases r) simp_all

lemma find_str_Some:
  "find_str s d = Some pos \<Longrightarrow> take pos s @ d @ drop (pos + length d) s = s \<and> pos + length d \<le> length s"
proof (induction s arbitrary: pos)
  case (Cons c cs)
  show ?case
  proof (cases "starts_with d (c # cs)")
    case True
    then have d: "take (length d) (c # cs) = d" by (simp add: starts_with_def)
    then have "length d \<le> length (c # cs)" by (metis length_take min.cobounded1)
    then show ?thesis using Cons.prems True d by (metis add_0 append_Nil append_take_drop_id find_str.simps(2) option.inject take0)
  qed (use Cons in auto)
qed (simp split: if_splits)

lemma find_str_None: "find_str s d = None \<longleftrightarrow> (\<nexists>u v. s = u @ d @ v)"
proof (induction s)
  case (Cons c cs)
  have "starts_with d (c # cs) \<longleftrightarrow> (\<exists>v. c # cs = d @ v)"
    unfolding starts_with_def by (metis append_eq_conv_conj append_take_drop_id)
  then show ?case using Cons by (auto simp: Cons_eq_append_conv)
qed simp

lemma find_str_least: "find_str s d = Some pos \<Longrightarrow> take (length d) (drop i s) = d \<Longrightarrow> i + length d \<le> length s \<Longrightarrow> pos \<le> i"
proof (induction s arbitrary: pos i)
  case (Cons c cs)
  show ?case
  proof (cases i)
    case 0
    then show ?thesis using Cons.prems by (auto simp: starts_with_def)
  next
    case (Suc j)
    then show ?thesis using Cons by (auto split: if_splits)
  qed
qed (simp split: if_splits)

lemma find_str_take: "find_str s d = Some pos \<Longrightarrow> d \<noteq> [] \<Longrightarrow> find_str (take pos s) d = None"
proof (rule ccontr)
  assume a: "find_str s d = Some pos" "d \<noteq> []" "find_str (take pos s) d \<noteq> None"
  then obtain u v where uv: "take pos s = u @ d @ v" using find_str_None [of "take pos s" d] by auto
  have "take pos s @ drop pos s = (u @ d @ v) @ drop pos s" by (simp only: uv)
  then have s: "s = u @ d @ v @ drop pos s" by (simp only: append_take_drop_id append_assoc)
  have "length u + length d \<le> pos" using arg_cong [OF uv, of length] by simp
  moreover have "pos \<le> length u"
  proof (rule find_str_least [OF a(1)])
    show "take (length d) (drop (length u) s) = d" by (subst s) simp
    show "length u + length d \<le> length s" by (subst s) simp
  qed
  ultimately show False using a(2) by (cases d) simp_all
qed

lemma segments_join: "d \<noteq> [] \<Longrightarrow> join d (segments d s) = s"
proof (induction d s rule: segments.induct)
  case (1 d s)
  show ?case
  proof (cases "find_str s d")
    case (Some pos)
    then have "s \<noteq> []" using 1(2) by auto
    then have "join d (segments d s) = join d (take pos s # segments d (drop (pos + length d) s))"
      using Some 1(2) by (simp add: segments.simps [of d s])
    also have "\<dots> = take pos s @ d @ join d (segments d (drop (pos + length d) s))"
      by (rule join_Cons) (simp add: segments.simps [of d "drop (pos + length d) s"] split: option.split)
    finally show ?thesis using 1(1) [OF Some] 1(2) \<open>s \<noteq> []\<close> find_str_Some [OF Some] by simp
  qed (simp add: segments.simps [of d s])
qed

lemma segments_free: "d \<noteq> [] \<Longrightarrow> g \<in> set (segments d s) \<Longrightarrow> \<not> Contains g d"
proof (induction d s rule: segments.induct)
  case (1 d s)
  show ?case
  proof (cases "find_str s d")
    case None
    then show ?thesis using 1(3) by (simp add: segments.simps [of d s] Contains_def)
  next
    case (Some pos)
    then have "s \<noteq> []" using 1(2) by auto
    then show ?thesis using 1 Some find_str_take [OF Some] by (auto simp: segments.simps [of d s] Contains_def)
  qed
qed

lemma find_str_nonempty: "find_str s d = Some pos \<Longrightarrow> d \<noteq> [] \<Longrightarrow> s \<noteq> []"
  by auto

lemma split_loop_segments:
  "d \<noteq> [] \<Longrightarrow> length s < n \<Longrightarrow> split_loop n s d tokens = Inr (tokens @ filter (\<lambda>g. g \<noteq> []) (segments d s))"
proof (induction n s d tokens rule: split_loop.induct)
  case (2 n s d tokens)
  show ?case
  proof (cases "find_str s d")
    case (Some pos)
    have "length (drop (pos + length d) s) < n" using 2(2,3) find_str_Some [OF Some] by (cases d) auto
    then show ?thesis using 2(1) [OF Some refl] 2(2) Some find_str_nonempty [OF Some]
      by (simp add: segments.simps [of d s] erase_front_def)
  qed (simp add: segments.simps [of d s])
qed simp

lemma split_view_loop_eq: "split_view_loop n s d tokens = split_loop n s d tokens"
proof (induction n arbitrary: s tokens)
  case (Suc n)
  then show ?case by (cases "find_str s d") (simp_all add: erase_front_def substr_def)
qed simp

lemma replace_loop_segments:
  "d \<noteq> [] \<Longrightarrow> length s < n \<Longrightarrow> replace_loop n s d to results = Inr (results @ join to (segments d s))"
proof (induction n s d to results rule: replace_loop.induct)
  case (2 n s d to results)
  show ?case
  proof (cases "find_str s d")
    case (Some pos)
    have pos: "pos \<noteq> length s" using 2(2) find_str_Some [OF Some] by (cases d) auto
    have "length (drop (pos + length d) s) < n" using 2(2,3) find_str_Some [OF Some] by (cases d) auto
    moreover have "segments d (drop (pos + length d) s) \<noteq> []"
      by (simp add: segments.simps [of d "drop (pos + length d) s"] split: option.split)
    ultimately show ?thesis using 2(1) [OF Some pos] 2(2) Some pos find_str_nonempty [OF Some]
      by (simp add: segments.simps [of d s] join_Cons)
  qed (simp add: segments.simps [of d s])
qed simp

lemma Split_segments: "d \<noteq> [] \<Longrightarrow> Split s d = Inr (filter (\<lambda>g. g \<noteq> []) (segments d s))"
  unfolding Split_def by (subst split_loop_segments) simp_all

lemma ReplaceAll_segments: "d \<noteq> [] \<Longrightarrow> ReplaceAll s d to = Inr (join to (segments d s))"
  unfolding ReplaceAll_def by (subst replace_loop_segments) simp_all

text \<open>C26: Splitting cuts the string into pieces without the delimiter, which joined by it give the
  string back, and returns the nonempty ones in order; the loop ends within the bound, and with any
  larger one, and the version on views agrees.\<close>

theorem split_into_pieces:
  assumes "d \<noteq> []" and "length s < n"
  shows "join d (segments d s) = s \<and> (\<forall>g \<in> set (segments d s). \<not> Contains g d) \<and>
    Split s d = Inr (filter (\<lambda>g. g \<noteq> []) (segments d s)) \<and> split_loop n s d [] = Split s d \<and>
    SplitView \<lparr>sv_mem = s, sv_len = length s\<rparr> \<lparr>sv_mem = d, sv_len = length d\<rparr> = Split s d"
proof -
  have "SplitView \<lparr>sv_mem = s, sv_len = length s\<rparr> \<lparr>sv_mem = d, sv_len = length d\<rparr> = Split s d"
    unfolding SplitView_def Split_def split_view_loop_eq by (simp only: sv_text_def string_view.simps take_all order.refl)
  then show ?thesis using assms by (simp add: segments_join segments_free Split_segments split_loop_segments)
qed

lemma split_into_pieces_witness:
  "Split [97, 44, 44, 98] [44] = Inr (filter (\<lambda>g. g \<noteq> []) (segments [44] [97, 44, 44, 98]))"
  using split_into_pieces [of "[44]" "[97, 44, 44, 98]" 5] by simp

lemma segments_char: "c \<notin> set t \<Longrightarrow> segments [c] (t @ c # s) = t # segments [c] s" "c \<notin> set t \<Longrightarrow> segments [c] t = [t]"
proof -
  assume c: "c \<notin> set t"
  have "find_str (t @ c # s) [c] = Some (length t)" using c by (induction t) (auto simp: starts_with_def)
  then show "segments [c] (t @ c # s) = t # segments [c] s" by (simp add: segments.simps [of "[c]" "t @ c # s"])
  have "find_str t [c] = None" using c by (induction t) (auto simp: starts_with_def)
  then show "segments [c] t = [t]" by (simp add: segments.simps [of "[c]" t])
qed

lemma segments_join_char: "ts \<noteq> [] \<Longrightarrow> \<forall>t \<in> set ts. c \<notin> set t \<Longrightarrow> segments [c] (join [c] ts) = ts"
  by (induction "[c]" ts rule: join.induct) (simp_all add: segments_char)

text \<open>Splitting a list of nonempty words that was joined by a character none of them has gives the
  words back.\<close>

theorem split_join_roundtrip:
  assumes "\<forall>t \<in> set ts. t \<noteq> [] \<and> c \<notin> set t"
  shows "Split (join [c] ts) [c] = Inr ts"
proof (cases "ts = []")
  case True
  then show ?thesis by (simp add: Split_def)
next
  case False
  then have "segments [c] (join [c] ts) = ts" using assms by (simp add: segments_join_char)
  moreover have "filter (\<lambda>g. g \<noteq> []) ts = ts" using assms by (simp add: filter_id_conv)
  ultimately show ?thesis by (simp add: Split_segments)
qed

lemma split_join_roundtrip_witness: "Split (join [44] [[97, 98], [99]]) [44] = Inr [[97, 98], [99 :: u8]]"
  by (rule split_join_roundtrip) simp

text \<open>Replacing all occurrences puts the replacement between the same pieces that splitting finds.\<close>

theorem replace_all_pieces:
  assumes "d \<noteq> []"
  shows "ReplaceAll s d to = Inr (join to (segments d s)) \<and> ReplaceAll s d d = Inr s"
  using assms by (simp add: ReplaceAll_segments segments_join)

lemma replace_all_pieces_witness: "ReplaceAll [1, 2, 1] [1] [1] = Inr [1, 2, 1 :: u8]"
  using replace_all_pieces [of "[1]" "[1, 2, 1]" "[1]"] by blast

text \<open>An empty pattern: the loops never end.\<close>

lemma split_empty_delimiter: "split_loop n s [] tokens = Inl OutOfFuel"
proof -
  have "find_str s [] = Some 0" for s by (cases s) (simp_all add: starts_with_def)
  then show ?thesis by (induction n arbitrary: s tokens) (simp_all add: erase_front_def)
qed

lemma replace_empty_pattern: "s \<noteq> [] \<Longrightarrow> replace_loop n s [] to results = Inl OutOfFuel"
proof -
  have "find_str s [] = Some 0" for s by (cases s) (simp_all add: starts_with_def)
  then show "s \<noteq> [] \<Longrightarrow> replace_loop n s [] to results = Inl OutOfFuel"
    by (induction n arbitrary: results) simp_all
qed

lemma replace_char: "ReplaceAll s [c] [d] = Inr (map (\<lambda>x. if x = c then d else x) s)"
proof -
  have *: "join [d] (segments [c] s) = map (\<lambda>x. if x = c then d else x) s"
  proof (induction "length s" arbitrary: s rule: less_induct)
    case less
    show ?case
    proof (cases "c \<in> set s")
      case True
      then obtain t r where s: "s = t @ c # r" "c \<notin> set t" by (meson split_list_first)
      moreover have "segments [c] r \<noteq> []" by (simp add: segments.simps [of "[c]" r] split: option.split)
      moreover have "map (\<lambda>x. if x = c then d else x) t = t" by (rule map_idI) (use s in auto)
      ultimately show ?thesis using less [of r] by (auto simp: segments_char join_Cons)
    next
      case False
      then have "map (\<lambda>x. if x = c then d else x) s = s" by (intro map_idI) auto
      then show ?thesis using False by (simp add: segments_char)
    qed
  qed
  show ?thesis by (simp add: ReplaceAll_segments *)
qed

lemma ToLower_ascii: "\<forall>c \<in> set s. c < 128 \<Longrightarrow> ToLower s = Inr (map lower s)"
  by (induction s) (auto simp: not_le)

lemma replace_first_None: "replace_first s fromList to = None \<longleftrightarrow> (\<forall>d \<in> set fromList. \<not> Contains s d)"
  by (induction fromList) (auto simp: Contains_def split: option.split)

lemma replace_first_Some:
  "replace_first s fromList to = Some s1 \<Longrightarrow> \<forall>d \<in> set fromList. length to < length d \<Longrightarrow> length s1 < length s"
proof (induction fromList)
  case (Cons d fromList)
  then show ?case using find_str_Some [of s d] by (cases "find_str s d") fastforce+
qed simp

lemma replace_recursive_ends:
  "\<forall>d \<in> set fromList. length to < length d \<Longrightarrow> length s < n \<Longrightarrow>
    \<exists>r. replace_recursive n s fromList to = Inr r \<and> (\<forall>d \<in> set fromList. \<not> Contains r d)"
proof (induction n arbitrary: s)
  case (Suc n)
  show ?case
  proof (cases "replace_first s fromList to")
    case None
    then show ?thesis using replace_first_None [of s fromList to] by simp
  next
    case (Some s1)
    then show ?thesis using Suc.IH [of s1] Suc.prems replace_first_Some [OF Some] by simp
  qed
qed simp

lemma replace_recursive_diverges:
  "d \<noteq> [] \<Longrightarrow> Contains to d \<Longrightarrow> Contains s d \<Longrightarrow> replace_recursive n s [d] to = Inl OutOfFuel"
proof (induction n arbitrary: s)
  case (Suc n)
  then obtain pos where pos: "find_str s d = Some pos" by (auto simp: Contains_def)
  obtain u v where "to = u @ d @ v" using Suc.prems(2) find_str_None by (auto simp: Contains_def)
  then have "Contains (take pos s @ to @ drop (pos + length d) s) d"
    unfolding Contains_def using find_str_None by (metis append.assoc)
  then show ?case using Suc pos by simp
qed simp

text \<open>C29: Repeated replacement ends when the replacement is shorter than each of the patterns, and
  leaves none of them; it never ends when the pattern occurs in its own replacement.\<close>

theorem replace_recursive_contract:
  assumes "\<forall>d \<in> set fromList. length to < length d"
  shows "(\<exists>r. ReplaceAllRecursive s fromList to = Inr r \<and> (\<forall>d \<in> set fromList. \<not> Contains r d)) \<and>
    (\<forall>n d to' s'. d \<noteq> [] \<and> Contains to' d \<and> Contains s' d \<longrightarrow> replace_recursive n s' [d] to' = Inl OutOfFuel)"
  unfolding ReplaceAllRecursive_def using replace_recursive_ends [OF assms] replace_recursive_diverges by blast

lemma replace_recursive_contract_witness:
  "(\<exists>r. ReplaceAllRecursive [1, 2, 2, 3] [[2, 2]] [5] = Inr r) \<and> replace_recursive 9 [7] [[7]] [7, 7] = Inl OutOfFuel"
proof -
  have "\<forall>d \<in> set [[2, 2 :: u8]]. length [5 :: u8] < length d" by simp
  from replace_recursive_contract [OF this, of "[1, 2, 2, 3]"]
  have "\<exists>r. ReplaceAllRecursive [1, 2, 2, 3] [[2, 2]] [5] = Inr r"
    "Contains [7, 7] [7] \<and> Contains [7] [7] \<longrightarrow> replace_recursive 9 [7] [[7]] [7, 7] = Inl OutOfFuel" by blast+
  then show ?thesis by (simp add: Contains_def starts_with_def)
qed

section \<open>Base64\<close>

definition base64_chars :: bytes where
  "base64_chars = map word_of_nat ([65..<91] @ [97..<123] @ [48..<58] @ [43, 47])"

definition is_base64 :: "u8 \<Rightarrow> bool" where
  "is_base64 c \<longleftrightarrow> 48 \<le> c \<and> c \<le> 57 \<or> 65 \<le> c \<and> c \<le> 90 \<or> 97 \<le> c \<and> c \<le> 122 \<or> c = 43 \<or> c = 47"

text \<open>\<open>base64_chars.find(c)\<close>, stored in an \<open>unsigned char\<close>: \<open>npos\<close> becomes 255.\<close>

definition base64_find :: "u8 \<Rightarrow> u8" where
  "base64_find c = word_of_nat (pos_of (find_str base64_chars [c]))"

definition base64_at :: "u8 \<Rightarrow> u8" where
  "base64_at i = base64_chars ! unat i"

text \<open>The four characters of three bytes, and back; the stores into \<open>unsigned char\<close> cut to 8 bits.\<close>

definition sextets :: "u8 \<Rightarrow> u8 \<Rightarrow> u8 \<Rightarrow> bytes" where
  "sextets a b c =
     [drop_bit 2 (a AND 0xfc),
      push_bit 4 (a AND 0x03) + drop_bit 4 (b AND 0xf0),
      push_bit 2 (b AND 0x0f) + drop_bit 6 (c AND 0xc0),
      c AND 0x3f]"

definition octets :: "u8 \<Rightarrow> u8 \<Rightarrow> u8 \<Rightarrow> u8 \<Rightarrow> bytes" where
  "octets p q r s =
     [push_bit 2 p + drop_bit 4 (q AND 0x30),
      push_bit 4 (q AND 0xf) + drop_bit 2 (r AND 0x3c),
      push_bit 6 (r AND 0x3) + s]"

text \<open>The loop of \<open>Base64Encode\<close>: \<open>arr\<close> holds the cells of \<open>char_array_3\<close> below \<open>i\<close>. The other
  cells are written before they are read.\<close>

fun encode_loop :: "bytes \<Rightarrow> bytes \<Rightarrow> bytes \<Rightarrow> bytes \<times> bytes" where
  "encode_loop [] arr ret = (ret, arr)"
| "encode_loop (b # bs) arr ret =
     (let arr1 = arr @ [b] in
      if length arr1 = 3
      then encode_loop bs [] (ret @ map base64_at (sextets (arr1 ! 0) (arr1 ! 1) (arr1 ! 2)))
      else encode_loop bs arr1 ret)"

definition encode_rest :: "bytes \<times> bytes \<Rightarrow> bytes" where
  "encode_rest st = (case st of (ret, arr) \<Rightarrow>
     if arr \<noteq> [] then
       let i = length arr; arr1 = arr @ replicate (3 - i) 0 in
       ret @ map base64_at (take (i + 1) (sextets (arr1 ! 0) (arr1 ! 1) (arr1 ! 2))) @ replicate (3 - i) chr_equals
     else ret)"

text \<open>\<open>int in_len = data.size()\<close>: a length above 31 bits wraps; a negative one is counted down past
  the smallest \<open>int\<close>.\<close>

definition int_of_size :: "nat \<Rightarrow> int" where
  "int_of_size n = sint (word_of_nat n :: u32)"

definition Base64Encode :: "bytes \<Rightarrow> bytes result" where
  "Base64Encode data =
     (let in_len = int_of_size (length data) in
      if in_len < 0 then Inl UndefinedOp
      else Inr (encode_rest (encode_loop (take (nat in_len) data) [] [])))"

fun decode_loop :: "bytes \<Rightarrow> bytes \<Rightarrow> bytes \<Rightarrow> bytes \<times> bytes" where
  "decode_loop [] arr ret = (ret, arr)"
| "decode_loop (c # cs) arr ret =
     (if c = chr_equals \<or> \<not> is_base64 c then (ret, arr)
      else
        let arr1 = arr @ [c] in
        if length arr1 = 4
        then let f = map base64_find arr1 in decode_loop cs [] (ret @ octets (f ! 0) (f ! 1) (f ! 2) (f ! 3))
        else decode_loop cs arr1 ret)"

definition decode_rest :: "bytes \<times> bytes \<Rightarrow> bytes" where
  "decode_rest st = (case st of (ret, arr) \<Rightarrow>
     if arr \<noteq> [] then
       let i = length arr; f = map base64_find (arr @ replicate (4 - i) 0) in
       ret @ take (i - 1) (octets (f ! 0) (f ! 1) (f ! 2) (f ! 3))
     else ret)"

text \<open>A negative \<open>in_len\<close> does not stop the loop; the terminator of the string does, unless the index
  \<open>in_\<close> has left the range of \<open>int\<close> before.\<close>

definition Base64Decode :: "bytes \<Rightarrow> bytes result" where
  "Base64Decode base64 =
     (let in_len = int_of_size (length base64) in
      if in_len < 0 \<and> 2 ^ 31 \<le> length (takeWhile (\<lambda>c. c \<noteq> chr_equals \<and> is_base64 c) base64) then Inl UndefinedOp
      else Inr (decode_rest (decode_loop (if in_len < 0 then base64 else take (nat in_len) base64) [] [])))"

text \<open>The encoding as it is specified: by groups of three bytes, the last one padded.\<close>

fun base64_ref :: "bytes \<Rightarrow> bytes" where
  "base64_ref [] = []"
| "base64_ref [a] = map base64_at (take 2 (sextets a 0 0)) @ [chr_equals, chr_equals]"
| "base64_ref [a, b] = map base64_at (take 3 (sextets a b 0)) @ [chr_equals]"
| "base64_ref (a # b # c # bs) = map base64_at (sextets a b c) @ base64_ref bs"

lemma encode_loop_ref: "encode_rest (encode_loop bs [] ret) = ret @ base64_ref bs"
  by (induction bs arbitrary: ret rule: base64_ref.induct) (simp_all add: encode_rest_def sextets_def numeral_eq_Suc)

text \<open>The bits of the four characters and of the three bytes.\<close>

lemma below_eight: "(n :: nat) < 8 \<Longrightarrow> n = 0 \<or> n = 1 \<or> n = 2 \<or> n = 3 \<or> n = 4 \<or> n = 5 \<or> n = 6 \<or> n = 7"
  by arith

lemma sextet_or:
  "push_bit 4 (a AND 0x03) + drop_bit 4 (b AND 0xf0) = push_bit 4 (a AND 0x03) OR drop_bit 4 (b AND 0xf0 :: u8)"
  "push_bit 2 (b AND 0x0f) + drop_bit 6 (c AND 0xc0) = push_bit 2 (b AND 0x0f) OR drop_bit 6 (c AND 0xc0 :: u8)"
  by (rule disjunctive_add; auto simp: bit_simps dest!: below_eight)+

lemma sextet_mask:
  "drop_bit 2 (a AND 0xfc) AND 63 = drop_bit 2 (a AND 0xfc :: u8)"
  "(push_bit 4 (a AND 0x03) OR drop_bit 4 (b AND 0xf0)) AND 63 = push_bit 4 (a AND 0x03) OR drop_bit 4 (b AND 0xf0 :: u8)"
  "(push_bit 2 (b AND 0x0f) OR drop_bit 6 (c AND 0xc0)) AND 63 = push_bit 2 (b AND 0x0f) OR drop_bit 6 (c AND 0xc0 :: u8)"
  "(c AND 63) AND 63 = (c AND 63 :: u8)"
  by (rule bit_word_eqI; auto simp: bit_simps dest!: below_eight)+

lemma masked_below: "x AND 63 = x \<Longrightarrow> unat (x :: u8) < 64"
proof -
  assume "x AND 63 = x"
  then have "x \<le> 63" by (metis word_and_le1)
  then show ?thesis by (simp add: word_le_nat_alt)
qed

lemma sextets_below: "x \<in> set (sextets a b c) \<Longrightarrow> unat x < 64"
  unfolding sextets_def sextet_or
  by (rule masked_below) (auto simp only: list.set insert_iff empty_iff sextet_mask)

lemma octet_or:
  "push_bit 2 p + drop_bit 4 (q AND 0x30) = push_bit 2 p OR drop_bit 4 (q AND 0x30 :: u8)"
  "push_bit 4 (q AND 0xf) + drop_bit 2 (r AND 0x3c) = push_bit 4 (q AND 0xf) OR drop_bit 2 (r AND 0x3c :: u8)"
  "push_bit 6 (r AND 0x3) + (s AND 0x3f) = push_bit 6 (r AND 0x3) OR (s AND 0x3f :: u8)"
  by (rule disjunctive_add; auto simp: bit_simps dest!: below_eight)+

lemma octet_bits:
  "push_bit 2 (drop_bit 2 (a AND 0xfc)) OR drop_bit 4 ((push_bit 4 (a AND 3) OR drop_bit 4 (b AND 0xf0)) AND 0x30) = (a :: u8)"
  "push_bit 4 ((push_bit 4 (a AND 3) OR drop_bit 4 (b AND 0xf0)) AND 0xf) OR
     drop_bit 2 ((push_bit 2 (b AND 0x0f) OR drop_bit 6 (c AND 0xc0)) AND 0x3c) = (b :: u8)"
  "push_bit 6 ((push_bit 2 (b AND 0x0f) OR drop_bit 6 (c AND 0xc0)) AND 3) OR (c AND 0x3f) = (c :: u8)"
  by (rule bit_word_eqI; auto simp: bit_simps numeral_2_eq_2 [symmetric] dest!: below_eight)+

lemma octets_sextets:
  assumes "sextets a b c = [p, q, r, s]"
  shows "octets p q r s = [a, b, c]"
proof -
  have "p = drop_bit 2 (a AND 0xfc)" "q = push_bit 4 (a AND 3) OR drop_bit 4 (b AND 0xf0)"
    "r = push_bit 2 (b AND 0x0f) OR drop_bit 6 (c AND 0xc0)" "s = c AND 0x3f"
    using assms unfolding sextets_def sextet_or by simp_all
  then show ?thesis unfolding octets_def octet_or by (simp only: octet_or octet_bits)
qed

lemma length_base64_chars: "length base64_chars = 64"
  by (simp add: base64_chars_def)

lemma distinct_base64_chars: "distinct base64_chars"
  by (simp add: base64_chars_def upt_rec)

lemma set_base64_chars: "\<forall>c \<in> set base64_chars. is_base64 c \<and> c \<noteq> chr_equals"
  by (simp add: base64_chars_def upt_rec is_base64_def)

lemma find_str_nth: "distinct xs \<Longrightarrow> i < length xs \<Longrightarrow> find_str xs [xs ! i] = Some i"
proof (induction xs arbitrary: i)
  case (Cons x xs)
  then show ?case by (cases i) (auto simp: starts_with_def)
qed simp

lemma base64_at_char:
  assumes "unat x < 64"
  shows "is_base64 (base64_at x) \<and> base64_at x \<noteq> chr_equals \<and> base64_find (base64_at x) = x"
  using assms bspec [OF set_base64_chars nth_mem, of "unat x"] find_str_nth [OF distinct_base64_chars, of "unat x"]
  by (simp add: base64_at_def base64_find_def length_base64_chars pos_of_def)

lemma sextets_obtain:
  obtains p q r s where "sextets a b c = [p, q, r, s]" "unat p < 64" "unat q < 64" "unat r < 64" "unat s < 64" "octets p q r s = [a, b, c]"
proof -
  obtain p q r s where *: "sextets a b c = [p, q, r, s]" by (simp add: sextets_def)
  then have "\<forall>x \<in> {p, q, r, s}. unat x < 64" using sextets_below [of _ a b c] by auto
  then show thesis using that [OF *] octets_sextets [OF *] by blast
qed

lemma octets_take:
  "take (Suc 0) (octets p q r s) = take (Suc 0) (octets p q r' s')" "take 2 (octets p q r s) = take 2 (octets p q r s')"
  by (simp_all add: octets_def numeral_2_eq_2)

lemma decode_ref: "decode_rest (decode_loop (base64_ref bs) [] ret) = ret @ bs"
proof (induction bs arbitrary: ret rule: base64_ref.induct)
  case (2 a)
  obtain p q r s where *: "sextets a 0 0 = [p, q, r, s]" "unat p < 64" "unat q < 64" "octets p q r s = [a, 0, 0]"
    by (rule sextets_obtain [of a 0 0]) blast
  have "take (Suc 0) (octets p q x y) = [a]" for x y using octets_take(1) [of p q x y r s] *(4) by simp
  then show ?case using * by (simp add: base64_at_char decode_rest_def numeral_2_eq_2)
next
  case (3 a b)
  obtain p q r s where *: "sextets a b 0 = [p, q, r, s]" "unat p < 64" "unat q < 64" "unat r < 64" "octets p q r s = [a, b, 0]"
    by (rule sextets_obtain [of a b 0]) blast
  have "take 2 (octets p q r y) = [a, b]" for y using octets_take(2) [of p q r y s] *(5) by simp
  then show ?case using * by (simp add: base64_at_char decode_rest_def numeral_3_eq_3 numeral_2_eq_2)
next
  case (4 a b c bs)
  obtain p q r s where "sextets a b c = [p, q, r, s]" "unat p < 64" "unat q < 64" "unat r < 64" "unat s < 64" "octets p q r s = [a, b, c]"
    by (rule sextets_obtain)
  then show ?case using 4 [of "ret @ [a, b, c]"] by (simp add: base64_at_char)
qed (simp add: decode_rest_def)

lemma length_base64_ref: "length (base64_ref bs) = 4 * ((length bs + 2) div 3)"
proof (induction bs rule: base64_ref.induct)
  case (4 a b c bs)
  have "(length (a # b # c # bs) + 2) div 3 = Suc ((length bs + 2) div 3)" using div_add_self2 [of 3 "length bs + 2"] by simp
  then show ?case using 4 by (simp add: sextets_def)
qed (simp_all add: sextets_def)

lemma int_of_size_small: "n < 2 ^ 31 \<Longrightarrow> int_of_size n = int n"
  by (simp add: int_of_size_def signed_of_nat signed_take_bit_int_eq_self)

lemma Base64Encode_ref: "length data < 2 ^ 31 \<Longrightarrow> Base64Encode data = Inr (base64_ref data)"
  by (simp add: Base64Encode_def int_of_size_small encode_loop_ref)

lemma Base64Decode_small: "length s < 2 ^ 31 \<Longrightarrow> Base64Decode s = Inr (decode_rest (decode_loop s [] []))"
  by (simp add: Base64Decode_def int_of_size_small)

text \<open>C27: What \<open>Base64Encode\<close> writes, \<open>Base64Decode\<close> reads back, for every string whose encoding fits
  the \<open>int\<close> that counts it; the encoding has four characters for each group of three bytes begun.\<close>

theorem base64_roundtrip:
  assumes "length data \<le> 3 * (2 ^ 29 - 1)"
  shows "\<exists>e. Base64Encode data = Inr e \<and> Base64Decode e = Inr data \<and> length e = 4 * ((length data + 2) div 3)"
proof (intro exI conjI)
  show "Base64Encode data = Inr (base64_ref data)" using assms by (intro Base64Encode_ref) simp
  show "length (base64_ref data) = 4 * ((length data + 2) div 3)" by (rule length_base64_ref)
  have "length (base64_ref data) < 2 ^ 31" using assms by (simp add: length_base64_ref)
  then show "Base64Decode (base64_ref data) = Inr data" by (simp add: Base64Decode_small decode_ref)
qed

lemma base64_roundtrip_witness: "\<exists>e. Base64Encode [77, 97] = Inr e \<and> Base64Decode e = Inr [77, 97] \<and> length e = 4"
  using base64_roundtrip [of "[77, 97]"] by simp

text \<open>C28: \<open>Base64Encode\<close>, with its cells and its padding, is the encoding by groups of three bytes, and
  writes only characters of the alphabet and the padding; a string of \<open>2 ^ 31\<close> bytes makes the counter
  negative.\<close>

theorem base64_is_reference:
  assumes "length data < 2 ^ 31"
  shows "Base64Encode data = Inr (base64_ref data) \<and> (\<forall>c \<in> set (base64_ref data). is_base64 c \<or> c = chr_equals) \<and>
    (length data' = 2 ^ 31 \<longrightarrow> Base64Encode data' = Inl UndefinedOp)"
proof (intro conjI impI)
  show "Base64Encode data = Inr (base64_ref data)" using assms by (rule Base64Encode_ref)
  have at: "is_base64 (base64_at x)" if "x \<in> set (sextets a b c)" for x a b c
    using base64_at_char sextets_below [OF that] by blast
  show "\<forall>c \<in> set (base64_ref data). is_base64 c \<or> c = chr_equals"
    by (induction data rule: base64_ref.induct) (auto dest!: in_set_takeD intro: at)
qed (simp add: Base64Encode_def int_of_size_def)

lemma base64_is_reference_witness: "Base64Encode [77, 97, 110] = Inr (base64_ref [77, 97, 110])"
  using base64_is_reference [of "[77, 97, 110]" "[]"] by simp

end
