(* ===== verification/SR_Marshal.thy ===== *)
theory SR_Marshal
  imports SR_Stream SR_Strings
begin

text \<open>
  \<open>Marshal\<close> (Types/Marshal.h, .cpp), a byte stream with typed reads and writes, and the functions it
  calls (Common/BaseMarshal.h, Common/AnyMarshal.h, the tags of Common/TypeInfo.h).

  Values are the bytes of their components in memory order; integers that the code itself writes and
  reads (sizes, tags) are little-endian, and \<open>bool\<close> has one byte, as on every platform the engine
  builds for. A value read from bytes that nobody wrote is indeterminate: \<open>UndefinedOp\<close>. Saving to and
  loading from files is not modelled.
\<close>

section \<open>Bytes and integers\<close>

fun le_bytes :: "nat \<Rightarrow> nat \<Rightarrow> bytes" where
  "le_bytes 0 n = []"
| "le_bytes (Suc k) n = word_of_nat n # le_bytes k (n div 256)"

fun le_nat :: "bytes \<Rightarrow> nat" where
  "le_nat [] = 0"
| "le_nat (b # bs) = unat b + 256 * le_nat bs"

lemma length_le_bytes [simp]: "length (le_bytes k n) = k"
  by (induction k arbitrary: n) simp_all

lemma le_nat_le_bytes: "n < 256 ^ k \<Longrightarrow> le_nat (le_bytes k n) = n"
proof (induction k arbitrary: n)
  case (Suc k)
  then have "n div 256 < 256 ^ k" by (simp add: less_mult_imp_div_less mult.commute)
  then show ?case using Suc.IH by (simp add: unat_of_nat)
qed simp

text \<open>Bytes of a block that all were written.\<close>

fun cells_bytes :: "u8 option list \<Rightarrow> bytes result" where
  "cells_bytes [] = Inr []"
| "cells_bytes (c # cs) =
     (case c of None \<Rightarrow> Inl UndefinedOp | Some b \<Rightarrow> bind_res (cells_bytes cs) (\<lambda>bs. Inr (b # bs)))"

lemma cells_bytes_Some [simp]: "cells_bytes (map Some bs) = Inr bs"
  by (induction bs) simp_all

text \<open>\<open>stream.read\<close> into a variable: \<open>None\<close> when the stream refused, and the variable is as before.\<close>

definition read_var :: "stream \<Rightarrow> u64 \<Rightarrow> (bytes option \<times> stream) result" where
  "read_var s count =
     bind_res (stream_Read s count) (\<lambda>(r, s1).
       case r of None \<Rightarrow> Inr (None, s1)
       | Some cells \<Rightarrow> bind_res (cells_bytes cells) (\<lambda>bs. Inr (Some bs, s1)))"

definition try_read_var :: "stream \<Rightarrow> u64 \<Rightarrow> (bytes option \<times> stream) result" where
  "try_read_var s count =
     bind_res (stream_TryRead s count) (\<lambda>(r, s1).
       case r of None \<Rightarrow> Inr (None, s1)
       | Some cells \<Rightarrow> bind_res (cells_bytes cells) (\<lambda>bs. Inr (Some bs, s1)))"

text \<open>A variable without initializer: reading it when the stream refused is undefined.\<close>

definition read_uninit :: "stream \<Rightarrow> u64 \<Rightarrow> (bytes \<times> stream) result" where
  "read_uninit s count =
     bind_res (read_var s count) (\<lambda>(r, s1). case r of None \<Rightarrow> Inl UndefinedOp | Some bs \<Rightarrow> Inr (bs, s1))"

section \<open>Values\<close>

text \<open>The types that \<open>SaveValue\<close> and \<open>LoadValue\<close> tell apart, and the sizes of their components; a number
  or \<open>bool\<close> has the size of its type. Every other type is not written at all.\<close>

datatype value_type = FColor | FVector4 | FVector3 | Vector3_float | Vector3_double | Vector3_bool | FVector2
  | IVector3 | BVector3 | IVector2 | UVector2 | Number nat | Unsupported

fun components :: "value_type \<Rightarrow> nat list" where
  "components FColor = [4, 4, 4, 4]"
| "components FVector4 = [4, 4, 4, 4]"
| "components FVector3 = [4, 4, 4]"
| "components Vector3_float = [4, 4, 4]"
| "components Vector3_double = [8, 8, 8]"
| "components Vector3_bool = [1, 1, 1]"
| "components FVector2 = [4, 4]"
| "components IVector3 = [4, 4, 4]"
| "components BVector3 = [1, 1, 1]"
| "components IVector2 = [4, 4]"
| "components UVector2 = [4, 4]"
| "components (Number n) = [n]"
| "components Unsupported = []"

fun SaveValue :: "stream \<Rightarrow> bytes list \<Rightarrow> stream result" where
  "SaveValue s [] = Inr s"
| "SaveValue s (c # cs) = bind_res (stream_Write s c) (\<lambda>s1. SaveValue s1 cs)"

text \<open>A component that cannot be read keeps the zeros of \<open>T()\<close>.\<close>

fun load_components :: "stream \<Rightarrow> nat list \<Rightarrow> (bytes list \<times> stream) result" where
  "load_components s [] = Inr ([], s)"
| "load_components s (n # ns) =
     bind_res (read_var s (word_of_nat n)) (\<lambda>(r, s1).
     bind_res (load_components s1 ns) (\<lambda>(cs, s2).
     Inr ((case r of Some bs \<Rightarrow> bs | None \<Rightarrow> replicate n 0) # cs, s2)))"

definition LoadValue :: "value_type \<Rightarrow> stream \<Rightarrow> (bytes list \<times> stream) result" where
  "LoadValue t s = load_components s (components t)"

section \<open>Strings, vectors and blocks\<close>

text \<open>The size is an \<open>int16_t\<close>; as the count of \<open>write\<close> it is extended with its sign. The source is the
  string and its terminator.\<close>

definition SaveShortString :: "stream \<Rightarrow> bytes \<Rightarrow> stream result" where
  "SaveShortString s str =
     (let size = word_of_nat (length str) :: u16; count = scast size :: u64 in
      bind_res (stream_Write s (le_bytes 2 (unat size))) (\<lambda>s1.
      if length str + 1 < unat count then Inl OutOfRange
      else stream_Write s1 (take (unat count) (str @ [0]))))"

definition LoadShortStr :: "stream \<Rightarrow> (bytes \<times> stream) result" where
  "LoadShortStr s =
     bind_res (read_uninit s 2) (\<lambda>(bs, s1).
     let size = le_nat bs in
     if size \<ge> 65535 then Inr ([], s1)
     else bind_res (read_var s1 (word_of_nat size)) (\<lambda>(r, s2).
       Inr (case r of Some str \<Rightarrow> str | None \<Rightarrow> replicate size 0, s2)))"

definition TryLoadShortStr :: "stream \<Rightarrow> (bytes \<times> stream) result" where
  "TryLoadShortStr s =
     bind_res (try_read_var s 2) (\<lambda>(q, s1).
     case q of None \<Rightarrow> Inl UndefinedOp | Some bs \<Rightarrow>
     let size = le_nat bs in
     if size \<ge> 65535 then Inr ([], s1)
     else bind_res (try_read_var s1 (word_of_nat size)) (\<lambda>(r, s2).
       Inr (case r of Some str \<Rightarrow> str | None \<Rightarrow> replicate size 0, s2)))"

text \<open>Characters of 32 bits; four bytes each, and the terminator after the last.\<close>

definition SaveUnicodeString :: "stream \<Rightarrow> bytes list \<Rightarrow> stream result" where
  "SaveUnicodeString s str =
     (let size = word_of_nat (length str) :: u16; count = (scast size :: u64) * 4 in
      bind_res (stream_Write s (le_bytes 2 (unat size))) (\<lambda>s1.
      if 4 * (length str + 1) < unat count then Inl OutOfRange
      else stream_Write s1 (take (unat count) (concat str @ [0, 0, 0, 0]))))"

fun chunks :: "nat \<Rightarrow> nat \<Rightarrow> bytes \<Rightarrow> bytes list" where
  "chunks w 0 bs = []"
| "chunks w (Suc n) bs = take w bs # chunks w n (drop w bs)"

definition LoadUnicodeString :: "stream \<Rightarrow> (bytes list \<times> stream) result" where
  "LoadUnicodeString s =
     bind_res (read_uninit s 2) (\<lambda>(bs, s1).
     let size = le_nat bs in
     if size \<ge> 65535 then Inr ([], s1)
     else bind_res (read_var s1 (word_of_nat (size * 4))) (\<lambda>(r, s2).
       Inr (chunks 4 size (case r of Some str \<Rightarrow> str | None \<Rightarrow> replicate (size * 4) 0), s2)))"

definition TryLoadUnicodeString :: "stream \<Rightarrow> (bytes list \<times> stream) result" where
  "TryLoadUnicodeString s =
     bind_res (try_read_var s 2) (\<lambda>(q, s1).
     case q of None \<Rightarrow> Inl UndefinedOp | Some bs \<Rightarrow>
     let size = le_nat bs in
     if size \<ge> 65535 then Inr ([], s1)
     else bind_res (try_read_var s1 (word_of_nat (size * 4))) (\<lambda>(r, s2).
       Inr (chunks 4 size (case r of Some str \<Rightarrow> str | None \<Rightarrow> replicate (size * 4) 0), s2)))"

definition SaveString :: "stream \<Rightarrow> bytes \<Rightarrow> stream result" where
  "SaveString s str =
     bind_res (stream_Write s (le_bytes 8 (length str))) (\<lambda>s1. stream_Write s1 str)"

definition LoadStr :: "stream \<Rightarrow> (bytes \<times> stream) result" where
  "LoadStr s =
     bind_res (read_uninit s 8) (\<lambda>(bs, s1).
     let size = le_nat bs in
     if size \<ge> 65535 then Inr ([], s1)
     else bind_res (read_var s1 (word_of_nat size)) (\<lambda>(r, s2).
       Inr (case r of Some str \<Rightarrow> str | None \<Rightarrow> replicate size 0, s2)))"

text \<open>Elements of \<open>w\<close> bytes. \<open>resize\<close> throws for more elements than a vector can hold.\<close>

definition SaveVector :: "stream \<Rightarrow> bytes list \<Rightarrow> stream result" where
  "SaveVector s vector =
     bind_res (stream_Write s (le_bytes 8 (length vector))) (\<lambda>s1.
     if length vector > 0 then stream_Write s1 (concat vector) else Inr s1)"

definition LoadVector :: "nat \<Rightarrow> stream \<Rightarrow> (bytes list \<times> stream) result" where
  "LoadVector w s =
     bind_res (read_uninit s 8) (\<lambda>(bs, s1).
     let size = le_nat bs in
     if size = 0 then Inr ([], s1)
     else if size * w \<ge> 2 ^ 63 then Inl Exception
     else bind_res (read_var s1 (word_of_nat (size * w))) (\<lambda>(r, s2).
       Inr (chunks w size (case r of Some str \<Rightarrow> str | None \<Rightarrow> replicate (size * w) 0), s2)))"

definition WriteBlock :: "stream \<Rightarrow> bytes \<Rightarrow> stream result" where
  "WriteBlock s block =
     bind_res (SaveValue s [le_bytes 8 (length block)]) (\<lambda>s1.
     if length block = 0 then Inr s1 else stream_Write s1 block)"

text \<open>Into a destination of \<open>space\<close> bytes; a refused read leaves the destination.\<close>

definition ReadBlock :: "stream \<Rightarrow> bytes \<Rightarrow> (bytes \<times> stream) result" where
  "ReadBlock s destination =
     bind_res (LoadValue (Number 8) s) (\<lambda>(v, s1).
     let size = le_nat (concat v) in
     if size = 0 then Inr (destination, s1)
     else bind_res (read_var s1 (word_of_nat size)) (\<lambda>(r, s2).
       case r of None \<Rightarrow> Inr (destination, s2)
       | Some bs \<Rightarrow> if length destination < size then Inl OutOfRange else Inr (bs @ drop size destination, s2)))"

section \<open>Values of any type\<close>

text \<open>The C++ types an \<open>std::any\<close> may hold, as far as the code tells them apart, and the bytes of the
  value (for a string, its characters).\<close>

datatype any_type = AnyBool | AnyChar | AnySChar | AnyUChar | AnyShort | AnyUShort | AnyInt | AnyUInt
  | AnyLong | AnyULong | AnyLongLong | AnyULongLong | AnyFloat | AnyDouble | AnyString | AnyOther

type_synonym any_value = "any_type \<times> bytes"

datatype standard_type = Unknown | SBool | Int8 | UInt8 | Int16 | UInt16 | Int32 | UInt32 | Int64 | UInt64
  | SFloat | SDouble | SString | StandardOther

fun type_tag :: "standard_type \<Rightarrow> nat" where
  "type_tag Unknown = 0" | "type_tag SBool = 1" | "type_tag Int8 = 2" | "type_tag UInt8 = 3"
| "type_tag Int16 = 4" | "type_tag UInt16 = 5" | "type_tag Int32 = 6" | "type_tag UInt32 = 7"
| "type_tag Int64 = 8" | "type_tag UInt64 = 9" | "type_tag SFloat = 10" | "type_tag SDouble = 11"
| "type_tag SString = 12" | "type_tag StandardOther = 13"

definition tag_type :: "nat \<Rightarrow> standard_type" where
  "tag_type n = (if n < 13
     then [Unknown, SBool, Int8, UInt8, Int16, UInt16, Int32, UInt32, Int64, UInt64, SFloat, SDouble, SString] ! n
     else StandardOther)"

fun GetStandardType :: "any_type \<Rightarrow> standard_type" where
  "GetStandardType AnyBool = SBool" | "GetStandardType AnyChar = Int8" | "GetStandardType AnyUChar = UInt8"
| "GetStandardType AnyShort = Int16" | "GetStandardType AnyUShort = UInt16" | "GetStandardType AnyInt = Int32"
| "GetStandardType AnyUInt = UInt32" | "GetStandardType AnyLongLong = Int64"
| "GetStandardType AnyULongLong = UInt64" | "GetStandardType AnyFloat = SFloat"
| "GetStandardType AnyDouble = SDouble" | "GetStandardType AnyString = SString"
| "GetStandardType _ = Unknown"

text \<open>\<open>int8_t\<close> is \<open>signed char\<close>; \<open>int64_t\<close> is \<open>long\<close> where that has 64 bits (\<open>lp64\<close>, Linux and Android) and
  \<open>long long\<close> on Windows.\<close>

fun cast_type :: "bool \<Rightarrow> standard_type \<Rightarrow> any_type" where
  "cast_type lp64 SBool = AnyBool" | "cast_type lp64 Int8 = AnySChar" | "cast_type lp64 UInt8 = AnyUChar"
| "cast_type lp64 Int16 = AnyShort" | "cast_type lp64 UInt16 = AnyUShort" | "cast_type lp64 Int32 = AnyInt"
| "cast_type lp64 UInt32 = AnyUInt" | "cast_type lp64 Int64 = (if lp64 then AnyLong else AnyLongLong)"
| "cast_type lp64 UInt64 = (if lp64 then AnyULong else AnyULongLong)" | "cast_type lp64 SFloat = AnyFloat"
| "cast_type lp64 SDouble = AnyDouble" | "cast_type lp64 SString = AnyString" | "cast_type lp64 _ = AnyOther"

fun GetTypeSize :: "standard_type \<Rightarrow> nat" where
  "GetTypeSize SBool = 1" | "GetTypeSize Int8 = 1" | "GetTypeSize UInt8 = 1" | "GetTypeSize Int16 = 2"
| "GetTypeSize UInt16 = 2" | "GetTypeSize Int32 = 4" | "GetTypeSize UInt32 = 4" | "GetTypeSize Int64 = 8"
| "GetTypeSize UInt64 = 8" | "GetTypeSize SFloat = 4" | "GetTypeSize SDouble = 8" | "GetTypeSize _ = 0"

text \<open>A bad cast is caught, after the tag was written.\<close>

definition SaveAny :: "bool \<Rightarrow> stream \<Rightarrow> any_value \<Rightarrow> stream result" where
  "SaveAny lp64 s v =
     (let type = GetStandardType (fst v) in
      bind_res (SaveValue s [le_bytes 2 (type_tag type)]) (\<lambda>s1.
      if type = Unknown \<or> cast_type lp64 type \<noteq> fst v then Inr s1
      else if type = SString then SaveString s1 (snd v)
      else SaveValue s1 [snd v]))"

text \<open>\<open>None\<close> is the empty \<open>any\<close>.\<close>

definition LoadAny :: "bool \<Rightarrow> stream \<Rightarrow> (any_value option \<times> stream) result" where
  "LoadAny lp64 s =
     bind_res (LoadValue (Number 2) s) (\<lambda>(tag, s1).
     let type = tag_type (le_nat (concat tag)) in
     if type \<in> {Unknown, StandardOther} then Inr (None, s1)
     else if type = SString then bind_res (LoadStr s1) (\<lambda>(str, s2). Inr (Some (AnyString, str), s2))
     else bind_res (LoadValue (Number (GetTypeSize type)) s1) (\<lambda>(v, s2). Inr (Some (cast_type lp64 type, concat v), s2)))"

section \<open>Marshal\<close>

text \<open>What \<open>Write<T>\<close> and \<open>Read<T>\<close> dispatch on, with the value that is written or read.\<close>

datatype item = Value value_type "bytes list" | Str bytes | Unicode "bytes list" | Vec nat "bytes list" | Any "any_value option"

datatype item_type = TValue value_type | TStr | TUnicode | TVec nat | TAny

fun type_of_item :: "item \<Rightarrow> item_type" where
  "type_of_item (Value t v) = TValue t"
| "type_of_item (Str s) = TStr"
| "type_of_item (Unicode s) = TUnicode"
| "type_of_item (Vec w v) = TVec w"
| "type_of_item (Any a) = TAny"

text \<open>An empty \<open>any\<close> has no type: only the tag is written.\<close>

fun Marshal_Write :: "bool \<Rightarrow> stream \<Rightarrow> item \<Rightarrow> stream result" where
  "Marshal_Write lp64 s (Value t v) = SaveValue s v"
| "Marshal_Write lp64 s (Str str) = SaveShortString s str"
| "Marshal_Write lp64 s (Unicode str) = SaveUnicodeString s str"
| "Marshal_Write lp64 s (Vec w v) = SaveVector s v"
| "Marshal_Write lp64 s (Any a) = SaveAny lp64 s (case a of Some v \<Rightarrow> v | None \<Rightarrow> (AnyOther, []))"

fun Marshal_Read :: "bool \<Rightarrow> item_type \<Rightarrow> stream \<Rightarrow> (item \<times> stream) result" where
  "Marshal_Read lp64 (TValue t) s = bind_res (LoadValue t s) (\<lambda>(v, s1). Inr (Value t v, s1))"
| "Marshal_Read lp64 TStr s = bind_res (LoadShortStr s) (\<lambda>(str, s1). Inr (Str str, s1))"
| "Marshal_Read lp64 TUnicode s = bind_res (LoadUnicodeString s) (\<lambda>(str, s1). Inr (Unicode str, s1))"
| "Marshal_Read lp64 (TVec w) s = bind_res (LoadVector w s) (\<lambda>(v, s1). Inr (Vec w v, s1))"
| "Marshal_Read lp64 TAny s = bind_res (LoadAny lp64 s) (\<lambda>(a, s1). Inr (Any a, s1))"

text \<open>\<open>Write(value, def)\<close> and \<open>Read(def)\<close>: one \<open>bool\<close> before the value says that it is the default.\<close>

definition Marshal_Write_default :: "bool \<Rightarrow> stream \<Rightarrow> item \<Rightarrow> item \<Rightarrow> stream result" where
  "Marshal_Write_default lp64 s v d =
     (if v = d then SaveValue s [[1]]
      else bind_res (SaveValue s [[0]]) (\<lambda>s1. Marshal_Write lp64 s1 v))"

definition Marshal_Read_default :: "bool \<Rightarrow> item \<Rightarrow> stream \<Rightarrow> (item \<times> stream) result" where
  "Marshal_Read_default lp64 d s =
     bind_res (LoadValue (Number 1) s) (\<lambda>(b, s1).
     if concat b \<noteq> [0] then Inr (d, s1) else Marshal_Read lp64 (type_of_item d) s1)"

text \<open>The bytes of a whole stream; those nobody wrote cannot be passed on.\<close>

definition Marshal_Append :: "stream \<Rightarrow> stream \<Rightarrow> stream result" where
  "Marshal_Append s other =
     (if stream_Valid other \<and> s_size other > 0
      then bind_res (copy_out (s_data other) 0 (s_size other)) (\<lambda>cells.
           bind_res (cells_bytes cells) (stream_Write s))
      else Inr s)"

definition ReadBytes :: "stream \<Rightarrow> u64 \<Rightarrow> (stream \<times> stream) result" where
  "ReadBytes s count =
     (if s_pos s + count > s_capacity s then Inr (stream_default, s)
      else bind_res (copy_out (s_data s) (s_pos s) count) (\<lambda>cells.
           bind_res (cells_bytes cells) (\<lambda>bs. Inr (stream_of_data bs, stream_Skip s count))))"

definition Marshal_FullCopy :: "stream \<Rightarrow> stream result" where
  "Marshal_FullCopy s = bind_res (stream_copy s) (\<lambda>copy. Inr (stream_SetPosition copy (s_pos s)))"

definition ToBase64 :: "stream \<Rightarrow> bytes result" where
  "ToBase64 s = bind_res (stream_ToString s) (\<lambda>cells. bind_res (cells_bytes cells) Base64Encode)"

definition LoadFromBase64 :: "bytes \<Rightarrow> stream result" where
  "LoadFromBase64 base64 = bind_res (Base64Decode base64) (\<lambda>data. Inr (stream_of_string data))"

text \<open>A program of writes or of reads.\<close>

fun write_all :: "(stream \<Rightarrow> 'v \<Rightarrow> stream result) \<Rightarrow> stream \<Rightarrow> 'v list \<Rightarrow> stream result" where
  "write_all w s [] = Inr s"
| "write_all w s (v # vs) = bind_res (w s v) (\<lambda>s1. write_all w s1 vs)"

fun read_all :: "('t \<Rightarrow> stream \<Rightarrow> ('v \<times> stream) result) \<Rightarrow> 't list \<Rightarrow> stream \<Rightarrow> ('v list \<times> stream) result" where
  "read_all r [] s = Inr ([], s)"
| "read_all r (t # ts) s =
     bind_res (r t s) (\<lambda>(v, s1). bind_res (read_all r ts s1) (\<lambda>(vs, s2). Inr (v # vs, s2)))"

section \<open>What a write leaves and a read finds\<close>

definition written :: "stream \<Rightarrow> bytes \<Rightarrow> stream \<Rightarrow> bool" where
  "written s bs s' \<longleftrightarrow> stream_inv s' \<and> s_pos s' = s_pos s + word_of_nat (length bs) \<and>
     s_size s' = s_size s + word_of_nat (length bs) \<and>
     take (unat (s_pos s)) (content s') = take (unat (s_pos s)) (content s) \<and>
     take (length bs) (drop (unat (s_pos s)) (content s')) = map Some bs"

definition ahead :: "stream \<Rightarrow> bytes \<Rightarrow> bool" where
  "ahead s bs \<longleftrightarrow> stream_inv s \<and> unat (s_pos s) + length bs \<le> unat (s_size s) \<and>
     take (length bs) (drop (unat (s_pos s)) (content s)) = map Some bs"

lemma inv_pos: "stream_inv s \<Longrightarrow> unat (s_pos s) \<le> unat (s_size s)"
  by (simp add: stream_inv_def word_le_nat_alt)

lemma room_unat:
  assumes "stream_room s n" and "stream_inv s"
  shows "unat (word_of_nat n :: u64) = n" "unat (s_pos s + word_of_nat n) = unat (s_pos s) + n"
    "unat (s_size s + word_of_nat n) = unat (s_size s) + n"
proof -
  show n: "unat (word_of_nat n :: u64) = n" using assms by (intro unat_of_nat_small) (simp add: stream_room_def)
  show "unat (s_pos s + word_of_nat n) = unat (s_pos s) + n" "unat (s_size s + word_of_nat n) = unat (s_size s) + n"
    using assms(1) inv_pos [OF assms(2)] n by (simp_all add: unat_word_ariths stream_room_def)
qed

lemma written_write:
  assumes "stream_inv s" and "stream_room s (length bs)"
  obtains s' where "stream_Write s bs = Inr s'" "written s bs s'"
  using write_spec [OF assms] unfolding written_def by blast

lemma written_nil: "stream_inv s \<Longrightarrow> written s [] s"
  by (simp add: written_def)

lemma written_room:
  assumes "written s a s1" and "stream_inv s" and "stream_room s (length a + n)"
  shows "stream_inv s1 \<and> stream_room s1 n"
proof -
  have "stream_room s (length a)" using assms(3) by (simp add: stream_room_def)
  from room_unat(3) [OF this assms(2)] show ?thesis using assms by (simp add: written_def stream_room_def)
qed

lemma written_append:
  assumes w: "written s a s1" "written s1 b s2" and s: "stream_inv s" "stream_room s (length a + length b)"
  shows "written s (a @ b) s2"
proof -
  let ?p = "unat (s_pos s)" and ?la = "length a"
  have ra: "stream_room s ?la" using s(2) by (simp add: stream_room_def)
  have p1: "unat (s_pos s1) = ?p + ?la" using w(1) room_unat(2) [OF ra s(1)] by (simp add: written_def)
  have keep: "take (?p + ?la) (content s2) = take (?p + ?la) (content s1)"
    using w(2) unfolding written_def p1 by blast
  have "take ?p (content s2) = take ?p (take (?p + ?la) (content s2))" by simp
  also have "\<dots> = take ?p (content s1)" unfolding keep by simp
  also have "\<dots> = take ?p (content s)" using w(1) by (simp add: written_def)
  finally have A: "take ?p (content s2) = take ?p (content s)" .
  have "take ?la (drop ?p (content s2)) = drop ?p (take (?p + ?la) (content s2))" by (simp add: drop_take add.commute)
  also have "\<dots> = take ?la (drop ?p (content s1))" unfolding keep by (simp add: drop_take add.commute)
  also have "\<dots> = map Some a" using w(1) by (simp add: written_def)
  finally have B: "take ?la (drop ?p (content s2)) = map Some a" .
  have C: "take (length b) (drop (?la + ?p) (content s2)) = map Some b"
    using w(2) p1 by (simp add: written_def add.commute)
  have "take (?la + length b) (drop ?p (content s2)) = map Some (a @ b)"
    unfolding take_add B drop_drop C by simp
  then show ?thesis using A w unfolding written_def by (simp add: add.assoc)
qed

lemma written_ahead:
  assumes "written s bs s'" and "stream_inv s" and "stream_room s (length bs)"
  shows "ahead (stream_SetPosition s' (s_pos s)) bs"
proof -
  have sz: "unat (s_size s') = unat (s_size s) + length bs"
    using assms(1) room_unat(3) [OF assms(3,2)] by (simp add: written_def)
  moreover have "content (stream_SetPosition s' (s_pos s)) = content s'"
    by (simp add: content_def stream_SetPosition_def split: option.split)
  ultimately show ?thesis using assms inv_pos [OF assms(2)]
    by (simp add: ahead_def written_def stream_inv_def stream_SetPosition_def block_length_def word_le_nat_alt)
qed

lemma ahead_skip:
  assumes "ahead s (a @ b)"
  shows "ahead (stream_Skip s (word_of_nat (length a))) b"
proof -
  let ?p = "unat (s_pos s)"
  have le: "?p + (length a + length b) \<le> unat (s_size s)" using assms by (simp add: ahead_def)
  then have "length a < 2 ^ 64" using unat_u64_bound [of "s_size s"] by simp
  then have p: "unat (s_pos s + word_of_nat (length a)) = ?p + length a"
    using le unat_u64_bound [of "s_size s"] by (simp add: unat_word_ariths unat_of_nat_small)
  have "take (length a + length b) (drop ?p (content s)) = map Some a @ map Some b" using assms by (simp add: ahead_def)
  then have "drop (length a) (take (length a + length b) (drop ?p (content s))) = map Some b" by simp
  then have "take (length b) (drop (length a + ?p) (content s)) = map Some b" by (simp add: drop_take)
  moreover have "content (stream_Skip s (word_of_nat (length a))) = content s" by (simp add: content_def stream_Skip_def split: option.split)
  ultimately show ?thesis using assms le p
    by (simp add: ahead_def stream_inv_def stream_Skip_def block_length_def word_le_nat_alt add.commute)
qed

lemma ahead_front: "ahead s (a @ b) \<Longrightarrow> ahead s a"
proof -
  assume a: "ahead s (a @ b)"
  then have "take (length a) (take (length a + length b) (drop (unat (s_pos s)) (content s))) = map Some a"
    by (simp add: ahead_def)
  then show "ahead s a" using a by (simp add: ahead_def min_def)
qed

lemma read_ahead:
  assumes "ahead s (bs @ cs)"
  shows "read_var s (word_of_nat (length bs)) = Inr (Some bs, stream_Skip s (word_of_nat (length bs)))"
    "read_uninit s (word_of_nat (length bs)) = Inr (bs, stream_Skip s (word_of_nat (length bs)))"
proof -
  note a = ahead_front [OF assms]
  have "length bs < 2 ^ 64" using a unat_u64_bound [of "s_size s"] by (simp add: ahead_def)
  then have n: "unat (word_of_nat (length bs) :: u64) = length bs" by (simp add: unat_of_nat_small)
  have "stream_Read s (word_of_nat (length bs)) = Inr (Some (map Some bs), stream_Skip s (word_of_nat (length bs)))"
    using a read_spec [of s "word_of_nat (length bs)"] n by (simp add: ahead_def stream_Skip_def)
  then show "read_var s (word_of_nat (length bs)) = Inr (Some bs, stream_Skip s (word_of_nat (length bs)))"
    by (simp add: read_var_def)
  then show "read_uninit s (word_of_nat (length bs)) = Inr (bs, stream_Skip s (word_of_nat (length bs)))"
    by (simp add: read_uninit_def)
qed

lemma skip_skip: "stream_Skip (stream_Skip s (word_of_nat a)) (word_of_nat b) = stream_Skip s (word_of_nat (a + b))"
  by (simp add: stream_Skip_def add.assoc)

section \<open>Codecs\<close>

text \<open>A writer and a reader that agree on the bytes of each good value.\<close>

locale codec =
  fixes enc :: "'v \<Rightarrow> bytes" and wr :: "stream \<Rightarrow> 'v \<Rightarrow> stream result"
    and rd :: "'t \<Rightarrow> stream \<Rightarrow> ('v \<times> stream) result" and type_of :: "'v \<Rightarrow> 't" and good :: "'v \<Rightarrow> bool"
  assumes wr_enc: "good v \<Longrightarrow> stream_inv s \<Longrightarrow> stream_room s (length (enc v)) \<Longrightarrow> \<exists>s'. wr s v = Inr s' \<and> written s (enc v) s'"
    and rd_enc: "good v \<Longrightarrow> ahead s (enc v @ cs) \<Longrightarrow> rd (type_of v) s = Inr (v, stream_Skip s (word_of_nat (length (enc v))))"
begin

definition enc_all :: "'v list \<Rightarrow> bytes" where
  "enc_all vs = concat (map enc vs)"

lemma write_all_enc:
  "\<forall>v \<in> set vs. good v \<Longrightarrow> stream_inv s \<Longrightarrow> stream_room s (length (enc_all vs)) \<Longrightarrow>
    \<exists>s'. write_all wr s vs = Inr s' \<and> written s (enc_all vs) s'"
proof (induction vs arbitrary: s)
  case Nil
  then show ?case by (simp add: enc_all_def written_nil)
next
  case (Cons v vs)
  have room: "stream_room s (length (enc v) + length (enc_all vs))" using Cons.prems(3) by (simp add: enc_all_def)
  then have "stream_room s (length (enc v))" by (simp add: stream_room_def)
  then obtain s1 where s1: "wr s v = Inr s1" "written s (enc v) s1" using wr_enc [of v s] Cons.prems by auto
  then obtain s2 where s2: "write_all wr s1 vs = Inr s2" "written s1 (enc_all vs) s2"
    using Cons.IH [of s1] Cons.prems written_room [OF s1(2) Cons.prems(2) room] by auto
  then show ?case using s1 written_append [OF s1(2) s2(2) Cons.prems(2) room] by (simp add: enc_all_def)
qed

lemma read_all_enc:
  "\<forall>v \<in> set vs. good v \<Longrightarrow> ahead s (enc_all vs) \<Longrightarrow>
    read_all rd (map type_of vs) s = Inr (vs, stream_Skip s (word_of_nat (length (enc_all vs))))"
proof (induction vs arbitrary: s)
  case Nil
  then show ?case by (simp add: enc_all_def stream_Skip_def)
next
  case (Cons v vs)
  then have a: "ahead s (enc v @ enc_all vs)" by (simp add: enc_all_def)
  have "read_all rd (map type_of vs) (stream_Skip s (word_of_nat (length (enc v)))) =
      Inr (vs, stream_Skip s (word_of_nat (length (enc v) + length (enc_all vs))))"
    using Cons.IH [OF _ ahead_skip [OF a]] Cons.prems(1) by (simp only: skip_skip) simp
  then show ?case using rd_enc [OF _ a] Cons.prems(1) by (simp add: enc_all_def)
qed

lemma write_read_all:
  assumes "\<forall>v \<in> set vs. good v" and "stream_inv s" and "stream_room s (length (enc_all vs))"
  shows "\<exists>s'. write_all wr s vs = Inr s' \<and> stream_inv s' \<and>
    take (unat (s_pos s)) (content s') = take (unat (s_pos s)) (content s) \<and>
    read_all rd (map type_of vs) (stream_SetPosition s' (s_pos s)) = Inr (vs, s')"
proof -
  obtain s' where s': "write_all wr s vs = Inr s'" "written s (enc_all vs) s'" using write_all_enc [OF assms] by blast
  have "stream_Skip (stream_SetPosition s' (s_pos s)) (word_of_nat (length (enc_all vs))) = s'"
    using s'(2) by (simp add: written_def stream_Skip_def stream_SetPosition_def)
  then show ?thesis using s' read_all_enc [OF assms(1) written_ahead [OF s'(2) assms(2,3)]]
    by (auto simp: written_def)
qed

end

section \<open>The codecs of Marshal\<close>

definition any_bytes :: "any_value \<Rightarrow> bytes" where
  "any_bytes v = (if GetStandardType (fst v) = SString then le_bytes 8 (length (snd v)) @ snd v else snd v)"

fun item_bytes :: "item \<Rightarrow> bytes" where
  "item_bytes (Value t v) = concat v"
| "item_bytes (Str s) = le_bytes 2 (length s) @ s"
| "item_bytes (Unicode s) = le_bytes 2 (length s) @ concat s"
| "item_bytes (Vec w v) = le_bytes 8 (length v) @ concat v"
| "item_bytes (Any None) = le_bytes 2 0"
| "item_bytes (Any (Some v)) = le_bytes 2 (type_tag (GetStandardType (fst v))) @ any_bytes v"

text \<open>The values that survive: components of their sizes, strings whose size fits an \<open>int16_t\<close>, vectors
  of elements of one size, and an \<open>any\<close> whose type is the one its tag is cast to.\<close>

fun item_ok :: "bool \<Rightarrow> item \<Rightarrow> bool" where
  "item_ok lp64 (Value t v) \<longleftrightarrow> map length v = components t"
| "item_ok lp64 (Str s) \<longleftrightarrow> length s < 2 ^ 15"
| "item_ok lp64 (Unicode s) \<longleftrightarrow> length s < 2 ^ 15 \<and> (\<forall>c \<in> set s. length c = 4)"
| "item_ok lp64 (Vec w v) \<longleftrightarrow> length v * w < 2 ^ 63 \<and> length v < 2 ^ 64 \<and> (\<forall>x \<in> set v. length x = w)"
| "item_ok lp64 (Any None) \<longleftrightarrow> True"
| "item_ok lp64 (Any (Some v)) \<longleftrightarrow>
     (let t = GetStandardType (fst v) in
      t \<noteq> Unknown \<and> cast_type lp64 t = fst v \<and>
      (if t = SString then length (snd v) < 65535 else length (snd v) = GetTypeSize t))"

lemma SaveValue_written:
  "stream_inv s \<Longrightarrow> stream_room s (length (concat v)) \<Longrightarrow> \<exists>s'. SaveValue s v = Inr s' \<and> written s (concat v) s'"
proof (induction v arbitrary: s)
  case (Cons c v)
  have room: "stream_room s (length c + length (concat v))" using Cons.prems(2) by simp
  then obtain s1 where s1: "stream_Write s c = Inr s1" "written s c s1"
    using written_write [OF Cons.prems(1), of c] by (auto simp: stream_room_def)
  then obtain s2 where s2: "SaveValue s1 v = Inr s2" "written s1 (concat v) s2"
    using Cons.IH [of s1] written_room [OF s1(2) Cons.prems(1) room] by auto
  then show ?case using s1 written_append [OF s1(2) s2(2) Cons.prems(1) room] by simp
qed (simp add: written_nil)

lemma load_components_ahead:
  "map length v = ns \<Longrightarrow> ahead s (concat v @ cs) \<Longrightarrow>
    load_components s ns = Inr (v, stream_Skip s (word_of_nat (length (concat v))))"
proof (induction v arbitrary: s ns)
  case Nil
  then show ?case by (auto simp: stream_Skip_def)
next
  case (Cons c v)
  then obtain ns' where ns: "ns = length c # ns'" "map length v = ns'" by auto
  have a: "ahead s (c @ concat v @ cs)" using Cons.prems(2) by simp
  have "load_components (stream_Skip s (word_of_nat (length c))) ns' =
      Inr (v, stream_Skip s (word_of_nat (length c + length (concat v))))"
    using Cons.IH [OF ns(2) ahead_skip [OF a]] unfolding skip_skip by simp
  then show ?case using read_ahead(1) [OF a] ns(1) by simp
qed

lemma LoadValue_ahead:
  "map length v = components t \<Longrightarrow> ahead s (concat v @ cs) \<Longrightarrow>
    LoadValue t s = Inr (v, stream_Skip s (word_of_nat (length (concat v))))"
  unfolding LoadValue_def by (rule load_components_ahead)

lemma two_writes:
  assumes "stream_inv s" and "stream_room s (length a + length b)"
  shows "\<exists>s1 s2. stream_Write s a = Inr s1 \<and> stream_Write s1 b = Inr s2 \<and> written s (a @ b) s2"
proof -
  have "stream_room s (length a)" using assms(2) by (simp add: stream_room_def)
  then obtain s1 where s1: "stream_Write s a = Inr s1" "written s a s1" using written_write [OF assms(1), of a] by blast
  then have "stream_inv s1 \<and> stream_room s1 (length b)" using written_room [OF s1(2) assms] by blast
  then obtain s2 where "stream_Write s1 b = Inr s2" "written s1 b s2" using written_write [of s1 b] by blast
  then show ?thesis using s1 written_append [OF s1(2) _ assms] by blast
qed

lemma short_size:
  assumes "n < 2 ^ 15"
  shows "unat (word_of_nat n :: u16) = n" "unat (scast (word_of_nat n :: u16) :: u64) = n"
proof -
  show u: "unat (word_of_nat n :: u16) = n" using assms by (intro unat_of_nat_small) simp
  have "sint (word_of_nat n :: u16) = int n" using assms by (simp add: signed_of_nat signed_take_bit_int_eq_self)
  then have "(scast (word_of_nat n :: u16) :: u64) = word_of_nat n" by (simp only: scast_eq of_int_of_nat_eq)
  then show "unat (scast (word_of_nat n :: u16) :: u64) = n" using assms by (simp add: unat_of_nat_small)
qed

lemma SaveShortString_written:
  assumes "length str < 2 ^ 15" and "stream_inv s" and "stream_room s (2 + length str)"
  shows "\<exists>s'. SaveShortString s str = Inr s' \<and> written s (le_bytes 2 (length str) @ str) s'"
  using two_writes [of s "le_bytes 2 (length str)" str] assms short_size [OF assms(1)]
  by (auto simp: SaveShortString_def)

lemma length_concat_chunks: "\<forall>c \<in> set v. length c = w \<Longrightarrow> length (concat v) = w * length v"
  by (induction v) simp_all

lemma chunks_concat: "\<forall>c \<in> set v. length c = w \<Longrightarrow> chunks w (length v) (concat v) = v"
  by (induction v) simp_all

lemma SaveUnicodeString_written:
  assumes "length str < 2 ^ 15" and "\<forall>c \<in> set str. length c = 4" and "stream_inv s" and "stream_room s (2 + length (concat str))"
  shows "\<exists>s'. SaveUnicodeString s str = Inr s' \<and> written s (le_bytes 2 (length str) @ concat str) s'"
proof -
  have l: "length (concat str) = 4 * length str" using assms(2) by (rule length_concat_chunks)
  have "unat ((scast (word_of_nat (length str) :: u16) :: u64) * 4) = length (concat str)"
    using short_size(2) [OF assms(1)] assms(1) l by (simp add: unat_word_ariths)
  then show ?thesis using two_writes [of s "le_bytes 2 (length str)" "concat str"] assms short_size [OF assms(1)] l
    by (auto simp: SaveUnicodeString_def Let_def)
qed

lemma SaveVector_written:
  assumes "stream_inv s" and "stream_room s (8 + length (concat v))"
  shows "\<exists>s'. SaveVector s v = Inr s' \<and> written s (le_bytes 8 (length v) @ concat v) s'"
proof (cases "v = []")
  case True
  have "stream_room s (length (le_bytes 8 0))" using assms(2) by (simp add: stream_room_def)
  then obtain s1 where "stream_Write s (le_bytes 8 0) = Inr s1" "written s (le_bytes 8 0) s1"
    using written_write [OF assms(1), of "le_bytes 8 0"] by blast
  then show ?thesis using True by (simp add: SaveVector_def)
next
  case False
  then show ?thesis using two_writes [of s "le_bytes 8 (length v)" "concat v"] assms by (auto simp: SaveVector_def)
qed

lemma SaveAny_written:
  assumes "item_ok lp64 (Any (Some v))" and "stream_inv s" and "stream_room s (length (item_bytes (Any (Some v))))"
  shows "\<exists>s'. SaveAny lp64 s v = Inr s' \<and> written s (item_bytes (Any (Some v))) s'"
proof -
  let ?t = "GetStandardType (fst v)" and ?tag = "le_bytes 2 (type_tag (GetStandardType (fst v)))"
  have room: "stream_room s (length ?tag + length (any_bytes v))" using assms(3) by simp
  then have "stream_room s (length ?tag)" by (simp add: stream_room_def)
  then obtain s1 where s1: "stream_Write s ?tag = Inr s1" "written s ?tag s1" using written_write [OF assms(2), of ?tag] by blast
  then have r1: "stream_inv s1 \<and> stream_room s1 (length (any_bytes v))" using written_room [OF s1(2) assms(2) room] by blast
  have "\<exists>s2. (if ?t = SString then SaveString s1 (snd v) else SaveValue s1 [snd v]) = Inr s2 \<and> written s1 (any_bytes v) s2"
    using r1 two_writes [of s1 "le_bytes 8 (length (snd v))" "snd v"] SaveValue_written [of s1 "[snd v]"]
    by (auto simp: SaveString_def any_bytes_def)
  then obtain s2 where s2: "(if ?t = SString then SaveString s1 (snd v) else SaveValue s1 [snd v]) = Inr s2" "written s1 (any_bytes v) s2"
    by blast
  have "SaveAny lp64 s v = Inr s2" using s1 s2(1) assms(1) by (simp add: SaveAny_def Let_def)
  then show ?thesis using written_append [OF s1(2) s2(2) assms(2) room] by simp
qed

lemma item_written:
  assumes "item_ok lp64 v" and "stream_inv s" and "stream_room s (length (item_bytes v))"
  shows "\<exists>s'. Marshal_Write lp64 s v = Inr s' \<and> written s (item_bytes v) s'"
proof (cases v)
  case (Any a)
  show ?thesis
  proof (cases a)
    case None
    have "stream_room s (length (concat [le_bytes 2 0]))" using assms(3) Any None by simp
    then show ?thesis using SaveValue_written [OF assms(2), of "[le_bytes 2 0]"] Any None by (auto simp: SaveAny_def)
  next
    case (Some w)
    then show ?thesis using SaveAny_written [of lp64 w s] assms Any by simp
  qed
qed (use assms SaveValue_written SaveShortString_written SaveUnicodeString_written SaveVector_written in auto)

lemma LoadStr_ahead:
  assumes "length str < 65535" and "ahead s (le_bytes 8 (length str) @ str @ cs)"
  shows "LoadStr s = Inr (str, stream_Skip s (word_of_nat (8 + length str)))"
  using assms(1) read_ahead(2) [OF assms(2)] read_ahead(1) [OF ahead_skip [OF assms(2)]] skip_skip [of s 8 "length str"]
  by (simp add: LoadStr_def le_nat_le_bytes)

lemma tag_type_tag: "t \<noteq> StandardOther \<Longrightarrow> tag_type (type_tag t) = t"
  by (cases t) (simp_all add: tag_type_def)

lemma type_tag_small: "type_tag t < 256 ^ 2"
  by (cases t) simp_all

lemma GetStandardType_not_other: "GetStandardType a \<noteq> StandardOther"
  by (cases a) simp_all

lemma LoadAny_ahead:
  assumes "item_ok lp64 (Any (Some v))" and "ahead s (item_bytes (Any (Some v)) @ cs)"
  shows "LoadAny lp64 s = Inr (Some v, stream_Skip s (word_of_nat (length (item_bytes (Any (Some v))))))"
proof -
  let ?t = "GetStandardType (fst v)"
  have a: "ahead s (le_bytes 2 (type_tag ?t) @ any_bytes v @ cs)" using assms(2) by simp
  let ?s1 = "stream_Skip s (word_of_nat 2)"
  have tag: "LoadValue (Number 2) s = Inr ([le_bytes 2 (type_tag ?t)], ?s1)"
    using LoadValue_ahead [of "[le_bytes 2 (type_tag ?t)]" "Number 2" s "any_bytes v @ cs"] a by simp
  have a1: "ahead ?s1 (any_bytes v @ cs)" using ahead_skip [OF a] by simp
  have ty: "tag_type (le_nat (le_bytes 2 (type_tag ?t))) = ?t"
    unfolding le_nat_le_bytes [OF type_tag_small] by (rule tag_type_tag) (rule GetStandardType_not_other)
  show ?thesis
  proof (cases "?t = SString")
    case True
    then have "any_bytes v = le_bytes 8 (length (snd v)) @ snd v" by (simp add: any_bytes_def)
    then show ?thesis using LoadStr_ahead [of "snd v" ?s1 cs] a1 assms(1) True tag ty skip_skip [of s 2 "8 + length (snd v)"]
      by (cases v) (simp add: LoadAny_def Let_def)
  next
    case False
    then have b: "any_bytes v = snd v" by (simp add: any_bytes_def)
    have "LoadValue (Number (GetTypeSize ?t)) ?s1 = Inr ([snd v], stream_Skip ?s1 (word_of_nat (length (snd v))))"
      using LoadValue_ahead [of "[snd v]" "Number (GetTypeSize ?t)" ?s1 cs] a1 b False assms(1) by (simp add: Let_def)
    then show ?thesis using assms(1) False tag ty b skip_skip [of s 2 "length (snd v)"] GetStandardType_not_other [of "fst v"]
      by (cases v) (simp add: LoadAny_def Let_def)
  qed
qed

lemma item_read:
  assumes "item_ok lp64 v" and "ahead s (item_bytes v @ cs)"
  shows "Marshal_Read lp64 (type_of_item v) s = Inr (v, stream_Skip s (word_of_nat (length (item_bytes v))))"
proof (cases v)
  case (Value t x)
  then show ?thesis using LoadValue_ahead [of x t s cs] assms by simp
next
  case (Str str)
  then have a: "ahead s (le_bytes 2 (length str) @ str @ cs)" and l: "length str < 2 ^ 15" using assms by simp_all
  show ?thesis using Str l read_ahead(2) [OF a] read_ahead(1) [OF ahead_skip [OF a]] skip_skip [of s 2 "length str"]
    by (simp add: LoadShortStr_def le_nat_le_bytes)
next
  case (Unicode str)
  then have a: "ahead s (le_bytes 2 (length str) @ concat str @ cs)" and l: "length str < 2 ^ 15" "\<forall>c \<in> set str. length c = 4"
    using assms by simp_all
  show ?thesis using Unicode l read_ahead(2) [OF a] read_ahead(1) [OF ahead_skip [OF a]] skip_skip [of s 2 "length (concat str)"]
      length_concat_chunks [OF l(2)]
    by (simp add: LoadUnicodeString_def le_nat_le_bytes chunks_concat mult.commute)
next
  case (Vec w x)
  then have a: "ahead s (le_bytes 8 (length x) @ concat x @ cs)" and l: "length x * w < 2 ^ 63" "length x < 2 ^ 64" "\<forall>c \<in> set x. length c = w"
    using assms by simp_all
  show ?thesis using Vec l read_ahead(2) [OF a] read_ahead(1) [OF ahead_skip [OF a]] skip_skip [of s 8 "length (concat x)"]
      length_concat_chunks [OF l(3)]
    by (cases "x = []") (simp_all add: LoadVector_def le_nat_le_bytes chunks_concat mult.commute Let_def)
next
  case (Any a)
  show ?thesis
  proof (cases a)
    case None
    then show ?thesis using LoadValue_ahead [of "[le_bytes 2 0]" "Number 2" s cs] assms Any
      by (simp add: LoadAny_def le_nat_le_bytes tag_type_def)
  next
    case (Some w)
    then show ?thesis using LoadAny_ahead [of lp64 w s cs] assms Any by simp
  qed
qed

interpretation marshal: codec item_bytes "Marshal_Write lp64" "Marshal_Read lp64" type_of_item "item_ok lp64" for lp64
  by unfold_locales (use item_written item_read in blast)+

section \<open>Properties\<close>



text \<open>A value written against a default is read back against the same default, whether it equals it
  or not.\<close>

theorem marshal_default_roundtrip:
  assumes "item_ok lp64 v" and "type_of_item v = type_of_item d" and "stream_inv s" and "stream_room s (1 + length (item_bytes v))"
  shows "\<exists>s'. Marshal_Write_default lp64 s v d = Inr s' \<and>
    Marshal_Read_default lp64 d (stream_SetPosition s' (s_pos s)) = Inr (v, s')"
proof -
  have r1: "stream_room s (length (concat [[b :: u8]]))" for b using assms(4) by (simp add: stream_room_def)
  have skip: "stream_Skip (stream_SetPosition s' (s_pos s)) (word_of_nat (length bs)) = s'" if "written s bs s'" for s' bs
    using that by (simp add: written_def stream_Skip_def stream_SetPosition_def)
  have tag: "LoadValue (Number 1) (stream_SetPosition s' (s_pos s)) = Inr ([[b]], stream_Skip (stream_SetPosition s' (s_pos s)) (word_of_nat 1))"
    if "ahead (stream_SetPosition s' (s_pos s)) ([b] @ cs)" for s' b cs
    using LoadValue_ahead [of "[[b]]" "Number 1" "stream_SetPosition s' (s_pos s)" cs] that by simp
  show ?thesis
  proof (cases "v = d")
    case True
    obtain s1 where s1: "SaveValue s [[1]] = Inr s1" "written s (concat [[1]]) s1" using SaveValue_written [OF assms(3) r1] by blast
    have "ahead (stream_SetPosition s1 (s_pos s)) ([1] @ [])" using written_ahead [OF s1(2) assms(3) r1] by simp
    then show ?thesis using True s1 tag [of s1 1 "[]"] skip [OF s1(2)]
      by (simp add: Marshal_Write_default_def Marshal_Read_default_def)
  next
    case False
    obtain s1 where s1: "SaveValue s [[0]] = Inr s1" "written s (concat [[0]]) s1" using SaveValue_written [OF assms(3) r1] by blast
    have room: "stream_room s (length (concat [[0 :: u8]]) + length (item_bytes v))" using assms(4) by simp
    from written_room [OF s1(2) assms(3) room] obtain s2 where s2: "Marshal_Write lp64 s1 v = Inr s2" "written s1 (item_bytes v) s2"
      using item_written [OF assms(1)] by blast
    have w: "written s (concat [[0]] @ item_bytes v) s2" by (rule written_append [OF s1(2) s2(2) assms(3) room])
    have a: "ahead (stream_SetPosition s2 (s_pos s)) ([0] @ item_bytes v @ [])"
      using written_ahead [OF w assms(3)] room by simp
    have "Marshal_Read lp64 (type_of_item v) (stream_Skip (stream_SetPosition s2 (s_pos s)) (word_of_nat 1)) =
        Inr (v, stream_Skip (stream_SetPosition s2 (s_pos s)) (word_of_nat (1 + length (item_bytes v))))"
      using item_read [OF assms(1) ahead_skip [OF a]] unfolding skip_skip by simp
    then show ?thesis using False s1 s2 tag [OF a] skip [OF w] assms(2)
      by (simp add: Marshal_Write_default_def Marshal_Read_default_def)
  qed
qed

lemma marshal_default_roundtrip_witness:
  "\<exists>s'. Marshal_Write_default True stream_default (Str [104]) (Str []) = Inr s' \<and>
    Marshal_Read_default True (Str []) (stream_SetPosition s' 0) = Inr (Str [104], s')"
  using marshal_default_roundtrip [of True "Str [104]" "Str []" stream_default] stream_inv_default
  by (simp add: stream_room_def stream_default_def)

text \<open>A stream survives its Base64 text: loading it gives a stream of the same bytes, at position 0.\<close>

theorem marshal_base64_roundtrip:
  assumes "stream_inv s" and "content s = map Some bs" and "length bs \<le> 3 * (2 ^ 29 - 1)"
  shows "\<exists>e. ToBase64 s = Inr e \<and> LoadFromBase64 e = Inr (stream_of_string bs) \<and> content (stream_of_string bs) = content s"
proof -
  have n: "unat (word_of_nat (length bs) :: u64) = length bs" using assms(3) by (intro unat_of_nat_small) simp
  obtain e where "Base64Encode bs = Inr e" "Base64Decode e = Inr bs"
    using assms(3) Base64Encode_ref [of bs] Base64Decode_small [of "base64_ref bs"] decode_ref [of bs "[]"] length_base64_ref [of bs]
    by auto
  then show ?thesis using assms(1,2) ToString_content [OF assms(1)] n
    by (simp add: ToBase64_def LoadFromBase64_def content_def stream_of_string_def)
qed

lemma marshal_base64_roundtrip_witness:
  "\<exists>e. ToBase64 (stream_of_string [77, 97]) = Inr e \<and> LoadFromBase64 e = Inr (stream_of_string [77, 97])"
  using marshal_base64_roundtrip [of "stream_of_string [77, 97]" "[77, 97]"]
  by (auto simp: stream_inv_def stream_of_string_def content_def block_length_def)



text \<open>A \<open>char\<close> gets the tag of \<open>int8_t\<close>, to which it cannot be cast: the tag is written, the value is not.\<close>

lemma marshal_any_char:
  "SaveAny lp64 s (AnyChar, [c]) = SaveValue s [le_bytes 2 2]"
  by (simp add: SaveAny_def Let_def bind_res_def split: sum.split)

end
