(* ===== verification/SR_Resources.thy ===== *)
theory SR_Resources
  imports SR_Hash_Manager
begin

text \<open>
  Resources (Resources/IResource.h, .cpp), the graph of their dependencies
  (Resources/ResourceContainer.cpp), the tables of the resources of one type
  (Resources/ResourceInfo.cpp), the manager that finds, revives and collects them
  (Resources/ResourceManager.cpp), and the watchers of their files (Resources/FileWatcher.cpp).

  All objects live in the state of the manager: resources on a heap of addresses, shared
  \<open>ResourceInfo\<close> blocks and watchers in lists that give them their identity. A \<open>std::weak_ptr\<close> is the
  index of a block, and \<open>lock\<close> fails when the tables, its only owners, have dropped it. An unordered
  set is the list of its elements in the order of iteration; no theorem depends on that order. The
  calls are atomic: each takes the manager's lock. The virtual methods are those of the base class; what
  a class answers about itself (\<open>IsFileResource\<close>, \<open>IsAllowedToRevive\<close>) is a field. What the file system
  knows is a parameter \<open>env\<close>. Profiling and log messages are left out.
\<close>

section \<open>The state\<close>

type_synonym addr = nat

datatype load_state = LS_Unknown | LS_Loaded | LS_Reloading | LS_Loading | LS_Unloading | LS_Unloaded | LS_Error

datatype remove_result = RU_Delete | RU_Destroy | RU_Success | RU_Error

record resource =
  r_hashName :: u64
  r_loadState :: load_state
  r_countUses :: u16
  r_isFromMemory :: bool
  r_watchers :: "nat list"
  r_info :: "nat option"
  r_resourceHash :: u64
  r_id :: bytes
  r_path :: bytes
  r_reloadCount :: u16
  r_lifetime :: u64
  r_isForceDestroyed :: bool
  r_isDestroyed :: bool
  r_isRegistered :: bool
  r_deleteVerify :: bool
  r_parents :: "addr list"
  r_dependencies :: "addr list"
  r_isFile :: bool
  r_allowedToRevive :: bool

record resource_info =
  i_type :: u64
  i_hash :: u64
  i_path :: bytes
  i_loaded :: "addr list"

record resource_type =
  t_resources :: "addr list"
  t_copies :: "bytes \<rightharpoonup> addr list"
  t_info :: "bytes \<rightharpoonup> nat"

record watcher =
  w_path :: bytes
  w_isActive :: bool
  w_isInit :: bool
  w_isDirty :: bool
  w_isPaused :: bool
  w_owner :: "addr option"
  w_lastWriteTime :: u64
  w_hash :: u64

record manager =
  m_objs :: "addr \<rightharpoonup> resource"
  m_infos :: "resource_info option list"
  m_files :: "watcher list"
  m_destroyed :: "addr list"
  m_types :: "(u64 \<times> resource_type) list"
  m_watchers :: "nat list"
  m_dirtyWatchers :: "nat list"
  m_dirtyResources :: "nat option list"
  m_force :: bool
  m_GCDt :: u64
  m_reloaded :: "addr list"          \<comment> \<open>who broadcast \<open>ReloadDone\<close>\<close>
  m_updated :: "(addr \<times> addr \<times> int) list"   \<comment> \<open>the calls of \<open>OnResourceUpdated\<close>\<close>

record env =
  e_path :: "bytes \<Rightarrow> bytes"          \<comment> \<open>\<open>Path(id)\<close> as text\<close>
  e_full :: "bytes \<Rightarrow> bytes"          \<comment> \<open>the resource folder with a path appended\<close>
  e_watchable :: "bytes \<Rightarrow> bool"      \<comment> \<open>it is a file, and not the resource folder\<close>
  e_hash :: "bytes \<Rightarrow> u64"
  e_writeTime :: "bytes \<Rightarrow> u64"
  e_stack :: nat                      \<comment> \<open>how deep \<open>UpdateResources\<close> may recurse\<close>

text \<open>\<open>30 * SR_CLOCKS_PER_SEC\<close>, with clocks of a millisecond.\<close>

definition ResourceLifeTime :: u64 where
  "ResourceLifeTime = 30 * 1000"

definition get :: "manager \<Rightarrow> addr \<Rightarrow> resource result" where
  "get s a = (case m_objs s a of None \<Rightarrow> Inl DanglingPointer | Some r \<Rightarrow> Inr r)"

definition put :: "manager \<Rightarrow> addr \<Rightarrow> resource \<Rightarrow> manager" where
  "put s a r = s\<lparr>m_objs := (m_objs s)(a \<mapsto> r)\<rparr>"

text \<open>\<open>std::unordered_set::insert\<close> and \<open>erase\<close>.\<close>

definition set_insert :: "'a \<Rightarrow> 'a list \<Rightarrow> 'a list" where
  "set_insert x xs = (if x \<in> set xs then xs else xs @ [x])"

definition set_erase :: "'a \<Rightarrow> 'a list \<Rightarrow> 'a list" where
  "set_erase x xs = filter (\<lambda>y. y \<noteq> x) xs"

text \<open>An iterator to a missing key is dereferenced.\<close>

definition type_at :: "manager \<Rightarrow> u64 \<Rightarrow> resource_type result" where
  "type_at s h = (case map_of (m_types s) h of None \<Rightarrow> Inl UndefinedOp | Some t \<Rightarrow> Inr t)"

definition set_type :: "manager \<Rightarrow> u64 \<Rightarrow> resource_type \<Rightarrow> manager" where
  "set_type s h t = s\<lparr>m_types := map (\<lambda>(k, u). if k = h then (k, t) else (k, u)) (m_types s)\<rparr>"

section \<open>Watchers\<close>

definition FileWatcher_new :: "bytes \<Rightarrow> watcher" where
  "FileWatcher_new path = \<lparr>w_path = path, w_isActive = True, w_isInit = False, w_isDirty = False, w_isPaused = False,
     w_owner = None, w_lastWriteTime = 0, w_hash = -1\<rparr>"

definition watch_upd :: "nat \<Rightarrow> (watcher \<Rightarrow> watcher) \<Rightarrow> manager \<Rightarrow> manager" where
  "watch_upd w f s = s\<lparr>m_files := (m_files s)[w := f (m_files s ! w)]\<rparr>"

definition StopAll :: "nat list \<Rightarrow> manager \<Rightarrow> manager" where
  "StopAll ws s = fold (\<lambda>w. watch_upd w (w_isActive_update (\<lambda>_. False))) ws s"

definition PauseAll :: "bool \<Rightarrow> nat list \<Rightarrow> manager \<Rightarrow> manager" where
  "PauseAll b ws s = fold (\<lambda>w. watch_upd w (w_isPaused_update (\<lambda>_. b))) ws s"

definition manager_StartWatch :: "env \<Rightarrow> manager \<Rightarrow> bytes \<Rightarrow> nat option \<times> manager" where
  "manager_StartWatch env s path =
     (if \<not> e_watchable env path then (None, s)
      else let w = length (m_files s) in
        (Some w, s\<lparr>m_files := m_files s @ [FileWatcher_new path], m_watchers := m_watchers s @ [w]\<rparr>))"

definition StartWatch :: "env \<Rightarrow> manager \<Rightarrow> addr \<Rightarrow> manager result" where
  "StartWatch env s a =
     bind_res (get s a) (\<lambda>r.
     if r_isFromMemory r \<or> \<not> r_isFile r then Inr s
     else case manager_StartWatch env s (e_full env (r_path r)) of
       (None, s1) \<Rightarrow> Inr s1
     | (Some w, s1) \<Rightarrow>
         Inr (put (watch_upd w (w_owner_update (\<lambda>_. Some a)) s1) a (r\<lparr>r_watchers := r_watchers r @ [w]\<rparr>)))"

definition StopWatch :: "manager \<Rightarrow> addr \<Rightarrow> manager result" where
  "StopWatch s a =
     bind_res (get s a) (\<lambda>r. Inr (put (StopAll (r_watchers r) s) a (r\<lparr>r_watchers := []\<rparr>)))"

text \<open>The first read only takes the hash. The time is kept in 32 bits; while it is 0 the hash decides.\<close>

definition watcher_Update :: "env \<Rightarrow> watcher \<Rightarrow> bool \<times> watcher" where
  "watcher_Update env w =
     (if \<not> w_isInit w then (False, w\<lparr>w_hash := e_hash env (w_path w), w_isInit := True\<rparr>)
      else
        let t = ucast (ucast (e_writeTime env (w_path w)) :: u32) :: u64; h = e_hash env (w_path w) in
        if w_lastWriteTime w \<noteq> t then
          if w_hash w \<noteq> h then (True, w\<lparr>w_lastWriteTime := t, w_isDirty := True, w_hash := h\<rparr>)
          else (False, w\<lparr>w_lastWriteTime := t\<rparr>)
        else if w_lastWriteTime w = 0 \<and> w_hash w \<noteq> h then (True, w\<lparr>w_isDirty := True, w_hash := h\<rparr>)
        else (False, w))"

definition AsyncUpdateWatchers :: "env \<Rightarrow> bool \<Rightarrow> manager \<Rightarrow> manager" where
  "AsyncUpdateWatchers env enabled s =
     (case m_watchers s of [] \<Rightarrow> s
      | w # ws \<Rightarrow>
          if \<not> enabled then s
          else
            let s1 = s\<lparr>m_watchers := ws\<rparr>; f = m_files s ! w in
            if \<not> w_isActive f then s1
            else
              let s2 = (if \<not> w_isDirty f \<and> \<not> w_isPaused f
                        then case watcher_Update env f of
                               (dirty, f1) \<Rightarrow>
                                 (let s2 = watch_upd w (\<lambda>_. f1) s1 in
                                  if dirty then s2\<lparr>m_dirtyWatchers := m_dirtyWatchers s2 @ [w]\<rparr> else s2)
                        else s1)
              in s2\<lparr>m_watchers := m_watchers s2 @ [w]\<rparr>)"

definition ReloadResource :: "manager \<Rightarrow> addr \<Rightarrow> manager result" where
  "ReloadResource s a = bind_res (get s a) (\<lambda>r. Inr (s\<lparr>m_dirtyResources := m_dirtyResources s @ [r_info r]\<rparr>))"

definition SignalWatch :: "manager \<Rightarrow> addr \<Rightarrow> manager result" where
  "SignalWatch s a =
     bind_res (get s a) (\<lambda>r. if r_isDestroyed r \<or> r_isForceDestroyed r then Inr s else ReloadResource s a)"

definition watcher_Signal :: "manager \<Rightarrow> nat \<Rightarrow> manager result" where
  "watcher_Signal s w =
     (if \<not> w_isDirty (m_files s ! w) then Inr s
      else
        let s1 = watch_upd w (w_isDirty_update (\<lambda>_. False)) s in
        case w_owner (m_files s ! w) of None \<Rightarrow> Inr s1 | Some a \<Rightarrow> SignalWatch s1 a)"

fun update_watchers :: "manager \<Rightarrow> nat list \<Rightarrow> manager result" where
  "update_watchers s [] = Inr (s\<lparr>m_dirtyWatchers := []\<rparr>)"
| "update_watchers s (w # ws) =
     bind_res (if w_isActive (m_files s ! w) \<and> \<not> w_isPaused (m_files s ! w) then watcher_Signal s w else Inr s)
       (\<lambda>s1. update_watchers s1 ws)"

definition UpdateWatchers :: "manager \<Rightarrow> manager result" where
  "UpdateWatchers s = update_watchers s (m_dirtyWatchers s)"

section \<open>The tables of a type\<close>

definition IsLast :: "resource_type \<Rightarrow> bytes \<Rightarrow> bool" where
  "IsLast t i = (case t_copies t i of None \<Rightarrow> True | Some c \<Rightarrow> length c = 1)"

definition IsLastResource :: "manager \<Rightarrow> addr \<Rightarrow> bool result" where
  "IsLastResource s a =
     bind_res (get s a) (\<lambda>r. bind_res (type_at s (r_hashName r)) (\<lambda>t. Inr (IsLast t (r_id r))))"

text \<open>\<open>m_copies[id].insert\<close>: a missing entry is made first.\<close>

definition copies_insert :: "(bytes \<rightharpoonup> addr list) \<Rightarrow> bytes \<Rightarrow> addr \<Rightarrow> (bytes \<rightharpoonup> addr list)" where
  "copies_insert m i a = m(i \<mapsto> set_insert a (case m i of None \<Rightarrow> [] | Some c \<Rightarrow> c))"

text \<open>The block for the path, an old one or a new one, with the resource in it.\<close>

definition info_for :: "manager \<Rightarrow> resource \<Rightarrow> resource_type \<Rightarrow> nat \<times> resource_info option list" where
  "info_for s r t =
     (case t_info t (r_path r) of
        Some k \<Rightarrow> (k, m_infos s)
      | None \<Rightarrow> (length (m_infos s),
          m_infos s @ [Some \<lparr>i_type = r_hashName r, i_hash = r_resourceHash r, i_path = r_path r, i_loaded = []\<rparr>]))"

definition info_upd :: "resource_info option list \<Rightarrow> nat \<Rightarrow> (addr list \<Rightarrow> addr list) \<Rightarrow> resource_info option list" where
  "info_upd blocks k f = blocks[k := map_option (i_loaded_update f) (blocks ! k)]"

definition type_Add :: "manager \<Rightarrow> addr \<Rightarrow> manager result" where
  "type_Add s a =
     bind_res (get s a) (\<lambda>r. bind_res (type_at s (r_hashName r)) (\<lambda>t.
     if r_path r = [] \<and> r_isFile r then Inr s
     else case info_for s r t of (k, blocks) \<Rightarrow>
       let t1 = t\<lparr>t_copies := copies_insert (t_copies t) (r_id r) a, t_resources := set_insert a (t_resources t),
                  t_info := (t_info t)(r_path r \<mapsto> k)\<rparr>;
           s1 = set_type (s\<lparr>m_infos := info_upd blocks k (set_insert a)\<rparr>) (r_hashName r) t1 in
       Inr (put s1 a (r\<lparr>r_isRegistered := True, r_info := Some k\<rparr>))))"

definition type_Remove :: "manager \<Rightarrow> addr \<Rightarrow> manager result" where
  "type_Remove s a =
     bind_res (get s a) (\<lambda>r. bind_res (type_at s (r_hashName r)) (\<lambda>t.
     case t_copies t (r_id r) of
       None \<Rightarrow> Inr s
     | Some c \<Rightarrow>
         let c1 = set_erase a c; copies = (t_copies t)(r_id r := if c1 = [] then None else Some c1) in
         case t_info t (r_path r) of
           None \<Rightarrow> Inl Exception
         | Some k \<Rightarrow>
             let blocks = info_upd (m_infos s) k (set_erase a);
                 empty = (case blocks ! k of None \<Rightarrow> True | Some i \<Rightarrow> i_loaded i = []);
                 t1 = t\<lparr>t_copies := copies, t_info := (if empty then (t_info t)(r_path r := None) else t_info t),
                        t_resources := set_erase a (t_resources t)\<rparr>
             in Inr (set_type (s\<lparr>m_infos := if empty then blocks[k := None] else blocks\<rparr>) (r_hashName r) t1)))"

definition RegisterType :: "manager \<Rightarrow> u64 \<Rightarrow> bool \<times> manager" where
  "RegisterType s h =
     (if map_of (m_types s) h \<noteq> None then (False, s)
      else (True, s\<lparr>m_types := m_types s @ [(h, \<lparr>t_resources = [], t_copies = Map.empty, t_info = Map.empty\<rparr>)]\<rparr>))"

definition RegisterResource :: "env \<Rightarrow> manager \<Rightarrow> addr \<Rightarrow> manager result" where
  "RegisterResource env s a = bind_res (StartWatch env s a) (\<lambda>s1. type_Add s1 a)"

text \<open>\<open>new\<close> of a resource class, and the identity of the object.\<close>

definition IResource_new :: "manager \<Rightarrow> addr \<Rightarrow> u64 \<Rightarrow> bool \<Rightarrow> bool \<Rightarrow> manager" where
  "IResource_new s a h isFile revives =
     put s a \<lparr>r_hashName = h, r_loadState = LS_Unknown, r_countUses = 0, r_isFromMemory = False, r_watchers = [],
       r_info = None, r_resourceHash = 0, r_id = [], r_path = [], r_reloadCount = 0, r_lifetime = ResourceLifeTime,
       r_isForceDestroyed = False, r_isDestroyed = False, r_isRegistered = False, r_deleteVerify = False,
       r_parents = [], r_dependencies = [], r_isFile = isFile, r_allowedToRevive = revives\<rparr>"

definition SetId :: "env \<Rightarrow> manager \<Rightarrow> addr \<Rightarrow> bytes \<Rightarrow> bool \<Rightarrow> manager result" where
  "SetId env s a i autoRegister =
     bind_res (get s a) (\<lambda>r.
     if r_id r = [] then
       let s1 = put s a (r\<lparr>r_id := i, r_path := e_path env i\<rparr>) in
       if autoRegister then RegisterResource env s1 a else Inr s1
     else Inr s)"

definition CopyResource :: "env \<Rightarrow> manager \<Rightarrow> addr \<Rightarrow> addr \<Rightarrow> manager result" where
  "CopyResource env s a d =
     bind_res (get s a) (\<lambda>r. bind_res (get s d) (\<lambda>q.
     SetId env (put s d (q\<lparr>r_path := r_path r, r_loadState := r_loadState r\<rparr>)) d (r_id r) True))"

section \<open>Loading and unloading\<close>

definition Unload :: "manager \<Rightarrow> addr \<Rightarrow> (bool \<times> manager) result" where
  "Unload s a =
     bind_res (get s a) (\<lambda>r.
     if r_loadState r \<in> {LS_Unknown, LS_Loaded, LS_Unloading, LS_Reloading}
     then Inr (True, put s a (r\<lparr>r_loadState := LS_Unloaded\<rparr>))
     else Inr (False, PauseAll True (r_watchers r) s))"

definition Load :: "manager \<Rightarrow> addr \<Rightarrow> (bool \<times> manager) result" where
  "Load s a =
     bind_res (get s a) (\<lambda>r.
     if r_loadState r \<in> {LS_Unknown, LS_Unloaded, LS_Reloading, LS_Loading}
     then Inr (True, put s a (r\<lparr>r_loadState := LS_Loaded\<rparr>))
     else Inr (False, PauseAll False (r_watchers r) s))"

text \<open>\<open>OnResourceUpdated\<close> of the base class only passes the call on, one level further in the same
  direction. Its calls are recorded; the first argument bounds the depth of the recursion.\<close>

fun concat_res :: "'a list result list \<Rightarrow> 'a list result" where
  "concat_res [] = Inr []"
| "concat_res (x # xs) = bind_res x (\<lambda>ys. bind_res (concat_res xs) (\<lambda>zs. Inr (ys @ zs)))"

fun UpdateResources :: "nat \<Rightarrow> manager \<Rightarrow> addr \<Rightarrow> int \<Rightarrow> (addr \<times> addr \<times> int) list result" where
  "UpdateResources 0 s a depth = Inl OutOfFuel"
| "UpdateResources (Suc n) s a depth =
     bind_res (get s a) (\<lambda>r.
     bind_res (if depth \<ge> 0
               then concat_res (map (\<lambda>p. bind_res (UpdateResources n s p (if depth + 1 > 0 then depth + 1 + 1 else depth + 1 - 1))
                      (\<lambda>tr. Inr ((p, a, depth + 1) # tr))) (r_parents r))
               else Inr []) (\<lambda>up.
     bind_res (if depth \<le> 0
               then concat_res (map (\<lambda>c. bind_res (UpdateResources n s c (if depth - 1 > 0 then depth - 1 + 1 else depth - 1 - 1))
                      (\<lambda>tr. Inr ((c, a, depth - 1) # tr))) (r_dependencies r))
               else Inr []) (\<lambda>down.
     Inr (up @ down))))"

definition Reload :: "env \<Rightarrow> manager \<Rightarrow> addr \<Rightarrow> (bool \<times> manager) result" where
  "Reload env s a =
     bind_res (get s a) (\<lambda>r.
     bind_res (Unload (put s a (r\<lparr>r_loadState := LS_Reloading\<rparr>)) a) (\<lambda>(_, s1).
     bind_res (Load s1 a) (\<lambda>(loaded, s2).
     bind_res (get s2 a) (\<lambda>r2.
     if \<not> loaded then Inr (False, put s2 a (r2\<lparr>r_loadState := LS_Error\<rparr>))
     else
       let s3 = put s2 a (r2\<lparr>r_loadState := LS_Loaded\<rparr>) in
       bind_res (UpdateResources (e_stack env) s3 a 0) (\<lambda>tr.
       Inr (True, put (s3\<lparr>m_updated := m_updated s3 @ tr, m_reloaded := m_reloaded s3 @ [a]\<rparr>) a
                    (r2\<lparr>r_loadState := LS_Loaded, r_reloadCount := r_reloadCount r2 + 1\<rparr>)))))))"

definition IsResourceSuitableForReload :: "resource \<Rightarrow> bool" where
  "IsResourceSuitableForReload r \<longleftrightarrow>
     \<not> r_isDestroyed r \<and> r_loadState r \<notin> {LS_Reloading, LS_Loading, LS_Unloading}"

fun reload_all :: "env \<Rightarrow> manager \<Rightarrow> addr list \<Rightarrow> manager result" where
  "reload_all env s [] = Inr s"
| "reload_all env s (a # as) =
     bind_res (get s a) (\<lambda>r.
     bind_res (if IsResourceSuitableForReload r then Reload env s a else Inr (False, s)) (\<lambda>(_, s1).
     reload_all env s1 as))"

text \<open>\<open>lock\<close> of the weak pointers in the queue.\<close>

definition lock_info :: "manager \<Rightarrow> nat option \<Rightarrow> resource_info option" where
  "lock_info s w = (case w of None \<Rightarrow> None | Some k \<Rightarrow> if k < length (m_infos s) then m_infos s ! k else None)"

fun reload_resources :: "env \<Rightarrow> manager \<Rightarrow> nat option list \<Rightarrow> manager result" where
  "reload_resources env s [] = Inr (s\<lparr>m_dirtyResources := []\<rparr>)"
| "reload_resources env s (w # ws) =
     (case lock_info s w of
        None \<Rightarrow> reload_resources env s ws
      | Some i \<Rightarrow>
          if i_path i = [] then reload_resources env s ws
          else bind_res (reload_all env s (i_loaded i)) (\<lambda>s1. reload_resources env s1 ws))"

definition ReloadResources :: "env \<Rightarrow> manager \<Rightarrow> manager result" where
  "ReloadResources env s = reload_resources env s (m_dirtyResources s)"

section \<open>Uses and destruction\<close>

text \<open>The manager's list of the resources that wait for their destruction.\<close>

definition manager_Destroy :: "manager \<Rightarrow> addr \<Rightarrow> bool \<times> manager" where
  "manager_Destroy s a =
     (if a \<in> set (m_destroyed s) then (False, s) else (True, s\<lparr>m_destroyed := m_destroyed s @ [a]\<rparr>))"

definition Destroy :: "manager \<Rightarrow> addr \<Rightarrow> manager result" where
  "Destroy s a =
     bind_res (get s a) (\<lambda>r. Inr (snd (manager_Destroy (put s a (r\<lparr>r_isDestroyed := True\<rparr>)) a)))"

definition ForceDestroy :: "manager \<Rightarrow> addr \<Rightarrow> (bool \<times> manager) result" where
  "ForceDestroy s a =
     bind_res (get s a) (\<lambda>r.
     if r_isForceDestroyed r \<or> r_isDestroyed r then Inr (False, s)
     else bind_res (Destroy (put s a (r\<lparr>r_isForceDestroyed := True\<rparr>)) a) (\<lambda>s1. Inr (True, s1)))"

definition Kill :: "manager \<Rightarrow> addr \<Rightarrow> (bool \<times> manager) result" where
  "Kill s a =
     bind_res (get s a) (\<lambda>r.
     if r_countUses r = 0 then
       bind_res (if \<not> r_isDestroyed r then Destroy s a else Inr s) (\<lambda>s1.
       bind_res (get s1 a) (\<lambda>r1. Inr (True, put s1 a (r1\<lparr>r_lifetime := 0\<rparr>))))
     else Inr (False, s))"

text \<open>The end of an object: the destructor of \<open>ResourceContainer\<close> takes it out of the dependencies of
  its parents. While it runs the object is no \<open>IResource\<close> any more, so no use is given back. A parent
  that does not know it would be asked for ever.\<close>

fun drop_parents :: "nat \<Rightarrow> manager \<Rightarrow> addr \<Rightarrow> manager result" where
  "drop_parents n s a =
     bind_res (get s a) (\<lambda>r.
     case r_parents r of
       [] \<Rightarrow> Inr s
     | p # ps \<Rightarrow>
         bind_res (get s p) (\<lambda>q.
         case n of
           0 \<Rightarrow> Inl OutOfFuel
         | Suc k \<Rightarrow>
             if a \<in> set (r_dependencies q) then
               let s1 = put s p (q\<lparr>r_dependencies := set_erase a (r_dependencies q)\<rparr>) in
               bind_res (get s1 a) (\<lambda>r1.
               drop_parents k (put s1 a (r1\<lparr>r_parents := set_erase p (r_parents r1)\<rparr>)) a)
             else drop_parents k s a))"

declare drop_parents.simps [simp del]

definition delete_object :: "manager \<Rightarrow> addr \<Rightarrow> manager result" where
  "delete_object s a =
     bind_res (get s a) (\<lambda>r.
     bind_res (drop_parents (Suc (length (r_parents r))) s a) (\<lambda>s1.
     Inr (s1\<lparr>m_objs := (m_objs s1)(a := None)\<rparr>)))"

definition DeleteResource :: "manager \<Rightarrow> addr \<Rightarrow> manager result" where
  "DeleteResource s a =
     bind_res (Unload s a) (\<lambda>(_, s1).
     bind_res (StopWatch s1 a) (\<lambda>s2.
     bind_res (get s2 a) (\<lambda>r.
     delete_object (put s2 a (r\<lparr>r_deleteVerify := True\<rparr>)) a)))"

definition AddUsePoint :: "manager \<Rightarrow> addr \<Rightarrow> manager result" where
  "AddUsePoint s a = bind_res (get s a) (\<lambda>r. Inr (put s a (r\<lparr>r_countUses := r_countUses r + 1\<rparr>)))"

definition RemoveUsePoint :: "manager \<Rightarrow> addr \<Rightarrow> (remove_result \<times> manager) result" where
  "RemoveUsePoint s a =
     bind_res (get s a) (\<lambda>r.
     if r_countUses r = 0 then Inr (RU_Error, s)
     else
       let s1 = put s a (r\<lparr>r_countUses := r_countUses r - 1\<rparr>) in
       if r_countUses r - 1 = 0 \<and> \<not> r_isDestroyed r then
         if r_isRegistered r then bind_res (Destroy s1 a) (\<lambda>s2. Inr (RU_Destroy, s2))
         else bind_res (DeleteResource s1 a) (\<lambda>s2. Inr (RU_Delete, s2))
       else Inr (RU_Success, s1))"

definition CheckResourceUsage :: "manager \<Rightarrow> addr \<Rightarrow> manager result" where
  "CheckResourceUsage s a =
     bind_res (get s a) (\<lambda>r.
     if r_countUses r = 0 \<and> \<not> r_isDestroyed r then
       if r_isRegistered r then Destroy s a else DeleteResource s a
     else Inr s)"

definition IsResourceWillBeDeleted :: "resource \<Rightarrow> bool" where
  "IsResourceWillBeDeleted r \<longleftrightarrow> r_countUses r = 1 \<and> \<not> r_isDestroyed r \<and> \<not> r_isRegistered r"

text \<open>Dependencies between resources.\<close>

definition AddDependency :: "manager \<Rightarrow> addr \<Rightarrow> addr \<Rightarrow> manager result" where
  "AddDependency s a c =
     bind_res (AddUsePoint s c) (\<lambda>s1.
     bind_res (get s1 a) (\<lambda>r.
     let s2 = put s1 a (r\<lparr>r_dependencies := set_insert c (r_dependencies r)\<rparr>) in
     bind_res (get s2 c) (\<lambda>q. Inr (put s2 c (q\<lparr>r_parents := set_insert a (r_parents q)\<rparr>)))))"

definition RemoveDependency :: "manager \<Rightarrow> addr \<Rightarrow> addr \<Rightarrow> manager result" where
  "RemoveDependency s a c =
     bind_res (get s a) (\<lambda>r.
     if c \<notin> set (r_dependencies r) then Inr s
     else bind_res (get s c) (\<lambda>q.
     if a \<notin> set (r_parents q) then Inr s
     else
       let s1 = put s a (r\<lparr>r_dependencies := set_erase c (r_dependencies r)\<rparr>) in
       bind_res (get s1 c) (\<lambda>q1.
       bind_res (RemoveUsePoint (put s1 c (q1\<lparr>r_parents := set_erase a (r_parents q1)\<rparr>)) c) (\<lambda>(_, s2). Inr s2))))"

section \<open>Finding and reviving\<close>

definition ReviveResource :: "manager \<Rightarrow> addr \<Rightarrow> (bool \<times> manager) result" where
  "ReviveResource s a =
     bind_res (get s a) (\<lambda>r.
     if \<not> r_isDestroyed r then Inr (True, s)
     else if r_allowedToRevive r then
       if a \<notin> set (m_destroyed s) then Inr (False, s)
       else Inr (True, put (s\<lparr>m_destroyed := remove1 a (m_destroyed s)\<rparr>) a
                         (r\<lparr>r_isDestroyed := False, r_lifetime := ResourceLifeTime\<rparr>))
     else Inr (False, s))"

fun find_copy :: "manager \<Rightarrow> addr list \<Rightarrow> (addr option \<times> manager) result" where
  "find_copy s [] = Inr (None, s)"
| "find_copy s (a # as) =
     bind_res (ReviveResource s a) (\<lambda>(b, s1). if b then Inr (Some a, s1) else find_copy s1 as)"

definition Find :: "manager \<Rightarrow> u64 \<Rightarrow> bytes \<Rightarrow> (addr option \<times> manager) result" where
  "Find s h i =
     bind_res (type_at s h) (\<lambda>t.
     bind_res (case t_copies t i of None \<Rightarrow> Inr (None, s) | Some c \<Rightarrow> find_copy s c) (\<lambda>(found, s1).
     case found of
       None \<Rightarrow> Inr (None, s1)
     | Some a \<Rightarrow> bind_res (get s1 a) (\<lambda>r. Inr (Some a, put s1 a (r\<lparr>r_lifetime := ResourceLifeTime\<rparr>)))))"

section \<open>Collection\<close>

definition CollectUnused :: "manager \<Rightarrow> addr list \<Rightarrow> manager result" where
  "CollectUnused s as =
     fold (\<lambda>a m. bind_res m (\<lambda>s1. bind_res (get s1 a) (\<lambda>r.
       if r_countUses r > 0 \<or> r_isDestroyed r then Inr s1 else Destroy s1 a))) as (Inr s)"

definition Remove :: "manager \<Rightarrow> addr \<Rightarrow> manager result" where
  "Remove s a = bind_res (get s a) (\<lambda>r. if r_isRegistered r then type_Remove s a else Inr s)"

definition IsAlive :: "u64 \<Rightarrow> bool" where
  "IsAlive lifetime \<longleftrightarrow> sint lifetime > 0"

text \<open>The new lifetime of a waiting resource. The 64-bit difference is taken without sign and stored with
  one.\<close>

definition aged :: "manager \<Rightarrow> addr \<Rightarrow> resource \<Rightarrow> u64 result" where
  "aged s a r =
     (if r_countUses r > 0 then Inr ResourceLifeTime
      else bind_res (IsLastResource s a) (\<lambda>last. Inr (if last then r_lifetime r - m_GCDt s else 0)))"

text \<open>The loop of \<open>GC\<close> at position \<open>i\<close> of the list: it starts again at the beginning when an element
  went away.\<close>

fun gc_loop :: "nat \<Rightarrow> manager \<Rightarrow> nat \<Rightarrow> manager result" where
  "gc_loop 0 s i = Inl OutOfFuel"
| "gc_loop (Suc n) s i =
     (if i \<ge> length (m_destroyed s) then Inr s
      else
        let a = m_destroyed s ! i in
        bind_res (get s a) (\<lambda>r.
        if \<not> r_isDestroyed r then gc_loop n (s\<lparr>m_destroyed := vec_erase (m_destroyed s) i\<rparr>) 0
        else
          bind_res (aged s a r) (\<lambda>l.
          let s1 = put s a (r\<lparr>r_lifetime := l\<rparr>) in
          if r_countUses r > 0 \<or> \<not> r_isForceDestroyed r \<and> IsAlive l \<and> \<not> m_force s then gc_loop n s1 (i + 1)
          else
            bind_res (Remove s1 a) (\<lambda>s2.
            bind_res (DeleteResource (s2\<lparr>m_destroyed := vec_erase (m_destroyed s2) i\<rparr>) a) (\<lambda>s3.
            gc_loop n s3 0)))))"

declare gc_loop.simps [simp del]

definition gc_fuel :: "nat \<Rightarrow> nat" where
  "gc_fuel n = Suc n * Suc n"

definition GC :: "manager \<Rightarrow> manager result" where
  "GC s =
     (if m_dirtyResources s \<noteq> [] \<or> m_dirtyWatchers s \<noteq> [] then Inr s
      else if m_destroyed s = [] then Inr s
      else
        bind_res (if m_force s then CollectUnused s (concat (map (t_resources \<circ> snd) (m_types s))) else Inr s) (\<lambda>s1.
        gc_loop (gc_fuel (length (m_destroyed s1))) s1 0))"

section \<open>What the manager keeps true\<close>

definition id_of :: "manager \<Rightarrow> addr \<Rightarrow> bytes" where
  "id_of s a = (case m_objs s a of None \<Rightarrow> [] | Some r \<Rightarrow> r_id r)"

definition path_of :: "manager \<Rightarrow> addr \<Rightarrow> bytes" where
  "path_of s a = (case m_objs s a of None \<Rightarrow> [] | Some r \<Rightarrow> r_path r)"

text \<open>The registered resources of a type.\<close>

definition registered :: "manager \<Rightarrow> u64 \<Rightarrow> addr set" where
  "registered s h = {a. \<exists>r. m_objs s a = Some r \<and> r_isRegistered r \<and> r_hashName r = h}"

definition elems :: "addr list option \<Rightarrow> addr set" where
  "elems c = (case c of None \<Rightarrow> {} | Some xs \<Rightarrow> set xs)"

definition info_ok :: "manager \<Rightarrow> u64 \<Rightarrow> bytes \<Rightarrow> nat option \<Rightarrow> bool" where
  "info_ok s h p k =
     (case k of None \<Rightarrow> {a \<in> registered s h. path_of s a = p} = {}
      | Some k \<Rightarrow> k < length (m_infos s) \<and>
          (case m_infos s ! k of None \<Rightarrow> False
           | Some i \<Rightarrow> i_type i = h \<and> i_path i = p \<and> i_loaded i \<noteq> [] \<and> set (i_loaded i) = {a \<in> registered s h. path_of s a = p}))"

definition type_ok :: "manager \<Rightarrow> u64 \<Rightarrow> resource_type \<Rightarrow> bool" where
  "type_ok s h t \<longleftrightarrow>
     set (t_resources t) = registered s h \<and>
     (\<forall>i. t_copies t i \<noteq> Some [] \<and> elems (t_copies t i) = {a \<in> registered s h. id_of s a = i}) \<and>
     (\<forall>p. info_ok s h p (t_info t p))"

definition tables_ok :: "manager \<Rightarrow> bool" where
  "tables_ok s \<longleftrightarrow>
     distinct (map fst (m_types s)) \<and>
     (\<forall>a r. m_objs s a = Some r \<longrightarrow> map_of (m_types s) (r_hashName r) \<noteq> None) \<and>
     (\<forall>h t. map_of (m_types s) h = Some t \<longrightarrow> type_ok s h t) \<and>
     (\<forall>k i. k < length (m_infos s) \<longrightarrow> m_infos s ! k = Some i \<longrightarrow>
        (\<exists>t. map_of (m_types s) (i_type i) = Some t \<and> t_info t (i_path i) = Some k))"

text \<open>A destroyed resource waits in the list, and the list holds living objects, each once.\<close>

definition waiting_ok :: "manager \<Rightarrow> bool" where
  "waiting_ok s \<longleftrightarrow>
     distinct (m_destroyed s) \<and> (\<forall>a \<in> set (m_destroyed s). m_objs s a \<noteq> None) \<and>
     (\<forall>a r. m_objs s a = Some r \<longrightarrow> r_isDestroyed r \<longrightarrow> a \<in> set (m_destroyed s))"

text \<open>Every parent counts as a use.\<close>

definition uses_ok :: "manager \<Rightarrow> bool" where
  "uses_ok s \<longleftrightarrow> (\<forall>a r. m_objs s a = Some r \<longrightarrow> distinct (r_parents r) \<and> length (r_parents r) \<le> unat (r_countUses r))"

text \<open>The owner of an active watcher lives and knows it.\<close>

definition watch_ok :: "manager \<Rightarrow> bool" where
  "watch_ok s \<longleftrightarrow>
     (\<forall>w < length (m_files s). \<forall>a. w_isActive (m_files s ! w) \<longrightarrow> w_owner (m_files s ! w) = Some a \<longrightarrow>
        (\<exists>r. m_objs s a = Some r \<and> w \<in> set (r_watchers r))) \<and>
     (\<forall>a r. m_objs s a = Some r \<longrightarrow> (\<forall>w \<in> set (r_watchers r). w < length (m_files s))) \<and>
     (\<forall>w \<in> set (m_watchers s) \<union> set (m_dirtyWatchers s). w < length (m_files s))"

definition manager_inv :: "manager \<Rightarrow> bool" where
  "manager_inv s \<longleftrightarrow> tables_ok s \<and> waiting_ok s \<and> uses_ok s \<and> watch_ok s"

definition manager_new :: manager where
  "manager_new = \<lparr>m_objs = Map.empty, m_infos = [], m_files = [], m_destroyed = [], m_types = [], m_watchers = [],
     m_dirtyWatchers = [], m_dirtyResources = [], m_force = False, m_GCDt = 0, m_reloaded = [], m_updated = []\<rparr>"

lemma manager_inv_new: "manager_inv manager_new"
  by (simp add: manager_inv_def manager_new_def tables_ok_def waiting_ok_def uses_ok_def watch_ok_def)

subsection \<open>Updates of one resource\<close>

lemma put_simps [simp]:
  "m_objs (put s a r) = (m_objs s)(a \<mapsto> r)" "m_infos (put s a r) = m_infos s" "m_files (put s a r) = m_files s"
  "m_destroyed (put s a r) = m_destroyed s" "m_types (put s a r) = m_types s" "m_watchers (put s a r) = m_watchers s"
  "m_dirtyWatchers (put s a r) = m_dirtyWatchers s" "m_dirtyResources (put s a r) = m_dirtyResources s"
  "m_force (put s a r) = m_force s" "m_GCDt (put s a r) = m_GCDt s"
  by (simp_all add: put_def)

lemma get_Inr [simp]: "get s a = Inr r \<longleftrightarrow> m_objs s a = Some r"
  by (simp add: get_def split: option.split)

lemma get_Some: "m_objs s a = Some r \<Longrightarrow> get s a = Inr r"
  by simp

lemma get_put [simp]: "get (put s a r) a = Inr r" "a \<noteq> b \<Longrightarrow> get (put s b r) a = get s a"
  by (simp_all add: get_def)

lemma put_put [simp]: "put (put s a r) a r' = put s a r'"
  by (simp add: put_def)

lemma set_set_insert [simp]: "set (set_insert x xs) = insert x (set xs)"
  by (auto simp: set_insert_def)

lemma set_set_erase [simp]: "set (set_erase x xs) = set xs - {x}"
  by (auto simp: set_erase_def)

lemma distinct_set_ops: "distinct xs \<Longrightarrow> distinct (set_insert x xs)" "distinct xs \<Longrightarrow> distinct (set_erase x xs)"
  by (simp_all add: set_insert_def set_erase_def)

lemma length_set_erase:
  assumes "distinct xs" "x \<in> set xs"
  shows "Suc (length (set_erase x xs)) = length xs"
proof -
  have "set_erase x xs = remove1 x xs"
    using assms(1) by (simp add: set_erase_def distinct_remove1_removeAll removeAll_filter_not_eq neq_commute)
  then show ?thesis using assms(2) length_pos_if_in_set [of x xs] by (simp add: length_remove1)
qed

text \<open>Everything the tables depend on.\<close>

definition ids_of :: "manager \<Rightarrow> addr \<Rightarrow> (u64 \<times> bytes \<times> bytes \<times> bool) option" where
  "ids_of s a = map_option (\<lambda>r. (r_hashName r, r_id r, r_path r, r_isRegistered r)) (m_objs s a)"

definition same_ids :: "manager \<Rightarrow> manager \<Rightarrow> bool" where
  "same_ids s s' \<longleftrightarrow> m_types s' = m_types s \<and> m_infos s' = m_infos s \<and> (\<forall>a. ids_of s' a = ids_of s a)"

lemma ids_of_views:
  "id_of s a = (case ids_of s a of None \<Rightarrow> [] | Some (h, i, p, b) \<Rightarrow> i)"
  "path_of s a = (case ids_of s a of None \<Rightarrow> [] | Some (h, i, p, b) \<Rightarrow> p)"
  "a \<in> registered s h \<longleftrightarrow> (case ids_of s a of None \<Rightarrow> False | Some (k, i, p, b) \<Rightarrow> b \<and> k = h)"
  by (auto simp: id_of_def path_of_def registered_def ids_of_def split: option.splits)

lemma same_idsD:
  assumes "same_ids s s'"
  shows "id_of s' a = id_of s a" "path_of s' a = path_of s a" "registered s' h = registered s h"
  using assms by (simp_all add: same_ids_def set_eq_iff ids_of_views)

lemma same_ids_tables: "same_ids s s' \<Longrightarrow> tables_ok s \<Longrightarrow> tables_ok s'"
proof -
  assume s: "same_ids s s'" and t: "tables_ok s"
  have m: "m_types s' = m_types s" "m_infos s' = m_infos s" using s by (simp_all add: same_ids_def)
  have "map_of (m_types s) (r_hashName r) \<noteq> None" if "m_objs s' a = Some r" for a r
  proof -
    have "ids_of s a = ids_of s' a" using s by (simp add: same_ids_def)
    then have "ids_of s a = Some (r_hashName r, r_id r, r_path r, r_isRegistered r)"
      using that by (simp add: ids_of_def)
    then obtain q where "m_objs s a = Some q" "r_hashName q = r_hashName r" by (auto simp: ids_of_def)
    then show ?thesis using t unfolding tables_ok_def by metis
  qed
  moreover have "type_ok s' h v" if "type_ok s h v" for h v
    using that unfolding type_ok_def info_ok_def same_idsD [OF s] m .
  ultimately show "tables_ok s'"
    using t unfolding tables_ok_def m by blast
qed

lemma put_same_ids:
  assumes "m_objs s a = Some r" "r_hashName r' = r_hashName r" "r_id r' = r_id r" "r_path r' = r_path r"
    "r_isRegistered r' = r_isRegistered r"
  shows "same_ids s (put s a r')"
  using assms by (simp add: same_ids_def ids_of_def)


lemma put_inv:
  assumes "manager_inv s" "m_objs s a = Some r"
    and "r_hashName r' = r_hashName r" "r_id r' = r_id r" "r_path r' = r_path r" "r_isRegistered r' = r_isRegistered r"
    and "r_isDestroyed r' \<Longrightarrow> a \<in> set (m_destroyed s)"
    and "distinct (r_parents r')" "length (r_parents r') \<le> unat (r_countUses r')"
    and "r_watchers r' = r_watchers r"
  shows "manager_inv (put s a r')"
proof -
  have "tables_ok (put s a r')"
    by (rule same_ids_tables [OF put_same_ids]) (use assms in \<open>simp_all add: manager_inv_def\<close>)
  moreover have "waiting_ok (put s a r')" using assms(1,7) by (auto simp: manager_inv_def waiting_ok_def)
  moreover have "uses_ok (put s a r')" using assms(1,8,9) by (auto simp: manager_inv_def uses_ok_def)
  moreover have "watch_ok (put s a r')"
  proof -
    have w: "watch_ok s" using assms(1) by (simp add: manager_inv_def)
    have "\<exists>q. m_objs (put s a r') b = Some q \<and> w \<in> set (r_watchers q)" if "\<exists>q. m_objs s b = Some q \<and> w \<in> set (r_watchers q)" for b w
      using that assms(2,10) by auto
    then show ?thesis using w assms(2,10) unfolding watch_ok_def by (auto split: if_splits)
  qed
  ultimately show ?thesis by (simp add: manager_inv_def)
qed

text \<open>Only the files change, and no watcher becomes active or gets an owner.\<close>

lemma files_inv:
  assumes "manager_inv s" "length fs = length (m_files s)"
    and "\<And>w. w < length fs \<Longrightarrow> w_isActive (fs ! w) \<Longrightarrow> w_isActive (m_files s ! w) \<and> w_owner (fs ! w) = w_owner (m_files s ! w)"
  shows "manager_inv (s\<lparr>m_files := fs\<rparr>)"
proof -
  have "same_ids s (s\<lparr>m_files := fs\<rparr>)" by (simp add: same_ids_def ids_of_def)
  then have "tables_ok (s\<lparr>m_files := fs\<rparr>)" using assms(1) same_ids_tables by (simp add: manager_inv_def)
  moreover have "watch_ok (s\<lparr>m_files := fs\<rparr>)"
  proof -
    have w: "watch_ok s" using assms(1) by (simp add: manager_inv_def)
    have "\<exists>r. m_objs s a = Some r \<and> v \<in> set (r_watchers r)"
      if "v < length fs" "w_isActive (fs ! v)" "w_owner (fs ! v) = Some a" for v a
    proof -
      have "v < length (m_files s)" "w_isActive (m_files s ! v)" "w_owner (m_files s ! v) = Some a"
        using assms(2) assms(3) [OF that(1,2)] that by simp_all
      then show ?thesis using w unfolding watch_ok_def by blast
    qed
    then show ?thesis using w assms(2) by (simp add: watch_ok_def)
  qed
  ultimately show ?thesis using assms(1) by (simp add: manager_inv_def waiting_ok_def uses_ok_def)
qed

lemma watch_upd_files: "m_files (watch_upd w f s) = (m_files s)[w := f (m_files s ! w)]" "m_objs (watch_upd w f s) = m_objs s"
    "m_infos (watch_upd w f s) = m_infos s" "m_types (watch_upd w f s) = m_types s" "m_destroyed (watch_upd w f s) = m_destroyed s"
    "m_watchers (watch_upd w f s) = m_watchers s" "m_dirtyWatchers (watch_upd w f s) = m_dirtyWatchers s"
    "m_dirtyResources (watch_upd w f s) = m_dirtyResources s" "m_force (watch_upd w f s) = m_force s" "m_GCDt (watch_upd w f s) = m_GCDt s"
  by (simp_all add: watch_upd_def)

text \<open>What pausing and stopping a list of watchers changes: their flags and nothing else.\<close>

definition map_files :: "(nat \<Rightarrow> watcher \<Rightarrow> watcher) \<Rightarrow> manager \<Rightarrow> manager" where
  "map_files g s = s\<lparr>m_files := map (\<lambda>w. g w (m_files s ! w)) [0..<length (m_files s)]\<rparr>"

lemma map_files_id: "map_files (\<lambda>w f. f) s = s"
  by (simp add: map_files_def map_nth)

lemma watch_upd_map: "watch_upd w f s = map_files (\<lambda>v. if v = w then f else (\<lambda>x. x)) s"
  unfolding watch_upd_def map_files_def by (rule arg_cong [where f = "\<lambda>x. s\<lparr>m_files := x\<rparr>"], rule nth_equalityI) (auto simp: nth_list_update)

lemma map_files_comp: "map_files g (map_files f s) = map_files (\<lambda>w x. g w (f w x)) s"
  by (simp add: map_files_def)

lemma fold_watch_upd:
  assumes "\<And>x. f (f x) = f x"
  shows "fold (\<lambda>w. watch_upd w f) ws s = map_files (\<lambda>w. if w \<in> set ws then f else (\<lambda>x. x)) s"
proof (induction ws arbitrary: s)
  case Nil
  then show ?case by (simp add: map_files_id)
next
  case (Cons w ws)
  have "(\<lambda>v x. (if v \<in> set ws then f else (\<lambda>x. x)) ((if v = w then f else (\<lambda>x. x)) x)) = (\<lambda>v. if v \<in> set (w # ws) then f else (\<lambda>x. x))"
    using assms by (auto simp: fun_eq_iff)
  then have "map_files (\<lambda>v. if v \<in> set ws then f else (\<lambda>x. x)) (watch_upd w f s) = map_files (\<lambda>v. if v \<in> set (w # ws) then f else (\<lambda>x. x)) s"
    by (simp only: watch_upd_map map_files_comp)
  then show ?case by (simp add: Cons.IH)
qed

lemma StopAll_map: "StopAll ws s = map_files (\<lambda>w. if w \<in> set ws then w_isActive_update (\<lambda>_. False) else (\<lambda>x. x)) s"
  unfolding StopAll_def by (rule fold_watch_upd) simp

lemma PauseAll_map: "PauseAll b ws s = map_files (\<lambda>w. if w \<in> set ws then w_isPaused_update (\<lambda>_. b) else (\<lambda>x. x)) s"
  unfolding PauseAll_def by (rule fold_watch_upd) simp

lemma map_files_simps [simp]:
  "m_objs (map_files g s) = m_objs s" "m_infos (map_files g s) = m_infos s" "m_types (map_files g s) = m_types s"
  "m_destroyed (map_files g s) = m_destroyed s" "m_watchers (map_files g s) = m_watchers s"
  "m_dirtyWatchers (map_files g s) = m_dirtyWatchers s" "m_dirtyResources (map_files g s) = m_dirtyResources s"
  "m_force (map_files g s) = m_force s" "m_GCDt (map_files g s) = m_GCDt s" "length (m_files (map_files g s)) = length (m_files s)"
  "w < length (m_files s) \<Longrightarrow> m_files (map_files g s) ! w = g w (m_files s ! w)"
  by (simp_all add: map_files_def)

lemma map_files_inv:
  assumes "manager_inv s" "\<And>w x. w_isActive (g w x) \<Longrightarrow> w_isActive x \<and> w_owner (g w x) = w_owner x"
  shows "manager_inv (map_files g s)"
  unfolding map_files_def by (rule files_inv [OF assms(1)]) (use assms(2) in auto)

lemma PauseAll_inv: "manager_inv s \<Longrightarrow> manager_inv (PauseAll b ws s)"
  unfolding PauseAll_map by (rule map_files_inv) (auto split: if_splits)


subsection \<open>Every operation keeps it\<close>

lemma invD:
  assumes "manager_inv s"
  shows "m_objs s a = Some r \<Longrightarrow> r_isDestroyed r \<Longrightarrow> a \<in> set (m_destroyed s)"
    "a \<in> set (m_destroyed s) \<Longrightarrow> \<exists>r. m_objs s a = Some r"
    "m_objs s a = Some r \<Longrightarrow> distinct (r_parents r)"
    "m_objs s a = Some r \<Longrightarrow> length (r_parents r) \<le> unat (r_countUses r)"
    "m_objs s a = Some r \<Longrightarrow> \<exists>t. map_of (m_types s) (r_hashName r) = Some t"
    "map_of (m_types s) h = Some t \<Longrightarrow> type_ok s h t"
    "distinct (m_destroyed s)"
  using assms by (auto simp: manager_inv_def tables_ok_def waiting_ok_def uses_ok_def)

lemma destroyed_inv:
  assumes "manager_inv s" "distinct xs" "\<And>a. a \<in> set xs \<Longrightarrow> m_objs s a \<noteq> None"
    "\<And>a r. m_objs s a = Some r \<Longrightarrow> r_isDestroyed r \<Longrightarrow> a \<in> set xs"
  shows "manager_inv (s\<lparr>m_destroyed := xs\<rparr>)"
proof -
  have "same_ids s (s\<lparr>m_destroyed := xs\<rparr>)" by (simp add: same_ids_def ids_of_def)
  then have "tables_ok (s\<lparr>m_destroyed := xs\<rparr>)" using assms(1) same_ids_tables by (simp add: manager_inv_def)
  then show ?thesis using assms by (auto simp: manager_inv_def waiting_ok_def uses_ok_def watch_ok_def)
qed

lemma put_swap: "(put s a r)\<lparr>m_destroyed := xs\<rparr> = put (s\<lparr>m_destroyed := xs\<rparr>) a r"
  by (simp add: put_def)

lemma Destroy_eq:
  "m_objs s a = Some r \<Longrightarrow> Destroy s a =
     Inr (put (s\<lparr>m_destroyed := (if a \<in> set (m_destroyed s) then m_destroyed s else m_destroyed s @ [a])\<rparr>) a (r\<lparr>r_isDestroyed := True\<rparr>))"
  by (simp add: Destroy_def manager_Destroy_def get_Some put_def)

lemma Destroy_inv:
  assumes "manager_inv s" "m_objs s a = Some r"
  shows "\<exists>s'. Destroy s a = Inr s' \<and> manager_inv s'"
proof -
  let ?xs = "if a \<in> set (m_destroyed s) then m_destroyed s else m_destroyed s @ [a]"
  have "manager_inv (s\<lparr>m_destroyed := ?xs\<rparr>)"
    by (rule destroyed_inv [OF assms(1)]) (use assms invD [OF assms(1)] in \<open>auto split: if_splits\<close>)
  then have "manager_inv (put (s\<lparr>m_destroyed := ?xs\<rparr>) a (r\<lparr>r_isDestroyed := True\<rparr>))"
    by (rule put_inv [where r = r]) (use assms invD [OF assms(1)] in auto)
  then show ?thesis by (simp add: Destroy_eq [OF assms(2)])
qed

lemma Unload_inv:
  assumes "manager_inv s" "m_objs s a = Some r"
  shows "\<exists>b s'. Unload s a = Inr (b, s') \<and> manager_inv s'"
proof -
  have "manager_inv (put s a (r\<lparr>r_loadState := LS_Unloaded\<rparr>))"
    by (rule put_inv [OF assms]) (use assms invD [OF assms(1)] in auto)
  then show ?thesis using assms by (simp add: Unload_def get_Some PauseAll_inv ex_bool_eq)
qed

lemma Load_inv:
  assumes "manager_inv s" "m_objs s a = Some r"
  shows "\<exists>b s'. Load s a = Inr (b, s') \<and> manager_inv s'"
proof -
  have "manager_inv (put s a (r\<lparr>r_loadState := LS_Loaded\<rparr>))"
    by (rule put_inv [OF assms]) (use assms invD [OF assms(1)] in auto)
  then show ?thesis using assms by (simp add: Load_def get_Some PauseAll_inv ex_bool_eq)
qed

text \<open>Deletion of a resource without parents: its watchers stop and the object is gone.\<close>

lemma DeleteResource_eq:
  assumes "m_objs s a = Some r" "r_parents r = []"
  shows "\<exists>g. DeleteResource s a = Inr ((map_files g s)\<lparr>m_objs := (m_objs s)(a := None)\<rparr>) \<and>
    (\<forall>w x. (w_isActive (g w x) \<longrightarrow> w_isActive x \<and> w \<notin> set (r_watchers r)) \<and> w_owner (g w x) = w_owner x)"
proof -
  let ?stop = "\<lambda>w. if w \<in> set (r_watchers r) then w_isActive_update (\<lambda>_. False) else (\<lambda>x. x)"
  let ?pause = "\<lambda>w. if w \<in> set (r_watchers r) then w_isPaused_update (\<lambda>_. True) else (\<lambda>x. x)"
  have swap: "map_files g (put t a q) = put (map_files g t) a q" for g t q by (simp add: map_files_def put_def)
  have gone: "(put t a q)\<lparr>m_objs := (m_objs t)(a := None)\<rparr> = t\<lparr>m_objs := (m_objs t)(a := None)\<rparr>" for t q by (simp add: put_def)
  have drop: "drop_parents n (put t a q) a = Inr (put t a q)" if "r_parents q = []" for n t q
    using that by (subst drop_parents.simps) simp
  show ?thesis
  proof (cases "r_loadState r \<in> {LS_Unknown, LS_Loaded, LS_Unloading, LS_Reloading}")
    case True
    have "DeleteResource s a = Inr ((map_files ?stop s)\<lparr>m_objs := (m_objs s)(a := None)\<rparr>)"
      using assms True gone [of "map_files ?stop s"]
      by (simp add: DeleteResource_def Unload_def get_Some StopWatch_def StopAll_map delete_object_def drop swap)
    then show ?thesis by (intro exI [of _ ?stop]) auto
  next
    case False
    have "DeleteResource s a = Inr ((map_files (\<lambda>w x. ?stop w (?pause w x)) s)\<lparr>m_objs := (m_objs s)(a := None)\<rparr>)"
      using assms False gone [of "map_files (\<lambda>w x. ?stop w (?pause w x)) s"]
      by (simp add: DeleteResource_def Unload_def get_Some StopWatch_def StopAll_map PauseAll_map delete_object_def drop swap map_files_comp)
    then show ?thesis by (intro exI [of _ "\<lambda>w x. ?stop w (?pause w x)"]) auto
  qed
qed


lemma registered_gone: "registered (s\<lparr>m_objs := (m_objs s)(a := None)\<rparr>) h = registered s h - {a}"
  by (auto simp: registered_def)

lemma type_at_inv:
  "manager_inv s \<Longrightarrow> m_objs s a = Some r \<Longrightarrow> \<exists>t. type_at s (r_hashName r) = Inr t \<and> map_of (m_types s) (r_hashName r) = Some t \<and> type_ok s (r_hashName r) t"
  using invD(5,6) by (fastforce simp: type_at_def)

lemma map_of_set_type:
  "map_of (m_types (set_type s h t)) k = (if k = h \<and> map_of (m_types s) h \<noteq> None then Some t else map_of (m_types s) k)"
proof -
  have "map_of (map (\<lambda>(k, u). if k = h then (k, t) else (k, u)) ts) k = (if k = h \<and> map_of ts h \<noteq> None then Some t else map_of ts k)" for ts
    by (induction ts) auto
  then show ?thesis by (simp add: set_type_def)
qed

lemma keys_set_type: "map fst (m_types (set_type s h t)) = map fst (m_types s)"
  by (auto simp: set_type_def)

lemma set_type_simps [simp]:
  "m_objs (set_type s h t) = m_objs s" "m_infos (set_type s h t) = m_infos s" "m_files (set_type s h t) = m_files s"
  "m_destroyed (set_type s h t) = m_destroyed s" "m_watchers (set_type s h t) = m_watchers s"
  "m_dirtyWatchers (set_type s h t) = m_dirtyWatchers s" "m_dirtyResources (set_type s h t) = m_dirtyResources s"
  "m_force (set_type s h t) = m_force s" "m_GCDt (set_type s h t) = m_GCDt s"
  by (simp_all add: set_type_def)

text \<open>The state without one object, seen by the tables.\<close>

lemma DeleteResource_inv:
  assumes "manager_inv s" "m_objs s a = Some r" "r_parents r = []" "a \<notin> set (m_destroyed s2)"
    and s2: "m_objs s2 = m_objs s" "m_files s2 = m_files s" "m_watchers s2 = m_watchers s" "m_dirtyWatchers s2 = m_dirtyWatchers s"
    and t: "tables_ok (s2\<lparr>m_objs := (m_objs s)(a := None)\<rparr>)"
    and w: "distinct (m_destroyed s2)" "insert a (set (m_destroyed s2)) = insert a (set (m_destroyed s))"
  shows "\<exists>s3 fs. DeleteResource s2 a = Inr s3 \<and> manager_inv s3 \<and> s3 = s2\<lparr>m_objs := (m_objs s)(a := None), m_files := fs\<rparr>"
proof -
  obtain g where g: "DeleteResource s2 a = Inr ((map_files g s2)\<lparr>m_objs := (m_objs s)(a := None)\<rparr>)"
    "\<And>w x. w_isActive (g w x) \<Longrightarrow> w_isActive x \<and> w \<notin> set (r_watchers r)" "\<And>w x. w_owner (g w x) = w_owner x"
    using DeleteResource_eq [of s2 a r] assms(2,3) s2(1) by auto
  define s3 where "s3 = (map_files g s2)\<lparr>m_objs := (m_objs s)(a := None)\<rparr>"
  have eq: "s3 = s2\<lparr>m_objs := (m_objs s)(a := None), m_files := m_files s3\<rparr>" by (simp add: s3_def map_files_def)
  have "same_ids (s2\<lparr>m_objs := (m_objs s)(a := None)\<rparr>) s3" by (simp add: s3_def same_ids_def ids_of_def)
  then have "tables_ok s3" using t same_ids_tables by blast
  moreover have "waiting_ok s3"
    using w assms(4) invD(1,2) [OF assms(1)] unfolding waiting_ok_def s3_def by (fastforce split: if_splits)
  moreover have "uses_ok s3" using assms(1) by (auto simp: s3_def manager_inv_def uses_ok_def split: if_splits)
  moreover have "watch_ok s3"
  proof -
    have wo: "watch_ok s" using assms(1) by (simp add: manager_inv_def)
    have "\<exists>q. m_objs s3 b = Some q \<and> v \<in> set (r_watchers q)"
      if "v < length (m_files s3)" "w_isActive (m_files s3 ! v)" "w_owner (m_files s3 ! v) = Some b" for v b
    proof -
      have v: "v < length (m_files s)" "w_isActive (m_files s ! v)" "w_owner (m_files s ! v) = Some b" "v \<notin> set (r_watchers r)"
        using that g(2,3) [of v "m_files s ! v"] s2(2) by (simp_all add: s3_def)
      then obtain q where "m_objs s b = Some q" "v \<in> set (r_watchers q)" using wo unfolding watch_ok_def by blast
      then show ?thesis using v(4) assms(2) by (auto simp: s3_def)
    qed
    moreover have "length (m_files s3) = length (m_files s)" using s2 by (simp add: s3_def)
    ultimately show ?thesis using wo s2 unfolding watch_ok_def by (auto simp: s3_def split: if_splits)
  qed
  ultimately show ?thesis using g(1) eq by (auto simp: manager_inv_def s3_def)
qed

text \<open>An object that was never registered is not in the tables.\<close>

lemma tables_ok_gone_unregistered:
  assumes "tables_ok s" "m_objs s a = Some r" "\<not> r_isRegistered r"
  shows "tables_ok (s\<lparr>m_objs := (m_objs s)(a := None)\<rparr>)"
proof -
  let ?s = "s\<lparr>m_objs := (m_objs s)(a := None)\<rparr>"
  have a: "a \<notin> registered s h" for h using assms by (simp add: registered_def)
  have reg: "registered ?s h = registered s h" for h using a by (simp add: registered_gone)
  have ids: "{b \<in> registered s h. id_of ?s b = i} = {b \<in> registered s h. id_of s b = i}"
    "{b \<in> registered s h. path_of ?s b = i} = {b \<in> registered s h. path_of s b = i}" for h i
    using a by (auto simp: id_of_def path_of_def)
  have inf: "m_infos ?s = m_infos s" by simp
  have "type_ok ?s h t \<longleftrightarrow> type_ok s h t" for h t
    unfolding type_ok_def info_ok_def reg ids inf ..
  then show ?thesis using assms(1) unfolding tables_ok_def by (auto split: if_splits)
qed


lemma info_ok_Some:
  assumes "info_ok s h p (t_info t p)" "a \<in> registered s h" "path_of s a = p"
  shows "\<exists>k i. t_info t p = Some k \<and> k < length (m_infos s) \<and> m_infos s ! k = Some i \<and> i_type i = h \<and> i_path i = p \<and>
    i_loaded i \<noteq> [] \<and> set (i_loaded i) = {a \<in> registered s h. path_of s a = p}"
  using assms by (fastforce simp: info_ok_def split: option.splits)

text \<open>A registered object is taken out of the tables; then it may go.\<close>

lemma type_Remove_gone:
  assumes inv: "tables_ok s" and r: "m_objs s a = Some r" "r_isRegistered r"
  shows "\<exists>ts blocks. type_Remove s a = Inr (s\<lparr>m_types := ts, m_infos := blocks\<rparr>) \<and>
    tables_ok (s\<lparr>m_types := ts, m_infos := blocks, m_objs := (m_objs s)(a := None)\<rparr>) \<and> map fst ts = map fst (m_types s)"
proof -
  let ?h = "r_hashName r"
  let ?i = "r_id r"
  let ?p = "r_path r"
  have a: "a \<in> registered s ?h" "id_of s a = ?i" "path_of s a = ?p" using r by (simp_all add: registered_def id_of_def path_of_def)
  obtain t where t: "map_of (m_types s) ?h = Some t" "type_ok s ?h t" using inv r unfolding tables_ok_def by blast
  obtain c where c: "t_copies t ?i = Some c" "set c = {b \<in> registered s ?h. id_of s b = ?i}"
  proof -
    have e: "elems (t_copies t ?i) = {b \<in> registered s ?h. id_of s b = ?i}" using t(2) by (simp add: type_ok_def)
    then have "a \<in> elems (t_copies t ?i)" using a by simp
    then obtain c where "t_copies t ?i = Some c" by (auto simp: elems_def split: option.splits)
    with e show thesis by (intro that) (simp_all add: elems_def)
  qed
  obtain k inf where k: "t_info t ?p = Some k" "k < length (m_infos s)" "m_infos s ! k = Some inf" "i_type inf = ?h" "i_path inf = ?p"
      "set (i_loaded inf) = {b \<in> registered s ?h. path_of s b = ?p}"
    using info_ok_Some [of s ?h ?p t a] t(2) a by (auto simp: type_ok_def)
  define c1 where "c1 = set_erase a c"
  define l1 where "l1 = set_erase a (i_loaded inf)"
  define t1 where "t1 = t\<lparr>t_copies := (t_copies t)(?i := if c1 = [] then None else Some c1),
    t_info := (if l1 = [] then (t_info t)(?p := None) else t_info t), t_resources := set_erase a (t_resources t)\<rparr>"
  define blocks where "blocks = (m_infos s)[k := if l1 = [] then None else Some (i_loaded_update (set_erase a) inf)]"
  define s2 where "s2 = set_type (s\<lparr>m_infos := blocks\<rparr>) ?h t1"
  define s3 where "s3 = s2\<lparr>m_objs := (m_objs s)(a := None)\<rparr>"
  have ts: "m_types s2 = map (\<lambda>(k, u). if k = ?h then (k, t1) else (k, u)) (m_types s)"
    by (simp add: s2_def set_type_def)
  have e: "type_Remove s a = Inr s2"
    unfolding s2_def t1_def blocks_def c1_def l1_def using r t(1) c(1) k
    by (simp add: type_Remove_def get_Some type_at_def info_upd_def Let_def)
  have lookup: "map_of (m_types s3) h = (if h = ?h then Some t1 else map_of (m_types s) h)" for h
    using t(1) map_of_set_type [of "s\<lparr>m_infos := blocks\<rparr>" ?h t1 h] by (simp add: s3_def s2_def)
  have reg: "registered s3 h = registered s h - {a}" for h by (auto simp: registered_def s3_def s2_def)
  have ids: "id_of s3 b = id_of s b" "path_of s3 b = path_of s b" if "b \<noteq> a" for b
    using that by (simp_all add: id_of_def path_of_def s3_def s2_def)
  have sets: "{b \<in> registered s3 h. id_of s3 b = i} = {b \<in> registered s h. id_of s b = i} - {a}"
    "{b \<in> registered s3 h. path_of s3 b = q} = {b \<in> registered s h. path_of s b = q} - {a}" for h i q
    using ids by (auto simp: reg)
  have m3: "m_infos s3 = blocks" by (simp add: s3_def s2_def)
  have other_info: "info_ok s3 h q (t_info u q)" if "info_ok s h q (t_info u q)" "h \<noteq> ?h \<or> q \<noteq> ?p" for h q u
  proof -
    have "a \<notin> {b \<in> registered s h. path_of s b = q}"
      using that(2) a r by (auto simp: registered_def)
    then have n: "{b \<in> registered s3 h. path_of s3 b = q} = {b \<in> registered s h. path_of s b = q}" by (simp add: sets)
    show ?thesis
    proof (cases "t_info u q")
      case None
      then show ?thesis using that(1) by (simp only: info_ok_def n option.simps)
    next
      case (Some j)
      then have j: "j < length (m_infos s)" "\<exists>i. m_infos s ! j = Some i \<and> i_type i = h \<and> i_path i = q \<and> i_loaded i \<noteq> [] \<and>
          set (i_loaded i) = {b \<in> registered s h. path_of s b = q}"
        using that(1) by (auto simp: info_ok_def split: option.splits)
      then have "j \<noteq> k" using k(3-5) that(2) by auto
      then have "blocks ! j = m_infos s ! j" "j < length blocks" using j by (simp_all add: blocks_def)
      then show ?thesis unfolding info_ok_def Some n m3 using j by auto
    qed
  qed
  have "type_ok s3 h u" if u: "map_of (m_types s3) h = Some u" for h u
  proof (cases "h = ?h")
    case False
    then have old: "type_ok s h u" using u inv lookup unfolding tables_ok_def by auto
    have "a \<notin> registered s h" using False r by (auto simp: registered_def)
    moreover from this have "id_of s3 b = id_of s b" if "b \<in> registered s h" for b using that ids(1) by metis
    ultimately have n: "registered s3 h = registered s h" "\<And>i. {b \<in> registered s h. id_of s3 b = i} = {b \<in> registered s h. id_of s b = i}"
      using reg by auto
    show ?thesis using old other_info False unfolding type_ok_def n by blast
  next
    case True
    then have u: "u = t1" using u lookup by simp
    have res: "set (t_resources t1) = registered s3 ?h" using t(2) by (simp add: t1_def reg type_ok_def)
    have cps: "t_copies t1 i \<noteq> Some [] \<and> elems (t_copies t1 i) = {b \<in> registered s3 ?h. id_of s3 b = i}" for i
    proof (cases "i = ?i")
      case True
      have "set c1 = {b \<in> registered s3 ?h. id_of s3 b = ?i}" using c(2) by (simp add: c1_def sets)
      then show ?thesis using True by (auto simp: t1_def elems_def)
    next
      case False
      then have "{b \<in> registered s3 ?h. id_of s3 b = i} = {b \<in> registered s ?h. id_of s b = i}" using a(2) by (auto simp: sets)
      then show ?thesis using False t(2) by (simp add: t1_def type_ok_def)
    qed
    have inf: "info_ok s3 ?h q (t_info t1 q)" for q
    proof (cases "q = ?p")
      case True
      have l: "set l1 = {b \<in> registered s3 ?h. path_of s3 b = ?p}" using k(6) by (simp add: l1_def sets)
      show ?thesis
      proof (cases "l1 = []")
        case True
        then show ?thesis using l \<open>q = ?p\<close> by (simp add: info_ok_def t1_def)
      next
        case False
        then show ?thesis using l \<open>q = ?p\<close> k by (simp add: info_ok_def t1_def m3 blocks_def l1_def)
      qed
    next
      case False
      then have "t_info t1 q = t_info t q" by (simp add: t1_def)
      then show ?thesis using other_info [of ?h q t] False t(2) by (simp add: type_ok_def)
    qed
    show ?thesis using res cps inf by (simp add: type_ok_def u \<open>h = ?h\<close>)
  qed
  moreover have "\<exists>u. map_of (m_types s3) (i_type i) = Some u \<and> t_info u (i_path i) = Some j"
    if j: "j < length (m_infos s3)" "m_infos s3 ! j = Some i" for j i
  proof (cases "j = k")
    case True
    then have "l1 \<noteq> []" "i = i_loaded_update (set_erase a) inf" using j k(2) by (auto simp: m3 blocks_def split: if_splits)
    then show ?thesis using k True by (simp add: lookup t1_def)
  next
    case False
    then have "j < length (m_infos s)" "m_infos s ! j = Some i" using j by (simp_all add: m3 blocks_def)
    then obtain u where u: "map_of (m_types s) (i_type i) = Some u" "t_info u (i_path i) = Some j"
      using inv unfolding tables_ok_def by blast
    show ?thesis
    proof (cases "i_type i = ?h")
      case True
      then have "u = t" "i_path i \<noteq> ?p" using u t(1) k(1) False by auto
      then show ?thesis using True u by (simp add: lookup t1_def)
    qed (use u in \<open>simp add: lookup\<close>)
  qed
  moreover have "map_of (m_types s3) (r_hashName q) \<noteq> None" if "m_objs s3 b = Some q" for b q
    using that inv t(1) unfolding tables_ok_def lookup by (auto simp: s3_def split: if_splits)
  moreover have "map fst (m_types s2) = map fst (m_types s)"
    unfolding s2_def keys_set_type by simp
  ultimately have "tables_ok s3"
    using inv unfolding tables_ok_def by (simp add: s3_def)
  moreover have "s2 = s\<lparr>m_types := m_types s2, m_infos := blocks\<rparr>" by (simp add: s2_def set_type_def)
  ultimately show ?thesis
    using e \<open>map fst (m_types s2) = map fst (m_types s)\<close> unfolding s3_def
    by (intro exI [of _ "m_types s2"] exI [of _ blocks]) (metis (no_types, lifting))
qed


subsection \<open>Collection\<close>

lemma vec_erase_distinct:
  assumes "distinct xs" "i < length xs"
  shows "set (vec_erase xs i) = set xs - {xs ! i}" "distinct (vec_erase xs i)"
proof -
  have "xs = take i xs @ xs ! i # drop (Suc i) xs" using assms(2) by (rule id_take_nth_drop)
  then have "distinct (take i xs @ xs ! i # drop (Suc i) xs)" "set xs = set (take i xs) \<union> {xs ! i} \<union> set (drop (Suc i) xs)"
    using assms(1) by (metis, metis Un_insert_right list.simps(15) set_append sup_bot_right sup_commute Un_commute insert_is_Un Un_assoc)
  then show "set (vec_erase xs i) = set xs - {xs ! i}" "distinct (vec_erase xs i)"
    by (auto simp: vec_erase_def)
qed

text \<open>What keeps a waiting resource in the list.\<close>

definition waits :: "manager \<Rightarrow> addr \<Rightarrow> bool" where
  "waits s a \<longleftrightarrow> (\<exists>r. m_objs s a = Some r \<and> r_isDestroyed r \<and>
     (r_countUses r > 0 \<or> \<not> r_isForceDestroyed r \<and> IsAlive (r_lifetime r) \<and> \<not> m_force s))"

text \<open>What a collection may change: lifetimes, and unused destroyed resources that waited go away.\<close>

definition same_but_lifetime :: "resource \<Rightarrow> resource \<Rightarrow> bool" where
  "same_but_lifetime r r' \<longleftrightarrow> r\<lparr>r_lifetime := 0\<rparr> = r'\<lparr>r_lifetime := 0\<rparr>"

lemma same_but_lifetimeD:
  assumes "same_but_lifetime r r'"
  shows "r_countUses r' = r_countUses r" "r_isDestroyed r' = r_isDestroyed r" "r_isRegistered r' = r_isRegistered r"
    "r_hashName r' = r_hashName r"
  using arg_cong [OF assms [unfolded same_but_lifetime_def], of r_countUses]
    arg_cong [OF assms [unfolded same_but_lifetime_def], of r_isDestroyed]
    arg_cong [OF assms [unfolded same_but_lifetime_def], of r_isRegistered]
    arg_cong [OF assms [unfolded same_but_lifetime_def], of r_hashName] by simp_all

definition collected :: "manager \<Rightarrow> manager \<Rightarrow> bool" where
  "collected s s' \<longleftrightarrow>
     m_force s' = m_force s \<and> m_GCDt s' = m_GCDt s \<and> map fst (m_types s') = map fst (m_types s) \<and>
     set (m_destroyed s') \<subseteq> set (m_destroyed s) \<and>
     (\<forall>a r'. m_objs s' a = Some r' \<longrightarrow> (\<exists>r. m_objs s a = Some r \<and> same_but_lifetime r r')) \<and>
     (\<forall>a r. m_objs s a = Some r \<longrightarrow> m_objs s' a = None \<longrightarrow>
        r_countUses r = 0 \<and> r_isDestroyed r \<and> a \<in> set (m_destroyed s))"

lemma collected_refl: "collected s s"
  by (simp add: collected_def same_but_lifetime_def)

lemma collectedD:
  assumes "collected s s'"
  shows "m_objs s' a = Some r' \<Longrightarrow> \<exists>r. m_objs s a = Some r \<and> same_but_lifetime r r'"
    "m_objs s a = Some r \<Longrightarrow> m_objs s' a = None \<Longrightarrow> r_countUses r = 0 \<and> r_isDestroyed r \<and> a \<in> set (m_destroyed s)"
    "m_force s' = m_force s" "m_GCDt s' = m_GCDt s" "map fst (m_types s') = map fst (m_types s)"
    "set (m_destroyed s') \<subseteq> set (m_destroyed s)"
  using assms unfolding collected_def by blast+

lemma collected_trans:
  assumes "collected s s1" "collected s1 s2"
  shows "collected s s2"
proof -
  note c1 = collectedD [OF assms(1)] and c2 = collectedD [OF assms(2)]
  have "\<exists>r. m_objs s a = Some r \<and> same_but_lifetime r r'" if r': "m_objs s2 a = Some r'" for a r'
  proof -
    obtain q where q: "m_objs s1 a = Some q" "same_but_lifetime q r'" using c2(1) [OF r'] by blast
    obtain r where "m_objs s a = Some r" "same_but_lifetime r q" using c1(1) [OF q(1)] by blast
    then show ?thesis using q(2) by (auto simp: same_but_lifetime_def)
  qed
  moreover have "r_countUses r = 0 \<and> r_isDestroyed r \<and> a \<in> set (m_destroyed s)"
    if gone: "m_objs s a = Some r" "m_objs s2 a = None" for a r
  proof (cases "m_objs s1 a")
    case None
    then show ?thesis using c1(2) [OF gone(1)] by blast
  next
    case (Some q)
    then have q: "r_countUses q = 0" "r_isDestroyed q" "a \<in> set (m_destroyed s1)" using c2(2) [OF Some gone(2)] by blast+
    obtain r1 where "m_objs s a = Some r1" "same_but_lifetime r1 q" using c1(1) [OF Some] by blast
    then have "same_but_lifetime r q" using gone(1) by simp
    then show ?thesis using q c1(6) same_but_lifetimeD [of r q] by auto
  qed
  ultimately show ?thesis using c1(3-6) c2(3-6) unfolding collected_def by auto
qed

lemma aged_total:
  assumes "manager_inv s" "m_objs s a = Some r"
  shows "\<exists>l. aged s a r = Inr l"
proof -
  obtain t where "type_at s (r_hashName r) = Inr t" using type_at_inv [OF assms] by blast
  then show ?thesis using assms(2) by (simp add: aged_def IsLastResource_def get_Some)
qed

text \<open>One resource leaves: the tables, the list, the heap.\<close>

lemma collect_one:
  assumes inv: "manager_inv s" and i: "i < length (m_destroyed s)" "m_objs s (m_destroyed s ! i) = Some r" "r_countUses r = 0"
    "r_isDestroyed r"
  shows "\<exists>s2 s3. Remove s (m_destroyed s ! i) = Inr s2 \<and>
    DeleteResource (s2\<lparr>m_destroyed := vec_erase (m_destroyed s2) i\<rparr>) (m_destroyed s ! i) = Inr s3 \<and>
    manager_inv s3 \<and> collected s s3 \<and> length (m_destroyed s3) = length (m_destroyed s) - 1 \<and> m_objs s3 (m_destroyed s ! i) = None"
proof -
  let ?a = "m_destroyed s ! i"
  have par: "r_parents r = []" using invD(4) [OF inv i(2)] i(3) by simp
  have d: "distinct (m_destroyed s)" by (rule invD(7) [OF inv])
  have t: "tables_ok s" using inv by (simp add: manager_inv_def)
  define ys where "ys = vec_erase (m_destroyed s) i"
  have ys: "set ys = set (m_destroyed s) - {?a}" "distinct ys" "length ys = length (m_destroyed s) - 1"
    using vec_erase_distinct [OF d i(1)] i(1) by (simp_all add: ys_def)
  obtain s2 where s2: "Remove s ?a = Inr s2" "m_objs s2 = m_objs s" "m_files s2 = m_files s" "m_watchers s2 = m_watchers s"
    "m_dirtyWatchers s2 = m_dirtyWatchers s" "m_destroyed s2 = m_destroyed s" "m_force s2 = m_force s" "m_GCDt s2 = m_GCDt s"
    "tables_ok (s2\<lparr>m_objs := (m_objs s)(?a := None)\<rparr>)" "map fst (m_types s2) = map fst (m_types s)"
  proof (cases "r_isRegistered r")
    case True
    then show ?thesis
      using type_Remove_gone [OF t i(2) True] i(2) by (fastforce simp: Remove_def get_Some intro!: that)
  next
    case False
    then show ?thesis
      using tables_ok_gone_unregistered [OF t i(2) False] i(2) by (intro that [of s]) (simp_all add: Remove_def get_Some)
  qed
  have "same_ids (s2\<lparr>m_objs := (m_objs s)(?a := None)\<rparr>) (s2\<lparr>m_destroyed := ys, m_objs := (m_objs s)(?a := None)\<rparr>)"
    by (simp add: same_ids_def ids_of_def)
  then have t2: "tables_ok (s2\<lparr>m_destroyed := ys, m_objs := (m_objs s)(?a := None)\<rparr>)" using s2(9) same_ids_tables by blast
  obtain s3 fs where s3: "DeleteResource (s2\<lparr>m_destroyed := ys\<rparr>) ?a = Inr s3" "manager_inv s3"
    "s3 = s2\<lparr>m_destroyed := ys, m_objs := (m_objs s)(?a := None), m_files := fs\<rparr>"
    using DeleteResource_inv [OF inv i(2) par, of "s2\<lparr>m_destroyed := ys\<rparr>"] s2 t2 ys by auto
  have "collected s s3"
    using s2 s3(3) ys i by (auto simp: collected_def same_but_lifetime_def split: if_splits)
  then show ?thesis using s2 s3 ys by (auto simp: ys_def)
qed


lemma gc_loop_contract:
  assumes "manager_inv s" "i \<le> length (m_destroyed s)" "\<forall>j < i. waits s (m_destroyed s ! j)"
    and "length (m_destroyed s) * Suc (length (m_destroyed s)) + (length (m_destroyed s) - i) < n"
  shows "\<exists>s'. gc_loop n s i = Inr s' \<and> manager_inv s' \<and> collected s s' \<and> (\<forall>a \<in> set (m_destroyed s'). waits s' a)"
  using assms
proof (induction n arbitrary: s i)
  case (Suc n)
  note inv = Suc.prems(1)
  let ?xs = "m_destroyed s"
  let ?a = "?xs ! i"
  show ?case
  proof (cases "i < length ?xs")
    case False
    then have "\<forall>a \<in> set ?xs. waits s a" using Suc.prems(2,3) by (auto simp: in_set_conv_nth)
    then show ?thesis using False inv by (simp add: gc_loop.simps(2) collected_refl)
  next
    case i: True
    obtain r where r: "m_objs s ?a = Some r" using invD(2) [OF inv nth_mem [OF i]] by blast
    have restart: "\<exists>s'. gc_loop n s3 0 = Inr s' \<and> manager_inv s' \<and> collected s s' \<and> (\<forall>a \<in> set (m_destroyed s'). waits s' a)"
      if s3: "manager_inv s3" "collected s s3" "length (m_destroyed s3) = length ?xs - 1" for s3
    proof -
      have "length ?xs * Suc (length ?xs) \<le> n" using Suc.prems(4) by simp
      moreover obtain m where "length ?xs = Suc m" using i by (cases "length ?xs") auto
      ultimately have "length (m_destroyed s3) * Suc (length (m_destroyed s3)) + (length (m_destroyed s3) - 0) < n"
        using s3(3) by simp
      then obtain s' where "gc_loop n s3 0 = Inr s'" "manager_inv s'" "collected s3 s'" "\<forall>a \<in> set (m_destroyed s'). waits s' a"
        using Suc.IH [OF s3(1), of 0] by auto
      then show ?thesis using collected_trans [OF s3(2)] by blast
    qed
    show ?thesis
    proof (cases "r_isDestroyed r")
      case False
      let ?s3 = "s\<lparr>m_destroyed := vec_erase ?xs i\<rparr>"
      note e = vec_erase_distinct [OF invD(7) [OF inv] i]
      have "manager_inv ?s3"
        by (rule destroyed_inv [OF inv]) (use e invD(1,2) [OF inv] r False in auto)
      moreover have "collected s ?s3" using e by (auto simp: collected_def same_but_lifetime_def)
      ultimately show ?thesis using restart [of ?s3] i r False by (simp add: gc_loop.simps(2) get_Some)
    next
      case d: True
      obtain l where l: "aged s ?a r = Inr l" using aged_total [OF inv r] by blast
      let ?s1 = "put s ?a (r\<lparr>r_lifetime := l\<rparr>)"
      have s1: "manager_inv ?s1" by (rule put_inv [OF inv r]) (use invD [OF inv] r in auto)
      have c1: "collected s ?s1" using r by (auto simp: collected_def same_but_lifetime_def)
      show ?thesis
      proof (cases "r_countUses r > 0 \<or> \<not> r_isForceDestroyed r \<and> IsAlive l \<and> \<not> m_force s")
        case True
        have f: "length (m_destroyed ?s1) * Suc (length (m_destroyed ?s1)) + (length (m_destroyed ?s1) - (i + 1)) < n" "i + 1 \<le> length (m_destroyed ?s1)"
          using i Suc.prems(4) by simp_all
        have "\<forall>j < i + 1. waits ?s1 (m_destroyed ?s1 ! j)"
        proof (intro allI impI)
          fix j
          assume j: "j < i + 1"
          show "waits ?s1 (m_destroyed ?s1 ! j)"
          proof (cases "j = i")
            case True
            then show ?thesis using \<open>r_countUses r > 0 \<or> _\<close> d by (simp add: waits_def)
          next
            case False
            then have "?xs ! j \<noteq> ?a" using j i invD(7) [OF inv] by (simp add: nth_eq_iff_index_eq)
            moreover have "waits s (?xs ! j)" using Suc.prems(3) j False by simp
            ultimately show ?thesis by (simp add: waits_def)
          qed
        qed
        then obtain s' where "gc_loop n ?s1 (i + 1) = Inr s'" "manager_inv s'" "collected ?s1 s'" "\<forall>a \<in> set (m_destroyed s'). waits s' a"
          using Suc.IH [OF s1 f(2) _ f(1)] by blast
        then show ?thesis using True d i r l collected_trans [OF c1] by (simp add: gc_loop.simps(2) get_Some Let_def)
      next
        case False
        have "i < length (m_destroyed ?s1)" "m_objs ?s1 (m_destroyed ?s1 ! i) = Some (r\<lparr>r_lifetime := l\<rparr>)" using i by simp_all
        then obtain s2 s3 where s23: "Remove ?s1 ?a = Inr s2" "DeleteResource (s2\<lparr>m_destroyed := vec_erase (m_destroyed s2) i\<rparr>) ?a = Inr s3"
          "manager_inv s3" "collected ?s1 s3" "length (m_destroyed s3) = length ?xs - 1"
          using collect_one [OF s1, of i "r\<lparr>r_lifetime := l\<rparr>"] False d word_gt_0 [of "r_countUses r"] by auto
        have cnt: "\<not> r_countUses r > 0" using False by blast
        show ?thesis
          using restart [OF s23(3) collected_trans [OF c1 s23(4)] s23(5)] False cnt d i r l s23(1,2)
          by (auto simp: gc_loop.simps(2) get_Some Let_def)
      qed
    qed
  qed
qed simp


text \<open>A forced collection first destroys what nobody uses.\<close>

lemma CollectUnused_contract:
  assumes "manager_inv s" "\<And>a. a \<in> set as \<Longrightarrow> m_objs s a \<noteq> None"
  shows "\<exists>s'. CollectUnused s as = Inr s' \<and> manager_inv s' \<and> m_force s' = m_force s \<and> m_types s' = m_types s \<and>
    set (m_destroyed s) \<subseteq> set (m_destroyed s') \<and> length (m_destroyed s) \<le> length (m_destroyed s') \<and>
    (\<forall>a r. m_objs s a = Some r \<longrightarrow>
      m_objs s' a = Some (if a \<in> set as \<and> r_countUses r = 0 then r\<lparr>r_isDestroyed := True\<rparr> else r)) \<and>
    (\<forall>a. m_objs s a = None \<longrightarrow> m_objs s' a = None)"
  using assms
proof (induction as arbitrary: s)
  case Nil
  then show ?case by (simp add: CollectUnused_def)
next
  case (Cons a as)
  obtain r where r: "m_objs s a = Some r" using Cons.prems(2) [of a] by auto
  let ?f = "\<lambda>a m. bind_res m (\<lambda>s1. bind_res (get s1 a) (\<lambda>r. if r_countUses r > 0 \<or> r_isDestroyed r then Inr s1 else Destroy s1 a))"
  obtain s1 where s1: "?f a (Inr s) = Inr s1" "manager_inv s1" "m_force s1 = m_force s" "m_types s1 = m_types s"
    "set (m_destroyed s) \<subseteq> set (m_destroyed s1)" "length (m_destroyed s) \<le> length (m_destroyed s1)"
    "m_objs s1 = (m_objs s)(a \<mapsto> (if r_countUses r = 0 then r\<lparr>r_isDestroyed := True\<rparr> else r))"
  proof (cases "r_countUses r > 0 \<or> r_isDestroyed r")
    case True
    then have "(if r_countUses r = 0 then r\<lparr>r_isDestroyed := True\<rparr> else r) = r" by (auto simp: word_gt_0)
    then have "m_objs s = (m_objs s)(a \<mapsto> (if r_countUses r = 0 then r\<lparr>r_isDestroyed := True\<rparr> else r))" using r by auto
    then show ?thesis using True r Cons.prems(1) by (intro that [of s]) (simp_all add: get_Some)
  next
    case False
    obtain s1 where "Destroy s a = Inr s1" "manager_inv s1" using Destroy_inv [OF Cons.prems(1) r] by blast
    then show ?thesis using False r Destroy_eq [OF r] by (intro that [of s1]) (auto simp: get_Some word_gt_0)
  qed
  have "CollectUnused s (a # as) = CollectUnused s1 as" using s1(1) by (simp add: CollectUnused_def)
  moreover have "\<And>b. b \<in> set as \<Longrightarrow> m_objs s1 b \<noteq> None" using Cons.prems(2) s1(7) by auto
  ultimately obtain s' where s': "CollectUnused s (a # as) = Inr s'" "manager_inv s'" "m_force s' = m_force s1" "m_types s' = m_types s1"
    "set (m_destroyed s1) \<subseteq> set (m_destroyed s')" "length (m_destroyed s1) \<le> length (m_destroyed s')"
    "\<And>b q. m_objs s1 b = Some q \<Longrightarrow> m_objs s' b = Some (if b \<in> set as \<and> r_countUses q = 0 then q\<lparr>r_isDestroyed := True\<rparr> else q)"
    "\<And>b. m_objs s1 b = None \<Longrightarrow> m_objs s' b = None"
    using Cons.IH [OF s1(2)] by auto
  have "m_objs s' b = Some (if b \<in> set (a # as) \<and> r_countUses q = 0 then q\<lparr>r_isDestroyed := True\<rparr> else q)"
    if "m_objs s b = Some q" for b q
    using s'(7) [of b] s1(7) r that by (cases "b = a") auto
  moreover have "m_objs s' b = None" if b: "m_objs s b = None" for b
  proof -
    have "b \<noteq> a" using b r by auto
    then show ?thesis using s'(8) [of b] s1(7) b by simp
  qed
  ultimately show ?case using s' s1 by auto
qed

lemma GC_ends:
  assumes "manager_inv s" "m_dirtyResources s = []" "m_dirtyWatchers s = []"
  shows "\<exists>s'. GC s = Inr s' \<and> manager_inv s' \<and>
    (\<forall>a r. m_objs s a = Some r \<longrightarrow> r_countUses r > 0 \<longrightarrow> (\<exists>r'. m_objs s' a = Some r' \<and> same_but_lifetime r r')) \<and>
    (\<forall>a r. m_objs s a = Some r \<longrightarrow> m_objs s' a = None \<longrightarrow> r_countUses r = 0) \<and>
    (m_destroyed s \<noteq> [] \<longrightarrow> (\<forall>a \<in> set (m_destroyed s'). waits s' a)) \<and>
    (m_destroyed s \<noteq> [] \<and> m_force s \<longrightarrow> (\<forall>a r. m_objs s' a = Some r \<longrightarrow> r_isRegistered r \<longrightarrow> r_countUses r > 0))"
proof (cases "m_destroyed s = []")
  case True
  then show ?thesis using assms by (auto simp: GC_def same_but_lifetime_def)
next
  case False
  define as where "as = concat (map (t_resources \<circ> snd) (m_types s))"
  have as: "a \<in> set as \<longleftrightarrow> (\<exists>r. m_objs s a = Some r \<and> r_isRegistered r)" for a
  proof -
    have k: "distinct (map fst (m_types s))" using assms(1) by (simp add: manager_inv_def tables_ok_def)
    have "a \<in> set as \<longleftrightarrow> (\<exists>h t. map_of (m_types s) h = Some t \<and> a \<in> set (t_resources t))"
      using k by (auto simp: as_def map_of_eq_Some_iff) (metis snd_conv)+
    also have "\<dots> \<longleftrightarrow> (\<exists>h t. map_of (m_types s) h = Some t \<and> a \<in> registered s h)"
      using invD(6) [OF assms(1)] by (metis type_ok_def)
    also have "\<dots> \<longleftrightarrow> (\<exists>r. m_objs s a = Some r \<and> r_isRegistered r)"
      using invD(5) [OF assms(1)] by (auto simp: registered_def)
    finally show ?thesis .
  qed
  obtain s1 where s1: "(if m_force s then CollectUnused s as else Inr s) = Inr s1" "manager_inv s1" "m_force s1 = m_force s"
    "\<And>a r. m_objs s a = Some r \<Longrightarrow> m_objs s1 a = Some (if m_force s \<and> a \<in> set as \<and> r_countUses r = 0 then r\<lparr>r_isDestroyed := True\<rparr> else r)"
    "\<And>a. m_objs s a = None \<Longrightarrow> m_objs s1 a = None"
  proof (cases "m_force s")
    case True
    have "\<And>a. a \<in> set as \<Longrightarrow> m_objs s a \<noteq> None" using as by auto
    then obtain s1 where "CollectUnused s as = Inr s1" "manager_inv s1" "m_force s1 = m_force s"
      "\<forall>a r. m_objs s a = Some r \<longrightarrow> m_objs s1 a = Some (if a \<in> set as \<and> r_countUses r = 0 then r\<lparr>r_isDestroyed := True\<rparr> else r)"
      "\<forall>a. m_objs s a = None \<longrightarrow> m_objs s1 a = None"
      using CollectUnused_contract [OF assms(1), of as] by blast
    then show ?thesis using True by (intro that [of s1]) simp_all
  next
    case False
    then show ?thesis using assms(1) by (intro that [of s]) simp_all
  qed
  obtain s' where s': "gc_loop (gc_fuel (length (m_destroyed s1))) s1 0 = Inr s'" "manager_inv s'" "collected s1 s'"
    "\<forall>a \<in> set (m_destroyed s'). waits s' a"
    using gc_loop_contract [OF s1(2), of 0 "gc_fuel (length (m_destroyed s1))"] by (auto simp: gc_fuel_def)
  have gc: "GC s = Inr s'" using False assms s1(1) s'(1) by (auto simp: GC_def as_def split: if_splits)
  have gone: "r_countUses r = 0" if "m_objs s a = Some r" "m_objs s' a = None" for a r
    using collectedD(2) [OF s'(3) s1(4) [OF that(1)] that(2)] by (simp split: if_splits)
  have used: "\<exists>r'. m_objs s' a = Some r' \<and> same_but_lifetime r r'" if a: "m_objs s a = Some r" "r_countUses r > 0" for a r
  proof -
    have "m_objs s1 a = Some r" using s1(4) [OF a(1)] a(2) by (simp add: word_gt_0)
    moreover obtain r' where "m_objs s' a = Some r'" using gone [OF a(1)] a(2) by fastforce
    ultimately show ?thesis using collectedD(1) [OF s'(3)] by fastforce
  qed
  have "r_countUses r' > 0" if f: "m_force s" "m_objs s' a = Some r'" "r_isRegistered r'" for a r'
  proof (rule ccontr)
    assume "\<not> 0 < r_countUses r'"
    then have c: "r_countUses r' = 0" by (simp add: word_gt_0)
    obtain q where q: "m_objs s1 a = Some q" "same_but_lifetime q r'" using collectedD(1) [OF s'(3) f(2)] by blast
    obtain r where r: "m_objs s a = Some r" using s1(5) [of a] q(1) by (cases "m_objs s a") auto
    note e = s1(4) [OF r] same_but_lifetimeD [OF q(2)]
    have "r_countUses r = 0" "r_isRegistered r" using e q(1) c f(3) by (simp_all split: if_splits)
    then have "r_isDestroyed r'" using e q(1) as r f(1) by auto
    then have "a \<in> set (m_destroyed s')" using invD(1) [OF s'(2) f(2)] by simp
    then have "waits s' a" using s'(4) by simp
    then show False using c f collectedD(3) [OF s'(3)] s1(3) by (simp add: waits_def)
  qed
  then show ?thesis using gc s' gone used by blast
qed

end
