(* ===== verification/SR_Resource_Calls.thy ===== *)
theory SR_Resource_Calls
  imports SR_Resources
begin

text \<open>
  Every call a client makes of the resources and their manager, and what any sequence of such calls
  keeps true: the tables hold exactly the living registered resources, a destroyed resource is in the
  list and nothing else is, every parent counts as a use, and no watcher signals a dead resource. The
  caller's conditions are those of the comments and assertions of the source: pointers are to living
  objects, a use is given back by who took it, a name is set before the registration, which happens once.
\<close>

section \<open>Uses, destruction and revival\<close>

lemma Destroy_total: "m_objs s a = Some r \<Longrightarrow> \<exists>s'. Destroy s a = Inr s'"
  by (simp add: Destroy_eq)

lemma unregistered_DeleteResource:
  assumes "manager_inv s" "m_objs s a = Some r" "\<not> r_isRegistered r" "\<not> r_isDestroyed r" "r_parents r = []"
    and "a \<notin> set (m_destroyed s)"
  shows "\<exists>s'. DeleteResource s a = Inr s' \<and> manager_inv s' \<and> m_objs s' = (m_objs s)(a := None)"
proof -
  have "tables_ok (s\<lparr>m_objs := (m_objs s)(a := None)\<rparr>)"
    using tables_ok_gone_unregistered assms by (simp add: manager_inv_def)
  then show ?thesis using DeleteResource_inv [OF assms(1,2,5), of s] assms(6) invD(7) [OF assms(1)] by auto
qed

text \<open>An unregistered resource is deleted at once when its last use goes; so it must not be in the list,
  which \<open>IsDestroyed\<close> tells only when nobody revived it by hand.\<close>

definition listed_destroyed :: "manager \<Rightarrow> bool" where
  "listed_destroyed s \<longleftrightarrow> (\<forall>a \<in> set (m_destroyed s). \<forall>r. m_objs s a = Some r \<longrightarrow> r_isDestroyed r)"

definition good :: "manager \<Rightarrow> bool" where
  "good s \<longleftrightarrow> manager_inv s \<and> listed_destroyed s"

lemma goodD: "good s \<Longrightarrow> manager_inv s"
  "good s \<Longrightarrow> m_objs s a = Some r \<Longrightarrow> r_isDestroyed r \<longleftrightarrow> a \<in> set (m_destroyed s)"
  using invD(1) by (auto simp: good_def listed_destroyed_def)

lemma put_good:
  assumes "good s" "m_objs s a = Some r"
    and "r_hashName r' = r_hashName r" "r_id r' = r_id r" "r_path r' = r_path r" "r_isRegistered r' = r_isRegistered r"
    and "r_isDestroyed r' = r_isDestroyed r"
    and "distinct (r_parents r')" "length (r_parents r') \<le> unat (r_countUses r')"
    and "r_watchers r' = r_watchers r"
  shows "good (put s a r')"
proof -
  have "manager_inv (put s a r')"
    by (rule put_inv [OF goodD(1) [OF assms(1)] assms(2)]) (use assms goodD in auto)
  then show ?thesis using assms by (auto simp: good_def listed_destroyed_def)
qed

lemma Destroy_good:
  assumes "good s" "m_objs s a = Some r"
  shows "\<exists>s'. Destroy s a = Inr s' \<and> good s' \<and> m_objs s' = (m_objs s)(a \<mapsto> r\<lparr>r_isDestroyed := True\<rparr>)"
proof -
  have "\<exists>s'. Destroy s a = Inr s' \<and> manager_inv s'" using Destroy_inv assms goodD by blast
  then show ?thesis using assms by (auto simp: Destroy_eq [OF assms(2)] good_def listed_destroyed_def)
qed

lemma AddUsePoint_good:
  assumes "good s" "m_objs s a = Some r" "unat (r_countUses r) < 65535"
  shows "good (put s a (r\<lparr>r_countUses := r_countUses r + 1\<rparr>))" "AddUsePoint s a = Inr (put s a (r\<lparr>r_countUses := r_countUses r + 1\<rparr>))"
proof -
  have "unat (r_countUses r + 1) = Suc (unat (r_countUses r))" by (rule unat_plus_1) (use assms(3) in simp)
  then show "good (put s a (r\<lparr>r_countUses := r_countUses r + 1\<rparr>))"
    by (intro put_good [OF assms(1,2)]) (use invD(3,4) [OF goodD(1) [OF assms(1)] assms(2)] in simp_all)
qed (use assms in \<open>simp add: AddUsePoint_def get_Some\<close>)

lemma RemoveUsePoint_good:
  assumes "good s" "m_objs s a = Some r" "length (r_parents r) < unat (r_countUses r)"
  shows "\<exists>x s'. RemoveUsePoint s a = Inr (x, s') \<and> good s' \<and> (\<forall>b. b \<noteq> a \<longrightarrow> m_objs s' b = m_objs s b)"
proof -
  have nz: "r_countUses r \<noteq> 0" using assms(3) by auto
  let ?r = "r\<lparr>r_countUses := r_countUses r - 1\<rparr>"
  have u: "unat (r_countUses r - 1) = unat (r_countUses r) - 1" using nz by (rule unat_minus_1)
  have s1: "good (put s a ?r)"
    by (rule put_good [OF assms(1,2)]) (use invD(3) [OF goodD(1) [OF assms(1)] assms(2)] assms(3) u in simp_all)
  consider (keep) "\<not> (r_countUses r - 1 = 0 \<and> \<not> r_isDestroyed r)" | (destroy) "r_countUses r - 1 = 0" "\<not> r_isDestroyed r" "r_isRegistered r"
    | (delete) "r_countUses r - 1 = 0" "\<not> r_isDestroyed r" "\<not> r_isRegistered r" by blast
  then show ?thesis
  proof cases
    case keep
    then show ?thesis using assms(2) nz s1 by (auto simp: RemoveUsePoint_def get_Some)
  next
    case destroy
    then show ?thesis using assms(2) nz Destroy_good [OF s1, of a ?r] by (auto simp: RemoveUsePoint_def get_Some)
  next
    case delete
    have p: "r_parents ?r = []" using assms(3) u delete(1) by (cases "unat (r_countUses r)") auto
    have n: "a \<notin> set (m_destroyed (put s a ?r))" using goodD(2) [OF assms(1,2)] delete by simp
    obtain s' where "DeleteResource (put s a ?r) a = Inr s'" "manager_inv s'" "m_objs s' = (m_objs (put s a ?r))(a := None)"
        "m_destroyed s' = m_destroyed s"
    proof -
      obtain g where g: "DeleteResource (put s a ?r) a = Inr ((map_files g (put s a ?r))\<lparr>m_objs := (m_objs (put s a ?r))(a := None)\<rparr>)"
        using DeleteResource_eq [of "put s a ?r" a ?r] p by auto
      obtain s' where "DeleteResource (put s a ?r) a = Inr s'" "manager_inv s'" "m_objs s' = (m_objs (put s a ?r))(a := None)"
        using unregistered_DeleteResource [OF goodD(1) [OF s1], of a ?r] delete p n by auto
      then show thesis using g by (intro that [of s']) auto
    qed
    moreover from this have "good s'" using s1 by (auto simp: good_def listed_destroyed_def split: if_splits)
    ultimately show ?thesis using delete assms(2) nz by (auto simp: RemoveUsePoint_def get_Some)
  qed
qed


lemma CheckResourceUsage_good:
  assumes "good s" "m_objs s a = Some r"
  shows "\<exists>s'. CheckResourceUsage s a = Inr s' \<and> good s'"
proof -
  note inv = goodD(1) [OF assms(1)]
  consider (keep) "\<not> (r_countUses r = 0 \<and> \<not> r_isDestroyed r)" | (destroy) "r_countUses r = 0" "\<not> r_isDestroyed r" "r_isRegistered r"
    | (delete) "r_countUses r = 0" "\<not> r_isDestroyed r" "\<not> r_isRegistered r" by blast
  then show ?thesis
  proof cases
    case delete
    then have p: "r_parents r = []" using invD(4) [OF inv assms(2)] by simp
    have n: "a \<notin> set (m_destroyed s)" using goodD(2) [OF assms] delete by simp
    obtain g where g: "DeleteResource s a = Inr ((map_files g s)\<lparr>m_objs := (m_objs s)(a := None)\<rparr>)"
      using DeleteResource_eq [OF assms(2) p] by blast
    moreover have "manager_inv ((map_files g s)\<lparr>m_objs := (m_objs s)(a := None)\<rparr>)"
      using unregistered_DeleteResource [OF inv assms(2) delete(3,2) p n] g by auto
    ultimately show ?thesis
      using delete assms by (auto simp: CheckResourceUsage_def get_Some good_def listed_destroyed_def split: if_splits)
  qed (use assms Destroy_good [OF assms] in \<open>auto simp: CheckResourceUsage_def get_Some\<close>)
qed

lemma lifetime_good:
  assumes "good s" "m_objs s a = Some r"
  shows "good (put s a (r\<lparr>r_lifetime := l\<rparr>))"
  by (rule put_good [OF assms]) (use invD(3,4) [OF goodD(1) [OF assms(1)] assms(2)] in simp_all)

lemma Kill_good:
  assumes "good s" "m_objs s a = Some r"
  shows "\<exists>b s'. Kill s a = Inr (b, s') \<and> good s'"
proof (cases "r_countUses r = 0")
  case True
  obtain s1 r1 where "(if \<not> r_isDestroyed r then Destroy s a else Inr s) = Inr s1" "good s1" "m_objs s1 a = Some r1"
    using Destroy_good [OF assms] assms by (cases "r_isDestroyed r") auto
  then show ?thesis using True assms(2) lifetime_good by (auto simp: Kill_def get_Some)
qed (use assms in \<open>simp add: Kill_def get_Some ex_bool_eq\<close>)

lemma ForceDestroy_good:
  assumes "good s" "m_objs s a = Some r"
  shows "\<exists>b s'. ForceDestroy s a = Inr (b, s') \<and> good s'"
proof (cases "r_isForceDestroyed r \<or> r_isDestroyed r")
  case False
  let ?r = "r\<lparr>r_isForceDestroyed := True\<rparr>"
  have "good (put s a ?r)"
    by (rule put_good [OF assms]) (use invD(3,4) [OF goodD(1) [OF assms(1)] assms(2)] in simp_all)
  then show ?thesis using False assms(2) Destroy_good [of "put s a ?r" a ?r] by (auto simp: ForceDestroy_def get_Some)
qed (use assms in \<open>auto simp: ForceDestroy_def get_Some ex_bool_eq\<close>)

text \<open>Reviving takes the resource off the list, if its class allows it.\<close>

lemma ReviveResource_good:
  assumes "good s" "m_objs s a = Some r"
  shows "\<exists>b s' r'. ReviveResource s a = Inr (b, s') \<and> good s' \<and> b = (\<not> r_isDestroyed r \<or> r_allowedToRevive r) \<and>
    m_objs s' = (m_objs s)(a \<mapsto> r') \<and> m_types s' = m_types s \<and> (b \<longrightarrow> \<not> r_isDestroyed r') \<and> (\<not> b \<longrightarrow> r' = r) \<and>
    r_hashName r' = r_hashName r \<and> r_id r' = r_id r \<and> r_isRegistered r' = r_isRegistered r \<and> r_countUses r' = r_countUses r"
proof (cases "r_isDestroyed r \<and> r_allowedToRevive r")
  case True
  note inv = goodD(1) [OF assms(1)]
  let ?r = "r\<lparr>r_isDestroyed := False, r_lifetime := ResourceLifeTime\<rparr>"
  let ?s = "put (s\<lparr>m_destroyed := remove1 a (m_destroyed s)\<rparr>) a ?r"
  have a: "a \<in> set (m_destroyed s)" using goodD(2) [OF assms] True by simp
  have "manager_inv (put s a ?r)"
    by (rule put_inv [OF inv assms(2)]) (use invD(3,4) [OF inv assms(2)] in simp_all)
  then have "manager_inv ((put s a ?r)\<lparr>m_destroyed := remove1 a (m_destroyed s)\<rparr>)"
    by (rule destroyed_inv) (use invD [OF inv] in \<open>auto simp: distinct_remove1 split: if_splits dest: notin_set_remove1\<close>)
  moreover have "set (remove1 a (m_destroyed s)) = set (m_destroyed s) - {a}" using invD(7) [OF inv] by simp
  ultimately have "good ?s" using assms(1) by (auto simp: good_def listed_destroyed_def put_swap)
  then show ?thesis using True a assms(2) by (intro exI [of _ True] exI [of _ ?s] exI [of _ ?r]) (simp add: ReviveResource_def get_Some)
next
  case False
  then show ?thesis using assms
    by (intro exI [of _ "\<not> r_isDestroyed r"] exI [of _ s] exI [of _ r]) (auto simp: ReviveResource_def get_Some fun_upd_idem)
qed

lemma find_copy_good:
  assumes "good s" "\<And>a. a \<in> set c \<Longrightarrow> \<exists>r. m_objs s a = Some r \<and> r_isRegistered r \<and> r_hashName r = h \<and> r_id r = i"
  shows "\<exists>x s'. find_copy s c = Inr (x, s') \<and> good s' \<and> m_types s' = m_types s \<and>
    (case x of None \<Rightarrow> \<forall>a \<in> set c. \<forall>r. m_objs s a = Some r \<longrightarrow> r_isDestroyed r \<and> \<not> r_allowedToRevive r
     | Some a \<Rightarrow> \<exists>r. m_objs s' a = Some r \<and> r_isRegistered r \<and> r_hashName r = h \<and> r_id r = i \<and> \<not> r_isDestroyed r)"
  using assms
proof (induction c arbitrary: s)
  case (Cons a as)
  obtain r where r: "m_objs s a = Some r" "r_isRegistered r" "r_hashName r = h" "r_id r = i" using Cons.prems(2) [of a] by auto
  obtain b s1 r' where s1: "ReviveResource s a = Inr (b, s1)" "good s1" "b = (\<not> r_isDestroyed r \<or> r_allowedToRevive r)"
    "m_objs s1 = (m_objs s)(a \<mapsto> r')" "m_types s1 = m_types s" "b \<longrightarrow> \<not> r_isDestroyed r'" "\<not> b \<longrightarrow> r' = r"
    "r_hashName r' = r_hashName r" "r_id r' = r_id r" "r_isRegistered r' = r_isRegistered r"
    using ReviveResource_good [OF Cons.prems(1) r(1)] by blast
  show ?case
  proof (cases b)
    case True
    then show ?thesis using s1 r by auto
  next
    case False
    then have m: "m_objs s1 = m_objs s" using s1(4,7) r(1) by auto
    have "\<And>a. a \<in> set as \<Longrightarrow> \<exists>r. m_objs s1 a = Some r \<and> r_isRegistered r \<and> r_hashName r = h \<and> r_id r = i"
      using Cons.prems(2) by (auto simp: m)
    then obtain x s' where "find_copy s1 as = Inr (x, s')" "good s'" "m_types s' = m_types s1"
      "case x of None \<Rightarrow> \<forall>a \<in> set as. \<forall>r. m_objs s1 a = Some r \<longrightarrow> r_isDestroyed r \<and> \<not> r_allowedToRevive r
       | Some a \<Rightarrow> \<exists>r. m_objs s' a = Some r \<and> r_isRegistered r \<and> r_hashName r = h \<and> r_id r = i \<and> \<not> r_isDestroyed r"
      using Cons.IH [OF s1(2)] by blast
    then show ?thesis using False s1(1,3,5) r(1) by (auto simp: m split: option.splits)
  qed
qed simp

lemma Find_good:
  assumes "good s" "map_of (m_types s) h \<noteq> None"
  shows "\<exists>x s'. Find s h i = Inr (x, s') \<and> good s' \<and>
    (case x of
       None \<Rightarrow> \<forall>a r. m_objs s a = Some r \<longrightarrow> r_isRegistered r \<longrightarrow> r_hashName r = h \<longrightarrow> r_id r = i \<longrightarrow>
         r_isDestroyed r \<and> \<not> r_allowedToRevive r
     | Some a \<Rightarrow> \<exists>r. m_objs s' a = Some r \<and> r_isRegistered r \<and> r_hashName r = h \<and> r_id r = i \<and> \<not> r_isDestroyed r \<and>
         a \<notin> set (m_destroyed s') \<and> r_lifetime r = ResourceLifeTime)"
proof -
  obtain t where t: "map_of (m_types s) h = Some t" "type_ok s h t" using assms(2) invD(6) [OF goodD(1) [OF assms(1)]] by blast
  have el: "elems (t_copies t i) = {a \<in> registered s h. id_of s a = i}" using t(2) by (simp add: type_ok_def)
  let ?c = "case t_copies t i of None \<Rightarrow> [] | Some c \<Rightarrow> c"
  have c: "set ?c = {a. \<exists>r. m_objs s a = Some r \<and> r_isRegistered r \<and> r_hashName r = h \<and> r_id r = i}"
    using el by (auto simp: elems_def registered_def id_of_def split: option.splits)
  obtain x s1 where x: "find_copy s ?c = Inr (x, s1)" "good s1"
    "case x of None \<Rightarrow> \<forall>a \<in> set ?c. \<forall>r. m_objs s a = Some r \<longrightarrow> r_isDestroyed r \<and> \<not> r_allowedToRevive r
     | Some a \<Rightarrow> \<exists>r. m_objs s1 a = Some r \<and> r_isRegistered r \<and> r_hashName r = h \<and> r_id r = i \<and> \<not> r_isDestroyed r"
    using find_copy_good [OF assms(1), of ?c h i] c by blast
  have f: "Find s h i = (case x of None \<Rightarrow> Inr (None, s1)
      | Some a \<Rightarrow> bind_res (get s1 a) (\<lambda>r. Inr (Some a, put s1 a (r\<lparr>r_lifetime := ResourceLifeTime\<rparr>))))"
    using x(1) t(1) by (simp add: Find_def type_at_def split: option.splits)
  show ?thesis
  proof (cases x)
    case None
    then show ?thesis using f x c by auto
  next
    case (Some a)
    then obtain r where r: "m_objs s1 a = Some r" "r_isRegistered r" "r_hashName r = h" "r_id r = i" "\<not> r_isDestroyed r"
      using x(3) by auto
    then show ?thesis using f Some lifetime_good [OF x(2) r(1)] goodD(2) [OF x(2) r(1)] by (simp add: get_Some)
  qed
qed


lemma GC_good:
  assumes "good s"
  shows "\<exists>s'. GC s = Inr s' \<and> good s'"
proof (cases "m_dirtyResources s = [] \<and> m_dirtyWatchers s = [] \<and> m_destroyed s \<noteq> []")
  case True
  then obtain s' where "GC s = Inr s'" "manager_inv s'" "\<forall>a \<in> set (m_destroyed s'). waits s' a"
    using GC_ends [OF goodD(1) [OF assms]] by blast
  then show ?thesis by (fastforce simp: good_def listed_destroyed_def waits_def)
next
  case False
  then have "GC s = Inr s" by (auto simp: GC_def)
  then show ?thesis using assms by simp
qed

lemma AddDependency_good:
  assumes "good s" "m_objs s a = Some r" "m_objs s c = Some q" "unat (r_countUses q) < 65535"
  shows "\<exists>s'. AddDependency s a c = Inr s' \<and> good s'"
proof -
  note inv = goodD(1) [OF assms(1)]
  let ?q = "q\<lparr>r_countUses := r_countUses q + 1\<rparr>"
  have u: "unat (r_countUses q + 1) = Suc (unat (r_countUses q))" by (rule unat_plus_1) (use assms(4) in simp)
  have s1: "good (put s c ?q)" "AddUsePoint s c = Inr (put s c ?q)" using AddUsePoint_good [OF assms(1,3,4)] by simp_all
  obtain r1 where r1: "m_objs (put s c ?q) a = Some r1" using assms(2) by (cases "a = c") auto
  let ?r = "r1\<lparr>r_dependencies := set_insert c (r_dependencies r1)\<rparr>"
  have s2: "good (put (put s c ?q) a ?r)"
    by (rule put_good [OF s1(1) r1]) (use invD(3,4) [OF goodD(1) [OF s1(1)] r1] in simp_all)
  obtain q2 where q2: "m_objs (put (put s c ?q) a ?r) c = Some q2" "r_countUses q2 = r_countUses q + 1" "r_parents q2 = r_parents q"
    using r1 by (cases "c = a") auto
  have "length (set_insert a (r_parents q)) \<le> Suc (length (r_parents q))" by (simp add: set_insert_def)
  then have "good (put (put (put s c ?q) a ?r) c (q2\<lparr>r_parents := set_insert a (r_parents q2)\<rparr>))"
    using q2 u invD(3,4) [OF inv assms(3)] by (intro put_good [OF s2 q2(1)]) (auto simp: distinct_set_ops)
  then show ?thesis using s1(2) r1 q2 by (simp add: AddDependency_def get_Some Let_def)
qed

lemma RemoveDependency_good:
  assumes "good s" "m_objs s a = Some r" "m_objs s c = Some q"
  shows "\<exists>s'. RemoveDependency s a c = Inr s' \<and> good s'"
proof (cases "c \<in> set (r_dependencies r) \<and> a \<in> set (r_parents q)")
  case True
  note inv = goodD(1) [OF assms(1)]
  let ?s1 = "put s a (r\<lparr>r_dependencies := set_erase c (r_dependencies r)\<rparr>)"
  have s1: "good ?s1" by (rule put_good [OF assms(1,2)]) (use invD(3,4) [OF inv assms(2)] in simp_all)
  obtain q1 where q1: "m_objs ?s1 c = Some q1" "r_countUses q1 = r_countUses q" "r_parents q1 = r_parents q"
    using assms(2,3) by (cases "c = a") auto
  let ?q = "q1\<lparr>r_parents := set_erase a (r_parents q1)\<rparr>"
  have l: "Suc (length (set_erase a (r_parents q))) = length (r_parents q)"
    by (rule length_set_erase) (use True invD(3) [OF inv assms(3)] in simp_all)
  have s2: "good (put ?s1 c ?q)"
    using q1 l invD(3,4) [OF inv assms(3)] by (intro put_good [OF s1 q1(1)]) (auto simp: distinct_set_ops)
  obtain x s' where "RemoveUsePoint (put ?s1 c ?q) c = Inr (x, s')" "good s'"
    using RemoveUsePoint_good [OF s2, of c ?q] q1 l invD(4) [OF inv assms(3)] by auto
  then show ?thesis using True assms(2,3) q1 by (auto simp: RemoveDependency_def get_Some Let_def)
qed (use assms in \<open>auto simp: RemoveDependency_def get_Some\<close>)

section \<open>Names and registration\<close>

text \<open>A resource of a known type enters the tables.\<close>

lemma type_Add_tables:
  assumes inv: "tables_ok s" and r: "m_objs s a = Some r" "\<not> r_isRegistered r" and p: "\<not> (r_path r = [] \<and> r_isFile r)"
  shows "\<exists>ts blocks k. type_Add s a = Inr (put (s\<lparr>m_types := ts, m_infos := blocks\<rparr>) a (r\<lparr>r_isRegistered := True, r_info := Some k\<rparr>)) \<and>
    tables_ok (put (s\<lparr>m_types := ts, m_infos := blocks\<rparr>) a (r\<lparr>r_isRegistered := True, r_info := Some k\<rparr>)) \<and> map fst ts = map fst (m_types s)"
proof -
  let ?h = "r_hashName r"
  let ?i = "r_id r"
  let ?p = "r_path r"
  obtain t where t: "map_of (m_types s) ?h = Some t" "type_ok s ?h t" using inv r unfolding tables_ok_def by blast
  obtain k bs where kb: "info_for s r t = (k, bs)" by (cases "info_for s r t")
  define blocks where "blocks = info_upd bs k (set_insert a)"
  define t1 where "t1 = t\<lparr>t_copies := copies_insert (t_copies t) ?i a, t_resources := set_insert a (t_resources t), t_info := (t_info t)(?p \<mapsto> k)\<rparr>"
  define s2 where "s2 = set_type (s\<lparr>m_infos := blocks\<rparr>) ?h t1"
  define r' where "r' = r\<lparr>r_isRegistered := True, r_info := Some k\<rparr>"
  define s3 where "s3 = put s2 a r'"
  have e: "type_Add s a = Inr s3"
    using r t(1) p kb by (auto simp: type_Add_def get_Some type_at_def Let_def s3_def s2_def t1_def blocks_def r'_def)
  have lookup: "map_of (m_types s3) h = (if h = ?h then Some t1 else map_of (m_types s) h)" for h
    using t(1) map_of_set_type [of "s\<lparr>m_infos := blocks\<rparr>" ?h t1 h] by (simp add: s3_def s2_def)
  have reg: "registered s3 h = (if h = ?h then insert a (registered s h) else registered s h)" for h
    using r by (auto simp: registered_def s3_def s2_def r'_def)
  have ids: "id_of s3 b = id_of s b" "path_of s3 b = path_of s b" for b
    using r by (simp_all add: id_of_def path_of_def s3_def s2_def r'_def)
  have a: "id_of s a = ?i" "path_of s a = ?p" using r by (simp_all add: id_of_def path_of_def)
  have m3: "m_infos s3 = blocks" by (simp add: s3_def s2_def)
  \<comment> \<open>the block of the path, before and after\<close>
  have block: "k < length blocks \<and> (\<exists>i. blocks ! k = Some i \<and> i_type i = ?h \<and> i_path i = ?p \<and> i_loaded i \<noteq> [] \<and>
      set (i_loaded i) = insert a {b \<in> registered s ?h. path_of s b = ?p}) \<and>
      (\<forall>j. j \<noteq> k \<longrightarrow> j < length blocks \<longrightarrow> j < length (m_infos s) \<and> blocks ! j = m_infos s ! j) \<and> length (m_infos s) \<le> length blocks \<and>
      (k < length (m_infos s) \<longrightarrow> t_info t ?p = Some k)"
  proof (cases "t_info t ?p")
    case None
    have "info_ok s ?h ?p None" using t(2) None unfolding type_ok_def by metis
    then have "{b \<in> registered s ?h. path_of s b = ?p} = {}" by (simp add: info_ok_def)
    moreover have "k = length (m_infos s)" "blocks = m_infos s @ [Some \<lparr>i_type = ?h, i_hash = r_resourceHash r, i_path = ?p, i_loaded = [a]\<rparr>]"
      using None kb by (auto simp: info_for_def blocks_def info_upd_def set_insert_def)
    ultimately show ?thesis by (auto simp: nth_append)
  next
    case (Some j)
    have "info_ok s ?h ?p (Some j)" using t(2) Some unfolding type_ok_def by metis
    then obtain i where i: "j < length (m_infos s)" "m_infos s ! j = Some i" "i_type i = ?h" "i_path i = ?p"
        "set (i_loaded i) = {b \<in> registered s ?h. path_of s b = ?p}"
      by (auto simp: info_ok_def split: option.splits)
    have nz: "set_insert a (i_loaded i) \<noteq> []" by (auto simp: set_insert_def)
    show ?thesis using Some kb i nz by (auto simp: info_for_def blocks_def info_upd_def)
  qed
  have other_info: "info_ok s3 h q (t_info u q)" if io: "info_ok s h q (t_info u q)" "h \<noteq> ?h \<or> q \<noteq> ?p" for h q u
  proof -
    have n: "{b \<in> registered s3 h. path_of s3 b = q} = {b \<in> registered s h. path_of s b = q}"
      using io(2) a by (auto simp: reg ids)
    show ?thesis
    proof (cases "t_info u q")
      case None
      then show ?thesis using io(1) by (simp only: info_ok_def n option.simps)
    next
      case (Some j)
      then have j: "j < length (m_infos s)" "\<exists>i. m_infos s ! j = Some i \<and> i_type i = h \<and> i_path i = q \<and> i_loaded i \<noteq> [] \<and>
          set (i_loaded i) = {b \<in> registered s h. path_of s b = q}"
        using io(1) by (auto simp: info_ok_def split: option.splits)
      have "j \<noteq> k"
      proof
        assume "j = k"
        then have "info_ok s ?h ?p (Some k)" using block j(1) t(2) unfolding type_ok_def by metis
        then show False using j(2) \<open>j = k\<close> io(2) by (auto simp: info_ok_def split: option.splits)
      qed
      then have "blocks ! j = m_infos s ! j" "j < length blocks" using block j(1) by auto
      then show ?thesis unfolding info_ok_def Some n m3 using j by auto
    qed
  qed
  have "type_ok s3 h u" if u: "map_of (m_types s3) h = Some u" for h u
  proof (cases "h = ?h")
    case False
    then have ok: "type_ok s h u" using u inv lookup unfolding tables_ok_def by auto
    then have "info_ok s3 h q (t_info u q)" for q using other_info [of h q u] False by (simp add: type_ok_def)
    moreover have "registered s3 h = registered s h" "\<And>i. {b \<in> registered s h. id_of s3 b = i} = {b \<in> registered s h. id_of s b = i}"
      using False by (auto simp: reg ids)
    ultimately show ?thesis using ok unfolding type_ok_def by simp
  next
    case True
    then have u: "u = t1" using u lookup by simp
    have res: "set (t_resources t1) = registered s3 ?h" using t(2) by (simp add: t1_def reg type_ok_def)
    have cps: "t_copies t1 i \<noteq> Some [] \<and> elems (t_copies t1 i) = {b \<in> registered s3 ?h. id_of s3 b = i}" for i
    proof -
      have o: "t_copies t i \<noteq> Some []" "elems (t_copies t i) = {b \<in> registered s ?h. id_of s b = i}" using t(2) by (simp_all add: type_ok_def)
      show ?thesis
      proof (cases "i = ?i")
        case True
        have "set (case t_copies t i of None \<Rightarrow> [] | Some c \<Rightarrow> c) = {b \<in> registered s ?h. id_of s b = i}"
          using o(2) by (simp add: elems_def split: option.splits)
        moreover have "set_insert a c \<noteq> []" for c by (auto simp: set_insert_def)
        ultimately show ?thesis using True a(1) by (auto simp: t1_def copies_insert_def elems_def reg ids)
      next
        case False
        then show ?thesis using o a(1) by (auto simp: t1_def copies_insert_def reg ids)
      qed
    qed
    have inf: "info_ok s3 ?h q (t_info t1 q)" for q
    proof (cases "q = ?p")
      case True
      have "insert a {b \<in> registered s ?h. path_of s b = ?p} = {b \<in> registered s3 ?h. path_of s3 b = ?p}" using a(2) by (auto simp: reg ids)
      then show ?thesis using True block by (auto simp: info_ok_def t1_def m3)
    next
      case False
      then have "t_info t1 q = t_info t q" by (simp add: t1_def)
      then show ?thesis using other_info [of ?h q t] False t(2) by (simp add: type_ok_def)
    qed
    show ?thesis using res cps inf by (simp add: type_ok_def u \<open>h = ?h\<close>)
  qed
  moreover have "\<exists>u. map_of (m_types s3) (i_type i) = Some u \<and> t_info u (i_path i) = Some j"
    if j: "j < length (m_infos s3)" "m_infos s3 ! j = Some i" for j i
  proof (cases "j = k")
    case True
    then show ?thesis using block j by (auto simp: m3 lookup t1_def)
  next
    case False
    then have "j < length (m_infos s)" "m_infos s ! j = Some i" using j block by (auto simp: m3)
    then obtain u where u: "map_of (m_types s) (i_type i) = Some u" "t_info u (i_path i) = Some j"
      using inv unfolding tables_ok_def by blast
    show ?thesis
    proof (cases "i_type i = ?h")
      case True
      then have ut: "u = t" using u(1) t(1) by simp
      have "i_path i \<noteq> ?p"
      proof
        assume "i_path i = ?p"
        then have "t_info t ?p = Some j" using u(2) ut by simp
        then have "k = j" using kb by (simp add: info_for_def)
        then show False using False by simp
      qed
      then show ?thesis using True u ut by (simp add: lookup t1_def)
    qed (use u in \<open>simp add: lookup\<close>)
  qed
  moreover have "map_of (m_types s3) (r_hashName q) \<noteq> None" if q: "m_objs s3 b = Some q" for b q
  proof -
    obtain q0 where "m_objs s b = Some q0" "r_hashName q0 = r_hashName q" using q r by (auto simp: s3_def s2_def r'_def split: if_splits)
    then have "map_of (m_types s) (r_hashName q) \<noteq> None" using inv unfolding tables_ok_def by metis
    then show ?thesis by (simp add: lookup)
  qed
  moreover have "map fst (m_types s2) = map fst (m_types s)" unfolding s2_def keys_set_type by simp
  ultimately have "tables_ok s3" using inv unfolding tables_ok_def by (simp add: s3_def)
  moreover have "s2 = s\<lparr>m_types := m_types s2, m_infos := blocks\<rparr>" by (simp add: s2_def set_type_def)
  then have "s3 = put (s\<lparr>m_types := m_types s2, m_infos := blocks\<rparr>) a r'" unfolding s3_def by (rule arg_cong)
  ultimately show ?thesis
    using e \<open>map fst (m_types s2) = map fst (m_types s)\<close> unfolding r'_def by metis
qed


lemma type_Add_good:
  assumes "good s" "m_objs s a = Some r" "\<not> r_isRegistered r"
  shows "\<exists>s'. type_Add s a = Inr s' \<and> good s'"
proof (cases "r_path r = [] \<and> r_isFile r")
  case True
  then show ?thesis using assms type_at_inv [OF goodD(1) [OF assms(1)] assms(2)] by (auto simp: type_Add_def get_Some)
next
  case False
  note inv = goodD(1) [OF assms(1)]
  have t: "tables_ok s" using inv by (simp add: manager_inv_def)
  obtain ts blocks k where s': "type_Add s a = Inr (put (s\<lparr>m_types := ts, m_infos := blocks\<rparr>) a (r\<lparr>r_isRegistered := True, r_info := Some k\<rparr>))"
    "tables_ok (put (s\<lparr>m_types := ts, m_infos := blocks\<rparr>) a (r\<lparr>r_isRegistered := True, r_info := Some k\<rparr>))"
    using type_Add_tables [OF t assms(2,3) False] by blast
  let ?r = "r\<lparr>r_isRegistered := True, r_info := Some k\<rparr>"
  let ?s = "put (s\<lparr>m_types := ts, m_infos := blocks\<rparr>) a ?r"
  have w: "waiting_ok ?s" using inv assms(2) by (auto simp: manager_inv_def waiting_ok_def)
  have u: "uses_ok ?s" using inv assms(2) by (auto simp: manager_inv_def uses_ok_def)
  have "watch_ok ?s"
  proof -
    have o: "watch_ok s" using inv by (simp add: manager_inv_def)
    have "\<exists>q. m_objs ?s b = Some q \<and> v \<in> set (r_watchers q)" if "\<exists>q. m_objs s b = Some q \<and> v \<in> set (r_watchers q)" for b v
      using that assms(2) by auto
    then show ?thesis using o assms(2) unfolding watch_ok_def by (auto split: if_splits)
  qed
  then have "good ?s" using s'(2) w u assms by (auto simp: good_def manager_inv_def listed_destroyed_def)
  then show ?thesis using s'(1) by blast
qed

lemma StartWatch_good:
  assumes "good s" "m_objs s a = Some r"
  shows "\<exists>s' r'. StartWatch env s a = Inr s' \<and> good s' \<and> m_objs s' = (m_objs s)(a \<mapsto> r') \<and> r_isRegistered r' = r_isRegistered r"
proof (cases "r_isFromMemory r \<or> \<not> r_isFile r \<or> \<not> e_watchable env (e_full env (r_path r))")
  case True
  then have "StartWatch env s a = Inr s" using assms by (auto simp: StartWatch_def get_Some manager_StartWatch_def)
  moreover have "m_objs s = (m_objs s)(a \<mapsto> r)" using assms(2) by auto
  ultimately show ?thesis using assms(1) by blast
next
  case False
  note inv = goodD(1) [OF assms(1)]
  let ?w = "length (m_files s)"
  let ?r = "r\<lparr>r_watchers := r_watchers r @ [?w]\<rparr>"
  let ?f = "(FileWatcher_new (e_full env (r_path r)))\<lparr>w_owner := Some a\<rparr>"
  let ?s = "put (s\<lparr>m_watchers := m_watchers s @ [?w], m_files := m_files s @ [?f]\<rparr>) a ?r"
  have e: "StartWatch env s a = Inr ?s"
    using False assms(2) by (simp add: StartWatch_def get_Some manager_StartWatch_def watch_upd_def Let_def)
  have "same_ids s ?s" using assms(2) by (simp add: same_ids_def ids_of_def)
  then have t: "tables_ok ?s" using same_ids_tables inv by (simp add: manager_inv_def)
  have w: "waiting_ok ?s" using inv assms(2) by (auto simp: manager_inv_def waiting_ok_def)
  have u: "uses_ok ?s" using inv assms(2) by (auto simp: manager_inv_def uses_ok_def)
  have "watch_ok ?s"
  proof -
    have o: "watch_ok s" using inv by (simp add: manager_inv_def)
    have 1: "\<exists>q. m_objs ?s b = Some q \<and> v \<in> set (r_watchers q)"
      if v: "v < length (m_files ?s)" "w_isActive (m_files ?s ! v)" "w_owner (m_files ?s ! v) = Some b" for v b
    proof (cases "v = ?w")
      case True
      then show ?thesis using v by simp
    next
      case False
      then have v': "v < ?w" "m_files ?s ! v = m_files s ! v" using v(1) by (simp_all add: nth_append)
      then obtain q where "m_objs s b = Some q" "v \<in> set (r_watchers q)" using o v unfolding watch_ok_def by metis
      then show ?thesis using assms(2) by auto
    qed
    have 2: "v < length (m_files ?s)" if v: "m_objs ?s b = Some q" "v \<in> set (r_watchers q)" for b q v
    proof -
      have "v < ?w \<or> v = ?w" using o v assms(2) unfolding watch_ok_def by (auto split: if_splits)
      then show ?thesis by auto
    qed
    have 3: "\<forall>v \<in> set (m_watchers ?s) \<union> set (m_dirtyWatchers ?s). v < length (m_files ?s)"
      using o unfolding watch_ok_def by (auto intro: less_SucI)
    show ?thesis unfolding watch_ok_def using 1 2 3 by blast
  qed
  then have "good ?s" using t w u assms by (auto simp: good_def manager_inv_def listed_destroyed_def)
  then show ?thesis using e by (intro exI [of _ ?s] exI [of _ ?r]) simp
qed

lemma RegisterResource_good:
  assumes "good s" "m_objs s a = Some r" "\<not> r_isRegistered r"
  shows "\<exists>s'. RegisterResource env s a = Inr s' \<and> good s'"
proof -
  obtain s1 r1 where "StartWatch env s a = Inr s1" "good s1" "m_objs s1 a = Some r1" "\<not> r_isRegistered r1"
    using StartWatch_good [OF assms(1,2), of env] assms(3) by fastforce
  then show ?thesis using type_Add_good by (simp add: RegisterResource_def)
qed

text \<open>The name of an object that is not registered yet may change.\<close>

lemma rename_good:
  assumes "good s" "m_objs s a = Some r" "\<not> r_isRegistered r"
    and r': "r_hashName r' = r_hashName r" "\<not> r_isRegistered r'" "r_isDestroyed r' = r_isDestroyed r"
      "r_parents r' = r_parents r" "r_countUses r' = r_countUses r" "r_watchers r' = r_watchers r"
  shows "good (put s a r')"
proof -
  let ?s = "put s a r'"
  note inv = goodD(1) [OF assms(1)]
  have t: "tables_ok s" using inv by (simp add: manager_inv_def)
  have reg: "registered ?s h = registered s h" "a \<notin> registered s h" for h using assms by (auto simp: registered_def)
  have ids: "{b \<in> registered s h. id_of ?s b = i} = {b \<in> registered s h. id_of s b = i}"
    "{b \<in> registered s h. path_of ?s b = i} = {b \<in> registered s h. path_of s b = i}" for h i
    using reg(2) by (auto simp: id_of_def path_of_def)
  have inf: "m_infos ?s = m_infos s" "m_types ?s = m_types s" by simp_all
  have ty: "type_ok ?s h u \<longleftrightarrow> type_ok s h u" for h u unfolding type_ok_def info_ok_def reg(1) ids inf ..
  have ex: "map_of (m_types s) (r_hashName q) \<noteq> None" if q: "m_objs ?s b = Some q" for b q
    using t q assms(2) r'(1) unfolding tables_ok_def by (auto split: if_splits)
  have "tables_ok ?s" using t ex unfolding tables_ok_def inf ty by blast
  moreover have "waiting_ok ?s" "uses_ok ?s" using inv assms(2) r' by (auto simp: manager_inv_def waiting_ok_def uses_ok_def)
  moreover have "watch_ok ?s"
  proof -
    have o: "watch_ok s" using inv by (simp add: manager_inv_def)
    have "\<exists>q. m_objs ?s b = Some q \<and> v \<in> set (r_watchers q)" if "\<exists>q. m_objs s b = Some q \<and> v \<in> set (r_watchers q)" for b v
      using that assms(2) r'(6) by auto
    then show ?thesis using o assms(2) r'(6) unfolding watch_ok_def by (auto split: if_splits)
  qed
  ultimately show ?thesis using assms by (auto simp: good_def manager_inv_def listed_destroyed_def)
qed

lemma SetId_good:
  assumes "good s" "m_objs s a = Some r" "\<not> r_isRegistered r"
  shows "\<exists>s'. SetId env s a i b = Inr s' \<and> good s'"
proof -
  let ?r = "r\<lparr>r_id := i, r_path := e_path env i\<rparr>"
  have "good (put s a ?r)" by (rule rename_good [OF assms]) (use assms(3) in simp_all)
  then show ?thesis using assms RegisterResource_good [of "put s a ?r" a ?r env] by (auto simp: SetId_def get_Some Let_def)
qed

lemma CopyResource_good:
  assumes "good s" "m_objs s a = Some r" "m_objs s d = Some q" "\<not> r_isRegistered q"
  shows "\<exists>s'. CopyResource env s a d = Inr s' \<and> good s'"
proof -
  let ?q = "q\<lparr>r_path := r_path r, r_loadState := r_loadState r\<rparr>"
  have "good (put s d ?q)" by (rule rename_good [OF assms(1,3,4)]) (use assms(4) in simp_all)
  then show ?thesis using assms SetId_good [of "put s d ?q" d ?q env "r_id r" True] by (simp add: CopyResource_def get_Some)
qed


section \<open>Watchers and reloading\<close>

text \<open>Only the files, the queues and the logs change.\<close>

lemma queues_good:
  assumes "good s" "m_objs s' = m_objs s" "m_types s' = m_types s" "m_infos s' = m_infos s" "m_destroyed s' = m_destroyed s"
    "length (m_files s') = length (m_files s)"
    "\<And>w. w < length (m_files s) \<Longrightarrow> w_isActive (m_files s' ! w) = w_isActive (m_files s ! w) \<and> w_owner (m_files s' ! w) = w_owner (m_files s ! w)"
    "set (m_watchers s') \<union> set (m_dirtyWatchers s') \<subseteq> set (m_watchers s) \<union> set (m_dirtyWatchers s)"
  shows "good s'"
proof -
  note inv = goodD(1) [OF assms(1)]
  have "same_ids s s'" using assms by (simp add: same_ids_def ids_of_def)
  then have t: "tables_ok s'" using same_ids_tables inv by (simp add: manager_inv_def)
  have o: "watch_ok s" using inv by (simp add: manager_inv_def)
  have "\<exists>r. m_objs s' a = Some r \<and> w \<in> set (r_watchers r)"
    if "w < length (m_files s')" "w_isActive (m_files s' ! w)" "w_owner (m_files s' ! w) = Some a" for w a
  proof -
    have "w < length (m_files s)" "w_isActive (m_files s ! w)" "w_owner (m_files s ! w) = Some a"
      using that assms(6,7) by auto
    then show ?thesis using o unfolding watch_ok_def assms(2) by blast
  qed
  then have "watch_ok s'" using o assms(2,6,8) unfolding watch_ok_def by auto
  then show ?thesis using t inv assms by (auto simp: good_def manager_inv_def waiting_ok_def uses_ok_def listed_destroyed_def)
qed

lemma watcher_Update_flags: "w_isActive (snd (watcher_Update env f)) = w_isActive f" "w_owner (snd (watcher_Update env f)) = w_owner f"
  by (auto simp: watcher_Update_def Let_def)

lemma AsyncUpdateWatchers_good:
  assumes "good s"
  shows "good (AsyncUpdateWatchers env enabled s)"
proof (cases "m_watchers s")
  case (Cons w ws)
  obtain d f1 where u: "watcher_Update env (m_files s ! w) = (d, f1)" by (cases "watcher_Update env (m_files s ! w)")
  then have f1: "w_isActive f1 = w_isActive (m_files s ! w)" "w_owner f1 = w_owner (m_files s ! w)"
    using watcher_Update_flags [of env "m_files s ! w"] by simp_all
  have "w < length (m_files s)" using goodD(1) [OF assms] Cons by (auto simp: manager_inv_def watch_ok_def)
  then show ?thesis
    by (intro queues_good [OF assms]) (use Cons u f1 in \<open>auto simp: AsyncUpdateWatchers_def Let_def watch_upd_files nth_list_update\<close>)
qed (use assms in \<open>simp add: AsyncUpdateWatchers_def\<close>)

text \<open>A signal only reaches a living resource.\<close>

lemma watcher_Signal_good:
  assumes "good s" "w < length (m_files s)" "w_isActive (m_files s ! w)"
  shows "\<exists>s'. watcher_Signal s w = Inr s' \<and> good s' \<and> m_objs s' = m_objs s \<and> length (m_files s') = length (m_files s) \<and>
    m_dirtyWatchers s' = m_dirtyWatchers s"
proof (cases "w_isDirty (m_files s ! w)")
  case True
  let ?s1 = "watch_upd w (w_isDirty_update (\<lambda>_. False)) s"
  have s1: "good ?s1" by (rule queues_good [OF assms(1)]) (use assms(2) in \<open>auto simp: watch_upd_files nth_list_update\<close>)
  show ?thesis
  proof (cases "w_owner (m_files s ! w)")
    case None
    then show ?thesis using True s1 by (simp add: watcher_Signal_def Let_def watch_upd_files)
  next
    case (Some a)
    then obtain r where r: "m_objs s a = Some r"
      using goodD(1) [OF assms(1)] assms(2,3) unfolding manager_inv_def watch_ok_def by blast
    have "good (?s1\<lparr>m_dirtyResources := m_dirtyResources ?s1 @ [r_info r]\<rparr>)"
      by (rule queues_good [OF s1]) simp_all
    then show ?thesis using True Some s1 r
      by (simp add: watcher_Signal_def Let_def SignalWatch_def ReloadResource_def get_def watch_upd_files)
  qed
qed (use assms in \<open>simp add: watcher_Signal_def\<close>)

lemma update_watchers_good:
  assumes "good s" "\<And>w. w \<in> set ws \<Longrightarrow> w < length (m_files s)"
  shows "\<exists>s'. update_watchers s ws = Inr s' \<and> good s' \<and> m_objs s' = m_objs s \<and> m_dirtyWatchers s' = []"
  using assms
proof (induction ws arbitrary: s)
  case Nil
  have "good (s\<lparr>m_dirtyWatchers := []\<rparr>)" by (rule queues_good [OF Nil.prems(1)]) auto
  then show ?case by simp
next
  case (Cons w ws)
  have w: "w < length (m_files s)" using Cons.prems(2) by simp
  obtain s1 where s1: "(if w_isActive (m_files s ! w) \<and> \<not> w_isPaused (m_files s ! w) then watcher_Signal s w else Inr s) = Inr s1"
    "good s1" "m_objs s1 = m_objs s" "length (m_files s1) = length (m_files s)"
    using watcher_Signal_good [OF Cons.prems(1) w] Cons.prems(1) by (cases "w_isActive (m_files s ! w) \<and> \<not> w_isPaused (m_files s ! w)") auto
  have "\<And>v. v \<in> set ws \<Longrightarrow> v < length (m_files s1)" using Cons.prems(2) s1(4) by simp
  then obtain s' where "update_watchers s1 ws = Inr s'" "good s'" "m_objs s' = m_objs s1" "m_dirtyWatchers s' = []"
    using Cons.IH [OF s1(2)] by blast
  then show ?case using s1(1,3) by simp
qed

lemma UpdateWatchers_good: "good s \<Longrightarrow> \<exists>s'. UpdateWatchers s = Inr s' \<and> good s'"
  using update_watchers_good [of s "m_dirtyWatchers s"] goodD(1) [of s]
  by (auto simp: UpdateWatchers_def manager_inv_def watch_ok_def)

text \<open>What a walk over the dependencies reads.\<close>

definition same_links :: "manager \<Rightarrow> manager \<Rightarrow> bool" where
  "same_links s s' \<longleftrightarrow> (\<forall>a. map_option (\<lambda>r. (r_parents r, r_dependencies r)) (m_objs s' a) = map_option (\<lambda>r. (r_parents r, r_dependencies r)) (m_objs s a))"

lemma UpdateResources_links: "same_links s s' \<Longrightarrow> UpdateResources n s' a d = UpdateResources n s a d"
proof (induction n arbitrary: a d)
  case (Suc n)
  have e: "map_option (\<lambda>r. (r_parents r, r_dependencies r)) (m_objs s' a) = map_option (\<lambda>r. (r_parents r, r_dependencies r)) (m_objs s a)"
    using Suc.prems by (simp add: same_links_def)
  then show ?case
    by (cases "m_objs s a"; cases "m_objs s' a") (auto simp: get_def Suc.IH [OF Suc.prems])
qed simp

text \<open>The base class never fails to reload.\<close>

lemma Reload_good:
  assumes "good s" "m_objs s a = Some r" "UpdateResources (e_stack env) s a 0 = Inr tr"
  shows "\<exists>s'. Reload env s a = Inr (True, s') \<and> good s' \<and> same_links s s' \<and>
    m_objs s' = (m_objs s)(a \<mapsto> r\<lparr>r_loadState := LS_Loaded, r_reloadCount := r_reloadCount r + 1\<rparr>) \<and> m_infos s' = m_infos s \<and>
    m_files s' = m_files s \<and> m_updated s' = m_updated s @ tr"
proof -
  let ?r = "\<lambda>st. r\<lparr>r_loadState := st\<rparr>"
  let ?s3 = "put s a (?r LS_Loaded)"
  have "same_links s ?s3" using assms(2) by (simp add: same_links_def)
  then have tr: "UpdateResources (e_stack env) ?s3 a 0 = Inr tr" using assms(3) by (simp add: UpdateResources_links)
  let ?s' = "put (?s3\<lparr>m_updated := m_updated s @ tr, m_reloaded := m_reloaded s @ [a]\<rparr>) a (r\<lparr>r_loadState := LS_Loaded, r_reloadCount := r_reloadCount r + 1\<rparr>)"
  have e: "Reload env s a = Inr (True, ?s')"
    using assms(2) tr by (simp add: Reload_def get_Some Unload_def Load_def Let_def put_def)
  have "good (put s a (r\<lparr>r_loadState := LS_Loaded, r_reloadCount := r_reloadCount r + 1\<rparr>))"
    by (rule put_good [OF assms(1,2)]) (use invD(3,4) [OF goodD(1) [OF assms(1)] assms(2)] in simp_all)
  then have "good ?s'" by (rule queues_good) simp_all
  then show ?thesis using e assms(2) by (simp add: same_links_def put_def)
qed

lemma reload_all_good:
  assumes "good s" "\<And>a. a \<in> set as \<Longrightarrow> m_objs s a \<noteq> None" "\<And>a. m_objs s a \<noteq> None \<Longrightarrow> ok (UpdateResources (e_stack env) s a 0)"
  shows "\<exists>s'. reload_all env s as = Inr s' \<and> good s' \<and> same_links s s' \<and> dom (m_objs s') = dom (m_objs s) \<and> m_infos s' = m_infos s"
  using assms
proof (induction as arbitrary: s)
  case (Cons a as)
  obtain r where r: "m_objs s a = Some r" using Cons.prems(2) [of a] by auto
  obtain tr where tr: "UpdateResources (e_stack env) s a 0 = Inr tr" using Cons.prems(3) [of a] r by (auto simp: ok_iff)
  obtain b s1 where s1: "(if IsResourceSuitableForReload r then Reload env s a else Inr (False, s)) = Inr (b, s1)" "good s1"
    "same_links s s1" "dom (m_objs s1) = dom (m_objs s)" "m_infos s1 = m_infos s"
  proof (cases "IsResourceSuitableForReload r")
    case True
    then obtain s1 where "Reload env s a = Inr (True, s1)" "good s1" "same_links s s1" "m_infos s1 = m_infos s"
      "m_objs s1 = (m_objs s)(a \<mapsto> r\<lparr>r_loadState := LS_Loaded, r_reloadCount := r_reloadCount r + 1\<rparr>)"
      using Reload_good [OF Cons.prems(1) r tr] by blast
    then show ?thesis using True r by (intro that [of True s1]) auto
  qed (use Cons.prems(1) in \<open>auto intro!: that simp: same_links_def\<close>)
  have "\<And>c. c \<in> set as \<Longrightarrow> m_objs s1 c \<noteq> None" using Cons.prems(2) s1(4) by (metis domIff list.set_intros(2))
  moreover have "ok (UpdateResources (e_stack env) s1 c 0)" if "m_objs s1 c \<noteq> None" for c
    using Cons.prems(3) [of c] that s1(3,4) by (simp add: UpdateResources_links domIff set_eq_iff)
  ultimately obtain s' where "reload_all env s1 as = Inr s'" "good s'" "same_links s1 s'" "dom (m_objs s') = dom (m_objs s1)" "m_infos s' = m_infos s1"
    using Cons.IH [OF s1(2)] by blast
  then show ?case using s1 r by (simp add: get_Some same_links_def)
qed (simp add: same_links_def)

lemma reload_resources_good:
  assumes "good s" "\<And>a. m_objs s a \<noteq> None \<Longrightarrow> ok (UpdateResources (e_stack env) s a 0)"
  shows "\<exists>s'. reload_resources env s ws = Inr s' \<and> good s'"
  using assms
proof (induction ws arbitrary: s)
  case Nil
  have "good (s\<lparr>m_dirtyResources := []\<rparr>)" by (rule queues_good [OF Nil.prems(1)]) auto
  then show ?case by simp
next
  case (Cons w ws)
  show ?case
  proof (cases "lock_info s w")
    case None
    then show ?thesis using Cons by simp
  next
    case (Some i)
    then obtain k where k: "k < length (m_infos s)" "m_infos s ! k = Some i" by (auto simp: lock_info_def split: option.splits if_splits)
    have t: "tables_ok s" using goodD(1) [OF Cons.prems(1)] by (simp add: manager_inv_def)
    then obtain t where t: "map_of (m_types s) (i_type i) = Some t" "t_info t (i_path i) = Some k" "type_ok s (i_type i) t"
      using k unfolding tables_ok_def by blast
    then have "info_ok s (i_type i) (i_path i) (Some k)" unfolding type_ok_def by metis
    then have "set (i_loaded i) \<subseteq> registered s (i_type i)" using k by (auto simp: info_ok_def)
    then have a: "\<And>a. a \<in> set (i_loaded i) \<Longrightarrow> m_objs s a \<noteq> None" by (auto simp: registered_def)
    obtain s1 where s1: "reload_all env s (i_loaded i) = Inr s1" "good s1" "same_links s s1" "dom (m_objs s1) = dom (m_objs s)"
      using reload_all_good [OF Cons.prems(1) a Cons.prems(2)] by blast
    have "ok (UpdateResources (e_stack env) s1 c 0)" if "m_objs s1 c \<noteq> None" for c
      using Cons.prems(2) [of c] that s1(3,4) by (simp add: UpdateResources_links domIff set_eq_iff)
    then show ?thesis using Some s1(1) Cons.IH [OF s1(2)] Cons.IH [OF Cons.prems] by simp
  qed
qed


lemma Destroy_call_good: "good s \<Longrightarrow> m_objs s a = Some r \<Longrightarrow> \<exists>s'. Destroy s a = Inr s' \<and> good s'"
  using Destroy_good by blast

section \<open>Sequences of calls\<close>

datatype res_call =
    C_New addr u64 bool bool | C_Type u64 | C_SetId addr bytes bool | C_Register addr | C_Copy addr addr
  | C_Add addr | C_Remove addr | C_Check addr | C_Kill addr | C_Force addr | C_Destroy addr
  | C_Find u64 bytes | C_AddDependency addr addr | C_RemoveDependency addr addr
  | C_Collect bool u64 | C_Async bool | C_UpdateWatchers | C_Signal addr | C_Reload addr | C_ReloadAll

fun res_run :: "env \<Rightarrow> manager \<Rightarrow> res_call \<Rightarrow> manager result" where
  "res_run env s (C_New a h isFile revives) = Inr (IResource_new s a h isFile revives)"
| "res_run env s (C_Type h) = Inr (snd (RegisterType s h))"
| "res_run env s (C_SetId a i b) = SetId env s a i b"
| "res_run env s (C_Register a) = RegisterResource env s a"
| "res_run env s (C_Copy a d) = CopyResource env s a d"
| "res_run env s (C_Add a) = AddUsePoint s a"
| "res_run env s (C_Remove a) = bind_res (RemoveUsePoint s a) (\<lambda>(_, s1). Inr s1)"
| "res_run env s (C_Check a) = CheckResourceUsage s a"
| "res_run env s (C_Kill a) = bind_res (Kill s a) (\<lambda>(_, s1). Inr s1)"
| "res_run env s (C_Force a) = bind_res (ForceDestroy s a) (\<lambda>(_, s1). Inr s1)"
| "res_run env s (C_Destroy a) = Destroy s a"
| "res_run env s (C_Find h i) = bind_res (Find s h i) (\<lambda>(_, s1). Inr s1)"
| "res_run env s (C_AddDependency a c) = AddDependency s a c"
| "res_run env s (C_RemoveDependency a c) = RemoveDependency s a c"
| "res_run env s (C_Collect force dt) = GC (s\<lparr>m_force := force, m_GCDt := dt\<rparr>)"
| "res_run env s (C_Async enabled) = Inr (AsyncUpdateWatchers env enabled s)"
| "res_run env s C_UpdateWatchers = UpdateWatchers s"
| "res_run env s (C_Signal a) = SignalWatch s a"
| "res_run env s (C_Reload a) = bind_res (Reload env s a) (\<lambda>(_, s1). Inr s1)"
| "res_run env s C_ReloadAll = ReloadResources env s"

definition alive :: "manager \<Rightarrow> addr \<Rightarrow> bool" where
  "alive s a \<longleftrightarrow> m_objs s a \<noteq> None"

definition unregistered :: "manager \<Rightarrow> addr \<Rightarrow> bool" where
  "unregistered s a \<longleftrightarrow> (case m_objs s a of None \<Rightarrow> False | Some r \<Rightarrow> \<not> r_isRegistered r)"

definition uses_left :: "manager \<Rightarrow> addr \<Rightarrow> bool" where
  "uses_left s a \<longleftrightarrow> (case m_objs s a of None \<Rightarrow> False | Some r \<Rightarrow> unat (r_countUses r) < 65535)"

text \<open>The caller has a use of its own, beyond those of the parents.\<close>

definition own_use :: "manager \<Rightarrow> addr \<Rightarrow> bool" where
  "own_use s a \<longleftrightarrow> (case m_objs s a of None \<Rightarrow> False | Some r \<Rightarrow> length (r_parents r) < unat (r_countUses r))"

text \<open>The walk over the dependencies meets no object that is gone and no cycle.\<close>

definition walks :: "env \<Rightarrow> manager \<Rightarrow> addr \<Rightarrow> bool" where
  "walks env s a \<longleftrightarrow> ok (UpdateResources (e_stack env) s a 0)"

fun res_may :: "env \<Rightarrow> manager \<Rightarrow> res_call \<Rightarrow> bool" where
  "res_may env s (C_New a h isFile revives) = (\<not> alive s a \<and> map_of (m_types s) h \<noteq> None)"
| "res_may env s (C_Type h) = True"
| "res_may env s (C_SetId a i b) = unregistered s a"
| "res_may env s (C_Register a) = unregistered s a"
| "res_may env s (C_Copy a d) = (alive s a \<and> unregistered s d)"
| "res_may env s (C_Add a) = uses_left s a"
| "res_may env s (C_Remove a) = own_use s a"
| "res_may env s (C_Find h i) = (map_of (m_types s) h \<noteq> None)"
| "res_may env s (C_AddDependency a c) = (alive s a \<and> uses_left s c)"
| "res_may env s (C_RemoveDependency a c) = (alive s a \<and> alive s c)"
| "res_may env s (C_Reload a) = (alive s a \<and> walks env s a)"
| "res_may env s C_ReloadAll = (\<forall>a \<in> dom (m_objs s). walks env s a)"
| "res_may env s (C_Check a) = alive s a"
| "res_may env s (C_Kill a) = alive s a"
| "res_may env s (C_Force a) = alive s a"
| "res_may env s (C_Destroy a) = alive s a"
| "res_may env s (C_Signal a) = alive s a"
| "res_may env s (C_Collect force dt) = True"
| "res_may env s (C_Async enabled) = True"
| "res_may env s C_UpdateWatchers = True"

lemma IResource_new_good:
  assumes "good s" "m_objs s a = None" "map_of (m_types s) h \<noteq> None"
  shows "good (IResource_new s a h isFile revives)"
proof -
  note inv = goodD(1) [OF assms(1)]
  define r where "r = \<lparr>r_hashName = h, r_loadState = LS_Unknown, r_countUses = 0, r_isFromMemory = False, r_watchers = [],
       r_info = None, r_resourceHash = 0, r_id = [], r_path = [], r_reloadCount = 0, r_lifetime = ResourceLifeTime,
       r_isForceDestroyed = False, r_isDestroyed = False, r_isRegistered = False, r_deleteVerify = False,
       r_parents = [], r_dependencies = [], r_isFile = isFile, r_allowedToRevive = revives\<rparr>"
  let ?s = "put s a r"
  have t: "tables_ok s" using inv by (simp add: manager_inv_def)
  have reg: "registered ?s k = registered s k" "a \<notin> registered s k" for k using assms(2) by (auto simp: registered_def r_def)
  have ids: "{b \<in> registered s k. id_of ?s b = i} = {b \<in> registered s k. id_of s b = i}"
    "{b \<in> registered s k. path_of ?s b = i} = {b \<in> registered s k. path_of s b = i}" for k i
    using reg(2) by (auto simp: id_of_def path_of_def)
  have inf: "m_infos ?s = m_infos s" "m_types ?s = m_types s" by simp_all
  have ty: "type_ok ?s k u \<longleftrightarrow> type_ok s k u" for k u unfolding type_ok_def info_ok_def reg(1) ids inf ..
  have ex: "map_of (m_types s) (r_hashName q) \<noteq> None" if q: "m_objs ?s b = Some q" for b q
    using t q assms(3) unfolding tables_ok_def by (auto split: if_splits simp: r_def)
  have "tables_ok ?s" using t ex unfolding tables_ok_def inf ty by blast
  moreover have "waiting_ok ?s" "uses_ok ?s" using inv by (auto simp: manager_inv_def waiting_ok_def uses_ok_def r_def)
  moreover have "watch_ok ?s"
  proof -
    have o: "watch_ok s" using inv by (simp add: manager_inv_def)
    have "\<exists>q. m_objs ?s b = Some q \<and> v \<in> set (r_watchers q)" if "\<exists>q. m_objs s b = Some q \<and> v \<in> set (r_watchers q)" for b v
      using that assms(2) by auto
    then show ?thesis using o unfolding watch_ok_def by (auto split: if_splits simp: r_def)
  qed
  ultimately have "good ?s" using assms(1,2) goodD(1) invD(2)
    by (fastforce simp: good_def manager_inv_def listed_destroyed_def)
  then show ?thesis by (simp add: IResource_new_def r_def)
qed

lemma RegisterType_good:
  assumes "good s"
  shows "good (snd (RegisterType s h))"
proof (cases "map_of (m_types s) h = None")
  case True
  note inv = goodD(1) [OF assms]
  let ?t = "\<lparr>t_resources = [], t_copies = Map.empty, t_info = Map.empty\<rparr>"
  let ?s = "s\<lparr>m_types := m_types s @ [(h, ?t)]\<rparr>"
  have t: "tables_ok s" using inv by (simp add: manager_inv_def)
  have l: "map_of (m_types ?s) k = (if k = h then Some ?t else map_of (m_types s) k)" for k
    using True by (simp add: map_add_def split: option.splits)
  have views: "registered ?s k = registered s k" "id_of ?s b = id_of s b" "path_of ?s b = path_of s b" for k b
    by (simp_all add: registered_def id_of_def path_of_def)
  have inf: "m_infos ?s = m_infos s" by simp
  have ty: "type_ok ?s k u \<longleftrightarrow> type_ok s k u" for k u unfolding type_ok_def info_ok_def views inf ..
  have none: "registered s h = {}" using invD(5) [OF inv] True by (fastforce simp: registered_def)
  have "tables_ok ?s"
    unfolding tables_ok_def l ty
  proof (intro conjI allI impI)
    show "distinct (map fst (m_types ?s))" using t True by (auto simp: tables_ok_def map_of_eq_None_iff)
    show "(if r_hashName r = h then Some ?t else map_of (m_types s) (r_hashName r)) \<noteq> None" if "m_objs ?s a = Some r" for a r
      using t that unfolding tables_ok_def by auto
    show "type_ok s k u" if "(if k = h then Some ?t else map_of (m_types s) k) = Some u" for k u
      using that t none unfolding tables_ok_def by (auto split: if_splits simp: type_ok_def elems_def info_ok_def)
    show "\<exists>t. (if i_type i = h then Some ?t else map_of (m_types s) (i_type i)) = Some t \<and> t_info t (i_path i) = Some k"
      if k: "k < length (m_infos ?s)" "m_infos ?s ! k = Some i" for k i
    proof -
      have "k < length (m_infos s)" "m_infos s ! k = Some i" using k by simp_all
      then obtain u where "map_of (m_types s) (i_type i) = Some u" "t_info u (i_path i) = Some k" using t unfolding tables_ok_def by blast
      then show ?thesis using True by auto
    qed
  qed
  then have "good ?s" using inv assms by (auto simp: good_def manager_inv_def listed_destroyed_def waiting_ok_def uses_ok_def watch_ok_def)
  then show ?thesis using True by (simp add: RegisterType_def)
qed (use assms in \<open>auto simp: RegisterType_def\<close>)

lemma res_step: "good s \<Longrightarrow> res_may env s c \<Longrightarrow> \<exists>s'. res_run env s c = Inr s' \<and> good s'"
proof (cases c)
  case (C_Remove a)
  assume "good s" "res_may env s c"
  then show ?thesis using C_Remove RemoveUsePoint_good by (fastforce simp: own_use_def split: option.splits)
next
  case (C_Collect force dt)
  assume g: "good s"
  have "good (s\<lparr>m_force := force, m_GCDt := dt\<rparr>)" by (rule queues_good [OF g]) simp_all
  then show ?thesis using C_Collect GC_good by simp
next
  case (C_Signal a)
  assume g: "good s" and m: "res_may env s c"
  have "good (s\<lparr>m_dirtyResources := q\<rparr>)" for q by (rule queues_good [OF g]) simp_all
  then show ?thesis using m g C_Signal by (auto simp: alive_def SignalWatch_def ReloadResource_def get_Some)
next
  case (C_Reload a)
  assume g: "good s" and m: "res_may env s c"
  then obtain r tr where "m_objs s a = Some r" "UpdateResources (e_stack env) s a 0 = Inr tr"
    using C_Reload by (auto simp: alive_def walks_def ok_iff)
  then show ?thesis using C_Reload Reload_good [OF g] by fastforce
next
  case C_ReloadAll
  assume g: "good s" and m: "res_may env s c"
  then show ?thesis using C_ReloadAll reload_resources_good [OF g] by (auto simp: walks_def ReloadResources_def dom_def)
next
  case (C_Find h i)
  assume g: "good s" and m: "res_may env s c"
  then show ?thesis using C_Find Find_good [OF g, of h i] by auto
next
  case (C_Kill a)
  assume g: "good s" and m: "res_may env s c"
  then show ?thesis using C_Kill Kill_good by (fastforce simp: alive_def)
next
  case (C_Force a)
  assume g: "good s" and m: "res_may env s c"
  then show ?thesis using C_Force ForceDestroy_good by (fastforce simp: alive_def)
qed (auto simp: alive_def unregistered_def uses_left_def IResource_new_good RegisterType_good SetId_good RegisterResource_good
    CopyResource_good AddUsePoint_good CheckResourceUsage_good Destroy_call_good AddDependency_good RemoveDependency_good
    AsyncUpdateWatchers_good UpdateWatchers_good split: option.splits)

interpretation resources: guarded "res_run env" "res_may env" good for env
  by unfold_locales (rule res_step)

lemma good_new: "good manager_new"
  using manager_inv_new by (simp add: good_def listed_destroyed_def manager_new_def)


text \<open>C7: Whatever calls a client makes, in whatever order, as long as its own conditions hold along the way,
  no call touches an object that is gone, and afterwards the tables, the list of destroyed resources, the
  counts and the watchers agree with the living objects.\<close>

theorem resource_calls_safe:
  assumes "may_all (res_run env) (res_may env) manager_new calls"
  shows "\<exists>s. run_all (res_run env) manager_new calls = Inr s \<and> manager_inv s \<and>
    (\<forall>a r. m_objs s a = Some r \<longrightarrow> (r_isDestroyed r \<longleftrightarrow> a \<in> set (m_destroyed s)))"
proof -
  obtain s where "run_all (res_run env) manager_new calls = Inr s" "good s"
    using resources.run_all_inv [OF good_new assms] by blast
  then show ?thesis using goodD by blast
qed

definition example_env :: env where
  "example_env = \<lparr>e_path = (\<lambda>i. i), e_full = (\<lambda>p. 47 # p), e_watchable = (\<lambda>p. True), e_hash = (\<lambda>p. 0), e_writeTime = (\<lambda>p. 0),
     e_stack = 5\<rparr>"

definition example_calls :: "res_call list" where
  "example_calls = [C_Type 7, C_New 1 7 True True, C_SetId 1 [97] True, C_Add 1, C_Remove 1, C_Find 7 [97], C_Add 1, C_Collect True 10]"

lemmas res_eval = example_env_def example_calls_def manager_new_def RegisterType_def IResource_new_def alive_def unregistered_def uses_left_def
  own_use_def SetId_def RegisterResource_def StartWatch_def manager_StartWatch_def FileWatcher_new_def watch_upd_def type_Add_def type_at_def
  info_for_def info_upd_def copies_insert_def set_insert_def set_type_def AddUsePoint_def RemoveUsePoint_def Destroy_def manager_Destroy_def
  Find_def ReviveResource_def GC_def get_def put_def

lemma resource_calls_safe_witness:
  "ok (run_all (res_run example_env) manager_new example_calls)"
proof -
  have "may_all (res_run example_env) (res_may example_env) manager_new example_calls"
    by (simp add: res_eval Let_def ResourceLifeTime_def)
  then show ?thesis using resource_calls_safe [of example_env example_calls] by (auto simp: ok_iff)
qed

text \<open>The witness for the collection: two resources wait, one of them in use again.\<close>

definition waiting_calls :: "res_call list" where
  "waiting_calls = [C_Type 7, C_New 1 7 False False, C_SetId 1 [97] True, C_New 2 7 False False, C_SetId 2 [98] True,
     C_Destroy 1, C_Destroy 2, C_Add 2]"

lemma waiting_state:
  "\<exists>s. run_all (res_run example_env) manager_new waiting_calls = Inr s \<and> good s \<and> m_dirtyResources s = [] \<and> m_dirtyWatchers s = [] \<and>
    m_destroyed s = [1, 2] \<and> (\<exists>r. m_objs s 2 = Some r \<and> r_countUses r = 1) \<and> (\<exists>r. m_objs s 1 = Some r \<and> r_countUses r = 0 \<and> r_isRegistered r)"
proof -
  have "may_all (res_run example_env) (res_may example_env) manager_new waiting_calls"
    by (simp add: res_eval waiting_calls_def Let_def ResourceLifeTime_def)
  then obtain s where s: "run_all (res_run example_env) manager_new waiting_calls = Inr s" "good s"
    using resources.run_all_inv [OF good_new] by blast
  have "m_dirtyResources s = [] \<and> m_dirtyWatchers s = [] \<and> m_destroyed s = [1, 2] \<and> (\<exists>r. m_objs s 2 = Some r \<and> r_countUses r = 1) \<and>
      (\<exists>r. m_objs s 1 = Some r \<and> r_countUses r = 0 \<and> r_isRegistered r)"
    using s(1) by (auto simp: res_eval waiting_calls_def Let_def ResourceLifeTime_def)
  then show ?thesis using s by blast
qed


text \<open>C11: When no reload is pending, a collection always ends. Whatever is used lives on with nothing but its
  lifetime changed, an object that goes away was unused, what is still in the list afterwards has a reason
  to wait, and the tables hold exactly the living resources. A forced collection with something in the
  list leaves no unused registered resource.\<close>

theorem gc_contract:
  assumes "manager_inv s" "m_dirtyResources s = []" "m_dirtyWatchers s = []"
  shows "\<exists>s'. GC s = Inr s' \<and> manager_inv s' \<and>
    (\<forall>a r. m_objs s a = Some r \<longrightarrow> r_countUses r > 0 \<longrightarrow> (\<exists>r'. m_objs s' a = Some r' \<and> same_but_lifetime r r')) \<and>
    (\<forall>a r. m_objs s a = Some r \<longrightarrow> m_objs s' a = None \<longrightarrow> r_countUses r = 0) \<and>
    (m_destroyed s \<noteq> [] \<longrightarrow> (\<forall>a \<in> set (m_destroyed s'). waits s' a)) \<and>
    (m_destroyed s \<noteq> [] \<and> m_force s \<longrightarrow> (\<forall>a r. m_objs s' a = Some r \<longrightarrow> r_isRegistered r \<longrightarrow> r_countUses r > 0))"
  by (rule GC_ends [OF assms])

lemma gc_contract_witness:
  "\<exists>s s'. GC s = Inr s' \<and> m_objs s 1 \<noteq> None \<and> m_objs s 2 \<noteq> None \<and> m_objs s' 2 \<noteq> None \<and>
    (\<forall>r. m_objs s' 1 = Some r \<longrightarrow> \<not> r_isRegistered r \<or> r_countUses r > 0)"
proof -
  obtain s r1 r2 where s: "good s" "m_dirtyResources s = []" "m_dirtyWatchers s = []" "m_destroyed s = [1, 2]"
    "m_objs s 2 = Some r2" "r_countUses r2 = 1" "m_objs s 1 = Some r1"
    using waiting_state by blast
  have "good (s\<lparr>m_force := True\<rparr>)" by (rule queues_good [OF s(1)]) simp_all
  then have "manager_inv (s\<lparr>m_force := True\<rparr>)" by (rule goodD)
  then obtain s' where s': "GC (s\<lparr>m_force := True\<rparr>) = Inr s'" "\<exists>r'. m_objs s' 2 = Some r'"
    "\<forall>a r. m_objs s' a = Some r \<longrightarrow> r_isRegistered r \<longrightarrow> r_countUses r > 0"
    using gc_contract [of "s\<lparr>m_force := True\<rparr>"] s(2-6) by fastforce
  then show ?thesis using s by (intro exI [of _ "s\<lparr>m_force := True\<rparr>"] exI [of _ s']) auto
qed



section \<open>News about a change\<close>

definition parent_rel :: "manager \<Rightarrow> (addr \<times> addr) set" where
  "parent_rel s = {(a, p). \<exists>r. m_objs s a = Some r \<and> p \<in> set (r_parents r)}"

definition dependency_rel :: "manager \<Rightarrow> (addr \<times> addr) set" where
  "dependency_rel s = {(a, c). \<exists>r. m_objs s a = Some r \<and> c \<in> set (r_dependencies r)}"

lemma concat_res_Inr:
  "concat_res (map f xs) = Inr ys \<longleftrightarrow> (\<exists>g. (\<forall>x \<in> set xs. f x = Inr (g x)) \<and> ys = concat (map g xs))"
proof (induction xs arbitrary: ys)
  case (Cons x xs)
  show ?case
  proof
    assume "concat_res (map f (x # xs)) = Inr ys"
    then obtain y zs where y: "f x = Inr y" "concat_res (map f xs) = Inr zs" "ys = y @ zs" by (auto simp: bind_res_eq_Inr)
    then obtain g where "\<forall>x \<in> set xs. f x = Inr (g x)" "zs = concat (map g xs)" using Cons.IH by blast
    then have "(\<forall>v \<in> set (x # xs). f v = Inr (projr (f v))) \<and> ys = concat (map (\<lambda>v. projr (f v)) (x # xs))"
      using y by (auto intro!: arg_cong [where f = concat] map_cong)
    then show "\<exists>g. (\<forall>x \<in> set (x # xs). f x = Inr (g x)) \<and> ys = concat (map g (x # xs))" by (intro exI)
  next
    assume "\<exists>g. (\<forall>x \<in> set (x # xs). f x = Inr (g x)) \<and> ys = concat (map g (x # xs))"
    then obtain g where g: "\<forall>x \<in> set (x # xs). f x = Inr (g x)" "ys = concat (map g (x # xs))" by blast
    then have "concat_res (map f xs) = Inr (concat (map g xs))" using Cons.IH by auto
    then show "concat_res (map f (x # xs)) = Inr ys" using g by simp
  qed
qed auto

lemma trancl_image_step: "R\<^sup>+ `` {a} = (\<Union>b \<in> R `` {a}. insert b (R\<^sup>+ `` {b}))"
  by (auto intro: trancl_into_trancl2 elim: converse_tranclE)

lemma concat_updates:
  assumes "concat_res (map (\<lambda>p. bind_res (F p) (\<lambda>tr. Inr ((p, a, d) # tr))) xs) = Inr ys"
    and "\<And>p t. p \<in> set xs \<Longrightarrow> F p = Inr t \<Longrightarrow> fst ` set t = S p"
  shows "fst ` set ys = (\<Union>p \<in> set xs. insert p (S p))"
proof -
  obtain g where g: "\<forall>p \<in> set xs. bind_res (F p) (\<lambda>tr. Inr ((p, a, d) # tr)) = Inr (g p)" "ys = concat (map g xs)"
    using assms(1) by (auto simp: concat_res_Inr)
  have "fst ` set (g p) = insert p (S p)" if p: "p \<in> set xs" for p
  proof -
    obtain t where t: "F p = Inr t" "g p = (p, a, d) # t" using bspec [OF g(1) p] by (auto simp: bind_res_eq_Inr)
    then show ?thesis using assms(2) [OF p t(1)] by simp
  qed
  then show ?thesis using g(2) by (simp add: image_UN)
qed

text \<open>Upwards and downwards the news reaches whoever depends on the resource, directly or not, and nobody else.\<close>

lemma updates_up:
  "UpdateResources n s a d = Inr tr \<Longrightarrow> d > 0 \<Longrightarrow> fst ` set tr = (parent_rel s)\<^sup>+ `` {a}"
proof (induction n arbitrary: a d tr)
  case (Suc n)
  obtain r where r: "m_objs s a = Some r" using Suc.prems(1) by (auto simp: bind_res_eq_Inr get_def split: option.splits)
  have "concat_res (map (\<lambda>p. bind_res (UpdateResources n s p (d + 1 + 1)) (\<lambda>tr. Inr ((p, a, d + 1) # tr))) (r_parents r)) = Inr tr"
    using Suc.prems r by (simp add: get_Some bind_res_eq_Inr)
  then have "fst ` set tr = (\<Union>p \<in> set (r_parents r). insert p ((parent_rel s)\<^sup>+ `` {p}))"
    by (rule concat_updates) (rule Suc.IH [of _ "d + 1 + 1"], use Suc.prems(2) in auto)
  moreover have "parent_rel s `` {a} = set (r_parents r)" using r by (auto simp: parent_rel_def)
  ultimately show ?case using trancl_image_step [of "parent_rel s" a] by simp
qed simp

lemma updates_down:
  "UpdateResources n s a d = Inr tr \<Longrightarrow> d < 0 \<Longrightarrow> fst ` set tr = (dependency_rel s)\<^sup>+ `` {a}"
proof (induction n arbitrary: a d tr)
  case (Suc n)
  obtain r where r: "m_objs s a = Some r" using Suc.prems(1) by (auto simp: bind_res_eq_Inr get_def split: option.splits)
  have "concat_res (map (\<lambda>p. bind_res (UpdateResources n s p (d - 1 - 1)) (\<lambda>tr. Inr ((p, a, d - 1) # tr))) (r_dependencies r)) = Inr tr"
    using Suc.prems r by (simp add: get_Some bind_res_eq_Inr)
  then have "fst ` set tr = (\<Union>p \<in> set (r_dependencies r). insert p ((dependency_rel s)\<^sup>+ `` {p}))"
    by (rule concat_updates) (rule Suc.IH [of _ "d - 1 - 1"], use Suc.prems(2) in auto)
  moreover have "dependency_rel s `` {a} = set (r_dependencies r)" using r by (auto simp: dependency_rel_def)
  ultimately show ?case using trancl_image_step [of "dependency_rel s" a] by simp
qed simp

lemma concat_res_ok: "(\<And>x. x \<in> set xs \<Longrightarrow> ok (f x)) \<Longrightarrow> ok (concat_res (map f xs))"
proof (induction xs)
  case (Cons x xs)
  obtain y where "f x = Inr y" using Cons.prems [of x] by (auto simp: ok_iff)
  moreover obtain zs where "concat_res (map f xs) = Inr zs" using Cons by (auto simp: ok_iff)
  ultimately show ?case by simp
qed simp

lemma updates_end:
  assumes "\<And>a b. (a, b) \<in> parent_rel s \<Longrightarrow> rank b < rank a \<and> m_objs s b \<noteq> None"
    and "\<And>a b. (a, b) \<in> dependency_rel s \<Longrightarrow> depth b < depth a \<and> m_objs s b \<noteq> None"
  shows "m_objs s a \<noteq> None \<Longrightarrow> d \<ge> 0 \<longrightarrow> rank a < n \<Longrightarrow> d \<le> 0 \<longrightarrow> depth a < n \<Longrightarrow> ok (UpdateResources n s a d)"
proof (induction n arbitrary: a d)
  case (Suc n)
  obtain r where r: "m_objs s a = Some r" using Suc.prems(1) by auto
  have up: "ok (UpdateResources n s p (if d + 1 > 0 then d + 1 + 1 else d + 1 - 1))" if "p \<in> set (r_parents r)" "d \<ge> 0" for p
  proof -
    have "rank p < rank a \<and> m_objs s p \<noteq> None" using assms(1) [of a p] that(1) r by (auto simp: parent_rel_def)
    then show ?thesis using that(2) Suc.prems(2) by (intro Suc.IH) auto
  qed
  have down: "ok (UpdateResources n s c (if d - 1 > 0 then d - 1 + 1 else d - 1 - 1))" if "c \<in> set (r_dependencies r)" "d \<le> 0" for c
  proof -
    have "depth c < depth a \<and> m_objs s c \<noteq> None" using assms(2) [of a c] that(1) r by (auto simp: dependency_rel_def)
    then show ?thesis using that(2) Suc.prems(3) by (intro Suc.IH) auto
  qed
  let ?f = "\<lambda>p. bind_res (UpdateResources n s p (if d + 1 > 0 then d + 1 + 1 else d + 1 - 1)) (\<lambda>tr. Inr ((p, a, d + 1) # tr))"
  let ?g = "\<lambda>c. bind_res (UpdateResources n s c (if d - 1 > 0 then d - 1 + 1 else d - 1 - 1)) (\<lambda>tr. Inr ((c, a, d - 1) # tr))"
  have "ok (if d \<ge> 0 then concat_res (map ?f (r_parents r)) else Inr [])"
  proof (cases "d \<ge> 0")
    case True
    have "ok (?f p)" if "p \<in> set (r_parents r)" for p using up [OF that True] by (auto simp: ok_iff)
    then show ?thesis using True concat_res_ok [of "r_parents r" ?f] by simp
  qed simp
  moreover have "ok (if d \<le> 0 then concat_res (map ?g (r_dependencies r)) else Inr [])"
  proof (cases "d \<le> 0")
    case True
    have "ok (?g c)" if "c \<in> set (r_dependencies r)" for c using down [OF that True] by (auto simp: ok_iff)
    then show ?thesis using True concat_res_ok [of "r_dependencies r" ?g] by simp
  qed simp
  ultimately show ?case using r by (auto simp: get_Some ok_iff)
qed auto

lemma updates_exact: "UpdateResources n s a 0 = Inr tr \<Longrightarrow>
    fst ` set tr = (parent_rel s)\<^sup>+ `` {a} \<union> (dependency_rel s)\<^sup>+ `` {a}"
proof -
  assume tr: "UpdateResources n s a 0 = Inr tr"
  then obtain m where n: "n = Suc m" by (cases n) auto
  obtain r where r: "m_objs s a = Some r" using tr n by (auto simp: bind_res_eq_Inr get_def split: option.splits)
  obtain up down where ud: "concat_res (map (\<lambda>p. bind_res (UpdateResources m s p 2) (\<lambda>tr. Inr ((p, a, 1) # tr))) (r_parents r)) = Inr up"
    "concat_res (map (\<lambda>c. bind_res (UpdateResources m s c (- 2)) (\<lambda>tr. Inr ((c, a, - 1) # tr))) (r_dependencies r)) = Inr down"
    "tr = up @ down"
    using tr r n by (auto simp: get_Some bind_res_eq_Inr)
  have "fst ` set up = (\<Union>p \<in> set (r_parents r). insert p ((parent_rel s)\<^sup>+ `` {p}))"
    by (rule concat_updates [OF ud(1)]) (rule updates_up, auto)
  moreover have "fst ` set down = (\<Union>c \<in> set (r_dependencies r). insert c ((dependency_rel s)\<^sup>+ `` {c}))"
    by (rule concat_updates [OF ud(2)]) (rule updates_down, auto)
  moreover have "parent_rel s `` {a} = set (r_parents r)" "dependency_rel s `` {a} = set (r_dependencies r)"
    using r by (auto simp: parent_rel_def dependency_rel_def)
  ultimately show "fst ` set tr = (parent_rel s)\<^sup>+ `` {a} \<union> (dependency_rel s)\<^sup>+ `` {a}"
    using trancl_image_step [of "parent_rel s" a] trancl_image_step [of "dependency_rel s" a] ud(3) by (simp add: image_Un)
qed

text \<open>C20: When a resource changed and neither relation has a cycle or leads to an object that is gone, the
  walk ends within the height of the graph, and exactly those are told that depend on the resource or that it
  depends on, directly or through others.\<close>

theorem update_reaches_all:
  assumes "\<And>a b. (a, b) \<in> parent_rel s \<Longrightarrow> rank b < rank a \<and> m_objs s b \<noteq> None"
    "\<And>a b. (a, b) \<in> dependency_rel s \<Longrightarrow> depth b < depth a \<and> m_objs s b \<noteq> None"
    "m_objs s a \<noteq> None" "rank a < n" "depth a < n"
  shows "\<exists>tr. UpdateResources n s a 0 = Inr tr \<and>
    fst ` set tr = (parent_rel s)\<^sup>+ `` {a} \<union> (dependency_rel s)\<^sup>+ `` {a}"
proof -
  have "ok (UpdateResources n s a 0)" using assms by (intro updates_end [where rank = rank and depth = depth]) auto
  then show ?thesis using updates_exact [of n s a] by (auto simp: ok_iff)
qed

definition linked_calls :: "res_call list" where
  "linked_calls = [C_Type 7, C_New 1 7 False False, C_New 2 7 False False, C_New 3 7 False False, C_AddDependency 1 2, C_AddDependency 2 3]"

lemmas link_eval = res_eval linked_calls_def AddDependency_def RemoveDependency_def set_erase_def Let_def

lemma update_reaches_all_witness:
  "\<exists>s tr. run_all (res_run example_env) manager_new linked_calls = Inr s \<and> UpdateResources 5 s 2 0 = Inr tr \<and>
    fst ` set tr = (parent_rel s)\<^sup>+ `` {2} \<union> (dependency_rel s)\<^sup>+ `` {2}"
proof -
  obtain s where s: "run_all (res_run example_env) manager_new linked_calls = Inr s"
    by (simp add: link_eval)
  have l: "map_option (\<lambda>r. (r_parents r, r_dependencies r)) (m_objs s a) =
      (if a = 1 then Some ([], [2]) else if a = 2 then Some ([1], [3]) else if a = 3 then Some ([2], []) else None)" for a
    using s by (auto simp: link_eval)
  have "parent_rel s = {(a, p). case map_option (\<lambda>r. (r_parents r, r_dependencies r)) (m_objs s a) of None \<Rightarrow> False | Some (ps, cs) \<Rightarrow> p \<in> set ps}"
    "dependency_rel s = {(a, p). case map_option (\<lambda>r. (r_parents r, r_dependencies r)) (m_objs s a) of None \<Rightarrow> False | Some (ps, cs) \<Rightarrow> p \<in> set cs}"
    by (auto simp: parent_rel_def dependency_rel_def split: option.splits)
  then have "parent_rel s = {(2, 1), (3, 2)}" "dependency_rel s = {(1, 2), (2, 3)}" unfolding l by (auto split: if_splits)
  moreover have "m_objs s 1 \<noteq> None" "m_objs s 2 \<noteq> None" "m_objs s 3 \<noteq> None" using l [of 1] l [of 2] l [of 3] by auto
  ultimately show ?thesis using s update_reaches_all [of s "\<lambda>a. a" "\<lambda>a. 4 - a" 2 5] by fastforce
qed

section \<open>Where the code does not do what it means to\<close>

text \<open>A collection that frees a resource starts again at the beginning of the list, and those before it age
  once more by the same time: here by 20 instead of 10.\<close>

lemma gc_restart_ages_again:
  "map_option (\<lambda>r. r_lifetime r)
     (m_objs (projr (run_all (res_run example_env) manager_new
       [C_Type 7, C_New 1 7 False False, C_SetId 1 [97] True, C_New 2 7 False False, C_SetId 2 [98] True, C_Destroy 1, C_Kill 2,
        C_Collect False 10])) 1) = Some (ResourceLifeTime - 20)"
  by (simp add: res_eval Let_def ResourceLifeTime_def Kill_def gc_fuel_def gc_loop.simps aged_def IsLastResource_def IsLast_def IsAlive_def
      Remove_def type_Remove_def set_erase_def DeleteResource_def Unload_def StopWatch_def StopAll_def delete_object_def drop_parents.simps
      vec_erase_def eval_nat_numeral)


text \<open>A forced collection does nothing while the list is empty, although a registered resource is unused.\<close>

lemma forced_collection_skips_unused:
  "map_option (\<lambda>r. (r_countUses r, r_isRegistered r))
     (m_objs (projr (run_all (res_run example_env) manager_new
       [C_Type 7, C_New 1 7 False False, C_SetId 1 [97] True, C_Collect True 10])) 1) = Some (0, True)"
  by (simp add: res_eval Let_def ResourceLifeTime_def)

text \<open>The same dependency added twice counts two uses, and is removed once: the second use is never given
  back.\<close>

lemma dependency_twice_leaks:
  "map_option (\<lambda>r. (r_countUses r, r_parents r))
     (m_objs (projr (run_all (res_run example_env) manager_new
       [C_Type 7, C_New 1 7 False False, C_New 2 7 False False, C_AddDependency 1 2, C_AddDependency 1 2,
        C_RemoveDependency 1 2, C_RemoveDependency 1 2])) 2) = Some (1, [])"
  by (simp add: link_eval ResourceLifeTime_def)

text \<open>A watcher that is paused when its change is handled leaves the queue still dirty, and a dirty watcher
  is never asked again: the change and all later ones are lost.\<close>

lemma paused_watcher_is_dropped: "w_isPaused (m_files s ! w) \<Longrightarrow> update_watchers s [w] = Inr (s\<lparr>m_dirtyWatchers := []\<rparr>)"
  by simp

lemma dirty_watcher_not_queued:
  assumes "w_isDirty (m_files s ! w)" "w \<notin> set (m_dirtyWatchers s)"
  shows "w \<notin> set (m_dirtyWatchers (AsyncUpdateWatchers env enabled s))"
  using assms by (auto simp: AsyncUpdateWatchers_def Let_def watch_upd_files split: list.splits prod.splits)

text \<open>\<open>Unload\<close> pauses the watchers only when it fails; while a resource is reloaded they keep running.\<close>

lemma reload_keeps_watching:
  assumes "m_objs s a = Some r" "r_loadState r = LS_Reloading"
  shows "Unload s a = Inr (True, put s a (r\<lparr>r_loadState := LS_Unloaded\<rparr>))"
  using assms by (simp add: Unload_def get_Some)

end
