(* ===== verification/SR_Scene_Tree.thy ===== *)
theory SR_Scene_Tree
  imports SR_Hash_Manager
begin

text \<open>
  Objects of a scene and their hierarchy (ECS/SceneObject.h, .cpp, and the dirty flag of
  ECS/IComponentable.cpp): parents and children, roots and entity paths, layers, activity and prefabs.

  Objects live on a heap of addresses; a pointer to an object that is gone is \<open>DanglingPointer\<close>. The
  recursive methods take the depth the call stack may reach as their first argument. The state can be
  extended by the scene. What components do in the notifications (\<open>OnBeforeLayerChanged\<close>,
  \<open>OnLayerChanged\<close>, their own activity) and the virtual \<open>OnAttached\<close> and \<open>OnHierarchyChanged\<close> are left out
  here. Counts of uses of a prefab are kept per prefab.
\<close>

section \<open>Objects\<close>

record sobj =
  o_id :: u64
  o_path :: "u64 list"
  o_name :: bytes
  o_parent :: "nat option"
  o_root :: "nat option"
  o_children :: "nat list"
  o_isEnabled :: bool
  o_isActive :: bool
  o_isDestroyed :: bool
  o_dirty :: bool
  o_unattached :: bool
  o_layer :: bytes
  o_cachedLayer :: bytes
  o_inScene :: bool
  o_idInScene :: u64
  o_prefab :: "nat option"
  o_isOwner :: bool
  o_components :: "nat list"

record tree =
  t_objs :: "nat \<rightharpoonup> sobj"
  t_default :: bytes
  t_uses :: "nat \<Rightarrow> int"
  t_updaterDirty :: bool
  t_changed :: bool

definition obj :: "'x tree_scheme \<Rightarrow> nat \<Rightarrow> sobj result" where
  "obj t a = (case t_objs t a of None \<Rightarrow> Inl DanglingPointer | Some r \<Rightarrow> Inr r)"

definition upd :: "nat \<Rightarrow> (sobj \<Rightarrow> sobj) \<Rightarrow> 'x tree_scheme \<Rightarrow> 'x tree_scheme" where
  "upd a f t = t\<lparr>t_objs := (t_objs t)(a := map_option f (t_objs t a))\<rparr>"

text \<open>A loop over the children that may fail.\<close>

fun each :: "('s \<Rightarrow> nat \<Rightarrow> 's result) \<Rightarrow> 's \<Rightarrow> nat list \<Rightarrow> 's result" where
  "each f s [] = Inr s"
| "each f s (c # cs) = bind_res (f s c) (\<lambda>s1. each f s1 cs)"

lemma each_cong [fundef_cong]:
  "s = s' \<Longrightarrow> cs = cs' \<Longrightarrow> (\<And>x c. c \<in> set cs' \<Longrightarrow> f x c = g x c) \<Longrightarrow> each f s cs = each g s' cs'"
  by (induction cs arbitrary: cs' s s') (auto simp: bind_res_def split: sum.split)

section \<open>Roots, paths and parents\<close>

fun UpdateRoot :: "nat \<Rightarrow> 'x tree_scheme \<Rightarrow> nat \<Rightarrow> 'x tree_scheme result" where
  "UpdateRoot 0 t a = Inl OutOfFuel"
| "UpdateRoot (Suc n) t a =
     bind_res (obj t a) (\<lambda>r.
     bind_res (case o_parent r of None \<Rightarrow> Inr (Some a) | Some p \<Rightarrow> bind_res (obj t p) (\<lambda>q. Inr (o_root q))) (\<lambda>root.
     each (UpdateRoot n) (upd a (o_root_update (\<lambda>_. root)) t) (o_children r)))"

text \<open>The ids from the object up to its root; \<open>None\<close> when the object's own id comes again.\<close>

fun entity_path :: "nat \<Rightarrow> 'x tree_scheme \<Rightarrow> u64 \<Rightarrow> nat \<Rightarrow> u64 list \<Rightarrow> u64 list option result" where
  "entity_path 0 t own a path = Inl OutOfFuel"
| "entity_path (Suc n) t own a path =
     bind_res (obj t a) (\<lambda>r.
     case o_parent r of
       None \<Rightarrow> Inr (Some (o_id r # path))
     | Some p \<Rightarrow>
         bind_res (obj t p) (\<lambda>q.
         if o_id q = own then Inr None else entity_path n t own p (o_id r # path)))"

definition UpdateEntityPath :: "nat \<Rightarrow> 'x tree_scheme \<Rightarrow> nat \<Rightarrow> (bool \<times> 'x tree_scheme) result" where
  "UpdateEntityPath n t a =
     bind_res (obj t a) (\<lambda>r.
     bind_res (entity_path n t (o_id r) a []) (\<lambda>path.
     case path of None \<Rightarrow> Inr (False, t) | Some p \<Rightarrow> Inr (True, upd a (o_path_update (\<lambda>_. p)) t)))"

definition OnChanged :: "'x tree_scheme \<Rightarrow> 'x tree_scheme" where
  "OnChanged t = t\<lparr>t_changed := True\<rparr>"

definition SetParent :: "nat \<Rightarrow> 'x tree_scheme \<Rightarrow> nat \<Rightarrow> nat option \<Rightarrow> (bool \<times> 'x tree_scheme) result" where
  "SetParent n t a parent =
     bind_res (obj t a) (\<lambda>r.
     if parent = o_parent r then Inr (False, t)
     else
       bind_res (UpdateRoot n (upd a (o_parent_update (\<lambda>_. parent)) t) a) (\<lambda>t1.
       bind_res (UpdateEntityPath n t1 a) (\<lambda>(done, t2).
       if done then Inr (True, if o_inScene r then OnChanged t2 else t2)
       else
         bind_res (UpdateRoot n (upd a (o_parent_update (\<lambda>_. o_parent r)) t2) a) (\<lambda>t3. Inr (False, t3)))))"

section \<open>Layers\<close>

fun OnParentLayerChanged :: "nat \<Rightarrow> 'x tree_scheme \<Rightarrow> nat \<Rightarrow> 'x tree_scheme result" where
  "OnParentLayerChanged 0 t a = Inl OutOfFuel"
| "OnParentLayerChanged (Suc n) t a =
     bind_res (obj t a) (\<lambda>r.
     if o_layer r \<noteq> t_default t then Inr t
     else
       case o_parent r of
         None \<Rightarrow> Inl NullPointer
       | Some p \<Rightarrow>
           bind_res (obj t p) (\<lambda>q.
           if o_cachedLayer r = o_cachedLayer q then Inr t
           else each (OnParentLayerChanged n) (upd a (o_cachedLayer_update (\<lambda>_. o_cachedLayer q)) t) (o_children r)))"

definition SetLayer :: "nat \<Rightarrow> 'x tree_scheme \<Rightarrow> nat \<Rightarrow> bytes \<Rightarrow> 'x tree_scheme result" where
  "SetLayer n t a layer0 =
     bind_res (obj t a) (\<lambda>r.
     bind_res (case o_parent r of
         None \<Rightarrow> Inr layer0
       | Some p \<Rightarrow> if t_default t = layer0 then bind_res (obj t p) (\<lambda>q. Inr (o_cachedLayer q)) else Inr layer0) (\<lambda>layer.
     if layer = o_layer r \<and> o_cachedLayer r = o_layer r then Inr t
     else each (OnParentLayerChanged n) (upd a (\<lambda>r. r\<lparr>o_layer := layer, o_cachedLayer := layer\<rparr>) t) (o_children r)))"

section \<open>The dirty flag and activity\<close>

text \<open>\<open>IComponentable::SetDirty\<close>: an object with components that are not attached stays dirty.\<close>

definition componentable_SetDirty :: "'x tree_scheme \<Rightarrow> nat \<Rightarrow> bool \<Rightarrow> bool \<times> 'x tree_scheme" where
  "componentable_SetDirty t a dirty =
     (case t_objs t a of
        None \<Rightarrow> (dirty, t)
      | Some r \<Rightarrow> let d = dirty \<or> o_unattached r in (d, upd a (o_dirty_update (\<lambda>_. d)) t))"

text \<open>Dirt goes up, cleanliness goes down until an object stays dirty.\<close>

fun SetDirty :: "nat \<Rightarrow> 'x tree_scheme \<Rightarrow> nat \<Rightarrow> bool \<Rightarrow> (bool \<times> 'x tree_scheme) result"
and clean_children :: "nat \<Rightarrow> 'x tree_scheme \<Rightarrow> nat list \<Rightarrow> (bool \<times> 'x tree_scheme) result" where
  "SetDirty 0 t a dirty = Inl OutOfFuel"
| "SetDirty (Suc n) t a dirty =
     bind_res (obj t a) (\<lambda>r.
     if o_dirty r = dirty then Inr (dirty, t)
     else
       case componentable_SetDirty t a dirty of
         (d, t1) \<Rightarrow>
           if d \<and> \<not> dirty then Inr (True, t1)
           else if dirty then
             (case o_parent r of
                Some p \<Rightarrow> bind_res (SetDirty n t1 p True) (\<lambda>(_, t2). Inr (True, t2))
              | None \<Rightarrow> Inr (True, if o_inScene r then t1\<lparr>t_updaterDirty := True\<rparr> else t1))
           else
             bind_res (clean_children n t1 (o_children r)) (\<lambda>(still, t2).
             if still then Inr (True, snd (componentable_SetDirty t2 a True)) else Inr (False, t2)))"
| "clean_children 0 t cs = Inl OutOfFuel"
| "clean_children (Suc n) t [] = Inr (False, t)"
| "clean_children (Suc n) t (c # cs) =
     bind_res (SetDirty n t c False) (\<lambda>(still, t1). if still then Inr (True, t1) else clean_children n t1 cs)"

definition SetEnabled :: "nat \<Rightarrow> 'x tree_scheme \<Rightarrow> nat \<Rightarrow> bool \<Rightarrow> 'x tree_scheme result" where
  "SetEnabled n t a value =
     bind_res (obj t a) (\<lambda>r.
     if o_isEnabled r = value then Inr t
     else bind_res (SetDirty n (upd a (o_isEnabled_update (\<lambda>_. value)) t) a True) (\<lambda>(_, t1). Inr t1))"

fun CheckActivity :: "nat \<Rightarrow> 'x tree_scheme \<Rightarrow> bool \<Rightarrow> nat \<Rightarrow> 'x tree_scheme result" where
  "CheckActivity 0 t force a = Inl OutOfFuel"
| "CheckActivity (Suc n) t force a =
     bind_res (obj t a) (\<lambda>r.
     if \<not> force \<and> \<not> o_dirty r then Inr t
     else
       bind_res (case o_parent r of None \<Rightarrow> Inr True | Some p \<Rightarrow> bind_res (obj t p) (\<lambda>q. Inr (o_isActive q))) (\<lambda>above.
       let active = o_isEnabled r \<and> above; t1 = upd a (o_isActive_update (\<lambda>_. active)) t in
       if \<not> active \<and> active = o_isActive r then Inr t1
       else each (\<lambda>t. CheckActivity n t True) t1 (o_children r)))"

definition IsActive :: "sobj \<Rightarrow> bool" where
  "IsActive r \<longleftrightarrow> o_isActive r \<and> \<not> o_isDestroyed r"

section \<open>Children\<close>

definition AddChild :: "nat \<Rightarrow> 'x tree_scheme \<Rightarrow> nat \<Rightarrow> nat \<Rightarrow> (bool \<times> 'x tree_scheme) result" where
  "AddChild n t a c =
     bind_res (obj t a) (\<lambda>r. bind_res (obj t c) (\<lambda>k.
     if c = a then Inr (False, t)
     else if o_parent k \<noteq> None then Inr (False, t)
     else if c \<in> set (o_children r) then Inr (False, t)
     else
       bind_res (SetParent n t c (Some a)) (\<lambda>(done, t1).
       if \<not> done then Inr (False, t1)
       else
         bind_res (OnParentLayerChanged n (upd a (\<lambda>r. r\<lparr>o_children := o_children r @ [c]\<rparr>) t1) c) (\<lambda>t2.
         bind_res (SetDirty n (if o_inScene r then OnChanged t2 else t2) a True) (\<lambda>(_, t3). Inr (True, t3))))))"

text \<open>The index is a 16-bit number: among more children than it can count the loop never ends for one that
  is further behind.\<close>

definition RemoveChild :: "nat \<Rightarrow> 'x tree_scheme \<Rightarrow> nat \<Rightarrow> nat \<Rightarrow> 'x tree_scheme result" where
  "RemoveChild n t a c =
     bind_res (SetParent n t c None) (\<lambda>(_, t1).
     bind_res (obj t1 a) (\<lambda>r.
     if c \<in> set (take 65536 (o_children r)) then Inr (upd a (o_children_update (remove1 c)) t1)
     else if length (o_children r) > 65535 then Inl OutOfFuel
     else Inr t1))"

definition MoveToTree :: "nat \<Rightarrow> 'x tree_scheme \<Rightarrow> nat \<Rightarrow> nat option \<Rightarrow> (bool \<times> 'x tree_scheme) result" where
  "MoveToTree n t a destination =
     bind_res (obj t a) (\<lambda>r.
     bind_res (case o_parent r of None \<Rightarrow> Inr t | Some p \<Rightarrow> RemoveChild n t p a) (\<lambda>t1.
     case destination of
       Some d \<Rightarrow> AddChild n t1 d a
     | None \<Rightarrow> bind_res (obj t1 a) (\<lambda>r1. Inr (o_parent r1 = None, t1))))"

definition RemoveAllChildren :: "nat \<Rightarrow> 'x tree_scheme \<Rightarrow> nat \<Rightarrow> 'x tree_scheme result" where
  "RemoveAllChildren n t a =
     bind_res (obj t a) (\<lambda>r.
     bind_res (each (\<lambda>t c. bind_res (SetParent n t c None) (\<lambda>(_, t1). Inr t1)) t (o_children r)) (\<lambda>t1.
     Inr (upd a (o_children_update (\<lambda>_. [])) t1)))"

section \<open>Prefabs\<close>

fun SetPrefab :: "nat \<Rightarrow> 'x tree_scheme \<Rightarrow> nat \<Rightarrow> bool \<Rightarrow> nat \<Rightarrow> 'x tree_scheme result" where
  "SetPrefab 0 t pf owner a = Inl OutOfFuel"
| "SetPrefab (Suc n) t pf owner a =
     bind_res (obj t a) (\<lambda>r.
     if o_prefab r \<noteq> None then Inr t
     else
       each (\<lambda>t c. bind_res (obj t c) (\<lambda>k. if o_isOwner k then Inr t else SetPrefab n t pf False c))
         (upd a (\<lambda>r. r\<lparr>o_prefab := Some pf, o_isOwner := owner\<rparr>) (t\<lparr>t_uses := (t_uses t)(pf := t_uses t pf + 1)\<rparr>))
         (o_children r))"

fun UnlinkPrefab :: "nat \<Rightarrow> 'x tree_scheme \<Rightarrow> nat \<Rightarrow> 'x tree_scheme result" where
  "UnlinkPrefab 0 t a = Inl OutOfFuel"
| "UnlinkPrefab (Suc n) t a =
     bind_res (obj t a) (\<lambda>r.
     let t1 = (case o_prefab r of None \<Rightarrow> t | Some pf \<Rightarrow> t\<lparr>t_uses := (t_uses t)(pf := t_uses t pf - 1)\<rparr>) in
     each (\<lambda>t c. bind_res (obj t c) (\<lambda>k. if o_isOwner k \<or> o_prefab k = None then Inr t else UnlinkPrefab n t c))
       (upd a (\<lambda>r. r\<lparr>o_prefab := None, o_isOwner := False\<rparr>) t1) (o_children r))"

text \<open>A search among the children.\<close>

fun find_child :: "'x tree_scheme \<Rightarrow> nat list \<Rightarrow> bytes \<Rightarrow> nat option result" where
  "find_child t [] name = Inr None"
| "find_child t (c # cs) name = bind_res (obj t c) (\<lambda>k. if o_name k = name then Inr (Some c) else find_child t cs name)"

definition Find_child :: "'x tree_scheme \<Rightarrow> nat \<Rightarrow> bytes \<Rightarrow> nat option result" where
  "Find_child t a name = bind_res (obj t a) (\<lambda>r. find_child t (o_children r) name)"

section \<open>Forests\<close>

definition shape :: "'x tree_scheme \<Rightarrow> nat \<Rightarrow> (u64 \<times> nat option \<times> nat list) option" where
  "shape t a = map_option (\<lambda>r. (o_id r, o_parent r, o_children r)) (t_objs t a)"

definition par :: "'x tree_scheme \<Rightarrow> (nat \<times> nat) set" where
  "par t = {(a, p). \<exists>r. t_objs t a = Some r \<and> o_parent r = Some p}"

definition alive :: "'x tree_scheme \<Rightarrow> nat \<Rightarrow> bool" where
  "alive t a \<longleftrightarrow> t_objs t a \<noteq> None"

text \<open>Parents and children agree, nobody is its own ancestor, and ids are unique.\<close>

definition linked :: "'x tree_scheme \<Rightarrow> bool" where
  "linked t \<longleftrightarrow>
     (\<forall>a r. t_objs t a = Some r \<longrightarrow>
        (\<forall>p. o_parent r = Some p \<longrightarrow> (\<exists>q. t_objs t p = Some q \<and> a \<in> set (o_children q))) \<and>
        (\<forall>c \<in> set (o_children r). \<exists>k. t_objs t c = Some k \<and> o_parent k = Some a) \<and>
        distinct (o_children r))"

definition unique_ids :: "'x tree_scheme \<Rightarrow> bool" where
  "unique_ids t \<longleftrightarrow> (\<forall>a b r q. t_objs t a = Some r \<longrightarrow> t_objs t b = Some q \<longrightarrow> o_id r = o_id q \<longrightarrow> a = b)"

definition forest :: "'x tree_scheme \<Rightarrow> bool" where
  "forest t \<longleftrightarrow> linked t \<and> unique_ids t \<and> finite (dom (t_objs t)) \<and> acyclic (par t)"

text \<open>Everybody knows the root above; a root that was never moved does not know itself, and then nobody below
  knows it.\<close>

definition root_at :: "'x tree_scheme \<Rightarrow> nat \<Rightarrow> nat option" where
  "root_at t a = Option.bind (t_objs t a) o_root"

definition roots_ok :: "'x tree_scheme \<Rightarrow> bool" where
  "roots_ok t \<longleftrightarrow>
     (\<forall>a r. t_objs t a = Some r \<longrightarrow>
        (case o_parent r of None \<Rightarrow> o_root r = None \<or> o_root r = Some a | Some p \<Rightarrow> o_root r = root_at t p))"

text \<open>How far an object is from its root: enough fuel for a walk up or down.\<close>

definition depth :: "'x tree_scheme \<Rightarrow> nat \<Rightarrow> nat" where
  "depth t a = card ((par t)\<^sup>+ `` {a})"

definition size_of :: "'x tree_scheme \<Rightarrow> nat" where
  "size_of t = card (dom (t_objs t))"

lemma obj_Inr [simp]: "obj t a = Inr r \<longleftrightarrow> t_objs t a = Some r"
  by (simp add: obj_def split: option.split)

lemma obj_Some: "t_objs t a = Some r \<Longrightarrow> obj t a = Inr r"
  by simp

lemma upd_objs [simp]: "t_objs (upd a f t) b = (if b = a then map_option f (t_objs t a) else t_objs t b)"
  by (simp add: upd_def)

lemma upd_simps [simp]: "t_default (upd a f t) = t_default t" "t_uses (upd a f t) = t_uses t"
    "t_updaterDirty (upd a f t) = t_updaterDirty t" "t_changed (upd a f t) = t_changed t"
  by (simp_all add: upd_def)

lemma OnChanged_simps [simp]: "t_objs (OnChanged t) = t_objs t" "t_default (OnChanged t) = t_default t" "t_uses (OnChanged t) = t_uses t"
    "t_updaterDirty (OnChanged t) = t_updaterDirty t"
  by (simp_all add: OnChanged_def)

lemma par_shape: "(a, p) \<in> par t \<longleftrightarrow> (case shape t a of None \<Rightarrow> False | Some (i, q, cs) \<Rightarrow> q = Some p)"
  by (auto simp: par_def shape_def split: option.splits)

lemma same_shape_par: "shape t' = shape t \<Longrightarrow> par t' = par t"
  by (auto simp: par_shape)

lemma shape_Some: "shape t a = Some (i, p, cs) \<longleftrightarrow> (\<exists>r. t_objs t a = Some r \<and> o_id r = i \<and> o_parent r = p \<and> o_children r = cs)"
  by (auto simp: shape_def)

lemma linked_shape:
  "linked t \<longleftrightarrow> (\<forall>a i p cs. shape t a = Some (i, p, cs) \<longrightarrow>
     (\<forall>q. p = Some q \<longrightarrow> (\<exists>j pp ds. shape t q = Some (j, pp, ds) \<and> a \<in> set ds)) \<and>
     (\<forall>c \<in> set cs. \<exists>j ds. shape t c = Some (j, Some a, ds)) \<and> distinct cs)"
  unfolding linked_def shape_Some by (auto; blast)

lemma dom_shape: "dom (t_objs t) = dom (shape t)"
  by (auto simp: shape_def dom_def)

lemma forest_shape: "shape t' = shape t \<Longrightarrow> forest t \<Longrightarrow> forest t'"
proof -
  assume s: "shape t' = shape t" and f: "forest t"
  have u: "unique_ids u \<longleftrightarrow> (\<forall>a b i p cs q ds. shape u a = Some (i, p, cs) \<longrightarrow> shape u b = Some (i, q, ds) \<longrightarrow> a = b)" for u :: "'x tree_scheme"
    unfolding unique_ids_def shape_Some by metis
  show "forest t'"
    using f unfolding forest_def linked_shape u dom_shape same_shape_par [OF s] s by blast
qed

lemma forestD:
  assumes "forest t" "t_objs t a = Some r"
  shows "o_parent r = Some p \<Longrightarrow> \<exists>q. t_objs t p = Some q \<and> a \<in> set (o_children q)"
    "c \<in> set (o_children r) \<Longrightarrow> \<exists>k. t_objs t c = Some k \<and> o_parent k = Some a"
    "distinct (o_children r)"
  using assms unfolding forest_def linked_def by blast+

lemma ancestors_alive:
  assumes "forest t"
  shows "(a, p) \<in> (par t)\<^sup>+ \<Longrightarrow> t_objs t a \<noteq> None \<and> t_objs t p \<noteq> None"
proof (induction rule: trancl_induct)
  case (base p)
  then obtain r where "t_objs t a = Some r" "o_parent r = Some p" by (auto simp: par_def)
  then show ?case using forestD(1) [OF assms] by fastforce
next
  case (step p q)
  then obtain r where "t_objs t p = Some r" "o_parent r = Some q" by (auto simp: par_def)
  then show ?case using step forestD(1) [OF assms] by fastforce
qed

lemma depth_parent:
  assumes "forest t" "(a, p) \<in> par t"
  shows "depth t p < depth t a"
proof -
  have sub: "insert p ((par t)\<^sup>+ `` {p}) \<subseteq> (par t)\<^sup>+ `` {a}" using assms(2) by (auto intro: trancl_into_trancl2)
  have fin: "finite ((par t)\<^sup>+ `` {a})"
    by (rule finite_subset [of _ "dom (t_objs t)"]) (use ancestors_alive [OF assms(1)] assms(1) in \<open>auto simp: forest_def\<close>)
  have "p \<notin> (par t)\<^sup>+ `` {p}" using assms(1) by (auto simp: forest_def acyclic_def)
  then have "card ((par t)\<^sup>+ `` {p}) < card (insert p ((par t)\<^sup>+ `` {p}))"
    using finite_subset [OF sub fin] by simp
  also have "\<dots> \<le> card ((par t)\<^sup>+ `` {a})" by (rule card_mono [OF fin sub])
  finally show ?thesis by (simp add: depth_def)
qed

lemma depth_bound:
  assumes "forest t" "t_objs t a \<noteq> None"
  shows "depth t a < size_of t"
proof -
  have "a \<notin> (par t)\<^sup>+ `` {a}" using assms(1) by (auto simp: forest_def acyclic_def)
  moreover have "insert a ((par t)\<^sup>+ `` {a}) \<subseteq> dom (t_objs t)" using ancestors_alive [OF assms(1)] assms(2) by auto
  moreover have "finite (dom (t_objs t))" using assms(1) by (simp add: forest_def)
  ultimately show ?thesis unfolding depth_def size_of_def by (intro psubset_card_mono) auto
qed

text \<open>A loop over children keeps what every step keeps.\<close>

lemma each_keeps:
  assumes "P s" "\<And>s c. P s \<Longrightarrow> c \<in> set cs \<Longrightarrow> \<exists>s'. f s c = Inr s' \<and> P s'"
  shows "\<exists>s'. each f s cs = Inr s' \<and> P s'"
  using assms
proof (induction cs arbitrary: s)
  case (Cons c cs)
  obtain s1 where "f s c = Inr s1" "P s1" using Cons.prems by fastforce
  then show ?case using Cons.IH [of s1] Cons.prems(2) by auto
qed simp


section \<open>What a change of the hierarchy does not touch\<close>

text \<open>The identity of an object, its place in the scene, whether it is destroyed, and its prefab.\<close>

definition marks :: "'x tree_scheme \<Rightarrow> nat \<Rightarrow> (u64 \<times> bool \<times> u64 \<times> bool \<times> nat option \<times> bytes) option" where
  "marks t a = map_option (\<lambda>r. (o_id r, o_inScene r, o_idInScene r, o_isDestroyed r, o_prefab r, o_name r)) (t_objs t a)"

definition in_scene :: "'x tree_scheme \<Rightarrow> nat \<Rightarrow> bool" where
  "in_scene t a \<longleftrightarrow> (\<exists>r. t_objs t a = Some r \<and> o_inScene r)"

definition parent_of :: "'x tree_scheme \<Rightarrow> nat \<Rightarrow> nat option" where
  "parent_of t a = Option.bind (t_objs t a) o_parent"

text \<open>The scene is told of every new parent of one of its objects.\<close>

definition calm :: "'x tree_scheme \<Rightarrow> 'x tree_scheme \<Rightarrow> bool" where
  "calm t t' \<longleftrightarrow> marks t' = marks t \<and> tree.more t' = tree.more t \<and> t_uses t' = t_uses t \<and> (t_changed t \<longrightarrow> t_changed t') \<and>
     (t_changed t' \<or> (\<forall>a. in_scene t a \<longrightarrow> parent_of t' a = parent_of t a))"

lemma marks_scene: "marks (t' :: 'x tree_scheme) = marks (t :: 'x tree_scheme) \<Longrightarrow> in_scene t' = in_scene t"
proof
  fix a assume "marks t' = marks t"
  then have "marks t' a = marks t a" by simp
  then show "in_scene t' a = in_scene t a"
    by (cases "t_objs t a"; cases "t_objs t' a") (auto simp: marks_def in_scene_def)
qed

lemma calm_refl [simp, intro]: "calm t t"
  by (simp add: calm_def)

lemma calm_trans [trans]: "calm s t \<Longrightarrow> calm t u \<Longrightarrow> calm s u"
  using marks_scene [of t s] by (auto simp: calm_def)

lemma calm_upd [intro]:
  assumes "\<And>r. o_id (f r) = o_id r \<and> o_inScene (f r) = o_inScene r \<and> o_idInScene (f r) = o_idInScene r \<and>
      o_isDestroyed (f r) = o_isDestroyed r \<and> o_prefab (f r) = o_prefab r \<and> o_name (f r) = o_name r \<and> o_parent (f r) = o_parent r"
  shows "calm t (upd a f t)"
proof -
  have "marks (upd a f t) = marks t" by (rule ext) (use assms in \<open>auto simp: marks_def option.map_comp comp_def\<close>)
  moreover have "parent_of (upd a f t) = parent_of t"
    by (rule ext, rename_tac x, case_tac "t_objs t x") (use assms in \<open>auto simp: parent_of_def\<close>)
  ultimately show ?thesis by (simp add: calm_def upd_def)
qed

lemma calm_OnChanged [intro]: "calm t (OnChanged t)"
proof -
  have "marks (OnChanged t) = marks t" by (rule ext) (simp add: marks_def)
  then show ?thesis by (simp add: calm_def OnChanged_def)
qed

lemma calm_updater [intro]: "calm t (t\<lparr>t_updaterDirty := x\<rparr>)"
proof -
  have "marks (t\<lparr>t_updaterDirty := x\<rparr>) = marks t" "parent_of (t\<lparr>t_updaterDirty := x\<rparr>) = parent_of t"
    by (rule ext, simp add: marks_def parent_of_def)+
  then show ?thesis by (simp add: calm_def)
qed

lemma each_calm:
  assumes "\<And>s c s'. c \<in> set cs \<Longrightarrow> f s c = Inr s' \<Longrightarrow> calm s s'"
  shows "each f s cs = Inr s' \<Longrightarrow> calm s s'"
  using assms
proof (induction cs arbitrary: s)
  case (Cons c cs)
  obtain s1 where s1: "f s c = Inr s1" "each f s1 cs = Inr s'" using Cons.prems(1) by (auto simp: bind_res_eq_Inr)
  have "calm s1 s'" by (rule Cons.IH [OF s1(2)]) (rule Cons.prems(2), auto)
  moreover have "calm s s1" by (rule Cons.prems(2) [OF _ s1(1)]) simp
  ultimately show ?case using calm_trans by blast
qed simp

lemma OnParentLayerChanged_calm: "OnParentLayerChanged n t a = Inr t' \<Longrightarrow> calm t t'"
proof (induction n arbitrary: t a t')
  case (Suc n)
  obtain r where r: "t_objs t a = Some r" using Suc.prems by (auto simp: bind_res_eq_Inr)
  show ?case
  proof (cases "o_layer r \<noteq> t_default t")
    case True
    then show ?thesis using Suc.prems r by (simp add: obj_Some)
  next
    case False
    then obtain p q where p: "o_parent r = Some p" "t_objs t p = Some q"
      using Suc.prems r by (auto simp: obj_Some bind_res_eq_Inr split: option.splits)
    show ?thesis
    proof (cases "o_cachedLayer r = o_cachedLayer q")
      case True
      then show ?thesis using Suc.prems r p False by (simp add: obj_Some)
    next
      case new: False
      let ?t = "upd a (o_cachedLayer_update (\<lambda>_. o_cachedLayer q)) t"
      have "each (OnParentLayerChanged n) ?t (o_children r) = Inr t'" using Suc.prems r p False new by (simp add: obj_Some)
      then have "calm ?t t'" by (rule each_calm [rotated]) (rule Suc.IH)
      moreover have "calm t ?t" by (rule calm_upd) simp
      ultimately show ?thesis using calm_trans by blast
    qed
  qed
qed simp

lemma componentable_SetDirty_calm: "calm t (snd (componentable_SetDirty t a d))"
  by (auto simp: componentable_SetDirty_def Let_def split: option.split)

lemma SetDirty_calm:
  "SetDirty n t a d = Inr (b, t') \<Longrightarrow> calm t t'"
  "clean_children n t cs = Inr (b, t') \<Longrightarrow> calm t t'"
proof (induction n t a d and n t cs arbitrary: b t' and b t' rule: SetDirty_clean_children.induct)
  case (2 n t a dirty)
  obtain r where r: "t_objs t a = Some r" using "2.prems" by (auto simp: bind_res_eq_Inr)
  show ?case
  proof (cases "o_dirty r = dirty")
    case True
    then show ?thesis using "2.prems" r by (simp add: obj_Some)
  next
    case False
    obtain d t1 where d: "componentable_SetDirty t a dirty = (d, t1)" by fastforce
    have c: "calm t t1" using componentable_SetDirty_calm [of t a dirty] d by simp
    note IH = "2.IH" [OF obj_Some [OF r] False d [symmetric]]
    show ?thesis
    proof (cases "d \<and> \<not> dirty")
      case True
      then show ?thesis using "2.prems" r False d c by (simp add: obj_Some)
    next
      case go: False
      show ?thesis
      proof (cases dirty)
        case dirty: True
        show ?thesis
        proof (cases "o_parent r")
          case None
          then show ?thesis using "2.prems" r False d c go dirty calm_trans [OF c calm_updater] by (auto simp: obj_Some split: if_splits)
        next
          case (Some p)
          then obtain b2 where "SetDirty n t1 p True = Inr (b2, t')"
            using "2.prems" r False d go dirty by (auto simp: obj_Some bind_res_eq_Inr)
          then have "calm t1 t'" using IH(1) [OF go dirty Some] by blast
          then show ?thesis using c calm_trans by blast
        qed
      next
        case clean: False
        then obtain still t2 where t2: "clean_children n t1 (o_children r) = Inr (still, t2)"
          "t' = snd (componentable_SetDirty t2 a True) \<or> t' = t2"
          using "2.prems" r False d go by (auto simp: obj_Some bind_res_eq_Inr split: if_splits)
        have "calm t1 t2" by (rule IH(2) [OF go clean t2(1)])
        then show ?thesis using c t2(2) componentable_SetDirty_calm [of t2 a True] calm_trans by blast
      qed
    qed
  qed
next
  case (5 n t c cs)
  obtain still t1 where t1: "SetDirty n t c False = Inr (still, t1)" using "5.prems" by (auto simp: bind_res_eq_Inr)
  have c: "calm t t1" by (rule "5.IH"(1) [OF t1])
  show ?case
  proof (cases still)
    case True
    then show ?thesis using "5.prems" t1 c by simp
  next
    case False
    then have "clean_children n t1 cs = Inr (b, t')" using "5.prems" t1 by simp
    then have "calm t1 t'" by (rule "5.IH"(2) [OF t1 refl False])
    then show ?thesis using c calm_trans by blast
  qed
qed simp_all

section \<open>Subtrees\<close>

text \<open>The children by the lists of children; in a forest it is the converse of the parents.\<close>

definition chi :: "'x tree_scheme \<Rightarrow> (nat \<times> nat) set" where
  "chi t = {(b, p). \<exists>r. t_objs t p = Some r \<and> b \<in> set (o_children r)}"

definition desc :: "'x tree_scheme \<Rightarrow> nat \<Rightarrow> nat set" where
  "desc t a = {b. (b, a) \<in> (chi t)\<^sup>*}"

definition height :: "'x tree_scheme \<Rightarrow> nat \<Rightarrow> nat" where
  "height t a = card {b. (b, a) \<in> (chi t)\<^sup>+}"

definition kids :: "'x tree_scheme \<Rightarrow> nat \<Rightarrow> nat list option" where
  "kids t a = map_option o_children (t_objs t a)"

lemma chi_kids: "chi t = {(b, p). case kids t p of None \<Rightarrow> False | Some cs \<Rightarrow> b \<in> set cs}"
  by (auto simp: chi_def kids_def split: option.splits)

lemma desc_refl [simp]: "a \<in> desc t a"
  by (simp add: desc_def)

lemma desc_step: "(c, a) \<in> chi t \<Longrightarrow> desc t c \<subseteq> desc t a"
  by (auto simp: desc_def)

lemma desc_unfold: "t_objs t a = Some r \<Longrightarrow> desc t a = insert a (\<Union>c \<in> set (o_children r). desc t c)"
proof -
  assume r: "t_objs t a = Some r"
  have "b \<in> desc t a \<longleftrightarrow> b = a \<or> (\<exists>c. (c, a) \<in> chi t \<and> b \<in> desc t c)" for b
    by (auto simp: desc_def elim: rtranclE)
  then show ?thesis using r by (auto simp: chi_def)
qed

lemma chi_forest: "forest t \<Longrightarrow> chi t = par t"
  using forestD unfolding chi_def par_def by fastforce

lemma chi_alive: "forest t \<Longrightarrow> (b, a) \<in> chi t \<Longrightarrow> t_objs t b \<noteq> None \<and> t_objs t a \<noteq> None"
  using forestD(2) by (fastforce simp: chi_def)

lemma desc_alive: "forest t \<Longrightarrow> b \<in> desc t a \<Longrightarrow> t_objs t a \<noteq> None \<Longrightarrow> t_objs t b \<noteq> None"
  unfolding desc_def using chi_alive by (fastforce elim: converse_rtranclE)

lemma height_child:
  assumes "forest t" "(c, a) \<in> chi t"
  shows "height t c < height t a"
proof -
  have sub: "insert c {b. (b, c) \<in> (chi t)\<^sup>+} \<subseteq> {b. (b, a) \<in> (chi t)\<^sup>+}" using assms(2) by (auto intro: trancl_into_trancl)
  have fin: "finite {b. (b, a) \<in> (chi t)\<^sup>+}"
    by (rule finite_subset [of _ "dom (t_objs t)"])
      (use ancestors_alive [OF assms(1)] assms(1) in \<open>auto simp: forest_def chi_forest\<close>)
  have "c \<notin> {b. (b, c) \<in> (chi t)\<^sup>+}" using assms(1) chi_forest [OF assms(1)] by (auto simp: forest_def acyclic_def)
  then have "card {b. (b, c) \<in> (chi t)\<^sup>+} < card (insert c {b. (b, c) \<in> (chi t)\<^sup>+})"
    using finite_subset [OF sub fin] by simp
  also have "\<dots> \<le> card {b. (b, a) \<in> (chi t)\<^sup>+}" by (rule card_mono [OF fin sub])
  finally show ?thesis by (simp add: height_def)
qed

lemma height_bound:
  assumes "forest t" "t_objs t a \<noteq> None"
  shows "height t a < size_of t"
proof -
  have "a \<notin> {b. (b, a) \<in> (chi t)\<^sup>+}" using assms(1) chi_forest [OF assms(1)] by (auto simp: forest_def acyclic_def)
  moreover have "insert a {b. (b, a) \<in> (chi t)\<^sup>+} \<subseteq> dom (t_objs t)"
    using ancestors_alive [OF assms(1)] assms(2) chi_forest [OF assms(1)] by auto
  moreover have "finite (dom (t_objs t))" using assms(1) by (simp add: forest_def)
  ultimately show ?thesis unfolding height_def size_of_def by (intro psubset_card_mono) auto
qed

text \<open>What a walk down from an object may rely on.\<close>

definition walk_ok :: "(nat \<Rightarrow> nat) \<Rightarrow> 'x tree_scheme \<Rightarrow> nat \<Rightarrow> bool" where
  "walk_ok h t a \<longleftrightarrow> t_objs t a \<noteq> None \<and>
     (\<forall>p \<in> desc t a. \<forall>b. (b, p) \<in> chi t \<longrightarrow> h b < h p \<and> (\<exists>k. t_objs t b = Some k \<and> o_parent k = Some p))"

lemma walk_child: "walk_ok h t a \<Longrightarrow> (c, a) \<in> chi t \<Longrightarrow> walk_ok h t c \<and> h c < h a"
  unfolding walk_ok_def using desc_step [of c a t] desc_refl [of a t] by blast

lemma walk_kid: "walk_ok h t a \<Longrightarrow> (c, a) \<in> chi t \<Longrightarrow> \<exists>k. t_objs t c = Some k \<and> o_parent k = Some a"
  unfolding walk_ok_def using desc_refl [of a t] by blast

lemma walk_forest: "forest t \<Longrightarrow> t_objs t a \<noteq> None \<Longrightarrow> walk_ok (height t) t a"
  unfolding walk_ok_def using height_child forestD(2) by (fastforce simp: chi_def)

text \<open>Every object of a set gets a root.\<close>

definition set_roots :: "nat set \<Rightarrow> nat option \<Rightarrow> 'x tree_scheme \<Rightarrow> 'x tree_scheme" where
  "set_roots D R t = t\<lparr>t_objs := (\<lambda>b. if b \<in> D then map_option (o_root_update (\<lambda>_. R)) (t_objs t b) else t_objs t b)\<rparr>"

lemma set_roots_objs: "t_objs (set_roots D R t) b = (if b \<in> D then map_option (o_root_update (\<lambda>_. R)) (t_objs t b) else t_objs t b)"
  by (simp add: set_roots_def)

lemma set_roots_shape [simp]: "shape (set_roots D R t) = shape t" "kids (set_roots D R t) = kids t"
  by (auto simp: fun_eq_iff shape_def kids_def set_roots_objs option.map_comp comp_def)

lemma same_kids: "kids t' = kids t \<Longrightarrow> chi t' = chi t \<and> desc t' = desc t \<and> height t' = height t"
  by (simp add: fun_eq_iff chi_kids desc_def height_def)

lemma shape_kids: "kids t a = map_option (\<lambda>(i, p, cs). cs) (shape t a)"
  by (auto simp: kids_def shape_def option.map_comp comp_def)

lemma walk_shape: "shape t' = shape t \<Longrightarrow> walk_ok h t' a = walk_ok h t a"
proof -
  assume s: "shape t' = shape t"
  have k: "kids t' = kids t" using s by (simp add: fun_eq_iff shape_kids)
  have p: "(\<exists>k. t_objs u b = Some k \<and> o_parent k = Some p) \<longleftrightarrow> (\<exists>i cs. shape u b = Some (i, Some p, cs))" for u :: "'x tree_scheme" and b p
    by (auto simp: shape_def)
  have a: "t_objs u b = None \<longleftrightarrow> shape u b = None" for u :: "'x tree_scheme" and b by (simp add: shape_def)
  show ?thesis unfolding walk_ok_def p a using same_kids [OF k] s by simp
qed

lemma set_roots_more: "set_roots D R (set_roots E R t) = set_roots (D \<union> E) R t"
  by (auto simp: set_roots_def fun_eq_iff option.map_comp comp_def intro!: tree.equality)

lemma set_roots_one: "upd a (o_root_update (\<lambda>_. R)) t = set_roots {a} R t"
  by (auto simp: set_roots_def upd_def fun_eq_iff intro!: tree.equality)

text \<open>The root an object is given: its parent's, or itself.\<close>

definition root_above :: "'x tree_scheme \<Rightarrow> nat \<Rightarrow> nat option result" where
  "root_above t a =
     bind_res (obj t a) (\<lambda>r. case o_parent r of None \<Rightarrow> Inr (Some a) | Some p \<Rightarrow> bind_res (obj t p) (\<lambda>q. Inr (o_root q)))"

lemma UpdateRoot_effect:
  "walk_ok h t a \<Longrightarrow> root_above t a = Inr R \<Longrightarrow> n > h a \<Longrightarrow> UpdateRoot n t a = Inr (set_roots (desc t a) R t)"
proof (induction n arbitrary: a t)
  case (Suc n)
  obtain r where r: "t_objs t a = Some r" using Suc.prems(1) by (auto simp: walk_ok_def)
  have loop: "each (UpdateRoot n) (set_roots D R t) cs = Inr (set_roots (D \<union> (\<Union>c \<in> set cs. desc t c)) R t)"
    if "a \<in> D" "set cs \<subseteq> set (o_children r)" for cs D
    using that
  proof (induction cs arbitrary: D)
    case (Cons c cs)
    let ?s = "set_roots D R t"
    have c: "(c, a) \<in> chi t" using Cons.prems(2) r by (auto simp: chi_def)
    obtain k where k: "t_objs t c = Some k" "o_parent k = Some a"
      using walk_kid [OF Suc.prems(1) c] by blast
    have "walk_ok h ?s c" "n > h c" using walk_child [OF Suc.prems(1) c] Suc.prems(3) walk_shape [of ?s t h c] by simp_all
    moreover have "root_above ?s c = Inr R" using k r Cons.prems(1) by (cases "c \<in> D") (simp_all add: root_above_def obj_def set_roots_objs)
    ultimately have "UpdateRoot n ?s c = Inr (set_roots (D \<union> desc t c) R t)"
      using Suc.IH [of ?s c] same_kids [of ?s t] by (simp add: set_roots_more Un_commute)
    then show ?case using Cons.IH [of "D \<union> desc t c"] Cons.prems by (simp add: Un_assoc)
  qed simp
  have "each (UpdateRoot n) (set_roots {a} R t) (o_children r) = Inr (set_roots (desc t a) R t)"
    using loop [of "{a}" "o_children r"] desc_unfold [OF r] by simp
  then show ?case using Suc.prems(2) r by (auto simp: root_above_def bind_res_eq_Inr set_roots_one obj_def)
qed simp


section \<open>Changing a parent\<close>

lemma desc_forest: "forest t \<Longrightarrow> desc t a = {b. (b, a) \<in> (par t)\<^sup>*}"
  by (simp add: desc_def chi_forest)

lemma roots_same:
  assumes "roots_ok t" "forest t" "t_objs t c = Some k"
  shows "(b, c) \<in> (par t)\<^sup>* \<Longrightarrow> \<exists>r. t_objs t b = Some r \<and> o_root r = o_root k"
proof (induction rule: converse_rtrancl_induct)
  case (step b p)
  then obtain r q where "t_objs t b = Some r" "o_parent r = Some p" "t_objs t p = Some q" "o_root q = o_root k"
    by (auto simp: par_def)
  then show ?case using assms(1) unfolding roots_ok_def root_at_def by fastforce
qed (use assms(3) in simp)

lemma set_roots_id:
  assumes "\<And>b r. b \<in> D \<Longrightarrow> t_objs t b = Some r \<Longrightarrow> o_root r = R"
  shows "set_roots D R t = t"
proof -
  have "t_objs (set_roots D R t) = t_objs t"
  proof
    fix b show "t_objs (set_roots D R t) b = t_objs t b"
      using assms [of b] by (cases "t_objs t b") (auto simp: set_roots_objs)
  qed
  then show ?thesis by (simp add: set_roots_def)
qed

text \<open>The walk up from \<open>p\<close> for an object \<open>c\<close> whose own parent may already be a new one.\<close>

definition agree :: "nat \<Rightarrow> 'x tree_scheme \<Rightarrow> 'x tree_scheme \<Rightarrow> bool" where
  "agree c u t \<longleftrightarrow> (\<forall>b. b \<noteq> c \<longrightarrow> shape u b = shape t b) \<and> map_option o_id (t_objs u c) = map_option o_id (t_objs t c)"

lemma agreeD: "agree c u t \<Longrightarrow> b \<noteq> c \<Longrightarrow> t_objs t b = Some r \<Longrightarrow> \<exists>q. t_objs u b = Some q \<and> o_id q = o_id r \<and> o_parent q = o_parent r"
  by (fastforce simp: agree_def shape_def)

lemma agree_id: "agree c u t \<Longrightarrow> t_objs t b = Some r \<Longrightarrow> \<exists>q. t_objs u b = Some q \<and> o_id q = o_id r"
  using agreeD [of c u t b r] by (cases "b = c") (auto simp: agree_def map_option_case split: option.splits)

lemma ids_differ: "forest t \<Longrightarrow> t_objs t a = Some r \<Longrightarrow> t_objs t b = Some q \<Longrightarrow> o_id r = o_id q \<longleftrightarrow> a = b"
  by (auto simp: forest_def unique_ids_def)

lemma entity_path_up:
  assumes "forest t" "agree c u t" "t_objs t c = Some k"
  shows "t_objs t p = Some r \<Longrightarrow> p \<noteq> c \<Longrightarrow> depth t p < n \<Longrightarrow>
    \<exists>res. entity_path n u (o_id k) p path = Inr res \<and> (res = None \<longleftrightarrow> (p, c) \<in> (par t)\<^sup>*)"
proof (induction n arbitrary: p r path)
  case (Suc n)
  obtain v where v: "t_objs u p = Some v" "o_id v = o_id r" "o_parent v = o_parent r"
    using agreeD [OF assms(2) Suc.prems(2,1)] by blast
  show ?case
  proof (cases "o_parent r")
    case None
    then have "(p, c) \<notin> (par t)\<^sup>*" using Suc.prems(1,2) by (auto simp: par_def elim: converse_rtranclE)
    then show ?thesis using v None by (simp add: obj_def)
  next
    case (Some q)
    have pq: "(p, q) \<in> par t" using Suc.prems(1) Some by (auto simp: par_def)
    have "x = q" if "(p, x) \<in> par t" for x using that Suc.prems(1) Some by (auto simp: par_def)
    then have only: "(p, c) \<in> (par t)\<^sup>* \<longleftrightarrow> (q, c) \<in> (par t)\<^sup>*"
      using pq Suc.prems(2) by (metis converse_rtranclE converse_rtrancl_into_rtrancl)
    obtain w where w: "t_objs t q = Some w" using forestD(1) [OF assms(1) Suc.prems(1) Some] by blast
    obtain x where x: "t_objs u q = Some x" "o_id x = o_id w" using agree_id [OF assms(2) w] by blast
    show ?thesis
    proof (cases "q = c")
      case True
      then show ?thesis using v Some x w assms(3) only by (simp add: obj_def)
    next
      case False
      have "depth t q < n" using depth_parent [OF assms(1) pq] Suc.prems(3) by simp
      then obtain res where "entity_path n u (o_id k) q (o_id r # path) = Inr res" "res = None \<longleftrightarrow> (q, c) \<in> (par t)\<^sup>*"
        using Suc.IH [OF w False] by blast
      moreover have "o_id x \<noteq> o_id k" using ids_differ [OF assms(1) w assms(3)] False x(2) by simp
      ultimately show ?thesis using v Some x only by (simp add: obj_def)
    qed
  qed
qed simp

lemma UpdateEntityPath_new:
  assumes f: "forest t" and k: "t_objs t c = Some k" and u: "agree c u t" "t_objs u c = Some k'" "o_parent k' = new"
    and new: "\<And>p. new = Some p \<Longrightarrow> t_objs t p \<noteq> None" and n: "n > size_of t"
  shows "if (\<exists>p. new = Some p \<and> (p, c) \<in> (par t)\<^sup>*) then UpdateEntityPath n u c = Inr (False, u)
    else \<exists>ys. UpdateEntityPath n u c = Inr (True, upd c (o_path_update (\<lambda>_. ys)) u)"
proof -
  obtain m where m: "n = Suc m" "m \<ge> size_of t" using n by (cases n) auto
  have id: "o_id k' = o_id k" using u k by (auto simp: agree_def)
  show ?thesis
  proof (cases new)
    case None
    then show ?thesis using u(2,3) m by (auto simp: UpdateEntityPath_def obj_def intro: exI [of _ "[o_id k']"])
  next
    case (Some p)
    then obtain r where r: "t_objs t p = Some r" using new by blast
    obtain x where x: "t_objs u p = Some x" "o_id x = o_id r" using agree_id [OF u(1) r] by blast
    have same: "o_id x = o_id k \<longleftrightarrow> p = c" using ids_differ [OF f r k] x(2) by simp
    show ?thesis
    proof (cases "p = c")
      case True
      then show ?thesis using u(2,3) Some m id x same by (simp add: UpdateEntityPath_def obj_def)
    next
      case False
      have "depth t p < m" using depth_bound [OF f, of p] r m(2) by simp
      then obtain res where "entity_path m u (o_id k) p [o_id k] = Inr res" "res = None \<longleftrightarrow> (p, c) \<in> (par t)\<^sup>*"
        using entity_path_up [OF f u(1) k r False] by blast
      then show ?thesis using u(2,3) Some m id x same False
        by (cases res) (auto simp: UpdateEntityPath_def obj_def intro: exI [of _ "the res"])
    qed
  qed
qed

definition new_root :: "'x tree_scheme \<Rightarrow> nat \<Rightarrow> nat option \<Rightarrow> nat option" where
  "new_root t c new = (case new of None \<Rightarrow> Some c | Some p \<Rightarrow> root_at t p)"

definition rerooted :: "'x tree_scheme \<Rightarrow> nat \<Rightarrow> nat option \<Rightarrow> 'x tree_scheme" where
  "rerooted t c new = set_roots (desc t c) (new_root t c new) (upd c (o_parent_update (\<lambda>_. new)) t)"

definition moved :: "'x tree_scheme \<Rightarrow> nat \<Rightarrow> nat option \<Rightarrow> u64 list \<Rightarrow> bool \<Rightarrow> 'x tree_scheme" where
  "moved t c new path notify =
     (let t1 = upd c (o_path_update (\<lambda>_. path)) (rerooted t c new)
      in if notify then OnChanged t1 else t1)"

lemma kids_upd: "(\<And>r. o_children (f r) = o_children r) \<Longrightarrow> kids (upd a f t) = kids t"
  by (auto simp: fun_eq_iff kids_def option.map_comp comp_def)

lemma walk_new_parent:
  assumes "forest t" "t_objs t c = Some k"
  shows "walk_ok (height t) (upd c (o_parent_update (\<lambda>_. new)) t) c"
proof -
  let ?u = "upd c (o_parent_update (\<lambda>_. new)) t"
  have s: "chi ?u = chi t" "desc ?u c = desc t c" using same_kids [OF kids_upd, of "o_parent_update (\<lambda>_. new)" c t] by simp_all
  have "b \<noteq> c" if "p \<in> desc t c" "(b, p) \<in> chi t" for b p
    using that assms(1) rtrancl_into_trancl2 [of b p "par t" c] chi_forest [OF assms(1)]
    by (auto simp: desc_forest forest_def acyclic_def)
  then show ?thesis using walk_forest [OF assms(1), of c] assms(2) unfolding walk_ok_def s by simp
qed

lemma SetParent_cases:
  assumes f: "forest t" and ro: "roots_ok t" and k: "t_objs t c = Some k" and diff: "new \<noteq> o_parent k"
    and new: "\<And>p. new = Some p \<Longrightarrow> t_objs t p \<noteq> None" and n: "n > size_of t"
  shows "if (\<exists>p. new = Some p \<and> (p, c) \<in> (par t)\<^sup>*) then SetParent n t c new = Inr (False, rerooted t c (o_parent k))
    else \<exists>ys. SetParent n t c new = Inr (True, moved t c new ys (o_inScene k))"
proof -
  let ?u = "upd c (o_parent_update (\<lambda>_. new)) t"
  let ?R = "new_root t c new"
  let ?v = "set_roots (desc t c) ?R ?u"
  have d: "desc ?u c = desc t c" using same_kids [OF kids_upd, of "o_parent_update (\<lambda>_. new)" c t] by simp
  have "root_above ?u c = Inr ?R" using k new by (auto simp: root_above_def obj_def new_root_def root_at_def split: option.splits)
  then have ur: "UpdateRoot n ?u c = Inr ?v"
    using UpdateRoot_effect [OF walk_new_parent [OF f k], of new ?R n] height_bound [OF f, of c] k n d by simp
  have ag: "agree c ?v t" using k by (auto simp: agree_def shape_def set_roots_objs option.map_comp comp_def)
  obtain k' where k': "t_objs ?v c = Some k'" "o_parent k' = new" using k by (auto simp: set_roots_objs)
  have "t_objs t p \<noteq> None" if "new = Some p" for p using new [OF that] .
  note path = UpdateEntityPath_new [OF f k ag k' this n]
  show ?thesis
  proof (cases "\<exists>p. new = Some p \<and> (p, c) \<in> (par t)\<^sup>*")
    case False
    then obtain ys where "UpdateEntityPath n ?v c = Inr (True, upd c (o_path_update (\<lambda>_. ys)) ?v)" using path unfolding if_not_P [OF False] by blast
    then have "SetParent n t c new = Inr (True, moved t c new ys (o_inScene k))"
      using ur k diff by (simp add: SetParent_def obj_def moved_def rerooted_def Let_def)
    then show ?thesis using False by auto
  next
    case True
    then obtain p where p: "new = Some p" "(p, c) \<in> (par t)\<^sup>*" by blast
    have same: "o_root r = o_root k" if "b \<in> desc t c" "t_objs t b = Some r" for b r
      using roots_same [OF ro f k, of b] that by (auto simp: desc_forest [OF f])
    have R: "?R = o_root k" using roots_same [OF ro f k p(2)] p(1) by (auto simp: new_root_def root_at_def)
    have "?v = ?u" unfolding R by (rule set_roots_id) (use same k in \<open>auto split: if_splits\<close>)
    moreover have "upd c (o_parent_update (\<lambda>_. o_parent k)) ?u = t"
      using k by (auto simp: upd_def fun_eq_iff intro!: tree.equality)
    moreover have "root_above t c = Inr (new_root t c (o_parent k))"
      using k forestD(1) [OF f k] by (fastforce simp: root_above_def obj_def new_root_def root_at_def split: option.splits)
    then have "UpdateRoot n t c = Inr (set_roots (desc t c) (new_root t c (o_parent k)) t)"
      using UpdateRoot_effect [OF walk_forest [OF f, of c], of _ n] k height_bound [OF f, of c] n by simp
    moreover have "upd c (o_parent_update (\<lambda>_. o_parent k)) t = t"
      using k by (auto simp: upd_def fun_eq_iff intro!: tree.equality)
    ultimately have "SetParent n t c new = Inr (False, rerooted t c (o_parent k))"
      using ur path True k diff by (simp add: SetParent_def obj_def rerooted_def)
    then show ?thesis using True by simp
  qed
qed


section \<open>What the other walks leave alone\<close>

definition links :: "'x tree_scheme \<Rightarrow> nat \<Rightarrow> (u64 \<times> nat option \<times> nat list \<times> nat option) option" where
  "links t a = map_option (\<lambda>r. (o_id r, o_parent r, o_children r, o_root r)) (t_objs t a)"

lemma links_Some: "links t a = Some (i, p, cs, R) \<longleftrightarrow> (\<exists>r. t_objs t a = Some r \<and> o_id r = i \<and> o_parent r = p \<and> o_children r = cs \<and> o_root r = R)"
  by (auto simp: links_def)

lemma links_shape: "links (t' :: 'x tree_scheme) = links (t :: 'x tree_scheme) \<Longrightarrow> shape t' = shape t"
proof -
  assume l: "links t' = links t"
  have "shape u a = map_option (\<lambda>(i, p, cs, R). (i, p, cs)) (links u a)" for u :: "'x tree_scheme" and a
    by (simp add: shape_def links_def option.map_comp comp_def)
  then show ?thesis using l by (simp add: fun_eq_iff)
qed

lemma links_roots: "links (t' :: 'x tree_scheme) = links (t :: 'x tree_scheme) \<Longrightarrow> roots_ok t' = roots_ok t"
proof -
  assume l: "links t' = links t"
  have r: "roots_ok u \<longleftrightarrow> (\<forall>a i p cs R. links u a = Some (i, p, cs, R) \<longrightarrow>
      (case p of None \<Rightarrow> R = None \<or> R = Some a | Some q \<Rightarrow> R = (case links u q of None \<Rightarrow> None | Some (_, _, _, S) \<Rightarrow> S)))" for u :: "'x tree_scheme"
  proof -
    have e: "root_at u q = (case links u q of None \<Rightarrow> None | Some (_, _, _, S) \<Rightarrow> S)" for q
      by (simp add: root_at_def links_def split: option.split bind_split)
    show ?thesis unfolding roots_ok_def links_Some e by blast
  qed
  show ?thesis unfolding r l ..
qed

lemma links_alive: "links (t' :: 'x tree_scheme) = links (t :: 'x tree_scheme) \<Longrightarrow> t_objs t' a = None \<longleftrightarrow> t_objs t a = None"
proof -
  assume "links t' = links t"
  then have "links t' a = links t a" by simp
  then show ?thesis by (cases "t_objs t a"; cases "t_objs t' a") (simp_all add: links_def)
qed

lemma links_get:
  fixes t t' :: "'x tree_scheme"
  assumes "links t' = links t" "t_objs t a = Some r"
  obtains r' where "t_objs t' a = Some r'" "o_id r' = o_id r" "o_parent r' = o_parent r" "o_children r' = o_children r" "o_root r' = o_root r"
proof -
  have "links t' a = links t a" using assms(1) by simp
  then show ?thesis using assms(2) that by (auto simp: links_def)
qed

lemma links_upd: "(\<And>r. o_id (f r) = o_id r \<and> o_parent (f r) = o_parent r \<and> o_children (f r) = o_children r \<and> o_root (f r) = o_root r) \<Longrightarrow>
    links (upd a f t) = links t"
  by (auto simp: fun_eq_iff links_def option.map_comp comp_def)

lemma links_simps [simp]: "links (OnChanged t) = links t" "links (t\<lparr>t_updaterDirty := x\<rparr>) = links t" "links (t\<lparr>t_uses := u\<rparr>) = links t"
  by (simp_all add: fun_eq_iff links_def OnChanged_def)

lemma shape_depth: "shape t' = shape t \<Longrightarrow> depth t' = depth t \<and> size_of t' = size_of t \<and> par t' = par t"
  by (frule same_shape_par, intro conjI ext) (simp_all add: depth_def size_of_def dom_shape)

lemma OnParentLayerChanged_ends:
  fixes t :: "'x tree_scheme"
  assumes "\<exists>r p. t_objs t a = Some r \<and> o_parent r = Some p \<and> t_objs t p \<noteq> None" "walk_ok h t a" "n > h a"
  shows "\<exists>t'. OnParentLayerChanged n t a = Inr t' \<and> links t' = links t"
  using assms
proof (induction n arbitrary: a t)
  case (Suc n)
  obtain r p q where r: "t_objs t a = Some r" "o_parent r = Some p" "t_objs t p = Some q" using Suc.prems(1) by blast
  let ?t = "upd a (o_cachedLayer_update (\<lambda>_. o_cachedLayer q)) t"
  have l: "links ?t = links t" by (rule links_upd) simp
  have "\<exists>s. each (OnParentLayerChanged n) ?t (o_children r) = Inr s \<and> links s = links t"
  proof (rule each_keeps [where P = "\<lambda>s. links s = links t"])
    fix s :: "'x tree_scheme" and c assume s: "links s = links t" and c: "c \<in> set (o_children r)"
    have ca: "(c, a) \<in> chi t" using c r by (auto simp: chi_def)
    obtain k where k: "t_objs t c = Some k" "o_parent k = Some a" using walk_kid [OF Suc.prems(2) ca] by blast
    obtain k' where "t_objs s c = Some k'" "o_parent k' = Some a" using links_get [OF s k(1)] k(2) by metis
    moreover have "t_objs s a \<noteq> None" using links_alive [OF s] r(1) by simp
    moreover have "walk_ok h s c" "n > h c"
      using walk_child [OF Suc.prems(2) ca] Suc.prems(3) walk_shape [OF links_shape [OF s], of h c] by simp_all
    ultimately show "\<exists>s'. OnParentLayerChanged n s c = Inr s' \<and> links s' = links t" using Suc.IH [of s c] s by auto
  qed (rule l)
  then show ?case using r by (simp add: obj_def)
qed simp

lemma SetDirty_ends:
  fixes t :: "'x tree_scheme"
  assumes "forest t" "t_objs t a \<noteq> None" "n > depth t a"
  shows "\<exists>t'. SetDirty n t a True = Inr (True, t') \<and> links t' = links t"
  using assms
proof (induction n arbitrary: a t)
  case (Suc n)
  obtain r where r: "t_objs t a = Some r" using Suc.prems(2) by blast
  let ?t = "upd a (o_dirty_update (\<lambda>_. True)) t"
  have l: "links ?t = links t" by (rule links_upd) simp
  show ?case
  proof (cases "o_parent r")
    case None
    then show ?thesis using r l by (auto simp: obj_def componentable_SetDirty_def)
  next
    case (Some p)
    have f: "forest ?t" by (rule forest_shape [OF links_shape [OF l] Suc.prems(1)])
    have "(a, p) \<in> par t" using r Some by (auto simp: par_def)
    then have "depth ?t p < n" using depth_parent [OF Suc.prems(1)] shape_depth [OF links_shape [OF l]] Suc.prems(3) by fastforce
    moreover have "t_objs ?t p \<noteq> None" using forestD(1) [OF Suc.prems(1) r Some] by auto
    ultimately obtain t' where "SetDirty n ?t p True = Inr (True, t')" "links t' = links ?t" using Suc.IH [OF f, of p] by blast
    then show ?thesis using r Some l by (auto simp: obj_def componentable_SetDirty_def)
  qed
qed simp

section \<open>Roots after a move\<close>

lemma rerooted_objs: "t_objs (rerooted t c new) x =
    map_option (\<lambda>r. if x = c then r\<lparr>o_parent := new, o_root := new_root t c new\<rparr>
      else if x \<in> desc t c then r\<lparr>o_root := new_root t c new\<rparr> else r) (t_objs t x)"
  by (cases "t_objs t x") (auto simp: rerooted_def set_roots_objs)

lemma rerooted_roots:
  assumes f: "forest t" and ro: "roots_ok t"
    and new: "\<And>p. new = Some p \<Longrightarrow> t_objs t p \<noteq> None \<and> (p, c) \<notin> (par t)\<^sup>*"
  shows "roots_ok (rerooted t c new)"
  unfolding roots_ok_def
proof (intro allI impI)
  fix a r assume "t_objs (rerooted t c new) a = Some r"
  then obtain k where k: "t_objs t a = Some k"
    and r: "r = (if a = c then k\<lparr>o_parent := new, o_root := new_root t c new\<rparr>
      else if a \<in> desc t c then k\<lparr>o_root := new_root t c new\<rparr> else k)" by (auto simp: rerooted_objs)
  let ?get = "root_at (rerooted t c new)"
  have out: "?get p = root_at t p" if "p \<notin> desc t c" for p
    using that desc_refl [of c t] by (cases "t_objs t p") (auto simp: root_at_def rerooted_objs)
  have inside: "?get p = new_root t c new" if "p \<in> desc t c" "t_objs t p \<noteq> None" for p
    using that by (auto simp: root_at_def rerooted_objs)
  show "case o_parent r of None \<Rightarrow> o_root r = None \<or> o_root r = Some a | Some p \<Rightarrow> o_root r = ?get p"
  proof (cases "a = c")
    case True
    show ?thesis
    proof (cases new)
      case None
      then show ?thesis using True r by (simp add: new_root_def)
    next
      case (Some p)
      then have "p \<notin> desc t c" using new by (auto simp: desc_forest [OF f])
      then show ?thesis using True r Some out [of p] by (simp add: new_root_def)
    qed
  next
    case False
    then have parent: "o_parent r = o_parent k" using r by simp
    show ?thesis
    proof (cases "o_parent k")
      case None
      then have "a \<notin> desc t c" using False k by (auto simp: desc_forest [OF f] par_def elim: converse_rtranclE)
      then have "r = k" using r False by simp
      then show ?thesis using ro k None unfolding roots_ok_def by fastforce
    next
      case (Some p)
      have ap: "(a, p) \<in> par t" using k Some by (auto simp: par_def)
      have "x = p" if "(a, x) \<in> par t" for x using that k Some by (auto simp: par_def)
      then have same: "a \<in> desc t c \<longleftrightarrow> p \<in> desc t c"
        using ap False unfolding desc_forest [OF f] by (metis converse_rtranclE converse_rtrancl_into_rtrancl mem_Collect_eq)
      have alive: "t_objs t p \<noteq> None" using forestD(1) [OF f k Some] by blast
      show ?thesis
      proof (cases "p \<in> desc t c")
        case True
        then show ?thesis using same inside [OF True alive] parent Some r False by simp
      next
        case out_p: False
        have "o_root k = root_at t p" using ro k Some unfolding roots_ok_def by fastforce
        then show ?thesis using same out [OF out_p] parent Some r False out_p by simp
      qed
    qed
  qed
qed

lemma OnChanged_roots [simp]: "roots_ok (OnChanged t) = roots_ok t"
proof -
  have "root_at (OnChanged t) = root_at t" by (rule ext) (simp add: root_at_def)
  then show ?thesis unfolding roots_ok_def by (simp cong: option.case_cong)
qed

lemma calm_set_roots: "calm t (set_roots D R t)"
proof -
  have "marks (set_roots D R t) = marks t" "parent_of (set_roots D R t) = parent_of t"
    by (rule ext, rename_tac x, case_tac "t_objs t x", auto simp: marks_def parent_of_def set_roots_objs)+
  then show ?thesis by (simp add: calm_def set_roots_def)
qed

lemma calm_rerooted: "t_objs t c = Some k \<Longrightarrow> calm t (rerooted t c (o_parent k))"
proof -
  assume k: "t_objs t c = Some k"
  have "upd c (o_parent_update (\<lambda>_. o_parent k)) t = t"
    using k by (auto simp: upd_def fun_eq_iff intro!: tree.equality)
  then show ?thesis using calm_set_roots by (simp add: rerooted_def)
qed

lemma calm_moved:
  assumes k: "t_objs t c = Some k"
  shows "calm t (moved t c new ys (o_inScene k))"
proof -
  have "marks (moved t c new ys b) = marks t" for b
    by (rule ext, rename_tac x, case_tac "t_objs t x") (auto simp: marks_def moved_def Let_def rerooted_objs)
  moreover have "parent_of (moved t c new ys b) x = parent_of t x" if "x \<noteq> c" for b x
    using that by (cases "t_objs t x") (auto simp: parent_of_def moved_def Let_def rerooted_objs)
  moreover have "tree.more (moved t c new ys b) = tree.more t" "t_uses (moved t c new ys b) = t_uses t"
      "t_changed (moved t c new ys b) \<longleftrightarrow> b \<or> t_changed t" for b
    by (simp_all add: moved_def Let_def rerooted_def set_roots_def upd_def OnChanged_def)
  moreover have "x \<noteq> c" if "in_scene t x" "\<not> o_inScene k" for x using that k by (auto simp: in_scene_def)
  ultimately show ?thesis unfolding calm_def by (cases "o_inScene k") simp_all
qed

lemma roots_ok_upd:
  fixes t :: "'x tree_scheme"
  assumes "\<And>r. o_root (f r) = o_root r \<and> o_parent (f r) = o_parent r"
  shows "roots_ok (upd a f t) = roots_ok t"
proof -
  have e: "root_at (upd a f t) p = root_at t p" for p
    using assms by (cases "t_objs t p") (auto simp: root_at_def)
  have r: "roots_ok u \<longleftrightarrow> (\<forall>x. \<forall>R p. map_option (\<lambda>r. (o_root r, o_parent r)) (t_objs u x) = Some (R, p) \<longrightarrow>
      (case p of None \<Rightarrow> R = None \<or> R = Some x | Some p \<Rightarrow> R = root_at u p))" for u :: "'x tree_scheme"
    by (auto simp: roots_ok_def)
  have m: "map_option (\<lambda>r. (o_root r, o_parent r)) (t_objs (upd a f t) x) = map_option (\<lambda>r. (o_root r, o_parent r)) (t_objs t x)" for x
    using assms by (cases "t_objs t x") auto
  show ?thesis unfolding r e m ..
qed

lemma moved_roots:
  assumes "forest t" "roots_ok t" "\<And>p. new = Some p \<Longrightarrow> t_objs t p \<noteq> None \<and> (p, c) \<notin> (par t)\<^sup>*"
  shows "roots_ok (moved t c new ys b)"
  using rerooted_roots [OF assms] by (simp add: moved_def Let_def roots_ok_upd)

section \<open>Linking and cutting\<close>

lemma unique_ids_shape: "unique_ids t \<longleftrightarrow>
    (\<forall>a b i p cs q ds. shape t a = Some (i, p, cs) \<longrightarrow> shape t b = Some (i, q, ds) \<longrightarrow> a = b)"
  unfolding unique_ids_def shape_Some by metis

lemmas forest_iff = forest_def linked_shape unique_ids_shape dom_shape

lemma shape_obj: "t_objs t a = Some r \<Longrightarrow> shape t a = Some (o_id r, o_parent r, o_children r)"
  by (simp add: shape_def)

text \<open>A root becomes the last child of an object that is not below it.\<close>

lemma forest_link:
  assumes f: "forest t" and r: "t_objs t a = Some r" and k: "t_objs t c = Some k" "o_parent k = None"
    and out: "(a, c) \<notin> (par t)\<^sup>*"
    and s: "\<And>x. shape t' x = (if x = c then Some (o_id k, Some a, o_children k)
      else if x = a then Some (o_id r, o_parent r, o_children r @ [c]) else shape t x)"
  shows "forest t'" "par t' = insert (c, a) (par t)"
proof -
  have ca: "c \<noteq> a" using out by auto
  have not_in: "c \<notin> set (o_children q)" if "t_objs t p = Some q" for p q
    using forestD(2) [OF f that, of c] k by auto
  show p: "par t' = insert (c, a) (par t)"
    using k ca r by (auto simp: par_shape s shape_obj split: if_splits option.splits)
  have "acyclic (par t')" unfolding p using f out by (simp add: forest_def acyclic_insert)
  moreover have "dom (shape t') = dom (shape t)" using r k by (auto simp: s shape_obj split: if_splits)
  moreover have "unique_ids t'"
    using f k r unfolding forest_iff s by (auto simp: shape_obj split: if_splits)
  moreover have "linked t'"
    unfolding linked_shape
  proof (intro allI impI)
    fix x i p cs assume x: "shape t' x = Some (i, p, cs)"
    have old: "\<exists>j pp ds. shape t' q = Some (j, pp, ds) \<and> y \<in> set ds" if y: "t_objs t y = Some v" "o_parent v = Some q" for y v q
    proof -
      obtain w where "t_objs t q = Some w" "y \<in> set (o_children w)" using forestD(1) [OF f y] by blast
      then show ?thesis using r k by (auto simp: s shape_obj)
    qed
    have kid: "\<exists>j ds. shape t' y = Some (j, Some q, ds)" if y: "t_objs t q = Some w" "y \<in> set (o_children w)" for y q w
    proof -
      obtain v where "t_objs t y = Some v" "o_parent v = Some q" using forestD(2) [OF f y] by blast
      then show ?thesis using r k by (auto simp: s shape_obj)
    qed
    obtain v where v: "t_objs t x = Some v" using x r k by (auto simp: s shape_def [of t] split: if_splits)
    have cs: "cs = (if x = a then o_children r @ [c] else o_children v)" and
      pp: "p = (if x = c then Some a else o_parent v)"
      using x v r k ca by (auto simp: s shape_obj split: if_splits)
    have new: "\<exists>j ds. shape t' c = Some (j, Some a, ds)" by (simp add: s)
    show "(\<forall>q. p = Some q \<longrightarrow> (\<exists>j pp ds. shape t' q = Some (j, pp, ds) \<and> x \<in> set ds)) \<and>
      (\<forall>c \<in> set cs. \<exists>j ds. shape t' c = Some (j, Some x, ds)) \<and> distinct cs"
    proof (intro conjI)
      show "\<forall>q. p = Some q \<longrightarrow> (\<exists>j pp ds. shape t' q = Some (j, pp, ds) \<and> x \<in> set ds)"
        using old [OF v] pp ca by (auto simp: s)
      show "\<forall>y \<in> set cs. \<exists>j ds. shape t' y = Some (j, Some x, ds)"
        using kid [OF v] new cs v r by auto
      show "distinct cs" using forestD(3) [OF f v] not_in [OF v] cs v r by auto
    qed
  qed
  ultimately show "forest t'" using f by (simp add: forest_def dom_shape)
qed

text \<open>A child becomes a root.\<close>

lemma forest_cut:
  assumes f: "forest t" and r: "t_objs t a = Some r" "c \<in> set (o_children r)" and k: "t_objs t c = Some k"
    and s: "\<And>x. shape t' x = (if x = c then Some (o_id k, None, o_children k)
      else if x = a then Some (o_id r, o_parent r, remove1 c (o_children r)) else shape t x)"
  shows "forest t'" "par t' = par t - {(c, a)}"
proof -
  have kp: "o_parent k = Some a" using forestD(2) [OF f r(1) r(2)] k by auto
  have ca: "c \<noteq> a" using f kp k by (auto simp: forest_def acyclic_def par_def)
  have only: "p = a" if "t_objs t p = Some q" "c \<in> set (o_children q)" for p q
    using forestD(2) [OF f that] k kp by auto
  show p: "par t' = par t - {(c, a)}"
    using k ca r kp by (auto simp: par_shape s shape_obj split: if_splits option.splits)
  have "acyclic (par t')" unfolding p using f by (auto simp: forest_def intro: acyclic_subset)
  moreover have "dom (shape t') = dom (shape t)" using r k by (auto simp: s shape_obj split: if_splits)
  moreover have "unique_ids t'"
    using f k r unfolding forest_iff s by (auto simp: shape_obj split: if_splits)
  moreover have "linked t'"
    unfolding linked_shape
  proof (intro allI impI)
    fix x i p cs assume x: "shape t' x = Some (i, p, cs)"
    have old: "\<exists>j pp ds. shape t' q = Some (j, pp, ds) \<and> y \<in> set ds" if y: "t_objs t y = Some v" "o_parent v = Some q" "y \<noteq> c" for y v q
    proof -
      obtain w where "t_objs t q = Some w" "y \<in> set (o_children w)" using forestD(1) [OF f y(1,2)] by blast
      then show ?thesis using r k y(3) by (auto simp: s shape_obj)
    qed
    have kid: "\<exists>j ds. shape t' y = Some (j, Some q, ds)" if y: "t_objs t q = Some w" "y \<in> set (o_children w)" "y \<noteq> c" for y q w
    proof -
      obtain v where "t_objs t y = Some v" "o_parent v = Some q" using forestD(2) [OF f y(1,2)] by blast
      then show ?thesis using r k y(3) by (auto simp: s shape_obj)
    qed
    obtain v where v: "t_objs t x = Some v" using x r k by (auto simp: s shape_def [of t] split: if_splits)
    have cs: "cs = (if x = a then remove1 c (o_children r) else o_children v)" and
      pp: "p = (if x = c then None else o_parent v)"
      using x v r k ca by (auto simp: s shape_obj split: if_splits)
    have d: "distinct (o_children v)" by (rule forestD(3) [OF f v])
    have no: "c \<notin> set cs" using cs only [OF v] d v r by auto
    have sub: "set cs \<subseteq> set (o_children v)" using cs v r(1) set_remove1_subset [of c "o_children v"] by auto
    show "(\<forall>q. p = Some q \<longrightarrow> (\<exists>j pp ds. shape t' q = Some (j, pp, ds) \<and> x \<in> set ds)) \<and>
      (\<forall>c \<in> set cs. \<exists>j ds. shape t' c = Some (j, Some x, ds)) \<and> distinct cs"
    proof (intro conjI)
      show "\<forall>q. p = Some q \<longrightarrow> (\<exists>j pp ds. shape t' q = Some (j, pp, ds) \<and> x \<in> set ds)"
        using old [OF v] pp by auto
      show "\<forall>y \<in> set cs. \<exists>j ds. shape t' y = Some (j, Some x, ds)"
        using kid [OF v] no sub by blast
      show "distinct cs" using cs d v r by auto
    qed
  qed
  ultimately show "forest t'" using f by (simp add: forest_def dom_shape)
qed

section \<open>Adding, removing and moving children\<close>

lemma moved_shape: "shape (moved t c new ys b) x = (if x = c then map_option (\<lambda>(i, p, cs). (i, new, cs)) (shape t c) else shape t x)"
  by (cases "t_objs t x") (auto simp: shape_def moved_def Let_def rerooted_objs)

lemma rerooted_shape: "t_objs t c = Some k \<Longrightarrow> shape (rerooted t c (o_parent k)) = shape t"
  by (rule ext, rename_tac x, case_tac "t_objs t x") (auto simp: shape_def rerooted_objs)

lemma moved_same: "map_option (\<lambda>r. (o_parent r, o_children r)) (t_objs (moved t c new ys b) x) =
    map_option (\<lambda>r. (if x = c then new else o_parent r, o_children r)) (t_objs t x)"
  by (cases "t_objs t x") (auto simp: moved_def Let_def rerooted_objs)

lemma moved_get:
  assumes "t_objs t x = Some r"
  obtains r' where "t_objs (moved t c new ys b) x = Some r'" "o_parent r' = (if x = c then new else o_parent r)" "o_children r' = o_children r"
  using moved_same [of t c new ys b x] assms by (cases "t_objs (moved t c new ys b) x") auto

text \<open>What a state of the hierarchy satisfies.\<close>

definition scene_ok :: "'x tree_scheme \<Rightarrow> bool" where
  "scene_ok t \<longleftrightarrow> forest t \<and> roots_ok t"

lemma scene_ok_links: "links (t' :: 'x tree_scheme) = links (t :: 'x tree_scheme) \<Longrightarrow> scene_ok t \<Longrightarrow> scene_ok t'"
  unfolding scene_ok_def using links_roots links_shape forest_shape by blast


definition linked_shape_to :: "'x tree_scheme \<Rightarrow> nat \<Rightarrow> nat \<Rightarrow> nat \<Rightarrow> (u64 \<times> nat option \<times> nat list) option" where
  "linked_shape_to t a c x =
     (if x = c then map_option (\<lambda>(i, p, cs). (i, Some a, cs)) (shape t c)
      else if x = a then map_option (\<lambda>(i, p, cs). (i, p, cs @ [c])) (shape t a) else shape t x)"

definition cut_shape :: "'x tree_scheme \<Rightarrow> nat \<Rightarrow> nat \<Rightarrow> nat \<Rightarrow> (u64 \<times> nat option \<times> nat list) option" where
  "cut_shape t a c x =
     (if x = c then map_option (\<lambda>(i, p, cs). (i, None, cs)) (shape t c)
      else if x = a then map_option (\<lambda>(i, p, cs). (i, p, remove1 c cs)) (shape t a) else shape t x)"

lemma upd_children_shape: "shape (upd a (o_children_update f) t) x = (if x = a then map_option (\<lambda>(i, p, cs). (i, p, f cs)) (shape t a) else shape t x)"
  by (auto simp: shape_def option.map_comp comp_def)

lemma size_same: "dom (shape t') = dom (shape t) \<Longrightarrow> size_of t' = size_of t"
  by (simp add: size_of_def dom_shape)

text \<open>The part of \<open>AddChild\<close> after the parent is set.\<close>

lemma attach_ends:
  fixes t :: "'x tree_scheme"
  assumes "scene_ok t" "t_objs t a \<noteq> None" "t_objs t c = Some k" "o_parent k = Some a" "n > size_of t"
  shows "\<exists>t2 t3. OnParentLayerChanged n t c = Inr t2 \<and> SetDirty n (if b then OnChanged t2 else t2) a True = Inr (True, t3) \<and> links t3 = links t \<and> calm t t3"
proof -
  have f: "forest t" using assms(1) by (simp add: scene_ok_def)
  have "walk_ok (height t) t c" "height t c < n"
    using walk_forest [OF f, of c] height_bound [OF f, of c] assms(3,5) by simp_all
  then obtain t2 where t2: "OnParentLayerChanged n t c = Inr t2" "links t2 = links t"
    using OnParentLayerChanged_ends [of t c "height t" n] assms(2-4) by blast
  let ?t = "if b then OnChanged t2 else t2"
  have l: "links ?t = links t" using t2(2) by simp
  have "forest ?t" by (rule forest_shape [OF links_shape [OF l] f])
  moreover have "t_objs ?t a \<noteq> None" using links_alive [OF l] assms(2) by simp
  moreover have "depth ?t a < n" using depth_bound [OF f assms(2)] shape_depth [OF links_shape [OF l]] assms(5) by simp
  ultimately obtain t3 where "SetDirty n ?t a True = Inr (True, t3)" "links t3 = links ?t" using SetDirty_ends by blast
  moreover have "calm t ?t" using OnParentLayerChanged_calm [OF t2(1)] calm_OnChanged calm_trans by (metis (full_types))
  moreover have "calm ?t t3" if "SetDirty n ?t a True = Inr (True, t3)" for t3 by (rule SetDirty_calm(1) [OF that])
  ultimately show ?thesis using t2(1) l calm_trans by metis
qed

lemma AddChild_cases:
  fixes t :: "'x tree_scheme"
  assumes s: "scene_ok t" and r: "t_objs t a = Some r" and k: "t_objs t c = Some k" and n: "n > size_of t"
  shows "if o_parent k \<noteq> None \<or> (a, c) \<in> (par t)\<^sup>* then \<exists>t'. AddChild n t a c = Inr (False, t') \<and> calm t t' \<and> scene_ok t' \<and> shape t' = shape t
    else \<exists>t'. AddChild n t a c = Inr (True, t') \<and> calm t t' \<and> scene_ok t' \<and> shape t' = linked_shape_to t a c"
proof (cases "o_parent k \<noteq> None \<or> c = a")
  case True
  then have "AddChild n t a c = Inr (False, t)" using r k by (auto simp: AddChild_def obj_def)
  then show ?thesis using True s by auto
next
  case False
  then have ca: "c \<noteq> a" and kp: "o_parent k = None" by auto
  have f: "forest t" and ro: "roots_ok t" using s by (simp_all add: scene_ok_def)
  have nc: "c \<notin> set (o_children r)" using forestD(2) [OF f r, of c] k kp by auto
  have alive: "t_objs t p \<noteq> None" if "Some a = Some p" for p using that r by simp
  have diff: "Some a \<noteq> o_parent k" using kp by simp
  note sp = SetParent_cases [OF f ro k diff alive n]
  show ?thesis
  proof (cases "(a, c) \<in> (par t)\<^sup>*")
    case True
    then have "SetParent n t c (Some a) = Inr (False, rerooted t c (o_parent k))" using sp by simp
    then have "AddChild n t a c = Inr (False, rerooted t c (o_parent k))" using r k kp ca nc by (simp add: AddChild_def obj_def)
    moreover have "roots_ok (rerooted t c (o_parent k))" using kp by (intro rerooted_roots [OF f ro]) auto
    moreover have "forest (rerooted t c (o_parent k))" by (rule forest_shape [OF rerooted_shape [OF k] f])
    ultimately show ?thesis using True rerooted_shape [OF k] calm_rerooted [OF k] by (auto simp: scene_ok_def)
  next
    case out: False
    then obtain ys where ys: "SetParent n t c (Some a) = Inr (True, moved t c (Some a) ys (o_inScene k))" using sp by auto
    let ?m = "moved t c (Some a) ys (o_inScene k)"
    let ?t = "upd a (o_children_update (\<lambda>cs. cs @ [c])) ?m"
    have sh: "shape ?t = linked_shape_to t a c"
      using ca by (auto simp: fun_eq_iff upd_children_shape moved_shape linked_shape_to_def)
    have "forest ?t" by (rule forest_link(1) [OF f r k kp out])
        (use r k in \<open>simp add: sh linked_shape_to_def shape_obj\<close>)
    moreover have "roots_ok ?t" unfolding roots_ok_upd [of "o_children_update f" for f, simplified] using out by (intro moved_roots [OF f ro]) (use r in auto)
    ultimately have sc: "scene_ok ?t" by (simp add: scene_ok_def)
    have "dom (shape ?t) = dom (shape t)" using r k by (auto simp: sh linked_shape_to_def shape_obj split: if_splits)
    then have n': "n > size_of ?t" using n size_same by metis
    obtain k' where k': "t_objs ?t c = Some k'" "o_parent k' = Some a"
      using moved_get [OF k, of c "Some a" ys "o_inScene k"] ca by auto
    have "t_objs ?t a \<noteq> None" using moved_get [OF r, of c "Some a" ys "o_inScene k"] by auto
    from attach_ends [OF sc this k' n', of "o_inScene r"] obtain t2 t3 where
      t: "OnParentLayerChanged n ?t c = Inr t2" "SetDirty n (if o_inScene r then OnChanged t2 else t2) a True = Inr (True, t3)" "links t3 = links ?t" "calm ?t t3"
      by blast
    have "calm t ?t" using calm_trans [OF calm_moved [OF k] calm_upd [of "o_children_update (\<lambda>cs. cs @ [c])" ?m a]] by simp
    then have "calm t t3" using t(4) calm_trans by blast
    have "(\<lambda>r :: sobj. r\<lparr>o_children := o_children r @ [c]\<rparr>) = o_children_update (\<lambda>cs. cs @ [c])"
      by (rule ext, rule sobj.equality) simp_all
    then have "upd a (\<lambda>r. r\<lparr>o_children := o_children r @ [c]\<rparr>) ?m = ?t" by simp
    then have "AddChild n t a c = Inr (True, t3)" using r k kp ca nc ys t by (simp add: AddChild_def obj_def)
    moreover have "scene_ok t3" using scene_ok_links [OF t(3) sc] .
    moreover have "shape t3 = linked_shape_to t a c" using links_shape [OF t(3)] sh by simp
    ultimately show ?thesis using out kp \<open>calm t t3\<close> by auto
  qed
qed

lemma RemoveChild_cases:
  fixes t :: "'x tree_scheme"
  assumes s: "scene_ok t" and r: "t_objs t a = Some r" "c \<in> set (o_children r)" "length (o_children r) \<le> 65536" and n: "n > size_of t"
  shows "\<exists>t'. RemoveChild n t a c = Inr t' \<and> calm t t' \<and> scene_ok t' \<and> shape t' = cut_shape t a c"
proof -
  have f: "forest t" and ro: "roots_ok t" using s by (simp_all add: scene_ok_def)
  obtain k where k: "t_objs t c = Some k" "o_parent k = Some a" using forestD(2) [OF f r(1,2)] by blast
  have ca: "c \<noteq> a" using f k by (auto simp: forest_def acyclic_def par_def)
  have diff: "None \<noteq> o_parent k" using k by simp
  obtain ys where ys: "SetParent n t c None = Inr (True, moved t c None ys (o_inScene k))"
    using SetParent_cases [OF f ro k(1) diff _ n] by auto
  let ?m = "moved t c None ys (o_inScene k)"
  let ?t = "upd a (o_children_update (remove1 c)) ?m"
  have sh: "shape ?t = cut_shape t a c"
    using ca by (auto simp: fun_eq_iff upd_children_shape moved_shape cut_shape_def)
  have "forest ?t" by (rule forest_cut(1) [OF f r(1,2) k(1)])
      (use r(1) k in \<open>simp add: sh cut_shape_def shape_obj\<close>)
  moreover have "roots_ok ?t" unfolding roots_ok_upd [of "o_children_update f" for f, simplified] by (intro moved_roots [OF f ro]) auto
  moreover obtain r' where "t_objs ?m a = Some r'" "o_children r' = o_children r"
    using moved_get [OF r(1), of c None ys "o_inScene k"] by auto
  ultimately have "RemoveChild n t a c = Inr ?t" "scene_ok ?t" using ys r(2,3) by (simp_all add: RemoveChild_def obj_def scene_ok_def)
  moreover have "calm t ?t" using calm_trans [OF calm_moved [OF k(1)] calm_upd [of "o_children_update (remove1 c)" ?m a]] by simp
  ultimately show ?thesis using sh by blast
qed

lemma cut_par:
  assumes f: "forest t" and r: "t_objs t a = Some r" "c \<in> set (o_children r)" and s: "shape t' = cut_shape t a c"
  shows "par t' = par t - {(c, a)}"
proof -
  obtain k where k: "t_objs t c = Some k" using forestD(2) [OF f r] by blast
  show ?thesis by (rule forest_cut(2) [OF f r k]) (use r(1) k in \<open>simp add: s cut_shape_def shape_obj\<close>)
qed

text \<open>Below an object nothing changes when it is cut from its parent.\<close>

lemma cut_below:
  assumes f: "forest t" and ca: "(c, a) \<in> par t"
  shows "(d, c) \<in> (par t - {(c, a)})\<^sup>* \<longleftrightarrow> (d, c) \<in> (par t)\<^sup>*"
proof
  show "(d, c) \<in> (par t - {(c, a)})\<^sup>* \<Longrightarrow> (d, c) \<in> (par t)\<^sup>*" by (rule rtrancl_mono [THEN subsetD]) auto
  assume "(d, c) \<in> (par t)\<^sup>*"
  then show "(d, c) \<in> (par t - {(c, a)})\<^sup>*"
  proof (induction rule: converse_rtrancl_induct)
    case (step d p)
    have "d \<noteq> c" using step.hyps f by (auto simp: forest_def acyclic_def dest: rtrancl_into_trancl2)
    then have "(d, p) \<in> par t - {(c, a)}" using step.hyps(1) by auto
    then show ?case using step.IH by (rule converse_rtrancl_into_rtrancl)
  qed simp
qed

lemma MoveToTree_cases:
  fixes t :: "'x tree_scheme"
  assumes s: "scene_ok t" and k: "t_objs t c = Some k"
    and few: "\<And>p q. o_parent k = Some p \<Longrightarrow> t_objs t p = Some q \<Longrightarrow> length (o_children q) \<le> 65536"
    and dest: "\<And>d. dest = Some d \<Longrightarrow> t_objs t d \<noteq> None" and n: "n > size_of t"
  shows "\<exists>b t'. MoveToTree n t c dest = Inr (b, t') \<and> calm t t' \<and> scene_ok t' \<and> dom (t_objs t') = dom (t_objs t) \<and>
    (b \<longleftrightarrow> (\<forall>d. dest = Some d \<longrightarrow> (d, c) \<notin> (par t)\<^sup>*)) \<and>
    map_option o_parent (t_objs t' c) = Some (if b then dest else None) \<and>
    (\<forall>x. x \<noteq> c \<longrightarrow> map_option o_parent (t_objs t' x) = map_option o_parent (t_objs t x))"
proof -
  have f: "forest t" using s by (simp add: scene_ok_def)
  let ?par = "\<lambda>u x. map_option o_parent (t_objs u x)"
  have par_of: "?par u x = map_option (\<lambda>(i, p, cs). p) (shape u x)" for u :: "'x tree_scheme" and x
    by (auto simp: shape_def option.map_comp comp_def)
  have "\<exists>t1. (case o_parent k of None \<Rightarrow> Inr t | Some p \<Rightarrow> RemoveChild n t p c) = Inr t1 \<and> calm t t1 \<and> scene_ok t1 \<and> dom (t_objs t1) = dom (t_objs t) \<and>
      ?par t1 c = Some None \<and> (\<forall>x. x \<noteq> c \<longrightarrow> ?par t1 x = ?par t x) \<and> (\<forall>d. (d, c) \<in> (par t1)\<^sup>* \<longleftrightarrow> (d, c) \<in> (par t)\<^sup>*)"
  proof (cases "o_parent k")
    case None
    then show ?thesis using s k by auto
  next
    case (Some p)
    obtain q where q: "t_objs t p = Some q" "c \<in> set (o_children q)" using forestD(1) [OF f k Some] by blast
    obtain t1 where t1: "RemoveChild n t p c = Inr t1" "calm t t1" "scene_ok t1" "shape t1 = cut_shape t p c"
      using RemoveChild_cases [OF s q few [OF Some q(1)] n] by blast
    have "(c, p) \<in> par t" using k Some by (auto simp: par_def)
    then have "(d, c) \<in> (par t1)\<^sup>* \<longleftrightarrow> (d, c) \<in> (par t)\<^sup>*" for d
      unfolding cut_par [OF f q t1(4)] by (rule cut_below [OF f])
    moreover have "dom (t_objs t1) = dom (t_objs t)"
      using q(1) k by (auto simp: dom_shape t1(4) cut_shape_def shape_obj split: if_splits)
    moreover have "?par t1 c = Some None" "\<forall>x. x \<noteq> c \<longrightarrow> ?par t1 x = ?par t x"
      unfolding par_of t1(4) using q(1) k by (auto simp: cut_shape_def shape_obj)
    ultimately show ?thesis using t1 Some by auto
  qed
  then obtain t1 where t1: "(case o_parent k of None \<Rightarrow> Inr t | Some p \<Rightarrow> RemoveChild n t p c) = Inr t1" "scene_ok t1"
    "dom (t_objs t1) = dom (t_objs t)" "?par t1 c = Some None" "\<And>x. x \<noteq> c \<Longrightarrow> ?par t1 x = ?par t x"
    "\<And>d. (d, c) \<in> (par t1)\<^sup>* \<longleftrightarrow> (d, c) \<in> (par t)\<^sup>*" "calm t t1" by blast
  obtain k1 where k1: "t_objs t1 c = Some k1" "o_parent k1 = None" using t1(4) by auto
  show ?thesis
  proof (cases dest)
    case None
    then show ?thesis using k k1 t1 by (auto simp: MoveToTree_def obj_def)
  next
    case (Some d)
    obtain r where r: "t_objs t1 d = Some r" using dest [OF Some] t1(3) by blast
    have "n > size_of t1" using n t1(3) by (simp add: size_of_def)
    note add = AddChild_cases [OF t1(2) r k1(1) this]
    have go: "MoveToTree n t c dest = AddChild n t1 d c" using k t1(1) Some by (simp add: MoveToTree_def obj_def)
    show ?thesis
    proof (cases "(d, c) \<in> (par t)\<^sup>*")
      case True
      then obtain t' where t': "MoveToTree n t c dest = Inr (False, t')" "scene_ok t'" "shape t' = shape t1" "calm t1 t'" using go add t1(6) by auto
      then have "dom (t_objs t') = dom (t_objs t)" "\<And>x. ?par t' x = ?par t1 x" using t1(3) by (simp_all add: dom_shape par_of)
      then have "\<forall>x. x \<noteq> c \<longrightarrow> ?par t' x = ?par t x" "?par t' c = Some None" "dom (t_objs t') = dom (t_objs t)"
        using t1(4,5) by simp_all
      then show ?thesis using t'(1,2) True Some calm_trans [OF t1(7) t'(4)] by (intro exI [of _ False] exI [of _ t']) simp
    next
      case False
      then obtain t' where t': "AddChild n t1 d c = Inr (True, t')" "scene_ok t'" "shape t' = linked_shape_to t1 d c" "calm t1 t'"
        using add t1(6) k1(2) by auto
      have "dom (t_objs t') = dom (t_objs t1)"
        using r k1 by (auto simp: dom_shape t'(3) linked_shape_to_def shape_obj split: if_splits)
      moreover have "?par t' c = Some (Some d)" "\<And>x. x \<noteq> c \<Longrightarrow> ?par t' x = ?par t1 x"
        unfolding par_of t'(3) using r k1 by (auto simp: linked_shape_to_def shape_obj)
      ultimately show ?thesis using go t' t1 False Some calm_trans [OF t1(7) t'(4)] by auto
    qed
  qed
qed

end
