(* ===== verification/SR_Scene.thy ===== *)
theory SR_Scene
  imports SR_Scene_Tree
begin

text \<open>
  The scene (World/Scene.cpp): its slots, the free slots, the queues of new and deleted objects, the cached
  list of roots, and the life of a scene object from its constructor to \<open>DestroyImpl\<close> (ECS/SceneObject.cpp,
  GameObject.cpp). The scene extends the state of the hierarchy. The scene's logic, its components and the
  files are left out; \<open>m_isHierarchyChanged\<close> is \<open>t_changed\<close>, the flag of the updater is \<open>t_updaterDirty\<close>.
\<close>

section \<open>The scene\<close>

record scene = tree +
  sc_sceneObjects :: "nat option list"
  sc_freeObjIndices :: "nat list"
  sc_newQueue :: "nat list"
  sc_deleteQueue :: "nat list"
  sc_root :: "nat list"
  sc_isPreDestroyed :: bool
  sc_isDestroyed :: bool
  sc_dirty :: bool

definition SR_ID_INVALID :: u64 where
  "SR_ID_INVALID = - 1"

definition scene_new :: "bytes \<Rightarrow> scene" where
  "scene_new layer = \<lparr>t_objs = Map.empty, t_default = layer, t_uses = (\<lambda>_. 0), t_updaterDirty = True, t_changed = False,
     sc_sceneObjects = [], sc_freeObjIndices = [], sc_newQueue = [], sc_deleteQueue = [], sc_root = [],
     sc_isPreDestroyed = False, sc_isDestroyed = False, sc_dirty = True\<rparr>"

text \<open>The constructor of a game object: an entity with a new id that belongs to nobody, has no root yet, and
  takes the default layer.\<close>

definition GameObject_new :: "'x tree_scheme \<Rightarrow> nat \<Rightarrow> u64 \<Rightarrow> bytes \<Rightarrow> 'x tree_scheme" where
  "GameObject_new t a i name =
     t\<lparr>t_objs := (t_objs t)(a \<mapsto> \<lparr>o_id = i, o_path = [i], o_name = name, o_parent = None, o_root = None, o_children = [],
        o_isEnabled = True, o_isActive = False, o_isDestroyed = False, o_dirty = True, o_unattached = False,
        o_layer = t_default t, o_cachedLayer = t_default t, o_inScene = False, o_idInScene = SR_ID_INVALID,
        o_prefab = None, o_isOwner = False, o_components = []\<rparr>)\<rparr>"

definition Scene_SetDirty :: "scene \<Rightarrow> bool \<Rightarrow> scene" where
  "Scene_SetDirty s dirty = s\<lparr>t_updaterDirty := True, sc_dirty := dirty\<rparr>"

fun RegisterSceneObject :: "nat \<Rightarrow> scene \<Rightarrow> nat \<Rightarrow> scene result" where
  "RegisterSceneObject 0 s a = Inl OutOfFuel"
| "RegisterSceneObject (Suc n) s a =
     bind_res (obj s a) (\<lambda>r.
     bind_res (each (RegisterSceneObject n)
       (upd a (o_inScene_update (\<lambda>_. True)) (s\<lparr>sc_newQueue := sc_newQueue s @ [a]\<rparr>)) (o_children r)) (\<lambda>s1.
     Inr (OnChanged (Scene_SetDirty s1 True))))"

text \<open>\<open>Remove\<close>: an object without a slot is looked for among the new ones.\<close>

definition Scene_Remove :: "scene \<Rightarrow> nat \<Rightarrow> (bool \<times> scene) result" where
  "Scene_Remove s a =
     bind_res (obj s a) (\<lambda>r.
     let s1 = s\<lparr>sc_deleteQueue := sc_deleteQueue s @ [a]\<rparr>; i = o_idInScene r in
     if unat i \<ge> length (sc_sceneObjects s) then
       if a \<in> set (sc_newQueue s)
       then Inr (True, OnChanged (Scene_SetDirty (s1\<lparr>sc_newQueue := remove1 a (sc_newQueue s)\<rparr>) True))
       else Inr (False, s1)
     else if sc_sceneObjects s ! unat i \<noteq> Some a then Inr (False, s1)
     else
       Inr (True, OnChanged (Scene_SetDirty (s1\<lparr>sc_sceneObjects := (sc_sceneObjects s)[unat i := None],
         sc_freeObjIndices := sc_freeObjIndices s @ [unat i]\<rparr>) True)))"

section \<open>The end of an object\<close>

definition free_object :: "'x tree_scheme \<Rightarrow> nat \<Rightarrow> 'x tree_scheme" where
  "free_object t a = t\<lparr>t_objs := (t_objs t)(a := None)\<rparr>"

text \<open>\<open>DestroyImpl\<close> runs the destructor, which gives back a prefab that is still linked.\<close>

definition DestroyImpl :: "nat \<Rightarrow> 'x tree_scheme \<Rightarrow> nat \<Rightarrow> 'x tree_scheme result" where
  "DestroyImpl n t a =
     bind_res (obj t a) (\<lambda>r.
     bind_res (if o_prefab r \<noteq> None then UnlinkPrefab n t a else Inr t) (\<lambda>t1. Inr (free_object t1 a)))"

text \<open>The first half of \<open>Destroy\<close>: the object leaves its prefab, its parent and its scene.\<close>

definition leave :: "nat \<Rightarrow> scene \<Rightarrow> nat \<Rightarrow> sobj \<Rightarrow> scene result" where
  "leave w s a r =
     bind_res (let s1 = upd a (o_isDestroyed_update (\<lambda>_. True)) s in if o_prefab r \<noteq> None then UnlinkPrefab w s1 a else Inr s1) (\<lambda>s2.
     bind_res (case o_parent r of None \<Rightarrow> Inr s2 | Some p \<Rightarrow> RemoveChild w s2 p a) (\<lambda>s3.
     if o_inScene r then bind_res (Scene_Remove s3 a) (\<lambda>(_, s4). Inr s4) else Inr s3))"

text \<open>The first argument bounds the walks inside, the second the depth of the calls of \<open>Destroy\<close>.\<close>

fun Destroy :: "nat \<Rightarrow> nat \<Rightarrow> scene \<Rightarrow> nat \<Rightarrow> scene result"
and destroy_children :: "nat \<Rightarrow> nat \<Rightarrow> scene \<Rightarrow> nat \<Rightarrow> scene result" where
  "Destroy w 0 s a = Inl OutOfFuel"
| "Destroy w (Suc n) s a =
     bind_res (obj s a) (\<lambda>r.
     if o_isDestroyed r then Inr s
     else
       bind_res (leave w s a r) (\<lambda>s1.
       bind_res (destroy_children w n s1 a) (\<lambda>s2.
       if o_inScene r then Inr s2 else DestroyImpl w s2 a)))"
| "destroy_children w 0 s a = Inl OutOfFuel"
| "destroy_children w (Suc n) s a =
     bind_res (obj s a) (\<lambda>r.
     case o_children r of
       [] \<Rightarrow> Inr s
     | c # _ \<Rightarrow> bind_res (Destroy w n s c) (\<lambda>s1. destroy_children w n s1 a))"

section \<open>Once per frame\<close>

text \<open>A new object takes the first free slot, or a slot at the end.\<close>

definition place :: "scene \<Rightarrow> nat \<Rightarrow> scene" where
  "place s a =
     (case sc_freeObjIndices s of
        [] \<Rightarrow> upd a (o_idInScene_update (\<lambda>_. of_nat (length (sc_sceneObjects s))))
                (s\<lparr>sc_sceneObjects := sc_sceneObjects s @ [Some a]\<rparr>)
      | i # is \<Rightarrow> upd a (o_idInScene_update (\<lambda>_. of_nat i))
                (s\<lparr>sc_sceneObjects := (sc_sceneObjects s)[i := Some a], sc_freeObjIndices := is\<rparr>))"

fun destroy_new :: "nat \<Rightarrow> nat \<Rightarrow> scene \<Rightarrow> scene result" where
  "destroy_new w 0 s = Inl OutOfFuel"
| "destroy_new w (Suc n) s =
     (case sc_newQueue s of [] \<Rightarrow> Inr s | a # _ \<Rightarrow> bind_res (Destroy w n s a) (destroy_new w n))"

definition Prepare :: "nat \<Rightarrow> nat \<Rightarrow> scene \<Rightarrow> scene result" where
  "Prepare w n s =
     (let s1 = (if sc_deleteQueue s \<noteq> [] \<or> sc_newQueue s \<noteq> [] then OnChanged (Scene_SetDirty s True) else s) in
      bind_res (if sc_isPreDestroyed s then destroy_new w n s1 else Inr (fold (\<lambda>a s. place s a) (sc_newQueue s) s1)) (\<lambda>s2.
      let s3 = s2\<lparr>sc_newQueue := []\<rparr> in
      bind_res (each (DestroyImpl w) s3 (sc_deleteQueue s3)) (\<lambda>s4. Inr (s4\<lparr>sc_deleteQueue := []\<rparr>))))"

section \<open>Searching\<close>

fun parentless :: "'x tree_scheme \<Rightarrow> nat option list \<Rightarrow> nat list result" where
  "parentless t [] = Inr []"
| "parentless t (None # os) = parentless t os"
| "parentless t (Some a # os) =
     bind_res (obj t a) (\<lambda>r. bind_res (parentless t os) (\<lambda>as. Inr (if o_parent r = None then a # as else as)))"

definition GetRootSceneObjects :: "scene \<Rightarrow> (nat list \<times> scene) result" where
  "GetRootSceneObjects s =
     (if \<not> t_changed s then Inr (sc_root s, s)
      else bind_res (parentless s (sc_sceneObjects s)) (\<lambda>as. Inr (as, s\<lparr>sc_root := as, t_changed := False\<rparr>)))"

fun Scene_Find :: "'x tree_scheme \<Rightarrow> nat option list \<Rightarrow> bytes \<Rightarrow> nat option result" where
  "Scene_Find t [] name = Inr None"
| "Scene_Find t (None # os) name = Scene_Find t os name"
| "Scene_Find t (Some a # os) name = bind_res (obj t a) (\<lambda>r. if o_name r = name then Inr (Some a) else Scene_Find t os name)"

text \<open>\<open>FindByComponent\<close> asks every slot, the free ones too.\<close>

fun FindByComponent :: "'x tree_scheme \<Rightarrow> (sobj \<Rightarrow> bool) \<Rightarrow> nat option list \<Rightarrow> nat option result" where
  "FindByComponent t has [] = Inr None"
| "FindByComponent t has (None # os) = Inl NullPointer"
| "FindByComponent t has (Some a # os) = bind_res (obj t a) (\<lambda>r. if has r then Inr (Some a) else FindByComponent t has os)"

section \<open>The end of the scene\<close>

definition Scene_Destroy :: "nat \<Rightarrow> nat \<Rightarrow> scene \<Rightarrow> (bool \<times> scene) result" where
  "Scene_Destroy w n s =
     (if sc_isDestroyed s then Inr (False, s)
      else
        bind_res (GetRootSceneObjects (s\<lparr>sc_isPreDestroyed := True\<rparr>)) (\<lambda>(roots, s1).
        bind_res (each (Destroy w n) s1 roots) (\<lambda>s2.
        bind_res (Prepare w n s2) (\<lambda>s3. Inr (True, s3\<lparr>sc_isDestroyed := True, t_changed := True\<rparr>)))))"

section \<open>What the scene keeps true\<close>

text \<open>Whether an object is in the scene, its slot, and whether it is destroyed.\<close>

definition soft :: "'x tree_scheme \<Rightarrow> nat \<Rightarrow> (bool \<times> u64 \<times> bool) option" where
  "soft t a = map_option (\<lambda>r. (o_inScene r, o_idInScene r, o_isDestroyed r)) (t_objs t a)"

definition slots_ok :: "scene \<Rightarrow> bool" where
  "slots_ok s \<longleftrightarrow> length (sc_sceneObjects s) < 2 ^ 64 - 1 \<and> distinct (sc_freeObjIndices s) \<and>
     set (sc_freeObjIndices s) = {i. i < length (sc_sceneObjects s) \<and> sc_sceneObjects s ! i = None} \<and>
     (\<forall>i < length (sc_sceneObjects s). \<forall>a. sc_sceneObjects s ! i = Some a \<longrightarrow> soft s a = Some (True, of_nat i, False))"

definition queues_ok :: "scene \<Rightarrow> bool" where
  "queues_ok s \<longleftrightarrow> distinct (sc_newQueue s) \<and> (\<forall>a \<in> set (sc_newQueue s). soft s a = Some (True, SR_ID_INVALID, False)) \<and>
     distinct (sc_deleteQueue s) \<and> (\<forall>a \<in> set (sc_deleteQueue s). \<exists>i. soft s a = Some (True, i, True)) \<and>
     (\<forall>a i. soft s a = Some (True, i, False) \<longrightarrow> a \<in> set (sc_newQueue s) \<or> Some a \<in> set (sc_sceneObjects s)) \<and>
     (\<forall>a i. soft s a = Some (True, i, True) \<longrightarrow> a \<in> set (sc_deleteQueue s))"

text \<open>A destroyed object is cut off and waits in the scene for its end, but for those that are being destroyed;
  an object outside has no slot.\<close>

definition gone_ok :: "nat set \<Rightarrow> 'x tree_scheme \<Rightarrow> bool" where
  "gone_ok D t \<longleftrightarrow> (\<forall>a r. t_objs t a = Some r \<longrightarrow> o_isDestroyed r \<longrightarrow>
     o_parent r = None \<and> (a \<notin> D \<longrightarrow> o_inScene r \<and> o_children r = []))"

definition outside_ok :: "'x tree_scheme \<Rightarrow> bool" where
  "outside_ok t \<longleftrightarrow> (\<forall>a i d. soft t a = Some (False, i, d) \<longrightarrow> i = SR_ID_INVALID)"

definition cache_ok :: "scene \<Rightarrow> bool" where
  "cache_ok s \<longleftrightarrow> (\<not> t_changed s \<longrightarrow> sc_root s = filter (\<lambda>a. parent_of s a = None) (List.map_filter (\<lambda>x. x) (sc_sceneObjects s)))"

definition inv_but :: "nat set \<Rightarrow> scene \<Rightarrow> bool" where
  "inv_but D s \<longleftrightarrow> scene_ok s \<and> slots_ok s \<and> queues_ok s \<and> gone_ok D s \<and> cache_ok s \<and> outside_ok s"

definition scene_inv :: "scene \<Rightarrow> bool" where
  "scene_inv s \<longleftrightarrow> inv_but {} s"

lemma marks_soft: "marks (t' :: 'x tree_scheme) = marks (t :: 'x tree_scheme) \<Longrightarrow> soft t' = soft t"
proof
  fix a assume m: "marks t' = marks t"
  have "soft u a = map_option (\<lambda>(i, s, k, d, p, n). (s, k, d)) (marks u a)" for u :: "'x tree_scheme"
    by (cases "t_objs u a") (auto simp: soft_def marks_def)
  then show "soft t' a = soft t a" using m by simp
qed

lemma soft_alive: "soft t a = None \<longleftrightarrow> t_objs t a = None"
  by (simp add: soft_def)

lemma more_fields:
  assumes "tree.more s' = tree.more (s :: scene)"
  shows "sc_sceneObjects s' = sc_sceneObjects s" "sc_freeObjIndices s' = sc_freeObjIndices s" "sc_newQueue s' = sc_newQueue s"
    "sc_deleteQueue s' = sc_deleteQueue s" "sc_root s' = sc_root s" "sc_isPreDestroyed s' = sc_isPreDestroyed s"
    "sc_isDestroyed s' = sc_isDestroyed s"
proof -
  have "sc_sceneObjects s' = sc_sceneObjects s \<and> sc_freeObjIndices s' = sc_freeObjIndices s \<and> sc_newQueue s' = sc_newQueue s \<and>
    sc_deleteQueue s' = sc_deleteQueue s \<and> sc_root s' = sc_root s \<and> sc_isPreDestroyed s' = sc_isPreDestroyed s \<and>
    sc_isDestroyed s' = sc_isDestroyed s"
    using assms by (cases s, cases s', simp)
  then show "sc_sceneObjects s' = sc_sceneObjects s" "sc_freeObjIndices s' = sc_freeObjIndices s" "sc_newQueue s' = sc_newQueue s"
    "sc_deleteQueue s' = sc_deleteQueue s" "sc_root s' = sc_root s" "sc_isPreDestroyed s' = sc_isPreDestroyed s"
    "sc_isDestroyed s' = sc_isDestroyed s" by simp_all
qed

lemma calm_soft: "calm t t' \<Longrightarrow> soft t' = soft t"
  unfolding calm_def by (blast intro: marks_soft)

lemma soft_in_scene: "in_scene t a \<longleftrightarrow> (\<exists>i d. soft t a = Some (True, i, d))"
proof (cases "t_objs t a")
  case (Some r)
  then have "soft t a = Some (o_inScene r, o_idInScene r, o_isDestroyed r)" "in_scene t a \<longleftrightarrow> o_inScene r"
    by (simp_all add: soft_def in_scene_def)
  then show ?thesis by simp
qed (simp add: in_scene_def soft_def)

lemma somes_set: "set (List.map_filter (\<lambda>x. x) os) = {a. Some a \<in> set os}"
  by (force simp: List.map_filter_def)

text \<open>The cached list of roots is right as long as nobody in a slot changed its parent.\<close>

lemma cache_same:
  assumes c: "cache_ok s" and sl: "slots_ok s" and same: "sc_sceneObjects s' = sc_sceneObjects s" "sc_root s' = sc_root s"
    and ch: "t_changed s \<Longrightarrow> t_changed s'"
    and p: "\<not> t_changed s' \<Longrightarrow> (\<And>a. in_scene s a \<Longrightarrow> parent_of s' a = parent_of s a)"
  shows "cache_ok s'"
  unfolding cache_ok_def
proof
  assume n: "\<not> t_changed s'"
  have "parent_of s' a = parent_of s a" if "a \<in> set (List.map_filter (\<lambda>x. x) (sc_sceneObjects s))" for a
  proof (rule p [OF n])
    show "in_scene s a" using that sl unfolding somes_set slots_ok_def soft_in_scene by (metis in_set_conv_nth mem_Collect_eq)
  qed
  then show "sc_root s' = filter (\<lambda>a. parent_of s' a = None) (List.map_filter (\<lambda>x. x) (sc_sceneObjects s'))"
    using c n ch same unfolding cache_ok_def by (auto cong: filter_cong)
qed

lemma slots_same: "sc_sceneObjects s' = sc_sceneObjects s \<Longrightarrow> sc_freeObjIndices s' = sc_freeObjIndices s \<Longrightarrow> soft s' = soft s \<Longrightarrow>
    slots_ok s' = slots_ok s"
  by (simp add: slots_ok_def)

lemma queues_same: "sc_sceneObjects s' = sc_sceneObjects s \<Longrightarrow> sc_newQueue s' = sc_newQueue s \<Longrightarrow>
    sc_deleteQueue s' = sc_deleteQueue s \<Longrightarrow> soft s' = soft s \<Longrightarrow> queues_ok s' = queues_ok s"
  by (simp add: queues_ok_def)

text \<open>A calm change keeps what the scene knows.\<close>

lemma calm_tables:
  fixes s s' :: scene
  assumes "calm s s'"
  shows "slots_ok s' = slots_ok s" "queues_ok s' = queues_ok s" "slots_ok s \<Longrightarrow> cache_ok s \<Longrightarrow> cache_ok s'"
proof -
  have m: "tree.more s' = tree.more s" using assms by (simp add: calm_def)
  note f = more_fields [OF m] and sf = calm_soft [OF assms]
  show "slots_ok s' = slots_ok s" by (rule slots_same [OF f(1,2) sf])
  show "queues_ok s' = queues_ok s" by (rule queues_same [OF f(1,3,4) sf])
  show "slots_ok s \<Longrightarrow> cache_ok s \<Longrightarrow> cache_ok s'"
    by (rule cache_same [OF _ _ f(1,5)]) (use assms in \<open>auto simp: calm_def\<close>)
qed

lemma gone_shape:
  fixes t t' :: "'x tree_scheme"
  assumes "soft t' = soft t" "shape t' = shape t" "gone_ok D t"
  shows "gone_ok D t'"
proof -
  have g: "gone_ok D u \<longleftrightarrow> (\<forall>a k i c p cs. soft u a = Some (c, i, True) \<longrightarrow> shape u a = Some (k, p, cs) \<longrightarrow>
      p = None \<and> (a \<notin> D \<longrightarrow> c \<and> cs = []))" for u :: "'x tree_scheme"
    unfolding gone_ok_def soft_def shape_def by fastforce
  show ?thesis using assms(3) unfolding g assms(1,2) .
qed

section \<open>Steps of the destruction\<close>

text \<open>A change that concerns neither the hierarchy nor the scene.\<close>

definition quiet :: "'x tree_scheme \<Rightarrow> 'x tree_scheme \<Rightarrow> bool" where
  "quiet t t' \<longleftrightarrow> links t' = links t \<and> soft t' = soft t \<and> tree.more t' = tree.more t \<and> t_changed t' = t_changed t"

lemma quiet_refl [simp, intro]: "quiet t t"
  by (simp add: quiet_def)

lemma quiet_trans [trans]: "quiet s t \<Longrightarrow> quiet t u \<Longrightarrow> quiet s u"
  by (simp add: quiet_def)

lemma soft_upd: "(\<And>r. o_inScene (f r) = o_inScene r \<and> o_idInScene (f r) = o_idInScene r \<and> o_isDestroyed (f r) = o_isDestroyed r) \<Longrightarrow>
    soft (upd a f t) = soft t"
  by (rule ext, rename_tac x, case_tac "t_objs t x") (auto simp: soft_def)

lemma quiet_upd:
  assumes "\<And>r. o_id (f r) = o_id r \<and> o_parent (f r) = o_parent r \<and> o_children (f r) = o_children r \<and> o_root (f r) = o_root r"
    "\<And>r. o_inScene (f r) = o_inScene r \<and> o_idInScene (f r) = o_idInScene r \<and> o_isDestroyed (f r) = o_isDestroyed r"
  shows "quiet t (upd a f t)"
  using links_upd [of f a t] soft_upd [of f a t] assms unfolding quiet_def by (simp add: upd_def)

lemma quiet_uses: "quiet t (t\<lparr>t_uses := u\<rparr>)"
proof -
  have "soft (t\<lparr>t_uses := u\<rparr>) = soft t" by (rule ext) (simp add: soft_def)
  then show ?thesis by (simp add: quiet_def)
qed

lemma UnlinkPrefab_ends:
  fixes t :: "'x tree_scheme"
  assumes "walk_ok h t a" "n > h a"
  shows "\<exists>t'. UnlinkPrefab n t a = Inr t' \<and> quiet t t'"
  using assms
proof (induction n arbitrary: a t)
  case (Suc n)
  obtain r where r: "t_objs t a = Some r" using Suc.prems(1) by (auto simp: walk_ok_def)
  let ?t1 = "case o_prefab r of None \<Rightarrow> t | Some pf \<Rightarrow> t\<lparr>t_uses := (t_uses t)(pf := t_uses t pf - 1)\<rparr>"
  let ?t = "upd a (\<lambda>r. r\<lparr>o_prefab := None, o_isOwner := False\<rparr>) ?t1"
  have "quiet t ?t1" using quiet_uses by (auto split: option.split)
  moreover have "quiet ?t1 ?t" by (rule quiet_upd) simp_all
  ultimately have q: "quiet t ?t" using quiet_trans by blast
  have "\<exists>s. each (\<lambda>t c. bind_res (obj t c) (\<lambda>k. if o_isOwner k \<or> o_prefab k = None then Inr t else UnlinkPrefab n t c)) ?t (o_children r) = Inr s \<and> quiet t s"
  proof (rule each_keeps [where P = "quiet t"])
    fix s :: "'x tree_scheme" and c assume s: "quiet t s" and c: "c \<in> set (o_children r)"
    have l: "links s = links t" using s by (simp add: quiet_def)
    have ca: "(c, a) \<in> chi t" using c r by (auto simp: chi_def)
    obtain k where k: "t_objs t c = Some k" using walk_kid [OF Suc.prems(1) ca] by blast
    obtain k' where k': "t_objs s c = Some k'" using links_get [OF l k] by metis
    have "walk_ok h s c" "n > h c"
      using walk_child [OF Suc.prems(1) ca] Suc.prems(2) walk_shape [OF links_shape [OF l], of h c] by simp_all
    then obtain s' where s': "UnlinkPrefab n s c = Inr s'" "quiet s s'" using Suc.IH by blast
    then show "\<exists>s'. bind_res (obj s c) (\<lambda>k. if o_isOwner k \<or> o_prefab k = None then Inr s else UnlinkPrefab n s c) = Inr s' \<and> quiet t s'"
      using k' s quiet_trans [OF s s'(2)] by (simp add: obj_Some)
  qed (rule q)
  then show ?case using r by (simp add: obj_Some)
qed simp

lemma quiet_inv:
  fixes s s' :: scene
  assumes q: "quiet s s'" and i: "inv_but D s"
  shows "inv_but D s'"
proof -
  have l: "links s' = links s" and sf: "soft s' = soft s" and m: "tree.more s' = tree.more s" and c: "t_changed s' = t_changed s"
    using q by (simp_all add: quiet_def)
  note f = more_fields [OF m]
  have p: "parent_of s' a = parent_of s a" for a
  proof -
    have "parent_of u a = Option.bind (links u a) (\<lambda>(i, p, cs, R). p)" for u :: scene
      by (cases "t_objs u a") (auto simp: parent_of_def links_def)
    then show ?thesis by (simp add: l)
  qed
  have i': "scene_ok s" "slots_ok s" "queues_ok s" "gone_ok D s" "cache_ok s" "outside_ok s'"
    using i sf by (simp_all add: inv_but_def outside_ok_def)
  have "cache_ok s'" by (rule cache_same [OF i'(5,2) f(1,5)]) (use c p in auto)
  then show ?thesis
    using i' scene_ok_links [OF l] gone_shape [OF sf links_shape [OF l], of D] slots_same [OF f(1,2) sf] queues_same [OF f(1,3,4) sf]
    unfolding inv_but_def by blast
qed

lemma inv_parts: "inv_but D s \<Longrightarrow> scene_ok s" "inv_but D s \<Longrightarrow> forest s" "inv_but D s \<Longrightarrow> slots_ok s"
    "inv_but D s \<Longrightarrow> queues_ok s" "inv_but D s \<Longrightarrow> gone_ok D s" "inv_but D s \<Longrightarrow> cache_ok s"
    "inv_but D s \<Longrightarrow> outside_ok s"
  by (auto simp: inv_but_def scene_ok_def)


lemma SetDirty_simps [simp]: "t_objs (Scene_SetDirty s d) = t_objs s" "t_changed (OnChanged t)" "t_changed (Scene_SetDirty s d) = t_changed s"
    "sc_sceneObjects (Scene_SetDirty s d) = sc_sceneObjects s" "sc_newQueue (Scene_SetDirty s d) = sc_newQueue s"
    "sc_freeObjIndices (Scene_SetDirty s d) = sc_freeObjIndices s" "sc_deleteQueue (Scene_SetDirty s d) = sc_deleteQueue s"
    "sc_isPreDestroyed (Scene_SetDirty s d) = sc_isPreDestroyed s" "sc_isDestroyed (Scene_SetDirty s d) = sc_isDestroyed s"
    "sc_sceneObjects (OnChanged s) = sc_sceneObjects s" "sc_newQueue (OnChanged s) = sc_newQueue s"
    "sc_freeObjIndices (OnChanged s) = sc_freeObjIndices s" "sc_deleteQueue (OnChanged s) = sc_deleteQueue s"
    "sc_isPreDestroyed (OnChanged s) = sc_isPreDestroyed s" "sc_isDestroyed (OnChanged s) = sc_isDestroyed s"
    "sc_root (OnChanged s) = sc_root s" "sc_root (Scene_SetDirty s d) = sc_root s"
  by (simp_all add: OnChanged_def Scene_SetDirty_def)

lemma objs_views:
  fixes s s' :: scene
  assumes "t_objs s' = t_objs s"
  shows "soft s' = soft s" "shape s' = shape s" "links s' = links s"
  using assms by (auto simp: fun_eq_iff soft_def shape_def links_def)

lemma unat_INVALID: "unat SR_ID_INVALID = 2 ^ 64 - 1"
  unfolding SR_ID_INVALID_def unsigned_minus_1_eq_mask by (simp add: mask_eq_exp_minus_1)

lemma unat_slot: "k < 2 ^ 64 - 1 \<Longrightarrow> unat (of_nat k :: u64) = k"
  by (simp add: unat_of_nat take_bit_nat_eq_self)

lemma slot_valid: "k < 2 ^ 64 - 1 \<Longrightarrow> of_nat k \<noteq> SR_ID_INVALID"
  using unat_slot [of k] unat_INVALID by auto

text \<open>The scene gives back the slot, or the place in the queue, of an object that was just marked destroyed.\<close>

lemma Scene_Remove_ok:
  assumes sl: "slots_ok s" and q: "queues_ok s" and sa: "soft s a = Some (True, i, False)"
    and sf: "soft s3 = (soft s)(a \<mapsto> (True, i, True))" and m: "tree.more s3 = tree.more s"
  shows "\<exists>s4. Scene_Remove s3 a = Inr (True, s4) \<and> slots_ok s4 \<and> queues_ok s4 \<and> t_objs s4 = t_objs s3 \<and> t_changed s4 \<and>
    length (sc_sceneObjects s4) = length (sc_sceneObjects s) \<and> sc_isPreDestroyed s4 = sc_isPreDestroyed s \<and>
    set (sc_newQueue s4) = set (sc_newQueue s) - {a}"
proof -
  note f = more_fields [OF m]
  obtain r where r: "t_objs s3 a = Some r" "o_idInScene r = i" using fun_cong [OF sf, of a] by (auto simp: soft_def)
  have del: "a \<notin> set (sc_deleteQueue s)" using q sa unfolding queues_ok_def by fastforce
  show ?thesis
  proof (cases "a \<in> set (sc_newQueue s)")
    case True
    then have i: "i = SR_ID_INVALID" using q sa unfolding queues_ok_def by fastforce
    then have big: "unat i \<ge> length (sc_sceneObjects s)" using sl by (simp add: slots_ok_def unat_INVALID)
    let ?s = "OnChanged (Scene_SetDirty (s3\<lparr>sc_deleteQueue := sc_deleteQueue s @ [a], sc_newQueue := remove1 a (sc_newQueue s)\<rparr>) True)"
    have sf': "soft ?s = (soft s)(a \<mapsto> (True, i, True))" using sf objs_views(1) [of ?s s3] by simp
    have "Scene_Remove s3 a = Inr (True, ?s)" using r big True f by (simp add: Scene_Remove_def obj_Some)
    moreover have "a \<noteq> b" if jb: "j < length (sc_sceneObjects s)" "sc_sceneObjects s ! j = Some b" for b j
    proof -
      have "soft s b = Some (True, of_nat j, False)" "j < 2 ^ 64 - 1" using jb sl unfolding slots_ok_def by (blast, linarith)
      then show ?thesis using sa i slot_valid [of j] by auto
    qed
    then have "slots_ok ?s" using sl f unfolding slots_ok_def sf' by auto
    moreover have "queues_ok ?s" using q f del True unfolding queues_ok_def sf' by (auto split: if_splits)
    ultimately show ?thesis using f True q by (auto simp: queues_ok_def)
  next
    case False
    then have "Some a \<in> set (sc_sceneObjects s)" using q sa unfolding queues_ok_def by blast
    then obtain j where j: "j < length (sc_sceneObjects s)" "sc_sceneObjects s ! j = Some a" by (auto simp: in_set_conv_nth)
    then have i: "i = of_nat j" using sl sa by (fastforce simp: slots_ok_def)
    have len: "length (sc_sceneObjects s) < 2 ^ 64 - 1" using sl by (simp add: slots_ok_def)
    then have uj: "unat i = j" using j(1) unat_slot [of j] unfolding i by simp
    let ?s = "OnChanged (Scene_SetDirty (s3\<lparr>sc_deleteQueue := sc_deleteQueue s @ [a], sc_sceneObjects := (sc_sceneObjects s)[j := None],
        sc_freeObjIndices := sc_freeObjIndices s @ [j]\<rparr>) True)"
    have sf': "soft ?s = (soft s)(a \<mapsto> (True, i, True))" using sf objs_views(1) [of ?s s3] by simp
    have "Scene_Remove s3 a = Inr (True, ?s)" using r j uj f by (simp add: Scene_Remove_def obj_Some Let_def)
    moreover have only: "k = j" if "k < length (sc_sceneObjects s)" "sc_sceneObjects s ! k = Some a" for k
    proof -
      have "soft s a = Some (True, of_nat k, False)" using that sl unfolding slots_ok_def by blast
      then have "of_nat k = (of_nat j :: u64)" using sa i by simp
      then show ?thesis using that(1) j(1) len unat_slot [of j] unat_slot [of k] by simp
    qed
    have "slots_ok ?s"
    proof -
      have "j \<notin> set (sc_freeObjIndices s)" using j sl by (auto simp: slots_ok_def)
      moreover have "{k. k < length (sc_sceneObjects s) \<and> (sc_sceneObjects s)[j := None] ! k = None} =
          insert j {k. k < length (sc_sceneObjects s) \<and> sc_sceneObjects s ! k = None}"
        using j by (auto simp: nth_list_update)
      moreover have "b \<noteq> a \<and> soft s b = Some (True, of_nat k, False)"
        if "k < length (sc_sceneObjects s)" "(sc_sceneObjects s)[j := None] ! k = Some b" for k b
        using only [of k] that sl by (cases "k = j") (auto simp: slots_ok_def)
      ultimately show ?thesis using sl f unfolding slots_ok_def sf' by simp
    qed
    moreover have "queues_ok ?s"
    proof -
      have "Some b \<in> set ((sc_sceneObjects s)[j := None])" if "Some b \<in> set (sc_sceneObjects s)" "b \<noteq> a" for b
        using that j by (metis in_set_conv_nth length_list_update nth_list_update_neq option.inject)
      then show ?thesis using q f del False unfolding queues_ok_def sf' by (auto split: if_splits)
    qed
    ultimately show ?thesis using f False by auto
  qed
qed


lemma slot_soft: "slots_ok s \<Longrightarrow> Some a \<in> set (sc_sceneObjects s) \<Longrightarrow> \<exists>i. soft s a = Some (True, i, False)"
  unfolding slots_ok_def in_set_conv_nth by blast

lemma new_soft: "queues_ok s \<Longrightarrow> a \<in> set (sc_newQueue s) \<Longrightarrow> soft s a = Some (True, SR_ID_INVALID, False)"
  by (simp add: queues_ok_def)

lemma del_soft: "queues_ok s \<Longrightarrow> a \<in> set (sc_deleteQueue s) \<Longrightarrow> \<exists>i. soft s a = Some (True, i, True)"
  by (simp add: queues_ok_def)

definition few :: "'x tree_scheme \<Rightarrow> bool" where
  "few t \<longleftrightarrow> (\<forall>a r. t_objs t a = Some r \<longrightarrow> length (o_children r) \<le> 65536)"

lemma few_kids: "few t \<longleftrightarrow> (\<forall>a cs. kids t a = Some cs \<longrightarrow> length cs \<le> 65536)"
  by (auto simp: few_def kids_def)

lemma kids_obj: "t_objs t a = Some r \<Longrightarrow> kids t a = Some (o_children r)"
  by (simp add: kids_def)

text \<open>What a part of the destruction does to the rest: the objects of a set lose their parents, vanish from the
  children of others and are gone or wait for their end; nothing else changes.\<close>

definition cleared :: "nat set \<Rightarrow> scene \<Rightarrow> scene \<Rightarrow> bool" where
  "cleared A s s' \<longleftrightarrow>
     (\<forall>x. x \<notin> A \<longrightarrow> soft s' x = soft s x \<and> kids s' x = map_option (filter (\<lambda>y. y \<notin> A)) (kids s x)) \<and>
     par s' = {(x, p). (x, p) \<in> par s \<and> x \<notin> A} \<and>
     (\<forall>x \<in> A. soft s' x = None \<or> (\<exists>c i. soft s' x = Some (c, i, True) \<and> (\<exists>d. soft s x = Some (c, i, d)))) \<and>
     length (sc_sceneObjects s') = length (sc_sceneObjects s) \<and> sc_isPreDestroyed s' = sc_isPreDestroyed s \<and>
     set (sc_newQueue s') = set (sc_newQueue s) - A \<and> few s' \<and> (t_changed s \<longrightarrow> t_changed s')"

lemma kids_children:
  assumes "forest t" "(x, p) \<in> par t"
  shows "\<exists>cs. kids t p = Some cs \<and> x \<in> set cs"
  using forestD(1) [OF assms(1)] assms(2) by (fastforce simp: par_def kids_def)

lemma leave_ok:
  assumes inv: "inv_but D s" and r: "t_objs s a = Some r" "\<not> o_isDestroyed r" and few: "few s" and w: "w > size_of s"
  shows "\<exists>s4. leave w s a r = Inr s4 \<and> inv_but (insert a D) s4 \<and> cleared {a} s s4 \<and>
    soft s4 a = Some (o_inScene r, o_idInScene r, True) \<and> kids s4 a = kids s a \<and> size_of s4 = size_of s"
proof -
  note i = inv_parts [OF inv]
  let ?s1 = "upd a (o_isDestroyed_update (\<lambda>_. True)) s"
  let ?soft = "(soft s)(a \<mapsto> (o_inScene r, o_idInScene r, True))"
  have sa: "soft s a = Some (o_inScene r, o_idInScene r, False)" using r by (simp add: soft_def)
  have l1: "links ?s1 = links s" by (rule links_upd) simp
  have sf1: "soft ?s1 = ?soft" using r by (auto simp: fun_eq_iff soft_def)
  have m1: "tree.more ?s1 = tree.more s" "t_changed ?s1 = t_changed s" by (simp_all add: upd_def)
  have walk: "walk_ok (height s) ?s1 a" using walk_forest [OF i(2), of a] r(1) walk_shape [OF links_shape [OF l1]] by simp
  have "height s a < w" using height_bound [OF i(2), of a] r(1) w by simp
  then obtain u where u: "UnlinkPrefab w ?s1 a = Inr u" "quiet ?s1 u" using UnlinkPrefab_ends [OF walk] by blast
  define s2 where "s2 = (if o_prefab r \<noteq> None then u else ?s1)"
  have q2: "quiet ?s1 s2" using u(2) by (simp add: s2_def)
  have e2: "(let s1 = ?s1 in if o_prefab r \<noteq> None then UnlinkPrefab w s1 a else Inr s1) = Inr s2" using u(1) by (simp add: s2_def)
  have l2: "links s2 = links s" and sf2: "soft s2 = ?soft" and m2: "tree.more s2 = tree.more s" "t_changed s2 = t_changed s"
    using q2 l1 sf1 m1 by (simp_all add: quiet_def)
  note sh2 = links_shape [OF l2]
  have sc2: "scene_ok s2" by (rule scene_ok_links [OF l2 i(1)])
  have w2: "w > size_of s2" using w shape_depth [OF sh2] by simp
  obtain r2 where r2: "t_objs s2 a = Some r2" "o_parent r2 = o_parent r" "o_children r2 = o_children r" using links_get [OF l2 r(1)] by metis
  have "\<exists>s3. (case o_parent r of None \<Rightarrow> Inr s2 | Some p \<Rightarrow> RemoveChild w s2 p a) = Inr s3 \<and> calm s2 s3 \<and> scene_ok s3 \<and>
      shape s3 = (case o_parent r of None \<Rightarrow> shape s2 | Some p \<Rightarrow> cut_shape s2 p a)"
  proof (cases "o_parent r")
    case None
    then show ?thesis using sc2 by auto
  next
    case (Some p)
    have f2: "forest s2" using sc2 by (simp add: scene_ok_def)
    obtain q where q: "t_objs s2 p = Some q" "a \<in> set (o_children q)" using forestD(1) [OF f2 r2(1)] r2(2) Some by auto
    have "kids s p = kids s2 p" using shape_kids [of s p] shape_kids [of s2 p] sh2 by simp
    then have "length (o_children q) \<le> 65536" using few q(1) unfolding few_kids by (simp add: kids_def)
    then show ?thesis using RemoveChild_cases [OF sc2 q _ w2] Some by auto
  qed
  then obtain s3 where s3: "(case o_parent r of None \<Rightarrow> Inr s2 | Some p \<Rightarrow> RemoveChild w s2 p a) = Inr s3" "calm s2 s3" "scene_ok s3"
    "shape s3 = (case o_parent r of None \<Rightarrow> shape s | Some p \<Rightarrow> cut_shape s p a)" using sh2 by (auto simp: cut_shape_def fun_eq_iff split: option.splits)
  have sf3: "soft s3 = ?soft" using calm_soft [OF s3(2)] sf2 by simp
  have m3: "tree.more s3 = tree.more s" using s3(2) m2 by (simp add: calm_def)
  have not_kid: "a \<notin> set cs" if "kids s x = Some cs" "o_parent r \<noteq> Some x" for x cs
    using that forestD(2) [OF i(2)] r(1) by (fastforce simp: kids_def)
  have kids3: "kids s3 x = map_option (filter (\<lambda>y. y \<notin> {a})) (kids s x)" for x
  proof (cases "o_parent r = Some x")
    case True
    obtain q where q: "t_objs s x = Some q" using forestD(1) [OF i(2) r(1) True] by blast
    then have "distinct (o_children q)" by (rule forestD(3) [OF i(2)])
    moreover have "x \<noteq> a" using i(2) r(1) True by (auto simp: forest_def acyclic_def par_def)
    ultimately show ?thesis using True q s3(4)
      by (simp add: shape_kids [of s3] cut_shape_def shape_obj kids_obj distinct_remove1_removeAll removeAll_filter_not_eq) (rule filter_cong, auto)
  next
    case False
    then have same: "kids s3 x = kids s x"
      by (cases "shape s x"; cases "o_parent r") (auto simp: shape_kids s3(4) cut_shape_def split: if_splits)
    show ?thesis
    proof (cases "kids s x")
      case (Some cs)
      then have "filter (\<lambda>y. y \<noteq> a) cs = cs" using not_kid [OF Some False] by (auto simp: filter_id_conv)
      then show ?thesis using same Some by simp
    qed (simp add: same)
  qed
  have kids_a: "kids s3 a = kids s a"
  proof -
    have "a \<notin> set (o_children r)" using not_kid [OF kids_obj [OF r(1)]] i(2) r(1) by (auto simp: forest_def acyclic_def par_def)
    then show ?thesis using kids3 [of a] kids_obj [OF r(1)] by (auto simp: filter_id_conv)
  qed
  have par3: "par s3 = {(x, p). (x, p) \<in> par s \<and> x \<notin> {a}}"
  proof -
    have "(x, p) \<in> par s3 \<longleftrightarrow> (x, p) \<in> par s \<and> x \<noteq> a" for x p
    proof (cases "o_parent r")
      case None
      then have "(a, p) \<notin> par s" using r(1) by (simp add: par_def)
      then show ?thesis using s3(4) None same_shape_par [of s3 s] by auto
    next
      case (Some q)
      then show ?thesis using r(1) s3(4) by (cases "x = q") (auto simp: par_shape cut_shape_def shape_obj split: option.splits)
    qed
    then show ?thesis by auto
  qed
  have few3: "few s3" unfolding few_kids kids3
  proof (intro allI impI)
    fix x cs assume "map_option (filter (\<lambda>y. y \<notin> {a})) (kids s x) = Some cs"
    then obtain ds where "kids s x = Some ds" "cs = filter (\<lambda>y. y \<notin> {a}) ds" by auto
    then show "length cs \<le> 65536" using few length_filter_le [of "\<lambda>y. y \<notin> {a}" ds] unfolding few_kids by (meson le_trans)
  qed
  have size3: "size_of s3 = size_of s"
  proof -
    have "t_objs s3 x = None \<longleftrightarrow> t_objs s x = None" for x
      using soft_alive [of s3 x] soft_alive [of s x] sf3 r(1) by (auto split: if_splits)
    then have "dom (t_objs s3) = dom (t_objs s)" unfolding dom_def by simp
    then show ?thesis by (simp add: size_of_def)
  qed
  have gone3: "gone_ok (insert a D) s3"
    unfolding gone_ok_def
  proof (intro allI impI)
    fix x q assume x: "t_objs s3 x = Some q" "o_isDestroyed q"
    have "(x, p) \<notin> par s" if "x \<noteq> a" for p
    proof -
      have "soft s x = soft s3 x" using sf3 that by simp
      then obtain q' where "t_objs s x = Some q'" "o_isDestroyed q'" using x by (auto simp: soft_def)
      then show ?thesis using i(5) by (auto simp: gone_ok_def par_def)
    qed
    then have np: "o_parent q = None"
    proof -
      assume *: "\<And>p. x \<noteq> a \<Longrightarrow> (x, p) \<notin> par s"
      show ?thesis
      proof (rule ccontr)
        assume "o_parent q \<noteq> None"
        then obtain p where "(x, p) \<in> par s3" using x(1) by (auto simp: par_def)
        then show False using * unfolding par3 by auto
      qed
    qed
    moreover have "o_inScene q \<and> o_children q = []" if out: "x \<notin> insert a D"
    proof -
      have "soft s x = soft s3 x" using sf3 out by simp
      then obtain q' where q': "t_objs s x = Some q'" "o_isDestroyed q'" "o_inScene q' = o_inScene q" using x by (auto simp: soft_def)
      then have "o_inScene q'" "o_children q' = []" using i(5) out by (auto simp: gone_ok_def)
      then show ?thesis using q' kids3 [of x] kids_obj [OF q'(1)] kids_obj [OF x(1)] by simp
    qed
    ultimately show "o_parent q = None \<and> (x \<notin> insert a D \<longrightarrow> o_inScene q \<and> o_children q = [])" by blast
  qed
  have outside3: "outside_ok s3" using i(7) sa unfolding outside_ok_def sf3 fun_upd_apply by (metis option.inject prod.inject)
  note f3 = more_fields [OF m3]
  show ?thesis
  proof (cases "o_inScene r")
    case True
    then have "soft s a = Some (True, o_idInScene r, False)" "soft s3 = (soft s)(a \<mapsto> (True, o_idInScene r, True))" using sa sf3 by simp_all
    then obtain s4 where s4: "Scene_Remove s3 a = Inr (True, s4)" "slots_ok s4" "queues_ok s4" "t_objs s4 = t_objs s3" "t_changed s4"
      "length (sc_sceneObjects s4) = length (sc_sceneObjects s)" "sc_isPreDestroyed s4 = sc_isPreDestroyed s"
      "set (sc_newQueue s4) = set (sc_newQueue s) - {a}" using Scene_Remove_ok [OF i(3,4)] m3 by metis
    note v = objs_views [OF s4(4)]
    have k: "kids s4 = kids s3" using v(2) by (simp add: fun_eq_iff shape_kids)
    have p: "par s4 = par s3" by (rule same_shape_par [OF v(2)])
    have "inv_but (insert a D) s4"
      using s4(2,3,5) scene_ok_links [OF v(3) s3(3)] gone_shape [OF v(1,2) gone3] outside3 v(1) by (simp add: inv_but_def cache_ok_def outside_ok_def)
    moreover have "cleared {a} s s4" using s4(5-8) few3 sa sf3 kids3 par3 k p v(1) by (auto simp: cleared_def few_kids)
    moreover have "leave w s a r = Inr s4" using e2 s3(1) s4(1) True by (simp add: leave_def)
    moreover have "size_of s4 = size_of s" using size3 s4(4) by (simp add: size_of_def)
    ultimately show ?thesis using kids_a k sf3 v(1) by auto
  next
    case False
    have out: "Some a \<notin> set (sc_sceneObjects s)" "a \<notin> set (sc_newQueue s)" "a \<notin> set (sc_deleteQueue s)"
      using slot_soft [OF i(3), of a] new_soft [OF i(4), of a] del_soft [OF i(4), of a] sa False by auto
    have ne: "soft s3 b = soft s b" if "b \<noteq> a" for b using sf3 that by simp
    have sc: "soft s3 b = Some (True, j, d) \<longleftrightarrow> soft s b = Some (True, j, d)" for b j d using ne [of b] sf3 sa False by (cases "b = a") auto
    have "slots_ok s3" using i(3) unfolding slots_ok_def f3 sc .
    moreover have "queues_ok s3" using i(4) unfolding queues_ok_def f3 sc .
    moreover have "cache_ok s3"
    proof (rule cache_same [OF i(6,3) f3(1,5)])
      show "t_changed s3" if "t_changed s" using that m2 s3(2) by (auto simp: calm_def)
      fix x assume "\<not> t_changed s3" "in_scene s x"
      moreover have "in_scene s2 x = in_scene s x" using sf2 sa False by (auto simp: soft_in_scene)
      moreover have "parent_of s2 x = parent_of s x"
      proof -
        have "parent_of u x = Option.bind (links u x) (\<lambda>(i, p, cs, R). p)" for u :: scene
          by (cases "t_objs u x") (auto simp: parent_of_def links_def)
        then show ?thesis by (simp add: l2)
      qed
      ultimately show "parent_of s3 x = parent_of s x" using s3(2) by (auto simp: calm_def)
    qed
    ultimately have "inv_but (insert a D) s3" using s3(3) gone3 outside3 by (simp add: inv_but_def)
    moreover have "t_changed s \<longrightarrow> t_changed s3" using m2 s3(2) by (auto simp: calm_def)
    ultimately have "cleared {a} s s3" "inv_but (insert a D) s3" using few3 sa sf3 kids3 par3 f3 out by (auto simp: cleared_def)
    moreover have "leave w s a r = Inr s3" using e2 s3(1) False by (simp add: leave_def)
    ultimately show ?thesis using kids_a sf3 size3 by auto
  qed
qed


section \<open>Freeing an object\<close>

text \<open>An object that is cut off on both sides may go.\<close>

lemma free_tree:
  assumes s: "scene_ok t" and r: "t_objs t a = Some r" "o_parent r = None" "o_children r = []"
  shows "scene_ok (free_object t a)" "par (free_object t a) = par t"
    "x \<noteq> a \<Longrightarrow> kids (free_object t a) x = map_option (filter (\<lambda>y. y \<notin> {a})) (kids t x)"
proof -
  let ?t = "free_object t a"
  have f: "forest t" and ro: "roots_ok t" using s by (simp_all add: scene_ok_def)
  have o: "t_objs ?t x = (if x = a then None else t_objs t x)" for x by (simp add: free_object_def)
  have nk: "a \<notin> set (o_children q)" if "t_objs t p = Some q" for p q using forestD(2) [OF f that, of a] r by auto
  have np: "o_parent q \<noteq> Some a" if "t_objs t p = Some q" for p q using forestD(1) [OF f that, of a] r by auto
  show p: "par ?t = par t" using r by (auto simp: par_def o split: if_splits)
  have "linked ?t" using f nk np unfolding forest_def linked_def o by (auto split: if_splits; metis)
  moreover have "unique_ids ?t" using f unfolding forest_def unique_ids_def o by auto
  moreover have "finite (dom (t_objs ?t))" using f by (auto simp: forest_def dom_def o intro: rev_finite_subset [of "{x. t_objs t x \<noteq> None}"])
  ultimately have "forest ?t" using f p by (simp add: forest_def)
  moreover have "roots_ok ?t"
    unfolding roots_ok_def
  proof (intro allI impI)
    fix x q assume "t_objs ?t x = Some q"
    then have q: "t_objs t x = Some q" by (simp add: o split: if_splits)
    have old: "case o_parent q of None \<Rightarrow> o_root q = None \<or> o_root q = Some x | Some p \<Rightarrow> o_root q = root_at t p"
      using ro q unfolding roots_ok_def by blast
    show "case o_parent q of None \<Rightarrow> o_root q = None \<or> o_root q = Some x | Some p \<Rightarrow> o_root q = root_at ?t p"
    proof (cases "o_parent q")
      case (Some p)
      then have "p \<noteq> a" using np [OF q] by auto
      then have "root_at ?t p = root_at t p" by (simp add: root_at_def o)
      then show ?thesis using old Some by simp
    qed (use old in simp)
  qed
  ultimately show "scene_ok ?t" by (simp add: scene_ok_def)
  show "kids ?t x = map_option (filter (\<lambda>y. y \<notin> {a})) (kids t x)" if x: "x \<noteq> a"
  proof (cases "t_objs t x")
    case (Some q)
    then have "filter (\<lambda>y. y \<noteq> a) (o_children q) = o_children q" using nk [OF Some] by (auto simp: filter_id_conv)
    then show ?thesis using Some x by (simp add: kids_def o)
  qed (use x in \<open>simp add: kids_def o\<close>)
qed

lemma free_soft: "soft (free_object t a) = (soft t)(a := None)"
  by (auto simp: fun_eq_iff soft_def free_object_def)

lemma free_gone: "gone_ok (insert a D) t \<Longrightarrow> gone_ok D (free_object t a)"
  by (auto simp: gone_ok_def free_object_def)

lemma few_free: "few t \<Longrightarrow> few (free_object t a)"
  by (auto simp: few_def free_object_def)

lemma free_size: "finite (dom (t_objs t)) \<Longrightarrow> size_of (free_object t a) \<le> size_of t"
  unfolding size_of_def free_object_def by (intro card_mono) auto

lemma free_more: "tree.more (free_object t a) = tree.more t" "t_changed (free_object t a) = t_changed t"
  by (simp_all add: free_object_def)

text \<open>The destructor of an object outside the scene.\<close>

lemma DestroyImpl_ends:
  fixes t :: "'x tree_scheme"
  assumes f: "forest t" and a: "t_objs t a \<noteq> None" and w: "w > size_of t"
  shows "\<exists>u. DestroyImpl w t a = Inr (free_object u a) \<and> quiet t u"
proof -
  obtain r where r: "t_objs t a = Some r" using a by blast
  have "height t a < w" using height_bound [OF f a] w by simp
  then obtain u where u: "UnlinkPrefab w t a = Inr u" "quiet t u" using UnlinkPrefab_ends [OF walk_forest [OF f a]] by blast
  show ?thesis
  proof (cases "o_prefab r")
    case None
    then show ?thesis using r by (auto simp: DestroyImpl_def obj_Some)
  next
    case (Some p)
    then show ?thesis using r u by (auto simp: DestroyImpl_def obj_Some)
  qed
qed

lemma free_outside:
  assumes inv: "inv_but (insert a D) s" and sa: "soft s a = Some (False, i, True)" and k: "kids s a = Some []" and few: "few s"
  shows "inv_but D (free_object s a)" "cleared {a} s (free_object s a)"
proof -
  note p = inv_parts [OF inv]
  obtain r where r: "t_objs s a = Some r" "o_children r = []" "o_isDestroyed r" using k sa by (auto simp: kids_def soft_def)
  then have np: "o_parent r = None" using p(5) by (auto simp: gone_ok_def)
  note t = free_tree [OF p(1) r(1) np r(2)]
  let ?s = "free_object s a"
  note f = more_fields [OF free_more(1) [of s a]]
  have out: "Some a \<notin> set (sc_sceneObjects s)" "a \<notin> set (sc_newQueue s)" "a \<notin> set (sc_deleteQueue s)"
    using slot_soft [OF p(3), of a] new_soft [OF p(4), of a] del_soft [OF p(4), of a] sa by auto
  have sc: "soft ?s b = Some (True, j, d) \<longleftrightarrow> soft s b = Some (True, j, d)" for b j d using sa by (auto simp: free_soft)
  have "slots_ok ?s" using p(3) unfolding slots_ok_def f sc .
  moreover have "queues_ok ?s" using p(4) unfolding queues_ok_def f sc .
  moreover have "cache_ok ?s"
  proof (rule cache_same [OF p(6,3) f(1,5)])
    show "t_changed s \<Longrightarrow> t_changed ?s" by (simp add: free_more)
    fix x assume "in_scene s x"
    then have "x \<noteq> a" using sa by (auto simp: soft_in_scene)
    then show "parent_of ?s x = parent_of s x" by (simp add: parent_of_def free_object_def)
  qed
  moreover have "outside_ok ?s" using p(7) unfolding outside_ok_def free_soft by auto
  ultimately show "inv_but D ?s" using t(1) free_gone [OF p(5)] by (simp add: inv_but_def)
  have "(a, q) \<notin> par s" for q using r(1) np by (simp add: par_def)
  then show "cleared {a} s ?s" using t(2,3) f out few_free [OF few] by (auto simp: cleared_def free_soft free_more)
qed

section \<open>Destroying a subtree\<close>

lemma cleared_trans: "cleared A s t \<Longrightarrow> cleared B t u \<Longrightarrow> cleared (A \<union> B) s u"
proof -
  assume 1: "cleared A s t" and 2: "cleared B t u"
  have "soft u x = None \<or> (\<exists>c i. soft u x = Some (c, i, True) \<and> (\<exists>d. soft s x = Some (c, i, d)))" if "x \<in> A \<union> B" for x
  proof (cases "x \<in> B")
    case True
    then have "soft u x = None \<or> (\<exists>c i. soft u x = Some (c, i, True) \<and> (\<exists>d. soft t x = Some (c, i, d)))" using 2 by (simp add: cleared_def)
    moreover have "soft t x = soft s x \<or> soft t x = None \<or> (\<exists>c i. soft t x = Some (c, i, True) \<and> (\<exists>d. soft s x = Some (c, i, d)))"
      using 1 by (cases "x \<in> A") (auto simp: cleared_def)
    ultimately show ?thesis by auto
  next
    case False
    then have "x \<in> A" "soft u x = soft t x" using that 2 by (auto simp: cleared_def)
    then show ?thesis using 1 by (simp add: cleared_def)
  qed
  moreover have "kids u x = map_option (filter (\<lambda>y. y \<notin> A \<union> B)) (kids s x)" if "x \<notin> A \<union> B" for x
    using 1 2 that by (cases "kids s x") (auto simp: cleared_def)
  ultimately show ?thesis using 1 2 unfolding cleared_def by auto
qed

lemma cleared_refl: "few s \<Longrightarrow> cleared {} s s"
proof -
  assume "few s"
  moreover have "filter (\<lambda>y :: nat. True) = id" by (simp add: fun_eq_iff)
  ultimately show ?thesis by (simp add: cleared_def option.map_id)
qed

lemma below_same:
  assumes "acyclic R"
  shows "(b, a) \<in> {(x, p). (x, p) \<in> R \<and> x \<notin> {a}}\<^sup>* \<longleftrightarrow> (b, a) \<in> R\<^sup>*"
proof
  show "(b, a) \<in> {(x, p). (x, p) \<in> R \<and> x \<notin> {a}}\<^sup>* \<Longrightarrow> (b, a) \<in> R\<^sup>*" by (rule rtrancl_mono [THEN subsetD]) auto
  assume "(b, a) \<in> R\<^sup>*"
  then show "(b, a) \<in> {(x, p). (x, p) \<in> R \<and> x \<notin> {a}}\<^sup>*"
  proof (induction rule: converse_rtrancl_induct)
    case (step x p)
    have "x \<noteq> a" using step.hyps assms by (auto simp: acyclic_def dest: rtrancl_into_trancl2)
    then show ?case using step by (auto intro: converse_rtrancl_into_rtrancl)
  qed simp
qed

lemma below_cut:
  assumes "\<And>x p. (x, p) \<in> R \<Longrightarrow> p \<in> A \<Longrightarrow> x \<in> A" "a \<notin> A"
  shows "{b. (b, a) \<in> {(x, p). (x, p) \<in> R \<and> x \<notin> A}\<^sup>*} = {b. (b, a) \<in> R\<^sup>*} - A"
proof -
  let ?R = "{(x, p). (x, p) \<in> R \<and> x \<notin> A}"
  have "(b, a) \<in> ?R\<^sup>* \<Longrightarrow> (b, a) \<in> R\<^sup>* \<and> b \<notin> A" for b
    by (induction rule: converse_rtrancl_induct) (use assms(2) in \<open>auto intro: converse_rtrancl_into_rtrancl\<close>)
  moreover have "(b, a) \<in> R\<^sup>* \<Longrightarrow> b \<notin> A \<Longrightarrow> (b, a) \<in> ?R\<^sup>*" for b
  proof (induction rule: converse_rtrancl_induct)
    case (step x p)
    have "p \<notin> A" using assms(1) [OF step.hyps(1)] step.prems by blast
    then show ?case using step.IH step.hyps(1) step.prems by (auto intro: converse_rtrancl_into_rtrancl)
  qed simp
  ultimately show ?thesis by blast
qed

lemma desc_closed: "forest s \<Longrightarrow> (x, p) \<in> par s \<Longrightarrow> p \<in> desc s c \<Longrightarrow> x \<in> desc s c"
  by (auto simp: desc_forest intro: converse_rtrancl_into_rtrancl)

lemma desc_finite: "forest s \<Longrightarrow> t_objs s a \<noteq> None \<Longrightarrow> finite (desc s a)"
  using desc_alive [of s _ a] by (intro finite_subset [of "desc s a" "dom (t_objs s)"]) (auto simp: forest_def)

lemma desc_cleared:
  assumes "forest s" "forest t" "cleared (desc s c) s t" "a \<notin> desc s c"
  shows "desc t a = desc s a - desc s c"
proof -
  have "par t = {(x, p). (x, p) \<in> par s \<and> x \<notin> desc s c}" using assms(3) by (simp add: cleared_def)
  then show ?thesis using below_cut [of "par s" "desc s c" a] desc_closed [OF assms(1)] assms(4)
    by (simp add: desc_forest [OF assms(2)] desc_forest [OF assms(1), of a])
qed

lemma child_outside: "forest s \<Longrightarrow> (c, a) \<in> par s \<Longrightarrow> a \<notin> desc s c"
  by (auto simp: desc_forest forest_def acyclic_def dest: rtrancl_into_trancl2)


lemma not_destroyed_child:
  assumes "inv_but D s" "(c, a) \<in> par s"
  shows "\<exists>k. t_objs s c = Some k \<and> \<not> o_isDestroyed k"
  using inv_parts(5) [OF assms(1)] assms(2) by (auto simp: par_def gone_ok_def)

text \<open>Destroying an object ends, and does exactly to everything below it what it does to the object.\<close>

lemma Destroy_ok:
  "(\<forall>D s a r. inv_but D s \<longrightarrow> t_objs s a = Some r \<longrightarrow> \<not> o_isDestroyed r \<longrightarrow> few s \<longrightarrow> w > size_of s \<longrightarrow> n \<ge> 2 * card (desc s a) \<longrightarrow>
     (\<exists>s'. Destroy w n s a = Inr s' \<and> inv_but D s' \<and> cleared (desc s a) s s' \<and> size_of s' \<le> size_of s)) \<and>
   (\<forall>D s a r. inv_but D s \<longrightarrow> a \<in> D \<longrightarrow> t_objs s a = Some r \<longrightarrow> few s \<longrightarrow> w > size_of s \<longrightarrow> n + 1 \<ge> 2 * card (desc s a) \<longrightarrow>
     (\<exists>s'. destroy_children w n s a = Inr s' \<and> inv_but D s' \<and> cleared (desc s a - {a}) s s' \<and> kids s' a = Some [] \<and> size_of s' \<le> size_of s))"
proof (induction n)
  case 0
  have "card (desc s a) > 0" if "inv_but D s" "t_objs s a = Some r" for D s a r
  proof -
    have "desc s a \<noteq> {}" using desc_refl [of a s] by blast
    then show ?thesis using desc_finite [OF inv_parts(2) [OF that(1)], of a] that(2) by (simp add: card_gt_0_iff)
  qed
  then show ?case by fastforce
next
  case (Suc n)
  note children = conjunct2 [OF Suc.IH, rule_format] and destroy = conjunct1 [OF Suc.IH, rule_format]
  show ?case
  proof (intro conjI allI impI)
    fix D s a r
    assume inv: "inv_but D s" and r: "t_objs s a = Some r" "\<not> o_isDestroyed r" and few: "few s" and w: "w > size_of s"
      and n: "Suc n \<ge> 2 * card (desc s a)"
    have f: "forest s" by (rule inv_parts(2) [OF inv])
    obtain s4 where s4: "leave w s a r = Inr s4" "inv_but (insert a D) s4" "cleared {a} s s4"
      "soft s4 a = Some (o_inScene r, o_idInScene r, True)" "kids s4 a = kids s a" "size_of s4 = size_of s"
      using leave_ok [OF inv r few w] by blast
    have f4: "forest s4" by (rule inv_parts(2) [OF s4(2)])
    have "par s4 = {(x, p). (x, p) \<in> par s \<and> x \<notin> {a}}" using s4(3) by (simp add: cleared_def)
    then have desc4: "desc s4 a = desc s a"
      using below_same [of "par s" _ a] f by (simp add: desc_forest [OF f4] desc_forest [OF f] forest_def)
    obtain r4 where r4: "t_objs s4 a = Some r4" using s4(4) by (auto simp: soft_def)
    obtain s5 where s5: "destroy_children w n s4 a = Inr s5" "inv_but (insert a D) s5" "cleared (desc s a - {a}) s4 s5"
      "kids s5 a = Some []" "size_of s5 \<le> size_of s"
      using children [OF s4(2) _ r4 _ _ ] s4(3,6) w n desc4 by (auto simp: cleared_def)
    have sa: "soft s5 a = Some (o_inScene r, o_idInScene r, True)" using s5(3) s4(4) by (simp add: cleared_def)
    have c5: "cleared (desc s a) s s5" using cleared_trans [OF s4(3) s5(3)] by (simp add: insert_absorb)
    show "\<exists>s'. Destroy w (Suc n) s a = Inr s' \<and> inv_but D s' \<and> cleared (desc s a) s s' \<and> size_of s' \<le> size_of s"
    proof (cases "o_inScene r")
      case True
      obtain z where z: "t_objs s5 a = Some z" "o_children z = []" "o_inScene z" using sa s5(4) True by (auto simp: soft_def kids_def)
      have "gone_ok D s5"
        unfolding gone_ok_def
      proof (intro allI impI)
        fix x q assume x: "t_objs s5 x = Some q" "o_isDestroyed q"
        then have "o_parent q = None" "x \<notin> insert a D \<Longrightarrow> o_inScene q \<and> o_children q = []"
          using inv_parts(5) [OF s5(2)] unfolding gone_ok_def by blast+
        then show "o_parent q = None \<and> (x \<notin> D \<longrightarrow> o_inScene q \<and> o_children q = [])" using z x(1) by (cases "x = a") auto
      qed
      then have "inv_but D s5" using s5(2) by (simp add: inv_but_def)
      then show ?thesis using r s4(1) s5(1,5) c5 True by (simp add: obj_Some)
    next
      case False
      have "w > size_of s5" using w s5(5) by simp
      moreover have "t_objs s5 a \<noteq> None" using sa by (auto simp: soft_def)
      ultimately obtain u where u: "DestroyImpl w s5 a = Inr (free_object u a)" "quiet s5 u"
        using DestroyImpl_ends [OF inv_parts(2) [OF s5(2)]] by blast
      have iu: "inv_but (insert a D) u" by (rule quiet_inv [OF u(2) s5(2)])
      have su: "soft u = soft s5" "links u = links s5" "tree.more u = tree.more s5" using u(2) by (simp_all add: quiet_def)
      have ku: "kids u = kids s5" using links_shape [OF su(2)] by (simp add: fun_eq_iff shape_kids)
      have pu: "par u = par s5" by (rule same_shape_par [OF links_shape [OF su(2)]])
      have "few u" using s5(3) ku by (simp add: cleared_def few_kids)
      moreover have "soft u a = Some (False, o_idInScene r, True)" "kids u a = Some []" using sa s5(4) False su(1) ku by simp_all
      ultimately have fo: "inv_but D (free_object u a)" "cleared {a} u (free_object u a)" using free_outside [OF iu] by blast+
      have "cleared (desc s a) s u" using c5 su(1) ku pu more_fields [OF su(3)] u(2) by (simp add: cleared_def few_kids quiet_def)
      then have "cleared (desc s a) s (free_object u a)" using cleared_trans [OF _ fo(2)] by (metis desc_refl insert_absorb insert_is_Un Un_commute)
      moreover have "size_of (free_object u a) \<le> size_of s"
        using free_size [of u a] inv_parts(2) [OF iu] s5(5) shape_depth [OF links_shape [OF su(2)]] by (simp add: forest_def)
      ultimately show ?thesis using r s4(1) s5(1) u(1) fo(1) False by (simp add: obj_Some)
    qed
  next
    fix D s a r
    assume inv: "inv_but D s" and a: "a \<in> D" and r: "t_objs s a = Some r" and few: "few s" and w: "w > size_of s"
      and n: "Suc n + 1 \<ge> 2 * card (desc s a)"
    have f: "forest s" by (rule inv_parts(2) [OF inv])
    show "\<exists>s'. destroy_children w (Suc n) s a = Inr s' \<and> inv_but D s' \<and> cleared (desc s a - {a}) s s' \<and> kids s' a = Some [] \<and> size_of s' \<le> size_of s"
    proof (cases "o_children r")
      case Nil
      then have e: "desc s a - {a} = {}" using desc_unfold [OF r] by simp
      have "cleared (desc s a - {a}) s s" unfolding e by (rule cleared_refl [OF few])
      then show ?thesis using r Nil inv kids_obj [OF r] by (simp add: obj_Some)
    next
      case (Cons c cs)
      have ca: "(c, a) \<in> par s" using chi_forest [OF f] r Cons by (auto simp: chi_def)
      then obtain k where k: "t_objs s c = Some k" "\<not> o_isDestroyed k" using not_destroyed_child [OF inv] by blast
      have out: "a \<notin> desc s c" by (rule child_outside [OF f ca])
      have sub: "desc s c \<subseteq> desc s a - {a}" using desc_step [of c a s] ca chi_forest [OF f] out by auto
      have fin: "finite (desc s a)" using desc_finite [OF f, of a] r by simp
      have split: "card (desc s a) \<ge> card (desc s c) + 1"
        using card_mono [OF _ sub] card_Suc_Diff1 [OF fin desc_refl] fin by simp
      obtain s1 where s1: "Destroy w n s c = Inr s1" "inv_but D s1" "cleared (desc s c) s s1" "size_of s1 \<le> size_of s"
        using destroy [OF inv k few w] n split by auto
      have f1: "forest s1" by (rule inv_parts(2) [OF s1(2)])
      have d1: "desc s1 a = desc s a - desc s c" by (rule desc_cleared [OF f f1 s1(3) out])
      have "soft s1 a = soft s a" using s1(3) out by (simp add: cleared_def)
      then obtain r1 where r1: "t_objs s1 a = Some r1" using r by (auto simp: soft_def)
      have "card (desc s1 a) < card (desc s a)" unfolding d1 using fin desc_refl [of c s] sub by (intro psubset_card_mono) blast+
      then have n1: "n + 1 \<ge> 2 * card (desc s1 a)" using n by simp
      have "w > size_of s1" "few s1" using w s1(3,4) by (auto simp: cleared_def)
      then obtain s2 where s2: "destroy_children w n s1 a = Inr s2" "inv_but D s2" "cleared (desc s1 a - {a}) s1 s2" "kids s2 a = Some []"
        "size_of s2 \<le> size_of s1" using children [OF s1(2) a r1] n1 by auto
      have "desc s c \<union> (desc s1 a - {a}) = desc s a - {a}" using sub unfolding d1 by auto
      then have "cleared (desc s a - {a}) s s2" using cleared_trans [OF s1(3) s2(3)] by simp
      then show ?thesis using r Cons s1(1,4) s2 by (auto simp: obj_Some)
    qed
  qed
qed

end
