(* ===== verification/SR_Scene_Calls.thy ===== *)
theory SR_Scene_Calls
  imports SR_Scene
begin

text \<open>
  What clients of the scene and its hierarchy can rely on: registering, placing and freeing objects keep the
  tables of the scene (World/Scene.cpp), every sequence of calls is safe, moving an object keeps the forest
  (ECS/SceneObject.cpp), destroying an object takes everything below it, and destroying the scene takes
  everything in it.
\<close>

section \<open>Registering\<close>

lemma desc_disjoint:
  assumes f: "forest t" and c: "(c, a) \<in> par t" and d: "(d, a) \<in> par t" and ne: "c \<noteq> d"
  shows "desc t c \<inter> desc t d = {}"
proof (rule ccontr)
  assume "desc t c \<inter> desc t d \<noteq> {}"
  then obtain x where x: "(x, c) \<in> (par t)\<^sup>*" "(x, d) \<in> (par t)\<^sup>*" by (auto simp: desc_forest [OF f])
  have "single_valued (par t)" by (auto simp: single_valued_def par_def)
  then have "(c, d) \<in> (par t)\<^sup>* \<or> (d, c) \<in> (par t)\<^sup>*" using x by (rule single_valued_confluent)
  moreover have "False" if p: "(c, d) \<in> (par t)\<^sup>*" "(c, a) \<in> par t" "(d, a) \<in> par t" "c \<noteq> d" for c d
  proof -
    obtain y where "(c, y) \<in> par t" "(y, d) \<in> (par t)\<^sup>*" using p(1,4) by (auto elim: converse_rtranclE)
    moreover have "y = a" using p(2) calculation(1) by (auto simp: par_def)
    ultimately have "(a, a) \<in> (par t)\<^sup>+" using p(3) by (auto intro: rtrancl_into_trancl1)
    then show False using f by (auto simp: forest_def acyclic_def)
  qed
  ultimately show False using c d ne by blast
qed

definition registered :: "nat set \<Rightarrow> scene \<Rightarrow> scene \<Rightarrow> bool" where
  "registered A s s' \<longleftrightarrow>
     (\<forall>b. t_objs s' b = (if b \<in> A then map_option (o_inScene_update (\<lambda>_. True)) (t_objs s b) else t_objs s b)) \<and>
     (\<exists>L. sc_newQueue s' = sc_newQueue s @ L \<and> distinct L \<and> set L = A) \<and>
     sc_sceneObjects s' = sc_sceneObjects s \<and> sc_freeObjIndices s' = sc_freeObjIndices s \<and> sc_deleteQueue s' = sc_deleteQueue s \<and>
     sc_isPreDestroyed s' = sc_isPreDestroyed s"

lemma registered_trans: "registered A s t \<Longrightarrow> registered B t u \<Longrightarrow> A \<inter> B = {} \<Longrightarrow> registered (A \<union> B) s u"
proof -
  assume 1: "registered A s t" and 2: "registered B t u" and d: "A \<inter> B = {}"
  obtain L M where "sc_newQueue t = sc_newQueue s @ L" "distinct L" "set L = A" "sc_newQueue u = sc_newQueue t @ M" "distinct M" "set M = B"
    using 1 2 by (auto simp: registered_def)
  then have "\<exists>L. sc_newQueue u = sc_newQueue s @ L \<and> distinct L \<and> set L = A \<union> B" using d by (intro exI [of _ "L @ M"]) auto
  moreover have "t_objs u b = (if b \<in> A \<union> B then map_option (o_inScene_update (\<lambda>_. True)) (t_objs s b) else t_objs s b)" for b
    using 1 2 d by (cases "t_objs s b") (auto simp: registered_def)
  ultimately show ?thesis using 1 2 by (simp add: registered_def)
qed

lemma registered_links: "registered A s s' \<Longrightarrow> links s' = links s"
  by (rule ext, rename_tac x, case_tac "t_objs s x") (auto simp: registered_def links_def)

lemma registered_SetDirty: "registered A s (OnChanged (Scene_SetDirty s' d)) = registered A s s'"
  by (simp add: registered_def)

lemma Register_ends:
  assumes "forest s" "t_objs s a \<noteq> None" "n > height s a"
  shows "\<exists>s'. RegisterSceneObject n s a = Inr s' \<and> registered (desc s a) s s' \<and> t_changed s'"
  using assms
proof (induction n arbitrary: a s)
  case (Suc n)
  obtain r where r: "t_objs s a = Some r" using Suc.prems(2) by blast
  let ?s = "upd a (o_inScene_update (\<lambda>_. True)) (s\<lparr>sc_newQueue := sc_newQueue s @ [a]\<rparr>)"
  have first: "registered {a} s ?s" by (auto simp: registered_def upd_def)
  have loop: "\<exists>s'. each (RegisterSceneObject n) s1 cs = Inr s' \<and> registered (A \<union> (\<Union>c \<in> set cs. desc s c)) s s'"
    if p: "registered A s s1" "set cs \<subseteq> set (o_children r)" "distinct cs" "\<forall>c \<in> set cs. A \<inter> desc s c = {}" for A s1 cs
    using p
  proof (induction cs arbitrary: A s1)
    case (Cons c cs)
    have ca: "(c, a) \<in> chi s" using Cons.prems(2) r by (auto simp: chi_def)
    then have pa: "(c, a) \<in> par s" using chi_forest [OF Suc.prems(1)] by simp
    have l: "links s1 = links s" by (rule registered_links [OF Cons.prems(1)])
    have k: "kids s1 = kids s" using links_shape [OF l] by (simp add: fun_eq_iff shape_kids)
    have "forest s1" by (rule forest_shape [OF links_shape [OF l] Suc.prems(1)])
    moreover have "t_objs s1 c \<noteq> None" using links_alive [OF l] chi_alive [OF Suc.prems(1) ca] by simp
    moreover have "height s1 c < n" using height_child [OF Suc.prems(1) ca] Suc.prems(3) same_kids [OF k] by simp
    ultimately obtain s2 where s2: "RegisterSceneObject n s1 c = Inr s2" "registered (desc s c) s1 s2"
      using Suc.IH [of s1 c] same_kids [OF k] by auto
    have "registered (A \<union> desc s c) s s2" using registered_trans [OF Cons.prems(1) s2(2)] Cons.prems(4) by simp
    moreover have "(A \<union> desc s c) \<inter> desc s d = {}" if d: "d \<in> set cs" for d
    proof -
      have "(d, a) \<in> par s" using Cons.prems(2) d r chi_forest [OF Suc.prems(1)] by (auto simp: chi_def)
      then have "desc s c \<inter> desc s d = {}" using desc_disjoint [OF Suc.prems(1) pa] Cons.prems(3) d by auto
      then show ?thesis using Cons.prems(4) d by auto
    qed
    ultimately obtain s' where "each (RegisterSceneObject n) s2 cs = Inr s'" "registered (A \<union> desc s c \<union> (\<Union>c \<in> set cs. desc s c)) s s'"
      using Cons.IH [of "A \<union> desc s c" s2] Cons.prems(2,3) by auto
    then show ?case using s2(1) by (simp add: Un_assoc)
  qed simp
  have "{a} \<inter> desc s c = {}" if c: "c \<in> set (o_children r)" for c
    using child_outside [OF Suc.prems(1), of c a] c r chi_forest [OF Suc.prems(1)] by (auto simp: chi_def)
  then obtain s' where "each (RegisterSceneObject n) ?s (o_children r) = Inr s'" "registered (desc s a) s s'"
    using loop [OF first, of "o_children r"] forestD(3) [OF Suc.prems(1) r] desc_unfold [OF r] by auto
  then show ?case using r by (simp add: obj_Some registered_SetDirty)
qed simp

lemma Register_ok:
  assumes inv: "scene_inv s" and a: "t_objs s a \<noteq> None" and out: "\<And>b. b \<in> desc s a \<Longrightarrow> \<not> in_scene s b" and n: "n > size_of s"
    and few: "few s"
  shows "\<exists>s'. RegisterSceneObject n s a = Inr s' \<and> scene_inv s' \<and> few s'"
proof -
  have i: "inv_but {} s" using inv by (simp add: scene_inv_def)
  note p = inv_parts [OF i]
  obtain s' where s': "RegisterSceneObject n s a = Inr s'" "registered (desc s a) s s'" "t_changed s'"
    using Register_ends [OF p(2) a, of n] height_bound [OF p(2) a] n by auto
  let ?A = "desc s a"
  have l: "links s' = links s" by (rule registered_links [OF s'(2)])
  obtain L where L: "sc_newQueue s' = sc_newQueue s @ L" "distinct L" "set L = ?A" using s'(2) by (auto simp: registered_def)
  have eq: "sc_sceneObjects s' = sc_sceneObjects s" "sc_freeObjIndices s' = sc_freeObjIndices s" "sc_deleteQueue s' = sc_deleteQueue s"
    using s'(2) by (simp_all add: registered_def)
  have old: "soft s b = Some (False, SR_ID_INVALID, False)" if b: "b \<in> ?A" for b
  proof -
    obtain r where r: "t_objs s b = Some r" using desc_alive [OF p(2) b a] by blast
    have "\<not> o_inScene r" using out [OF b] r by (auto simp: in_scene_def)
    then have "\<not> o_isDestroyed r" "o_idInScene r = SR_ID_INVALID" using p(5,7) r unfolding gone_ok_def outside_ok_def soft_def by fastforce+
    then show ?thesis using r \<open>\<not> o_inScene r\<close> by (simp add: soft_def)
  qed
  have new: "soft s' b = (if b \<in> ?A then Some (True, SR_ID_INVALID, False) else soft s b)" for b
  proof (cases "b \<in> ?A")
    case True
    then show ?thesis using old [OF True] s'(2) by (auto simp: registered_def soft_def)
  next
    case False
    then show ?thesis using s'(2) by (simp add: registered_def soft_def)
  qed
  have "slots_ok s'" using p(3) old unfolding slots_ok_def eq new by fastforce
  moreover have "queues_ok s'"
  proof -
    have "set (sc_newQueue s) \<inter> ?A = {}" using new_soft [OF p(4)] old by fastforce
    moreover have "set (sc_deleteQueue s) \<inter> ?A = {}" using del_soft [OF p(4)] old by fastforce
    ultimately show ?thesis using p(4) L unfolding queues_ok_def eq new by (auto split: if_splits)
  qed
  moreover have "gone_ok {} s'"
    using s'(2) p(5) by (auto simp: gone_ok_def registered_def split: if_splits)
  moreover have "outside_ok s'" using p(7) unfolding outside_ok_def new by auto
  moreover have "few s'" using few s'(2) by (auto simp: few_def registered_def split: if_splits)
  ultimately show ?thesis using s'(1,3) scene_ok_links [OF l p(1)] by (simp add: scene_inv_def inv_but_def cache_ok_def)
qed


section \<open>Preparing\<close>

text \<open>The scene with another list of objects to come or to go.\<close>

abbreviation with_new :: "scene \<Rightarrow> nat list \<Rightarrow> scene" where
  "with_new s xs \<equiv> s\<lparr>sc_newQueue := xs\<rparr>"

abbreviation with_deleted :: "scene \<Rightarrow> nat list \<Rightarrow> scene" where
  "with_deleted s xs \<equiv> s\<lparr>sc_deleteQueue := xs\<rparr>"

lemma place_ok:
  assumes inv: "inv_but {} (with_new s (a # xs))" and ch: "t_changed s" and len: "length (sc_sceneObjects s) < 2 ^ 64 - 2"
  shows "inv_but {} (with_new (place s a) xs)" "t_changed (place s a)"
    "length (sc_sceneObjects (place s a)) \<le> Suc (length (sc_sceneObjects s))" "kids (place s a) = kids s" "size_of (place s a) = size_of s"
    "sc_deleteQueue (place s a) = sc_deleteQueue s" "sc_isPreDestroyed (place s a) = sc_isPreDestroyed s"
proof -
  note p = inv_parts [OF inv]
  have sa: "soft s a = Some (True, SR_ID_INVALID, False)" using new_soft [OF p(4), of a] by (simp add: soft_def)
  have sf0: "soft (with_new s ys) = soft s" "links (with_new s ys) = links s" for ys by (rule objs_views, simp)+
  have not_in: "Some a \<notin> set (sc_sceneObjects s)"
  proof
    assume "Some a \<in> set (sc_sceneObjects s)"
    then obtain i where "i < length (sc_sceneObjects s)" "sc_sceneObjects s ! i = Some a" by (auto simp: in_set_conv_nth)
    then have "soft s a = Some (True, of_nat i, False)" "i < 2 ^ 64 - 1" using p(3) len by (simp_all add: slots_ok_def sf0)
    then show False using sa slot_valid [of i] by simp
  qed
  define j where "j = (case sc_freeObjIndices s of [] \<Rightarrow> length (sc_sceneObjects s) | i # is \<Rightarrow> i)"
  define slots where "slots = (case sc_freeObjIndices s of [] \<Rightarrow> sc_sceneObjects s @ [Some a] | i # is \<Rightarrow> (sc_sceneObjects s)[i := Some a])"
  define free where "free = (case sc_freeObjIndices s of [] \<Rightarrow> [] | i # is \<Rightarrow> is)"
  have pl: "place s a = upd a (o_idInScene_update (\<lambda>_. of_nat j)) (s\<lparr>sc_sceneObjects := slots, sc_freeObjIndices := free\<rparr>)"
  proof (cases "sc_freeObjIndices s")
    case Nil
    then have "s\<lparr>sc_sceneObjects := slots\<rparr> = s\<lparr>sc_sceneObjects := slots, sc_freeObjIndices := free\<rparr>"
      by (cases s) (simp add: free_def)
    then show ?thesis using Nil by (simp add: place_def j_def slots_def)
  qed (simp add: place_def j_def slots_def free_def)
  let ?s = "with_new (place s a) xs"
  have free_in: "i < length (sc_sceneObjects s) \<and> sc_sceneObjects s ! i = None" if "i \<in> set (sc_freeObjIndices s)" for i
    using p(3) that by (simp add: slots_ok_def)
  have len_slots: "length slots \<le> Suc (length (sc_sceneObjects s))" by (simp add: slots_def split: list.split)
  have j: "j < length slots" "slots ! j = Some a"
    using free_in by (auto simp: j_def slots_def split: list.split)
  have other: "k < length slots \<Longrightarrow> k \<noteq> j \<Longrightarrow> k < length (sc_sceneObjects s) \<and> slots ! k = sc_sceneObjects s ! k" for k
    by (cases "sc_freeObjIndices s") (auto simp: j_def slots_def nth_append less_Suc_eq)
  have inb: "k < length (sc_sceneObjects s) \<Longrightarrow> k < length slots" for k
    by (auto simp: slots_def split: list.split)
  have j64: "j < 2 ^ 64 - 1" using j(1) len_slots len by simp
  have sf: "soft ?s = (soft s)(a \<mapsto> (True, of_nat j, False))"
  proof
    fix x show "soft ?s x = ((soft s)(a \<mapsto> (True, of_nat j, False))) x"
      using sa by (cases "x = a") (auto simp: pl soft_def)
  qed
  have l: "links ?s = links s"
  proof -
    have "links ?s = links (place s a)" by (rule objs_views(3)) simp
    also have "\<dots> = links (s\<lparr>sc_sceneObjects := slots, sc_freeObjIndices := free\<rparr>)" unfolding pl by (rule links_upd) simp
    also have "\<dots> = links s" by (rule objs_views(3)) simp
    finally show ?thesis .
  qed
  have f: "sc_sceneObjects ?s = slots" "sc_freeObjIndices ?s = free" "sc_newQueue ?s = xs" "sc_deleteQueue ?s = sc_deleteQueue s" "t_changed ?s"
    using ch by (simp_all add: pl upd_def)
  show "t_changed (place s a)" "length (sc_sceneObjects (place s a)) \<le> Suc (length (sc_sceneObjects s))"
    "sc_deleteQueue (place s a) = sc_deleteQueue s" "sc_isPreDestroyed (place s a) = sc_isPreDestroyed s"
    using ch len_slots by (simp_all add: pl upd_def)
  have "links (place s a) = links s" using l objs_views(3) [of ?s "place s a"] by simp
  then show "kids (place s a) = kids s" "size_of (place s a) = size_of s"
    using links_shape [of "place s a" s] shape_depth [of "place s a" s] by (auto simp: fun_eq_iff shape_kids)
  have "scene_ok ?s" using scene_ok_links [of ?s "with_new s (a # xs)"] p(1) l sf0 by simp
  moreover have "slots_ok ?s"
  proof -
    have "distinct free" "set free = set (sc_freeObjIndices s) - {j}" if "sc_freeObjIndices s \<noteq> []"
      using p(3) that by (auto simp: slots_ok_def free_def j_def split: list.split)
    moreover have "set free = {}" "set (sc_freeObjIndices s) = {}" "distinct free" if "sc_freeObjIndices s = []" using that by (simp_all add: free_def)
    ultimately have fr: "distinct free" "set free = set (sc_freeObjIndices s) - {j}" by fastforce+
    have "{i. i < length slots \<and> slots ! i = None} = {i. i < length (sc_sceneObjects s) \<and> sc_sceneObjects s ! i = None} - {j}"
      using other inb j by fastforce
    then have "set free = {i. i < length slots \<and> slots ! i = None}" using fr(2) p(3) by (simp add: slots_ok_def)
    moreover have "soft ?s b = Some (True, of_nat k, False)" if k: "k < length slots" "slots ! k = Some b" for k b
    proof (cases "k = j")
      case True
      then show ?thesis using j k sf by simp
    next
      case False
      then have k': "k < length (sc_sceneObjects s)" "sc_sceneObjects s ! k = Some b" using other [OF k(1)] k(2) by auto
      then have "b \<noteq> a" using not_in by (metis nth_mem)
      then show ?thesis using k' p(3) sf by (simp add: slots_ok_def sf0)
    qed
    ultimately show ?thesis using fr(1) len len_slots unfolding slots_ok_def f by auto
  qed
  moreover have "queues_ok ?s"
  proof -
    have "Some b \<in> set slots" if "Some b \<in> set (sc_sceneObjects s)" for b
    proof -
      obtain k where k: "k < length (sc_sceneObjects s)" "sc_sceneObjects s ! k = Some b" using \<open>Some b \<in> set (sc_sceneObjects s)\<close> by (auto simp: in_set_conv_nth)
      have "k \<noteq> j"
      proof
        assume "k = j"
        then have "sc_freeObjIndices s \<noteq> [] \<Longrightarrow> sc_sceneObjects s ! k = None" using free_in by (auto simp: j_def neq_Nil_conv)
        moreover have "sc_freeObjIndices s = [] \<Longrightarrow> k = length (sc_sceneObjects s)" using \<open>k = j\<close> by (simp add: j_def)
        ultimately show False using k by auto
      qed
      then show ?thesis using other [OF inb [OF k(1)]] k inb by (metis nth_mem)
    qed
    moreover have "Some a \<in> set slots" using j by (metis nth_mem)
    moreover have "distinct (a # xs)" "a \<notin> set (sc_deleteQueue s)" using p(4) sa unfolding queues_ok_def sf0 by auto
    ultimately show ?thesis using p(4) unfolding queues_ok_def f sf sf0 by (auto split: if_splits)
  qed
  moreover have "gone_ok {} ?s"
    using gone_shape [of "?s" "with_new s (a # xs)"] p(5) sa sf unfolding gone_ok_def pl by (auto split: if_splits)
  moreover have "outside_ok ?s" using p(7) unfolding outside_ok_def sf sf0 by auto
  ultimately show "inv_but {} ?s" using f(5) by (simp add: inv_but_def cache_ok_def)
qed


lemma place_all:
  "inv_but {} (with_new s xs) \<Longrightarrow> t_changed s \<Longrightarrow> length (sc_sceneObjects s) + length xs < 2 ^ 64 - 1 \<Longrightarrow>
   (let s' = fold (\<lambda>a s. place s a) xs s in inv_but {} (with_new s' []) \<and> t_changed s' \<and> kids s' = kids s \<and> size_of s' = size_of s \<and>
     sc_isPreDestroyed s' = sc_isPreDestroyed s)"
proof (induction xs arbitrary: s)
  case (Cons a xs)
  have "length (sc_sceneObjects s) < 2 ^ 64 - 2" using Cons.prems(3) by simp
  note pl = place_ok [OF Cons.prems(1,2) this]
  have "length (sc_sceneObjects (place s a)) + length xs < 2 ^ 64 - 1" using pl(3) Cons.prems(3) by simp
  then show ?case using Cons.IH [OF pl(1,2)] pl(4,5,7) by (simp add: Let_def)
qed (simp add: Let_def)

lemma free_deleted:
  assumes inv: "inv_but {} (with_deleted s (a # xs))" and ch: "t_changed s" and w: "w > size_of s" and few: "few s"
  shows "\<exists>s'. DestroyImpl w s a = Inr s' \<and> inv_but {} (with_deleted s' xs) \<and> t_changed s' \<and> size_of s' \<le> size_of s \<and> few s' \<and>
    tree.more s' = tree.more s"
proof -
  note p = inv_parts [OF inv]
  have v: "soft (with_deleted s ys) = soft s" "shape (with_deleted s ys) = shape s" "links (with_deleted s ys) = links s" for ys
    by (rule objs_views, simp)+
  obtain i where sa: "soft s a = Some (True, i, True)" using del_soft [OF p(4), of a] by (auto simp: v)
  have f: "forest s" by (rule forest_shape [OF _ p(2)]) (simp add: v)
  have "t_objs s a \<noteq> None" using sa by (auto simp: soft_def)
  then obtain u where u: "DestroyImpl w s a = Inr (free_object u a)" "quiet s u" using DestroyImpl_ends [OF f _ w] by blast
  have q: "quiet (with_deleted s (a # xs)) (with_deleted u (a # xs))"
  proof -
    have "tree.more (with_deleted u (a # xs)) = tree.more (with_deleted s (a # xs))"
      using u(2) by (cases s, cases u) (simp add: quiet_def)
    moreover have "soft (with_deleted u (a # xs)) = soft u" "links (with_deleted u (a # xs)) = links u" by (rule objs_views, simp)+
    ultimately show ?thesis using u(2) v by (simp add: quiet_def)
  qed
  let ?u = "with_deleted u (a # xs)"
  have iu: "inv_but {} ?u" by (rule quiet_inv [OF q inv])
  note pu = inv_parts [OF iu]
  have su: "soft ?u = soft s" using q v by (simp add: quiet_def)
  obtain r where r: "t_objs u a = Some r" "o_isDestroyed r" using fun_cong [OF su, of a] sa by (auto simp: soft_def)
  then have np: "o_parent r = None" "o_children r = []" using pu(5) by (auto simp: gone_ok_def)
  have "t_objs ?u a = Some r" using r by simp
  note t = free_tree [OF pu(1) this np]
  let ?s = "with_deleted (free_object u a) xs"
  have e: "t_objs ?s = t_objs (free_object ?u a)" by (simp add: free_object_def)
  have ss: "soft ?s = (soft s)(a := None)" using objs_views(1) [OF e] free_soft [of ?u a] su by simp
  have m: "tree.more u = tree.more s" using u(2) by (simp add: quiet_def)
  note fu = more_fields [OF m]
  have fs: "sc_sceneObjects ?s = sc_sceneObjects s" "sc_freeObjIndices ?s = sc_freeObjIndices s" "sc_newQueue ?s = sc_newQueue s" "sc_deleteQueue ?s = xs"
    using fu by (simp_all add: free_object_def)
  have "scene_ok ?s" by (rule scene_ok_links [OF _ t(1)]) (rule objs_views(3) [OF e])
  moreover have "slots_ok ?s" using p(3) sa unfolding slots_ok_def fs ss v by auto
  moreover have "queues_ok ?s" using p(4) sa unfolding queues_ok_def fs ss v by (auto split: if_splits)
  moreover have "gone_ok {} ?s"
  proof -
    have "gone_ok {a} ?u" using pu(5) unfolding gone_ok_def by blast
    then have "gone_ok {} (free_object ?u a)" by (rule free_gone)
    then show ?thesis using gone_shape [OF objs_views(1,2) [OF e]] by blast
  qed
  moreover have "outside_ok ?s" using p(7) unfolding outside_ok_def ss v by auto
  moreover have "t_changed (free_object u a)" using ch u(2) by (simp add: free_more quiet_def)
  ultimately have "inv_but {} ?s" by (simp add: inv_but_def cache_ok_def)
  moreover have "size_of (free_object u a) \<le> size_of s"
  proof -
    have l: "links u = links s" using u(2) by (simp add: quiet_def)
    have "forest u" by (rule forest_shape [OF links_shape [OF l] f])
    then show ?thesis using free_size [of u a] shape_depth [OF links_shape [OF l]] by (simp add: forest_def)
  qed
  moreover have "few (free_object u a)"
  proof -
    have l: "links u = links s" using u(2) by (simp add: quiet_def)
    have "kids u = kids s" using links_shape [OF l] by (simp add: fun_eq_iff shape_kids)
    then have "few u" using few by (simp add: few_kids)
    then show ?thesis by (rule few_free)
  qed
  ultimately show ?thesis using u(1) \<open>t_changed (free_object u a)\<close> free_more(1) [of u a] m by (intro exI [of _ "free_object u a"]) simp
qed

lemma free_all:
  "inv_but {} (with_deleted s xs) \<Longrightarrow> t_changed s \<Longrightarrow> w > size_of s \<Longrightarrow> few s \<Longrightarrow>
   \<exists>s'. each (DestroyImpl w) s xs = Inr s' \<and> inv_but {} (with_deleted s' []) \<and> t_changed s' \<and> size_of s' \<le> size_of s \<and> few s' \<and>
     tree.more s' = tree.more s"
proof (induction xs arbitrary: s)
  case (Cons a xs)
  obtain s1 where s1: "DestroyImpl w s a = Inr s1" "inv_but {} (with_deleted s1 xs)" "t_changed s1" "size_of s1 \<le> size_of s" "few s1"
    "tree.more s1 = tree.more s" using free_deleted [OF Cons.prems] by blast
  then show ?case using Cons.IH [OF s1(2,3)] Cons.prems(3) by force
qed auto

lemma destroy_new_ok:
  "inv_but {} s \<Longrightarrow> few s \<Longrightarrow> w > size_of s \<Longrightarrow> n > 2 * size_of s + length (sc_newQueue s) \<Longrightarrow>
   \<exists>s'. destroy_new w n s = Inr s' \<and> inv_but {} s' \<and> few s' \<and> size_of s' \<le> size_of s \<and> sc_newQueue s' = [] \<and> (t_changed s \<longrightarrow> t_changed s') \<and>
     (\<exists>A. cleared A s s' \<and> (\<forall>x p. (x, p) \<in> par s \<longrightarrow> p \<in> A \<longrightarrow> x \<in> A))"
proof (induction n arbitrary: s)
  case (Suc n)
  show ?case
  proof (cases "sc_newQueue s")
    case Nil
    then show ?thesis using Suc.prems(1,2) cleared_refl [of s] by auto
  next
    case (Cons a xs)
    note p = inv_parts [OF Suc.prems(1)]
    have "soft s a = Some (True, SR_ID_INVALID, False)" using new_soft [OF p(4), of a] Cons by simp
    then obtain r where r: "t_objs s a = Some r" "\<not> o_isDestroyed r" "o_inScene r" by (auto simp: soft_def)
    have "card (desc s a) \<le> size_of s"
      using desc_alive [OF p(2)] r(1) p(2) unfolding size_of_def by (intro card_mono) (auto simp: forest_def)
    then have "n \<ge> 2 * card (desc s a)" using Suc.prems(4) Cons by simp
    then obtain s1 where s1: "Destroy w n s a = Inr s1" "inv_but {} s1" "cleared (desc s a) s s1" "size_of s1 \<le> size_of s"
      using conjunct1 [OF Destroy_ok [of w n], rule_format, OF Suc.prems(1) r(1,2) Suc.prems(2,3)] by blast
    have set1: "set (sc_newQueue s1) = set (sc_newQueue s) - desc s a" using s1(3) by (simp add: cleared_def)
    have "length (sc_newQueue s1) = card (set (sc_newQueue s1))" "length (sc_newQueue s) = card (set (sc_newQueue s))"
      using inv_parts(4) [OF s1(2)] p(4) by (simp_all add: queues_ok_def distinct_card)
    moreover have "a \<in> set (sc_newQueue s)" using Cons by simp
    then have "card (set (sc_newQueue s1)) < card (set (sc_newQueue s))"
      unfolding set1 using desc_refl [of a s] by (intro psubset_card_mono) blast+
    ultimately have "n > 2 * size_of s1 + length (sc_newQueue s1)" using Suc.prems(4) s1(4) by simp
    moreover have "few s1" using s1(3) by (simp add: cleared_def)
    ultimately obtain s2 A where s2: "destroy_new w n s1 = Inr s2" "inv_but {} s2" "few s2" "size_of s2 \<le> size_of s1" "sc_newQueue s2 = []"
      "t_changed s1 \<longrightarrow> t_changed s2" "cleared A s1 s2" "\<forall>x p. (x, p) \<in> par s1 \<longrightarrow> p \<in> A \<longrightarrow> x \<in> A"
      using Suc.IH [OF s1(2)] Suc.prems(3) s1(4) by fastforce
    have "cleared (desc s a \<union> A) s s2" by (rule cleared_trans [OF s1(3) s2(7)])
    moreover have "x \<in> desc s a \<union> A" if xp: "(x, p) \<in> par s" "p \<in> desc s a \<union> A" for x p
    proof (cases "x \<in> desc s a")
      case False
      then have "(x, p) \<in> par s1" "p \<notin> desc s a" using xp s1(3) desc_closed [OF p(2) xp(1)] by (auto simp: cleared_def)
      then show ?thesis using s2(8) xp(2) by blast
    qed simp
    moreover have "t_changed s \<longrightarrow> t_changed s2" using s1(3) s2(6) by (simp add: cleared_def)
    ultimately show ?thesis using Cons s1(1,4) s2 by auto
  qed
qed simp


lemma with_same [simp]: "with_new s (sc_newQueue s) = s" "with_deleted s (sc_deleteQueue s) = s"
  by simp_all

lemma dirty_inv: "inv_but D s \<Longrightarrow> inv_but D (OnChanged (Scene_SetDirty s True))"
proof -
  assume i: "inv_but D s"
  let ?s = "OnChanged (Scene_SetDirty s True)"
  have e: "t_objs ?s = t_objs s" by simp
  note p = inv_parts [OF i]
  have "slots_ok ?s = slots_ok s" by (rule slots_same) (simp_all add: objs_views(1) [OF e])
  moreover have "queues_ok ?s = queues_ok s" by (rule queues_same) (simp_all add: objs_views(1) [OF e])
  moreover have "scene_ok ?s" by (rule scene_ok_links [OF objs_views(3) [OF e] p(1)])
  moreover have "gone_ok D ?s" by (rule gone_shape [OF objs_views(1,2) [OF e] p(5)])
  moreover have "outside_ok ?s" using p(7) by (simp add: outside_ok_def objs_views(1) [OF e])
  ultimately show ?thesis using p by (simp add: inv_but_def cache_ok_def)
qed

lemma OnChanged_SetDirty_views: "few (OnChanged (Scene_SetDirty s d)) = few s" "size_of (OnChanged (Scene_SetDirty s d)) = size_of s"
    "par (OnChanged (Scene_SetDirty s d)) = par s"
  by (simp_all add: few_def size_of_def par_def)

lemma each_soft:
  assumes "\<And>s c s'. f s c = Inr s' \<Longrightarrow> soft s' = soft s"
  shows "each f s cs = Inr s' \<Longrightarrow> soft s' = soft s"
proof (induction cs arbitrary: s)
  case (Cons c cs)
  obtain s1 where s1: "f s c = Inr s1" "each f s1 cs = Inr s'" using Cons.prems by (auto simp: bind_res_eq_Inr)
  show ?case using Cons.IH [OF s1(2)] assms [OF s1(1)] by simp
qed simp

lemma UnlinkPrefab_soft: "UnlinkPrefab n t a = Inr t' \<Longrightarrow> soft t' = soft t"
proof (induction n arbitrary: t a t')
  case (Suc n)
  obtain r where r: "t_objs t a = Some r" using Suc.prems by (auto simp: bind_res_eq_Inr)
  let ?t1 = "case o_prefab r of None \<Rightarrow> t | Some pf \<Rightarrow> t\<lparr>t_uses := (t_uses t)(pf := t_uses t pf - 1)\<rparr>"
  let ?t = "upd a (\<lambda>r. r\<lparr>o_prefab := None, o_isOwner := False\<rparr>) ?t1"
  have q: "soft ?t = soft t" by (rule ext) (auto simp: soft_def option.map_comp comp_def split: option.split)
  have "soft u' = soft u" if u: "bind_res (obj u c) (\<lambda>k. if o_isOwner k \<or> o_prefab k = None then Inr u else UnlinkPrefab n u c) = Inr u'"
    for u u' :: "'a tree_scheme" and c
  proof -
    obtain k where "t_objs u c = Some k" "(if o_isOwner k \<or> o_prefab k = None then Inr u else UnlinkPrefab n u c) = Inr u'"
      using u by (auto simp: bind_res_eq_Inr)
    then show ?thesis using Suc.IH [of u c u'] by (auto split: if_splits)
  qed
  moreover have "each (\<lambda>t c. bind_res (obj t c) (\<lambda>k. if o_isOwner k \<or> o_prefab k = None then Inr t else UnlinkPrefab n t c)) ?t (o_children r) = Inr t'"
    using Suc.prems r by (simp add: obj_Some)
  ultimately have "soft t' = soft ?t" by (rule each_soft)
  then show ?case using q by simp
qed simp

lemma Prepare_ok:
  assumes inv: "inv_but {} s" and few: "few s" and w: "w > size_of s" and n: "n > 2 * size_of s + length (sc_newQueue s)"
    and len: "length (sc_sceneObjects s) + length (sc_newQueue s) < 2 ^ 64 - 1"
  shows "\<exists>s'. Prepare w n s = Inr s' \<and> inv_but {} s' \<and> few s' \<and> sc_newQueue s' = [] \<and> sc_deleteQueue s' = [] \<and> size_of s' \<le> size_of s \<and>
    (sc_isPreDestroyed s \<longrightarrow> (\<exists>A u. cleared A s u \<and> inv_but {} u \<and> (\<forall>x p. (x, p) \<in> par s \<longrightarrow> p \<in> A \<longrightarrow> x \<in> A) \<and> sc_newQueue u = [] \<and>
      (\<forall>x i. soft s' x = Some (True, i, False) \<longrightarrow> soft u x = Some (True, i, False))))"
proof -
  let ?any = "sc_deleteQueue s \<noteq> [] \<or> sc_newQueue s \<noteq> []"
  define s1 where "s1 = (if ?any then OnChanged (Scene_SetDirty s True) else s)"
  have i1: "inv_but {} s1" using inv dirty_inv by (simp add: s1_def)
  have q1: "sc_newQueue s1 = sc_newQueue s" "sc_deleteQueue s1 = sc_deleteQueue s" "sc_sceneObjects s1 = sc_sceneObjects s"
    "sc_isPreDestroyed s1 = sc_isPreDestroyed s" "few s1" "size_of s1 = size_of s" "par s1 = par s" "t_objs s1 = t_objs s"
    using few by (simp_all add: s1_def OnChanged_SetDirty_views)
  have c1: "?any \<Longrightarrow> t_changed s1" by (simp add: s1_def)
  have "\<exists>s2. (if sc_isPreDestroyed s then destroy_new w n s1 else Inr (fold (\<lambda>a s. place s a) (sc_newQueue s) s1)) = Inr s2 \<and>
      inv_but {} (with_new s2 []) \<and> few s2 \<and> size_of s2 \<le> size_of s \<and> (?any \<longrightarrow> t_changed s2) \<and> (\<not> ?any \<longrightarrow> s2 = s) \<and>
      (sc_isPreDestroyed s \<longrightarrow> (\<exists>A. cleared A s s2 \<and> (\<forall>x p. (x, p) \<in> par s \<longrightarrow> p \<in> A \<longrightarrow> x \<in> A) \<and> sc_newQueue s2 = [] \<and> inv_but {} s2))"
  proof (cases "sc_isPreDestroyed s")
    case True
    have "w > size_of s1" "n > 2 * size_of s1 + length (sc_newQueue s1)" using w n q1 by simp_all
    from destroy_new_ok [OF i1 q1(5) this] obtain s2 where s2': "destroy_new w n s1 = Inr s2 \<and> inv_but {} s2 \<and> few s2 \<and>
        size_of s2 \<le> size_of s1 \<and> sc_newQueue s2 = [] \<and> (t_changed s1 \<longrightarrow> t_changed s2) \<and>
        (\<exists>A. cleared A s1 s2 \<and> (\<forall>x p. (x, p) \<in> par s1 \<longrightarrow> p \<in> A \<longrightarrow> x \<in> A))" ..
    then obtain A where A: "cleared A s1 s2 \<and> (\<forall>x p. (x, p) \<in> par s1 \<longrightarrow> p \<in> A \<longrightarrow> x \<in> A)"
      by metis
    have s2: "destroy_new w n s1 = Inr s2" "inv_but {} s2" "few s2" "size_of s2 \<le> size_of s1" "sc_newQueue s2 = []"
      "t_changed s1 \<longrightarrow> t_changed s2" "cleared A s1 s2" "\<forall>x p. (x, p) \<in> par s1 \<longrightarrow> p \<in> A \<longrightarrow> x \<in> A"
      using s2' A by simp_all
    have "soft s1 = soft s" by (rule objs_views(1) [OF q1(8)])
    moreover have "kids s1 = kids s" by (simp add: fun_eq_iff kids_def q1(8))
    moreover have "t_changed s \<longrightarrow> t_changed s1" by (simp add: s1_def)
    ultimately have "cleared A s s2" using s2(7) q1 by (auto simp: cleared_def)
    moreover have "s2 = s" if "\<not> ?any"
      using that s2(1) n by (cases n) (simp_all add: s1_def)
    moreover have "inv_but {} (with_new s2 [])" using s2(2) with_same(1) [of s2] unfolding s2(5) by metis
    ultimately show ?thesis using True s2 q1 c1 by auto
  next
    case False
    show ?thesis
    proof (cases ?any)
      case True
      have "inv_but {} (with_new s1 (sc_newQueue s))" using i1 q1(1) by (metis with_same(1))
      note pl = place_all [OF this c1 [OF True]]
      have "length (sc_sceneObjects s1) + length (sc_newQueue s) < 2 ^ 64 - 1" using len q1 by simp
      note pl = pl [OF this, unfolded Let_def]
      then have "few (fold (\<lambda>a s. place s a) (sc_newQueue s) s1)" using q1(5) by (simp add: few_kids)
      then show ?thesis using pl q1 True False by auto
    next
      case none: False
      then have "inv_but {} (with_new s [])" using inv with_same(1) [of s] by metis
      then show ?thesis using none False inv few by (simp add: s1_def)
    qed
  qed
  then obtain s2 where s2: "(if sc_isPreDestroyed s then destroy_new w n s1 else Inr (fold (\<lambda>a s. place s a) (sc_newQueue s) s1)) = Inr s2"
    "inv_but {} (with_new s2 [])" "few s2" "size_of s2 \<le> size_of s" "?any \<longrightarrow> t_changed s2" "\<not> ?any \<longrightarrow> s2 = s"
    "sc_isPreDestroyed s \<longrightarrow> (\<exists>A. cleared A s s2 \<and> (\<forall>x p. (x, p) \<in> par s \<longrightarrow> p \<in> A \<longrightarrow> x \<in> A) \<and> sc_newQueue s2 = [] \<and> inv_but {} s2)"
    by blast
  let ?s3 = "with_new s2 []"
  have v3: "soft ?s3 = soft s2" "few ?s3" "size_of ?s3 \<le> size_of s" using s2(3,4) by (simp_all add: objs_views(1) [of ?s3 s2] few_def size_of_def)
  have "\<exists>s4. each (DestroyImpl w) ?s3 (sc_deleteQueue ?s3) = Inr s4 \<and> inv_but {} (with_deleted s4 []) \<and> few s4 \<and> size_of s4 \<le> size_of ?s3 \<and>
      tree.more s4 = tree.more ?s3"
  proof (cases ?any)
    case True
    have "inv_but {} (with_deleted ?s3 (sc_deleteQueue ?s3))" "t_changed ?s3" "w > size_of ?s3" using s2(2,5) True w v3(3) by simp_all
    then show ?thesis using free_all v3(2) by blast
  next
    case False
    then have "s2 = s" using s2(6) by blast
    then have d: "sc_deleteQueue ?s3 = []" using False by simp
    then have "inv_but {} (with_deleted ?s3 [])" using s2(2) with_same(2) [of ?s3] by metis
    then show ?thesis using d v3(2) by simp
  qed
  then obtain s4 where s4: "each (DestroyImpl w) ?s3 (sc_deleteQueue ?s3) = Inr s4" "inv_but {} (with_deleted s4 [])" "few s4"
    "size_of s4 \<le> size_of ?s3" "tree.more s4 = tree.more ?s3" by blast
  let ?s = "with_deleted s4 []"
  have "Prepare w n s = Inr ?s" unfolding Prepare_def Let_def s1_def [symmetric] q1(4) s2(1) bind_res_Inr s4(1) ..
  moreover have "sc_newQueue ?s = []" using more_fields(3) [OF s4(5)] by simp
  moreover have "few ?s" "size_of ?s \<le> size_of s" using s4(3,4) v3(3) by (simp_all add: few_def size_of_def)
  moreover have "soft s2 x = Some (True, i, False)" if x: "soft ?s x = Some (True, i, False)" for x i
  proof -
    have so: "soft ?s = soft s4" by (rule objs_views(1)) simp
    have keeps: "each (DestroyImpl w) t xs = Inr t' \<Longrightarrow> soft t' x = None \<or> soft t' x = soft t x" for t :: scene and t' xs
    proof (induction xs arbitrary: t)
      case (Cons a xs)
      obtain t1 where t1: "DestroyImpl w t a = Inr t1" "each (DestroyImpl w) t1 xs = Inr t'" using Cons.prems by (auto simp: bind_res_eq_Inr)
      have "soft t1 x = None \<or> soft t1 x = soft t x"
      proof -
        obtain r t2 where r: "t_objs t a = Some r" "(if o_prefab r \<noteq> None then UnlinkPrefab w t a else Inr t) = Inr t2" "t1 = free_object t2 a"
          using t1(1) by (auto simp: DestroyImpl_def bind_res_eq_Inr)
        have "soft t2 = soft t" using r(2) UnlinkPrefab_soft by (auto split: if_splits)
        then show ?thesis using r(3) by (simp add: free_soft)
      qed
      then show ?case using Cons.IH [OF t1(2)] by auto
    qed simp
    show ?thesis using keeps [OF s4(1)] x so v3(1) by simp
  qed
  ultimately show ?thesis using s4(2) s2(7) by (intro exI [of _ ?s]) auto
qed


section \<open>Roots and the end of the scene\<close>

lemma parentless_filter: "(\<And>a. Some a \<in> set os \<Longrightarrow> t_objs t a \<noteq> None) \<Longrightarrow>
    parentless t os = Inr (filter (\<lambda>a. parent_of t a = None) (List.map_filter (\<lambda>x. x) os))"
proof (induction os)
  case (Cons x os)
  have IH: "parentless t os = Inr (filter (\<lambda>a. parent_of t a = None) (List.map_filter (\<lambda>x. x) os))" using Cons by simp
  show ?case
  proof (cases x)
    case (Some a)
    then obtain r where "t_objs t a = Some r" using Cons.prems [of a] by auto
    then show ?thesis using Some IH by (simp add: List.map_filter_def obj_Some parent_of_def)
  qed (use IH in \<open>simp add: List.map_filter_def\<close>)
qed (simp add: List.map_filter_def)

lemma GetRoots_ok:
  assumes inv: "inv_but {} s"
  shows "\<exists>s'. GetRootSceneObjects s = Inr (filter (\<lambda>a. parent_of s a = None) (List.map_filter (\<lambda>x. x) (sc_sceneObjects s)), s') \<and>
    inv_but {} s' \<and> t_objs s' = t_objs s \<and> sc_sceneObjects s' = sc_sceneObjects s \<and> sc_newQueue s' = sc_newQueue s \<and>
    sc_isPreDestroyed s' = sc_isPreDestroyed s"
proof (cases "t_changed s")
  case False
  then show ?thesis using inv inv_parts(6) [OF inv] by (simp add: GetRootSceneObjects_def cache_ok_def)
next
  case True
  note p = inv_parts [OF inv]
  let ?as = "filter (\<lambda>a. parent_of s a = None) (List.map_filter (\<lambda>x. x) (sc_sceneObjects s))"
  let ?s = "s\<lparr>sc_root := ?as, t_changed := False\<rparr>"
  have "t_objs s a \<noteq> None" if "Some a \<in> set (sc_sceneObjects s)" for a using slot_soft [OF p(3) that] by (auto simp: soft_def)
  then have "parentless s (sc_sceneObjects s) = Inr ?as" by (rule parentless_filter)
  then have "GetRootSceneObjects s = Inr (?as, ?s)" using True by (simp add: GetRootSceneObjects_def)
  moreover have e: "t_objs ?s = t_objs s" by simp
  have "inv_but {} ?s"
  proof -
    have "slots_ok ?s = slots_ok s" by (rule slots_same) (simp_all add: objs_views(1) [OF e])
    moreover have "queues_ok ?s = queues_ok s" by (rule queues_same) (simp_all add: objs_views(1) [OF e])
    moreover have "scene_ok ?s" by (rule scene_ok_links [OF objs_views(3) [OF e] p(1)])
    moreover have "gone_ok {} ?s" by (rule gone_shape [OF objs_views(1,2) [OF e] p(5)])
    moreover have "outside_ok ?s" using p(7) by (simp add: outside_ok_def objs_views(1) [OF e])
    moreover have "parent_of ?s = parent_of s" by (rule ext) (simp add: parent_of_def)
    ultimately show ?thesis using p by (simp add: inv_but_def cache_ok_def)
  qed
  ultimately show ?thesis by (intro exI [of _ ?s]) simp
qed

lemma slots_distinct: "slots_ok s \<Longrightarrow> distinct (List.map_filter (\<lambda>x. x) (sc_sceneObjects s))"
proof -
  assume sl: "slots_ok s"
  have one: "i = j" if ij: "i < length (sc_sceneObjects s)" "j < length (sc_sceneObjects s)" "sc_sceneObjects s ! i = Some a" "sc_sceneObjects s ! j = Some a" for i j a
  proof -
    have "soft s a = Some (True, of_nat i, False)" "soft s a = Some (True, of_nat j, False)" using sl ij unfolding slots_ok_def by blast+
    then have "of_nat i = (of_nat j :: u64)" by simp
    moreover have "length (sc_sceneObjects s) < 2 ^ 64 - 1" using sl by (simp add: slots_ok_def)
    then have "i < 2 ^ 64 - 1" "j < 2 ^ 64 - 1" using ij(1,2) by linarith+
    ultimately show ?thesis using unat_slot by metis
  qed
  have "distinct (List.map_filter (\<lambda>x. x) os)" if "\<And>i j a. i < length os \<Longrightarrow> j < length os \<Longrightarrow> os ! i = Some a \<Longrightarrow> os ! j = Some a \<Longrightarrow> i = j" for os :: "nat option list"
    using that
  proof (induction os)
    case (Cons x os)
    have "distinct (List.map_filter (\<lambda>x. x) os)" by (rule Cons.IH) (use Cons.prems [of "Suc i" "Suc j" for i j] in auto)
    moreover have "a \<notin> set (List.map_filter (\<lambda>x. x) os)" if xa: "x = Some a" for a
    proof
      assume "a \<in> set (List.map_filter (\<lambda>x. x) os)"
      then obtain j where "j < length os" "os ! j = Some a" by (auto simp: somes_set in_set_conv_nth)
      then show False using Cons.prems [of 0 "Suc j" a] xa by simp
    qed
    ultimately show ?case by (cases x) (simp_all add: List.map_filter_def)
  qed (simp add: List.map_filter_def)
  then show ?thesis using one by blast
qed

text \<open>The roots are destroyed one after the other; the subtrees do not meet.\<close>

lemma destroy_roots:
  "inv_but {} s \<Longrightarrow> few s \<Longrightarrow> w > size_of s \<Longrightarrow> n \<ge> 2 * size_of s \<Longrightarrow> distinct rs \<Longrightarrow>
   (\<And>r. r \<in> set rs \<Longrightarrow> (\<exists>i. soft s r = Some (True, i, False)) \<and> (\<forall>p. (r, p) \<notin> par s)) \<Longrightarrow>
   \<exists>s' A. each (Destroy w n) s rs = Inr s' \<and> inv_but {} s' \<and> size_of s' \<le> size_of s \<and> set rs \<subseteq> A \<and> cleared A s s' \<and>
     (\<forall>x p. (x, p) \<in> par s \<longrightarrow> p \<in> A \<longrightarrow> x \<in> A)"
proof (induction rs arbitrary: s)
  case Nil
  then show ?case using cleared_refl [of s] by auto
next
  case (Cons r rs)
  note p = inv_parts [OF Cons.prems(1)]
  obtain i where "soft s r = Some (True, i, False)" using Cons.prems(6) [of r] by auto
  then obtain q where q: "t_objs s r = Some q" "\<not> o_isDestroyed q" by (auto simp: soft_def)
  have "card (desc s r) \<le> size_of s"
    using desc_alive [OF p(2)] q(1) p(2) unfolding size_of_def by (intro card_mono) (auto simp: forest_def)
  then have "n \<ge> 2 * card (desc s r)" using Cons.prems(4) by simp
  then obtain s1 where s1: "Destroy w n s r = Inr s1" "inv_but {} s1" "cleared (desc s r) s s1" "size_of s1 \<le> size_of s"
    using conjunct1 [OF Destroy_ok [of w n], rule_format, OF Cons.prems(1) q Cons.prems(2,3)] by blast
  have rest: "(\<exists>i. soft s1 x = Some (True, i, False)) \<and> (\<forall>p. (x, p) \<notin> par s1)" if x: "x \<in> set rs" for x
  proof -
    have "x \<noteq> r" "\<forall>p. (x, p) \<notin> par s" using x Cons.prems(5,6) by auto
    then have "x \<notin> desc s r" by (auto simp: desc_forest [OF p(2)] elim: converse_rtranclE)
    then show ?thesis using s1(3) Cons.prems(6) [of x] x by (auto simp: cleared_def)
  qed
  have "few s1" using s1(3) by (simp add: cleared_def)
  then obtain s2 A where s2: "each (Destroy w n) s1 rs = Inr s2" "inv_but {} s2" "size_of s2 \<le> size_of s1" "set rs \<subseteq> A" "cleared A s1 s2"
    "\<forall>x p. (x, p) \<in> par s1 \<longrightarrow> p \<in> A \<longrightarrow> x \<in> A"
    using Cons.IH [OF s1(2) _ _ _ _ rest] Cons.prems(3-5) s1(4) by fastforce
  have "x \<in> desc s r \<union> A" if xp: "(x, p) \<in> par s" "p \<in> desc s r \<union> A" for x p
  proof (cases "x \<in> desc s r")
    case False
    then have "(x, p) \<in> par s1" "p \<notin> desc s r" using xp s1(3) desc_closed [OF p(2) xp(1)] by (auto simp: cleared_def)
    then show ?thesis using s2(6) xp(2) by blast
  qed simp
  moreover have "cleared (desc s r \<union> A) s s2" by (rule cleared_trans [OF s1(3) s2(5)])
  moreover have "set (r # rs) \<subseteq> desc s r \<union> A" using s2(4) by auto
  ultimately show ?case using s1(1,4) s2(1-3) by (intro exI [of _ s2] exI [of _ "desc s r \<union> A"]) simp
qed

lemma top_exists:
  assumes f: "forest t"
  shows "t_objs t x \<noteq> None \<Longrightarrow> \<exists>y. (x, y) \<in> (par t)\<^sup>* \<and> (\<forall>p. (y, p) \<notin> par t)"
proof (induction "depth t x" arbitrary: x rule: less_induct)
  case less
  show ?case
  proof (cases "\<exists>p. (x, p) \<in> par t")
    case True
    then obtain p where p: "(x, p) \<in> par t" by blast
    have "t_objs t p \<noteq> None" using forestD(1) [OF f] p by (fastforce simp: par_def)
    then obtain y where "(p, y) \<in> (par t)\<^sup>*" "\<forall>q. (y, q) \<notin> par t" using less.hyps [OF depth_parent [OF f p]] by blast
    then show ?thesis using converse_rtrancl_into_rtrancl [OF p] by blast
  qed blast
qed

lemma pre_inv: "inv_but {} s \<Longrightarrow> inv_but {} (s\<lparr>sc_isPreDestroyed := b\<rparr>)"
proof -
  assume i: "inv_but {} s"
  let ?s = "s\<lparr>sc_isPreDestroyed := b\<rparr>"
  have e: "t_objs ?s = t_objs s" by simp
  note p = inv_parts [OF i]
  have "slots_ok ?s = slots_ok s" by (rule slots_same) (simp_all add: objs_views(1) [OF e])
  moreover have "queues_ok ?s = queues_ok s" by (rule queues_same) (simp_all add: objs_views(1) [OF e])
  moreover have "scene_ok ?s" by (rule scene_ok_links [OF objs_views(3) [OF e] p(1)])
  moreover have "gone_ok {} ?s" by (rule gone_shape [OF objs_views(1,2) [OF e] p(5)])
  moreover have "outside_ok ?s" using p(7) by (simp add: outside_ok_def objs_views(1) [OF e])
  moreover have "parent_of ?s = parent_of s" by (rule ext) (simp add: parent_of_def)
  ultimately show ?thesis using p by (simp add: inv_but_def cache_ok_def)
qed

lemma cleared_gone: "cleared A s t \<Longrightarrow> x \<in> A \<Longrightarrow> soft t x \<noteq> Some (c, i, False)"
  unfolding cleared_def by fastforce

lemma Scene_Destroy_ok:
  assumes inv: "inv_but {} s" and few: "few s" and w: "w > size_of s" and n: "n > 2 * size_of s + length (sc_newQueue s)"
    and len: "length (sc_sceneObjects s) + length (sc_newQueue s) < 2 ^ 64 - 1" and nd: "\<not> sc_isDestroyed s"
    and whole: "\<And>c p. (c, p) \<in> par s \<Longrightarrow> in_scene s c \<Longrightarrow> in_scene s p"
  shows "\<exists>s'. Scene_Destroy w n s = Inr (True, s') \<and> (\<forall>x. \<not> in_scene s' x) \<and> sc_newQueue s' = [] \<and> sc_deleteQueue s' = [] \<and>
    length (sc_freeObjIndices s') = length (sc_sceneObjects s')"
proof -
  let ?s0 = "s\<lparr>sc_isPreDestroyed := True\<rparr>"
  let ?roots = "filter (\<lambda>a. parent_of s a = None) (List.map_filter (\<lambda>x. x) (sc_sceneObjects s))"
  have po: "parent_of ?s0 = parent_of s" by (rule ext) (simp add: parent_of_def)
  obtain s1 where s1: "GetRootSceneObjects ?s0 = Inr (?roots, s1)" "inv_but {} s1" "t_objs s1 = t_objs s" "sc_sceneObjects s1 = sc_sceneObjects s"
    "sc_newQueue s1 = sc_newQueue s" "sc_isPreDestroyed s1"
    using GetRoots_ok [OF pre_inv [OF inv, of True]] po by auto
  have v1: "soft s1 = soft s" "shape s1 = shape s" by (rule objs_views [OF s1(3)])+
  have par1: "par s1 = par s" by (rule same_shape_par [OF v1(2)])
  have size1: "size_of s1 = size_of s" "few s1" using s1(3) few by (simp_all add: size_of_def few_def)
  note p1 = inv_parts [OF s1(2)]
  have rs: "(\<exists>i. soft s1 r = Some (True, i, False)) \<and> (\<forall>p. (r, p) \<notin> par s1)" if r: "r \<in> set ?roots" for r
  proof -
    have "Some r \<in> set (sc_sceneObjects s1)" "parent_of s r = None" using r s1(4) by (auto simp: somes_set)
    then show ?thesis using slot_soft [OF p1(3)] by (auto simp: par_def parent_of_def s1(3))
  qed
  have "distinct ?roots" using slots_distinct [OF inv_parts(3) [OF inv]] by simp
  then obtain s2 A where s2: "each (Destroy w n) s1 ?roots = Inr s2" "inv_but {} s2" "size_of s2 \<le> size_of s" "set ?roots \<subseteq> A" "cleared A s1 s2"
    "\<And>x p. (x, p) \<in> par s \<Longrightarrow> p \<in> A \<Longrightarrow> x \<in> A"
    using destroy_roots [OF s1(2) size1(2) _ _ _ rs, of w n] w n unfolding size1(1) par1 by fastforce
  have c2: "set (sc_newQueue s2) = set (sc_newQueue s) - A" "length (sc_sceneObjects s2) = length (sc_sceneObjects s)" "sc_isPreDestroyed s2" "few s2"
    using s2(5) s1(4-6) by (simp_all add: cleared_def)
  have "length (sc_newQueue s2) = card (set (sc_newQueue s2))" "length (sc_newQueue s) = card (set (sc_newQueue s))"
    using inv_parts(4) [OF s2(2)] inv_parts(4) [OF inv] by (simp_all add: queues_ok_def distinct_card)
  then have new2: "length (sc_newQueue s2) \<le> length (sc_newQueue s)" unfolding c2(1) by (simp add: card_mono)
  have "w > size_of s2" "n > 2 * size_of s2 + length (sc_newQueue s2)" "length (sc_sceneObjects s2) + length (sc_newQueue s2) < 2 ^ 64 - 1"
    using w n len s2(3) new2 c2(2) by simp_all
  from Prepare_ok [OF s2(2) c2(4) this] c2(3) obtain s3 B u where s3: "Prepare w n s2 = Inr s3" "inv_but {} s3" "sc_newQueue s3 = []" "sc_deleteQueue s3 = []"
    "cleared B s2 u" "inv_but {} u" "\<And>x p. (x, p) \<in> par s2 \<Longrightarrow> p \<in> B \<Longrightarrow> x \<in> B" "sc_newQueue u = []"
    "\<And>x i. soft s3 x = Some (True, i, False) \<Longrightarrow> soft u x = Some (True, i, False)" by blast
  have cu: "cleared (A \<union> B) s1 u" by (rule cleared_trans [OF s2(5) s3(5)])
  have closed: "x \<in> A \<union> B" if xp: "(x, p) \<in> par s" "p \<in> A \<union> B" for x p
  proof (cases "x \<in> A")
    case False
    then have "(x, p) \<in> par s2" "p \<notin> A" using xp s2(5,6) par1 by (auto simp: cleared_def)
    then show ?thesis using s3(7) xp(2) by blast
  qed simp
  have down: "(x, y) \<in> (par s)\<^sup>* \<Longrightarrow> y \<in> A \<union> B \<Longrightarrow> x \<in> A \<union> B" for x y
    by (induction rule: converse_rtrancl_induct) (use closed in blast)+
  have none: "soft s3 x \<noteq> Some (True, i, False)" for x i
  proof
    assume "soft s3 x = Some (True, i, False)"
    then have ux: "soft u x = Some (True, i, False)" by (rule s3(9))
    then have out: "x \<notin> A \<union> B" using cleared_gone [OF cu, of x] by auto
    then have sx: "soft s x = Some (True, i, False)" using cu ux v1(1) by (simp add: cleared_def)
    have f: "forest s" by (rule inv_parts(2) [OF inv])
    have "t_objs s x \<noteq> None" using sx by (auto simp: soft_def)
    then obtain y where y: "(x, y) \<in> (par s)\<^sup>*" "\<And>p. (y, p) \<notin> par s" using top_exists [OF f] by blast
    have "in_scene s y" using y(1)
      by (induction rule: rtrancl_induct) (use sx whole in \<open>auto simp: soft_in_scene\<close>)
    then obtain j d where sy: "soft s y = Some (True, j, d)" by (auto simp: soft_in_scene)
    have "\<not> d"
    proof
      assume d
      then obtain q where q: "t_objs s y = Some q" "o_isDestroyed q" using sy by (auto simp: soft_def)
      then have nc: "o_children q = []" using inv_parts(5) [OF inv] by (simp add: gone_ok_def)
      have "x = y"
      proof (rule ccontr)
        assume "x \<noteq> y"
        then obtain z where "(z, y) \<in> par s" using y(1) by (auto elim: rtranclE)
        then show False using kids_children [OF f, of z y] q(1) nc by (simp add: kids_def)
      qed
      then show False using sx sy \<open>d\<close> by simp
    qed
    then have "y \<in> set (sc_newQueue s) \<or> Some y \<in> set (sc_sceneObjects s)"
      using sy inv_parts(4) [OF inv] by (auto simp: queues_ok_def)
    moreover have "y \<notin> A \<union> B" using down [OF y(1)] out by blast
    moreover have "set (sc_newQueue u) = set (sc_newQueue s) - (A \<union> B)" using cu s1(5) by (simp add: cleared_def)
    moreover have "parent_of s y = None"
      using y(2) by (cases "t_objs s y") (auto simp: parent_of_def par_def intro: ccontr)
    ultimately show False using s2(4) s3(8) by (auto simp: somes_set)
  qed
  let ?s = "s3\<lparr>sc_isDestroyed := True, t_changed := True\<rparr>"
  have so: "soft ?s = soft s3" by (rule objs_views(1)) simp
  have gone: "\<not> in_scene ?s x" for x
  proof
    assume "in_scene ?s x"
    then obtain i d where "soft s3 x = Some (True, i, d)" unfolding soft_in_scene so by blast
    then show False using none [of x i] inv_parts(4) [OF s3(2)] s3(4) by (cases d) (auto simp: queues_ok_def)
  qed
  have "sc_sceneObjects s3 ! i = None" if "i < length (sc_sceneObjects s3)" for i
    using that none inv_parts(3) [OF s3(2)] unfolding slots_ok_def by (metis not_None_eq)
  then have "set (sc_freeObjIndices s3) = {..<length (sc_sceneObjects s3)}" "distinct (sc_freeObjIndices s3)"
    using inv_parts(3) [OF s3(2)] by (auto simp: slots_ok_def)
  then have "length (sc_freeObjIndices s3) = length (sc_sceneObjects s3)" using distinct_card [of "sc_freeObjIndices s3"] by simp
  moreover have "Scene_Destroy w n s = Inr (True, ?s)" using nd s1(1) s2(1) s3(1) by (simp add: Scene_Destroy_def)
  ultimately show ?thesis using gone s3(3,4) by (intro exI [of _ ?s]) simp
qed


section \<open>Layers and the enabled flag\<close>

lemma SetLayer_ends:
  fixes t :: "'x tree_scheme"
  assumes f: "forest t" and a: "t_objs t a \<noteq> None" and n: "n > size_of t"
  shows "\<exists>t'. SetLayer n t a layer = Inr t' \<and> links t' = links t \<and> calm t t'"
proof -
  obtain r where r: "t_objs t a = Some r" using a by blast
  have "\<exists>l. (case o_parent r of None \<Rightarrow> Inr layer
      | Some p \<Rightarrow> if t_default t = layer then bind_res (obj t p) (\<lambda>q. Inr (o_cachedLayer q)) else Inr layer) = Inr l"
    using forestD(1) [OF f r] by (fastforce simp: obj_Some split: option.split)
  then obtain l where l: "(case o_parent r of None \<Rightarrow> Inr layer
      | Some p \<Rightarrow> if t_default t = layer then bind_res (obj t p) (\<lambda>q. Inr (o_cachedLayer q)) else Inr layer) = Inr l" ..
  show ?thesis
  proof (cases "l = o_layer r \<and> o_cachedLayer r = o_layer r")
    case True
    then show ?thesis using r l by (auto simp: SetLayer_def obj_Some)
  next
    case False
    let ?t = "upd a (\<lambda>r. r\<lparr>o_layer := l, o_cachedLayer := l\<rparr>) t"
    have l0: "links ?t = links t" by (rule links_upd) simp
    have c0: "calm t ?t" by (rule calm_upd) simp
    have "\<exists>s. each (OnParentLayerChanged n) ?t (o_children r) = Inr s \<and> links s = links t"
    proof (rule each_keeps [where P = "\<lambda>s. links s = links t"])
      fix s :: "'x tree_scheme" and c assume s: "links s = links t" and c: "c \<in> set (o_children r)"
      obtain k where k: "t_objs t c = Some k" "o_parent k = Some a" using forestD(2) [OF f r c] by blast
      obtain k' where k': "t_objs s c = Some k'" "o_parent k' = Some a" using links_get [OF s k(1)] k(2) by metis
      have "t_objs s a \<noteq> None" using links_alive [OF s] a by simp
      moreover have "walk_ok (height t) s c" using walk_forest [OF f, of c] walk_shape [OF links_shape [OF s]] k by simp
      moreover have "height t c < n" using height_bound [OF f, of c] k n by simp
      ultimately show "\<exists>s'. OnParentLayerChanged n s c = Inr s' \<and> links s' = links t"
        using OnParentLayerChanged_ends [of s c "height t" n] k' s by auto
    qed (rule l0)
    then obtain s where s: "each (OnParentLayerChanged n) ?t (o_children r) = Inr s" "links s = links t" by blast
    have "calm ?t s" using s(1) by (rule each_calm [rotated]) (rule OnParentLayerChanged_calm)
    then show ?thesis using r l False s calm_trans [OF c0] by (auto simp: SetLayer_def obj_Some)
  qed
qed

lemma SetEnabled_ends:
  fixes t :: "'x tree_scheme"
  assumes f: "forest t" and a: "t_objs t a \<noteq> None" and n: "n > size_of t"
  shows "\<exists>t'. SetEnabled n t a b = Inr t' \<and> links t' = links t \<and> calm t t'"
proof -
  obtain r where r: "t_objs t a = Some r" using a by blast
  show ?thesis
  proof (cases "o_isEnabled r = b")
    case True
    then show ?thesis using r by (simp add: SetEnabled_def obj_Some)
  next
    case False
    let ?t = "upd a (o_isEnabled_update (\<lambda>_. b)) t"
    have l: "links ?t = links t" by (rule links_upd) simp
    have "forest ?t" by (rule forest_shape [OF links_shape [OF l] f])
    moreover have "n > depth ?t a" using depth_bound [OF f a] shape_depth [OF links_shape [OF l]] n by simp
    ultimately obtain t' where t': "SetDirty n ?t a True = Inr (True, t')" "links t' = links ?t" using SetDirty_ends [of ?t a n] r by auto
    have "calm t ?t" by (rule calm_upd) simp
    then have "calm t t'" using SetDirty_calm(1) [OF t'(1)] calm_trans by blast
    then show ?thesis using r False t' l by (simp add: SetEnabled_def obj_Some)
  qed
qed

section \<open>Sequences of calls\<close>

definition scene_good :: "scene \<Rightarrow> bool" where
  "scene_good s \<longleftrightarrow> scene_inv s \<and> few s"

lemma calm_links_good:
  fixes s s' :: scene
  assumes g: "scene_good s" and c: "calm s s'" and l: "links s' = links s"
  shows "scene_good s'"
proof -
  have i: "inv_but {} s" "few s" using g by (simp_all add: scene_good_def scene_inv_def)
  note p = inv_parts [OF i(1)]
  note t = calm_tables [OF c]
  have "kids s' = kids s" using links_shape [OF l] by (simp add: fun_eq_iff shape_kids)
  then have "few s'" using i(2) by (simp add: few_kids)
  moreover have "inv_but {} s'"
    using p t scene_ok_links [OF l p(1)] gone_shape [OF calm_soft [OF c] links_shape [OF l] p(5)] calm_soft [OF c]
    by (simp add: inv_but_def outside_ok_def)
  ultimately show ?thesis by (simp add: scene_good_def scene_inv_def)
qed

lemma kids_card:
  assumes f: "forest t" and r: "t_objs t p = Some r"
  shows "length (o_children r) = card {x. (x, p) \<in> par t}"
proof -
  have "set (o_children r) = {x. (x, p) \<in> par t}" unfolding chi_forest [OF f, symmetric] using r by (auto simp: chi_def)
  then show ?thesis using distinct_card [OF forestD(3) [OF f r]] by simp
qed

lemma children_finite: "forest t \<Longrightarrow> finite {x. (x, p) \<in> par t}"
  by (rule finite_subset [of _ "dom (t_objs t)"]) (auto simp: forest_def par_def)

lemma MoveToTree_good:
  fixes s :: scene
  assumes g: "scene_good s" and k: "t_objs s c = Some k" "\<not> o_isDestroyed k" and n: "n > size_of s"
    and dest: "\<And>d. dest = Some d \<Longrightarrow> \<exists>q. t_objs s d = Some q \<and> \<not> o_isDestroyed q \<and> length (o_children q) < 65536"
  shows "\<exists>b s'. MoveToTree n s c dest = Inr (b, s') \<and> scene_good s' \<and> (b \<longleftrightarrow> (\<forall>d. dest = Some d \<longrightarrow> (d, c) \<notin> (par s)\<^sup>*))"
proof -
  have i: "inv_but {} s" "few s" using g by (simp_all add: scene_good_def scene_inv_def)
  note p = inv_parts [OF i(1)]
  have "length (o_children q) \<le> 65536" if "t_objs s x = Some q" for x q using i(2) that by (auto simp: few_def)
  then obtain b s' where s': "MoveToTree n s c dest = Inr (b, s')" "calm s s'" "scene_ok s'" "dom (t_objs s') = dom (t_objs s)"
    "b \<longleftrightarrow> (\<forall>d. dest = Some d \<longrightarrow> (d, c) \<notin> (par s)\<^sup>*)" "map_option o_parent (t_objs s' c) = Some (if b then dest else None)"
    "\<And>x. x \<noteq> c \<Longrightarrow> map_option o_parent (t_objs s' x) = map_option o_parent (t_objs s x)"
    using MoveToTree_cases [OF p(1) k(1) _ _ n, of dest] dest by fastforce
  have f': "forest s'" using s'(3) by (simp add: scene_ok_def)
  have par_iff: "(x, y) \<in> par u \<longleftrightarrow> map_option o_parent (t_objs u x) = Some (Some y)" for u :: scene and x y by (auto simp: par_def)
  have other: "(x, y) \<in> par s' \<Longrightarrow> x \<noteq> c \<Longrightarrow> (x, y) \<in> par s" for x y using s'(7) by (simp add: par_iff)
  have up: "(c, y) \<in> par s' \<Longrightarrow> dest = Some y" for y using s'(6) by (auto simp: par_iff split: if_splits)
  have so: "soft s' = soft s" by (rule calm_soft [OF s'(2)])
  have "gone_ok {} s'"
    unfolding gone_ok_def
  proof (intro allI impI)
    fix a r' assume r': "t_objs s' a = Some r'" "o_isDestroyed r'"
    obtain r where r: "t_objs s a = Some r" "o_isDestroyed r" "o_inScene r = o_inScene r'" using fun_cong [OF so, of a] r' by (cases "t_objs s a") (auto simp: soft_def)
    then have old: "o_parent r = None" "o_inScene r" "o_children r = []" using p(5) by (auto simp: gone_ok_def)
    have ac: "a \<noteq> c" using r(1,2) k by auto
    then have "o_parent r' = None" using s'(7) [OF ac] r' r old by simp
    moreover have "(x, a) \<notin> par s'" for x
    proof
      assume x: "(x, a) \<in> par s'"
      show False
      proof (cases "x = c")
        case True
        then have "dest = Some a" using up x by simp
        then show False using dest r(1,2) by auto
      next
        case False
        then have "(x, a) \<in> par s" using other x by simp
        then show False using kids_children [OF p(2)] r(1) old(3) by (fastforce simp: kids_def)
      qed
    qed
    then have "o_children r' = []" using kids_card [OF f' r'(1)] by simp
    ultimately show "o_parent r' = None \<and> (a \<notin> {} \<longrightarrow> o_inScene r' \<and> o_children r' = [])" using old r(3) by simp
  qed
  then have "inv_but {} s'" using p calm_tables [OF s'(2)] s'(3) so by (simp add: inv_but_def outside_ok_def)
  moreover have "few s'"
    unfolding few_def
  proof (intro allI impI)
    fix a r' assume r': "t_objs s' a = Some r'"
    then obtain r where r: "t_objs s a = Some r" using s'(4) by (metis domD domI)
    show "length (o_children r') \<le> 65536"
    proof (cases "dest = Some a")
      case True
      have "{x. (x, a) \<in> par s'} \<subseteq> insert c {x. (x, a) \<in> par s}" using other by auto
      then have "card {x. (x, a) \<in> par s'} \<le> card (insert c {x. (x, a) \<in> par s})"
        using children_finite [OF p(2), of a] by (intro card_mono) auto
      also have "\<dots> \<le> Suc (card {x. (x, a) \<in> par s})" by (rule card_insert_le_m1) simp_all
      finally have "card {x. (x, a) \<in> par s'} \<le> Suc (card {x. (x, a) \<in> par s})" .
      then show ?thesis using kids_card [OF f' r'] kids_card [OF p(2) r] dest [OF True] r by auto
    next
      case False
      have "{x. (x, a) \<in> par s'} \<subseteq> {x. (x, a) \<in> par s}" using other up False by auto
      then have "card {x. (x, a) \<in> par s'} \<le> card {x. (x, a) \<in> par s}" using children_finite [OF p(2), of a] by (rule card_mono [rotated])
      moreover have "length (o_children r) \<le> 65536" using i(2) r by (simp add: few_def)
      ultimately show ?thesis using kids_card [OF f' r'] kids_card [OF p(2) r] by simp
    qed
  qed
  ultimately show ?thesis using s'(1,5) by (auto simp: scene_good_def scene_inv_def)
qed

lemma GameObject_new_good:
  fixes s :: scene
  assumes g: "scene_good s" and a: "t_objs s a = None" and i: "\<And>b r. t_objs s b = Some r \<Longrightarrow> o_id r \<noteq> i"
  shows "scene_good (GameObject_new s a i name)"
proof -
  have inv: "inv_but {} s" "few s" using g by (simp_all add: scene_good_def scene_inv_def)
  note p = inv_parts [OF inv(1)]
  let ?s = "GameObject_new s a i name"
  have o: "x \<noteq> a \<Longrightarrow> t_objs ?s x = t_objs s x" for x by (simp add: GameObject_new_def)
  obtain r where r: "t_objs ?s a = Some r" "o_id r = i" "o_parent r = None" "o_children r = []" "o_root r = None" "\<not> o_isDestroyed r" "\<not> o_inScene r"
    "o_idInScene r = SR_ID_INVALID" by (simp add: GameObject_new_def)
  have par: "par ?s = par s"
  proof -
    have "(x, y) \<in> par ?s \<longleftrightarrow> (x, y) \<in> par s" for x y using o [of x] r a by (cases "x = a") (auto simp: par_def)
    then show ?thesis by auto
  qed
  have npar: "(x, a) \<notin> par s" for x using forestD(1) [OF p(2)] a by (fastforce simp: par_def)
  have nkid: "a \<notin> set (o_children q)" if "t_objs s x = Some q" for x q using forestD(2) [OF p(2) that] a by fastforce
  have "linked ?s"
    unfolding linked_def
  proof (intro allI impI)
    fix x q assume q: "t_objs ?s x = Some q"
    show "(\<forall>p. o_parent q = Some p \<longrightarrow> (\<exists>v. t_objs ?s p = Some v \<and> x \<in> set (o_children v))) \<and>
        (\<forall>c\<in>set (o_children q). \<exists>k. t_objs ?s c = Some k \<and> o_parent k = Some x) \<and> distinct (o_children q)"
    proof (cases "x = a")
      case True
      then show ?thesis using q r by auto
    next
      case False
      then have q': "t_objs s x = Some q" using q o by simp
      have "y \<noteq> a" if "o_parent q = Some y" for y using npar q' that by (auto simp: par_def)
      then show ?thesis using forestD [OF p(2) q'] nkid [OF q'] o by metis
    qed
  qed
  moreover have "unique_ids ?s"
    unfolding unique_ids_def
  proof (intro allI impI)
    fix x y q v assume q: "t_objs ?s x = Some q" "t_objs ?s y = Some v" "o_id q = o_id v"
    show "x = y"
    proof (cases "x = a \<or> y = a")
      case True
      have "o_id v' \<noteq> i" if "t_objs ?s z = Some v'" "z \<noteq> a" for z v' using that i o by metis
      then show ?thesis using True q r(1,2) by (metis option.inject)
    next
      case False
      then show ?thesis using q o p(2) unfolding forest_def unique_ids_def by metis
    qed
  qed
  moreover have "finite (dom (t_objs ?s))" using p(2) by (simp add: GameObject_new_def forest_def)
  ultimately have f: "forest ?s" using p(2) par by (simp add: forest_def)
  have "roots_ok ?s"
    unfolding roots_ok_def
  proof (intro allI impI)
    fix x q assume q: "t_objs ?s x = Some q"
    show "case o_parent q of None \<Rightarrow> o_root q = None \<or> o_root q = Some x | Some p \<Rightarrow> o_root q = root_at ?s p"
    proof (cases "x = a")
      case True
      then show ?thesis using q r by simp
    next
      case False
      then have q': "t_objs s x = Some q" using q o by simp
      have "case o_parent q of None \<Rightarrow> o_root q = None \<or> o_root q = Some x | Some p \<Rightarrow> o_root q = root_at s p"
        using p(1) q' unfolding scene_ok_def roots_ok_def by blast
      moreover have "root_at ?s y = root_at s y" if "o_parent q = Some y" for y
      proof -
        have "y \<noteq> a" using npar q' that by (auto simp: par_def)
        then show ?thesis using o by (simp add: root_at_def)
      qed
      ultimately show ?thesis by (cases "o_parent q") auto
    qed
  qed
  then have sc: "scene_ok ?s" using f by (simp add: scene_ok_def)
  have so: "soft ?s = (soft s)(a \<mapsto> (False, SR_ID_INVALID, False))" by (auto simp: fun_eq_iff soft_def GameObject_new_def)
  have sa: "soft s a = None" using a by (simp add: soft_def)
  have sT: "soft ?s x = Some (True, j, d) \<longleftrightarrow> soft s x = Some (True, j, d)" for x j d using so sa by (cases "x = a") auto
  have fl: "sc_sceneObjects ?s = sc_sceneObjects s" "sc_freeObjIndices ?s = sc_freeObjIndices s" "sc_newQueue ?s = sc_newQueue s"
    "sc_deleteQueue ?s = sc_deleteQueue s" "sc_root ?s = sc_root s" "t_changed ?s = t_changed s"
    by (simp_all add: GameObject_new_def)
  have "slots_ok ?s" using p(3) unfolding slots_ok_def fl sT .
  moreover have "queues_ok ?s" using p(4) unfolding queues_ok_def fl sT .
  moreover have "gone_ok {} ?s" using p(5) r(6) by (auto simp: gone_ok_def GameObject_new_def)
  moreover have "cache_ok ?s"
  proof (rule cache_same [OF p(6,3) fl(1,5)])
    fix x assume "in_scene s x"
    then have "x \<noteq> a" using a by (auto simp: in_scene_def)
    then show "parent_of ?s x = parent_of s x" using o by (simp add: parent_of_def)
  qed (simp add: fl)
  moreover have "outside_ok ?s" using p(7) unfolding outside_ok_def so by auto
  moreover have "few ?s" using inv(2) by (auto simp: few_def GameObject_new_def)
  ultimately show ?thesis using sc by (simp add: scene_good_def scene_inv_def inv_but_def)
qed


text \<open>The calls of a client.\<close>

datatype scene_call =
    S_New nat u64 bytes
  | S_Register nat
  | S_Move nat "nat option"
  | S_SetLayer nat bytes
  | S_SetEnabled nat bool
  | S_Destroy nat
  | S_Prepare
  | S_Roots

fun scene_run :: "nat \<Rightarrow> nat \<Rightarrow> scene \<Rightarrow> scene_call \<Rightarrow> scene result" where
  "scene_run w n s (S_New a i name) = Inr (GameObject_new s a i name)"
| "scene_run w n s (S_Register a) = RegisterSceneObject w s a"
| "scene_run w n s (S_Move a d) = bind_res (MoveToTree w s a d) (\<lambda>(_, s1). Inr s1)"
| "scene_run w n s (S_SetLayer a l) = SetLayer w s a l"
| "scene_run w n s (S_SetEnabled a b) = SetEnabled w s a b"
| "scene_run w n s (S_Destroy a) = Destroy w n s a"
| "scene_run w n s S_Prepare = Prepare w n s"
| "scene_run w n s S_Roots = bind_res (GetRootSceneObjects s) (\<lambda>(_, s1). Inr s1)"

definition lives :: "'x tree_scheme \<Rightarrow> nat \<Rightarrow> bool" where
  "lives t a \<longleftrightarrow> (case t_objs t a of None \<Rightarrow> False | Some r \<Rightarrow> \<not> o_isDestroyed r)"

definition countable_children :: "'x tree_scheme \<Rightarrow> nat \<Rightarrow> bool" where
  "countable_children t a \<longleftrightarrow> (case t_objs t a of None \<Rightarrow> True | Some r \<Rightarrow> length (o_children r) < 65536)"

lemma lives_iff: "lives t a \<longleftrightarrow> (\<exists>r. t_objs t a = Some r \<and> \<not> o_isDestroyed r)"
  by (simp add: lives_def split: option.split)

text \<open>What a client answers for: objects are created at fresh addresses with fresh ids, only living objects are
  used, an object is registered once with everything below it outside, nobody has more children than 16 bits
  count, and there are fewer objects than slots.\<close>

fun scene_may :: "nat \<Rightarrow> nat \<Rightarrow> scene \<Rightarrow> scene_call \<Rightarrow> bool" where
  "scene_may w n s (S_New a i name) \<longleftrightarrow> t_objs s a = None \<and> (\<forall>b r. t_objs s b = Some r \<longrightarrow> o_id r \<noteq> i)"
| "scene_may w n s (S_Register a) \<longleftrightarrow> size_of s < w \<and> lives s a \<and> (\<forall>b \<in> desc s a. \<not> in_scene s b)"
| "scene_may w n s (S_Move a d) \<longleftrightarrow> size_of s < w \<and> lives s a \<and>
     (case d of None \<Rightarrow> True | Some p \<Rightarrow> lives s p \<and> countable_children s p)"
| "scene_may w n s (S_SetLayer a l) \<longleftrightarrow> size_of s < w \<and> lives s a"
| "scene_may w n s (S_SetEnabled a b) \<longleftrightarrow> size_of s < w \<and> lives s a"
| "scene_may w n s (S_Destroy a) \<longleftrightarrow> size_of s < w \<and> 2 * size_of s \<le> n \<and> lives s a"
| "scene_may w n s S_Prepare \<longleftrightarrow> size_of s < w \<and> 3 * size_of s < n \<and>
     length (sc_sceneObjects s) + length (sc_newQueue s) < 2 ^ 64 - 1"
| "scene_may w n s S_Roots \<longleftrightarrow> True"

lemma new_bound:
  assumes "inv_but D s"
  shows "length (sc_newQueue s) \<le> size_of s"
proof -
  note p = inv_parts [OF assms]
  have "set (sc_newQueue s) \<subseteq> dom (t_objs s)" using new_soft [OF p(4)] by (fastforce simp: soft_def)
  then have "card (set (sc_newQueue s)) \<le> size_of s" using p(2) unfolding size_of_def by (intro card_mono) (auto simp: forest_def)
  then show ?thesis using p(4) by (simp add: queues_ok_def distinct_card)
qed

lemma desc_card:
  assumes "forest t" "t_objs t a \<noteq> None"
  shows "card (desc t a) \<le> size_of t"
  using desc_alive [OF assms(1) _ assms(2)] assms(1) unfolding size_of_def by (intro card_mono) (auto simp: forest_def)

lemma subtree_good:
  assumes g: "scene_good s" and r: "t_objs s a = Some r" "\<not> o_isDestroyed r" and w: "w > size_of s" and n: "n \<ge> 2 * size_of s"
  shows "\<exists>s'. Destroy w n s a = Inr s' \<and> scene_good s' \<and> cleared (desc s a) s s'"
proof -
  have i: "inv_but {} s" "few s" using g by (simp_all add: scene_good_def scene_inv_def)
  have "n \<ge> 2 * card (desc s a)" using desc_card [OF inv_parts(2) [OF i(1)], of a] r(1) n by simp
  then obtain s' where s': "Destroy w n s a = Inr s'" "inv_but {} s'" "cleared (desc s a) s s'"
    using conjunct1 [OF Destroy_ok [of w n], rule_format, OF i(1) r i(2) w] by blast
  then show ?thesis by (auto simp: scene_good_def scene_inv_def cleared_def)
qed

lemma scene_step:
  assumes g: "scene_good s" and m: "scene_may w n s c"
  shows "\<exists>s'. scene_run w n s c = Inr s' \<and> scene_good s'"
proof -
  have i: "inv_but {} s" "few s" using g by (simp_all add: scene_good_def scene_inv_def)
  note p = inv_parts [OF i(1)]
  show ?thesis
  proof (cases c)
    case (S_New a j name)
    then show ?thesis using m GameObject_new_good [OF g, of a j name] by auto
  next
    case (S_Register a)
    then show ?thesis using m Register_ok [of s a w] g by (auto simp: scene_good_def lives_iff)
  next
    case (S_Move a d)
    then obtain r where r: "t_objs s a = Some r" "\<not> o_isDestroyed r" using m by (auto simp: lives_iff)
    have dest: "\<exists>q. t_objs s e = Some q \<and> \<not> o_isDestroyed q \<and> length (o_children q) < 65536" if "d = Some e" for e
      using m S_Move that by (auto simp: lives_iff countable_children_def)
    have "w > size_of s" using m S_Move by simp
    then obtain b s' where "MoveToTree w s a d = Inr (b, s')" "scene_good s'" using MoveToTree_good [OF g r, of w d] dest by blast
    then show ?thesis using S_Move by simp
  next
    case (S_SetLayer a l)
    then have a: "t_objs s a \<noteq> None" "w > size_of s" using m by (auto simp: lives_iff)
    obtain s' where "SetLayer w s a l = Inr s'" "links s' = links s" "calm s s'" using SetLayer_ends [OF p(2) a] by blast
    then show ?thesis using S_SetLayer calm_links_good [OF g] by auto
  next
    case (S_SetEnabled a b)
    then have a: "t_objs s a \<noteq> None" "w > size_of s" using m by (auto simp: lives_iff)
    obtain s' where "SetEnabled w s a b = Inr s'" "links s' = links s" "calm s s'" using SetEnabled_ends [OF p(2) a] by blast
    then show ?thesis using S_SetEnabled calm_links_good [OF g] by auto
  next
    case (S_Destroy a)
    then obtain r where "t_objs s a = Some r" "\<not> o_isDestroyed r" "size_of s < w" "2 * size_of s \<le> n" using m by (auto simp: lives_iff)
    then obtain s' where "Destroy w n s a = Inr s'" "scene_good s'" using subtree_good [OF g] by blast
    then show ?thesis using S_Destroy by simp
  next
    case S_Prepare
    then have "size_of s < w" "2 * size_of s + length (sc_newQueue s) < n" "length (sc_sceneObjects s) + length (sc_newQueue s) < 2 ^ 64 - 1"
      using m new_bound [OF i(1)] by simp_all
    from Prepare_ok [OF i this] show ?thesis using S_Prepare by (auto simp: scene_good_def scene_inv_def)
  next
    case S_Roots
    from GetRoots_ok [OF i(1)] show ?thesis using S_Roots i(2) by (auto simp: scene_good_def scene_inv_def few_def)
  qed
qed

interpretation scenes: guarded "scene_run w n" "scene_may w n" scene_good for w n
  by unfold_locales (rule scene_step)

lemma good_scene_new: "scene_good (scene_new layer)"
  by (simp add: scene_good_def scene_inv_def inv_but_def scene_new_def scene_ok_def forest_def linked_def unique_ids_def par_def roots_ok_def
      slots_ok_def queues_ok_def gone_ok_def cache_ok_def outside_ok_def few_def soft_def acyclic_def List.map_filter_def)


text \<open>C4: Whatever calls a client makes, in whatever order, as long as its own conditions hold along the way, no
  call faults, and afterwards the hierarchy is a forest, every object of the scene is in exactly the slot it
  knows or in the queue it belongs to, the free list holds exactly the empty slots, and the list of roots the
  scene gives out is the list of the placed objects without a parent.\<close>

theorem scene_calls_safe:
  assumes "may_all (scene_run w n) (scene_may w n) (scene_new layer) calls"
  shows "\<exists>s roots s'. run_all (scene_run w n) (scene_new layer) calls = Inr s \<and> scene_inv s \<and> GetRootSceneObjects s = Inr (roots, s') \<and>
    (\<forall>a. a \<in> set roots \<longleftrightarrow> Some a \<in> set (sc_sceneObjects s) \<and> parent_of s a = None)"
proof -
  obtain s where s: "run_all (scene_run w n) (scene_new layer) calls = Inr s" "scene_good s"
    using scenes.run_all_inv [OF good_scene_new assms] by blast
  then have "inv_but {} s" by (simp add: scene_good_def scene_inv_def)
  from GetRoots_ok [OF this] s show ?thesis by (auto simp: scene_good_def somes_set)
qed

lemma desc_leaf: "t_objs t a = Some r \<Longrightarrow> o_children r = [] \<Longrightarrow> desc t a = {a}"
  using desc_unfold by fastforce

definition example_scene_calls :: "scene_call list" where
  "example_scene_calls = [S_New 1 11 [97], S_New 2 12 [98], S_Register 1, S_Register 2, S_Move 2 (Some 1), S_Prepare, S_Roots,
     S_SetEnabled 2 False, S_Destroy 1, S_Prepare]"

lemma small_fuel: "(3 :: nat) = Suc (Suc (Suc 0))" "(7 :: nat) = Suc (Suc (Suc (Suc (Suc (Suc (Suc 0))))))"
  by simp_all

lemmas scene_eval = example_scene_calls_def scene_new_def GameObject_new_def obj_def upd_def size_of_def lives_def countable_children_def in_scene_def
  OnChanged_def Scene_SetDirty_def MoveToTree_def AddChild_def SetParent_def UpdateEntityPath_def componentable_SetDirty_def
  Prepare_def place_def GetRootSceneObjects_def SetEnabled_def leave_def RemoveChild_def Scene_Remove_def DestroyImpl_def free_object_def
  SR_ID_INVALID_def small_fuel desc_leaf

text \<open>Evaluation from the inside: no rewriting in the rest of a sequence before its state is known.\<close>

lemma bind_res_weak: "m = m' \<Longrightarrow> bind_res m f = bind_res m' f"
  by simp

lemma each_weak: "s = s' \<Longrightarrow> cs = cs' \<Longrightarrow> each f s cs = each f s' cs'"
  by simp

lemmas scene_cong = bind_res_weak each_weak

lemma may_all_take: "may_all run may s cs \<Longrightarrow> may_all run may s (take k cs)"
proof (induction cs arbitrary: s k)
  case (Cons c cs)
  then show ?case by (cases k) (auto split: sum.splits)
qed simp

lemma example_scene:
  "\<exists>s. run_all (scene_run 3 7) (scene_new [0]) (take k example_scene_calls) = Inr s \<and> scene_good s"
proof -
  have "may_all (scene_run 3 7) (scene_may 3 7) (scene_new [0]) example_scene_calls"
    by (simp add: scene_eval Let_def cong: scene_cong)
  then have "may_all (scene_run 3 7) (scene_may 3 7) (scene_new [0]) (take k example_scene_calls)" by (rule may_all_take)
  then show ?thesis using scenes.run_all_inv [OF good_scene_new] by blast
qed

lemma scene_calls_safe_witness:
  "\<exists>s roots s'. run_all (scene_run 3 7) (scene_new [0]) example_scene_calls = Inr s \<and> GetRootSceneObjects s = Inr (roots, s') \<and> scene_inv s"
proof -
  have "may_all (scene_run 3 7) (scene_may 3 7) (scene_new [0]) example_scene_calls"
    by (simp add: scene_eval Let_def cong: scene_cong)
  from scene_calls_safe [OF this] show ?thesis by blast
qed

section \<open>Moving\<close>

text \<open>C5: Moving an object always ends and leaves a forest in which everybody knows the root above. It succeeds
  unless the destination is the object itself or lies below it; then the object is left without a parent.
  Nobody else gets another parent.\<close>

theorem move_keeps_forest:
  assumes "forest t" "roots_ok t" "t_objs t c = Some k" "few t" "n > size_of t" "\<And>d. dest = Some d \<Longrightarrow> t_objs t d \<noteq> None"
  shows "\<exists>b t'. MoveToTree n t c dest = Inr (b, t') \<and> forest t' \<and> roots_ok t' \<and>
    (b \<longleftrightarrow> (\<forall>d. dest = Some d \<longrightarrow> (d, c) \<notin> (par t)\<^sup>*)) \<and> parent_of t' c = (if b then dest else None) \<and>
    (\<forall>x. x \<noteq> c \<longrightarrow> parent_of t' x = parent_of t x)"
proof -
  have "scene_ok t" using assms(1,2) by (simp add: scene_ok_def)
  then obtain b t' where t': "MoveToTree n t c dest = Inr (b, t')" "scene_ok t'" "b \<longleftrightarrow> (\<forall>d. dest = Some d \<longrightarrow> (d, c) \<notin> (par t)\<^sup>*)"
    "map_option o_parent (t_objs t' c) = Some (if b then dest else None)"
    "\<And>x. x \<noteq> c \<Longrightarrow> map_option o_parent (t_objs t' x) = map_option o_parent (t_objs t x)"
    using MoveToTree_cases [of t c k dest n] assms(3-6) by (auto simp: few_def)
  have p: "parent_of u x = (case map_option o_parent (t_objs u x) of None \<Rightarrow> None | Some q \<Rightarrow> q)" for u :: "'a tree_scheme" and x
    by (cases "t_objs u x") (simp_all add: parent_of_def)
  have "parent_of t' c = (if b then dest else None)" unfolding p t'(4) by simp
  moreover have "\<forall>x. x \<noteq> c \<longrightarrow> parent_of t' x = parent_of t x" unfolding p using t'(5) by simp
  ultimately show ?thesis using t'(1-3) by (intro exI [of _ b] exI [of _ t']) (simp add: scene_ok_def)
qed

text \<open>Two objects, one below the other: the upper one cannot be moved below the lower one.\<close>

lemma move_keeps_forest_witness:
  "\<exists>s t'. run_all (scene_run 3 7) (scene_new [0]) (take 5 example_scene_calls) = Inr s \<and>
    MoveToTree 3 s 1 (Some 2) = Inr (False, t') \<and> forest t' \<and> parent_of t' 1 = None"
proof -
  obtain s where s: "run_all (scene_run 3 7) (scene_new [0]) (take 5 example_scene_calls) = Inr s" "scene_good s"
    using example_scene by blast
  have f: "forest s" "roots_ok s" "few s" using s(2) by (simp_all add: scene_good_def scene_inv_def inv_but_def scene_ok_def)
  have e: "size_of s < 3" "map_option o_parent (t_objs s 2) = Some (Some 1)" "t_objs s 1 \<noteq> None"
    using s(1) by (auto simp: scene_eval Let_def cong: scene_cong)
  then obtain k where k: "t_objs s 1 = Some k" by blast
  have "(2, 1) \<in> par s" using e(2) by (auto simp: par_def)
  moreover have "\<And>d. Some 2 = Some d \<Longrightarrow> t_objs s d \<noteq> None" using e(2) by auto
  ultimately show ?thesis using move_keeps_forest [OF f(1,2) k f(3) e(1), of "Some 2"] s(1) by auto
qed

section \<open>Destroying\<close>

text \<open>C8: Destroying an object ends and takes exactly the objects below it: each of them is freed, or, when it
  belongs to the scene, marked and put in the queue of deleted objects; the others keep their state, their
  parents, and their children but for the destroyed ones, and the tables of the scene stay right.\<close>

theorem destroy_takes_subtree:
  assumes "scene_inv s" "few s" "t_objs s a = Some r" "\<not> o_isDestroyed r" "w > size_of s" "n \<ge> 2 * size_of s"
  shows "\<exists>s'. Destroy w n s a = Inr s' \<and> scene_inv s' \<and>
    (\<forall>x \<in> desc s a. t_objs s' x = None \<or> x \<in> set (sc_deleteQueue s')) \<and>
    (\<forall>x. x \<notin> desc s a \<longrightarrow> soft s' x = soft s x \<and> kids s' x = map_option (filter (\<lambda>y. y \<notin> desc s a)) (kids s x)) \<and>
    par s' = {(x, p). (x, p) \<in> par s \<and> x \<notin> desc s a}"
proof -
  have "scene_good s" using assms(1,2) by (simp add: scene_good_def)
  from subtree_good [OF this assms(3-6)] obtain s' where s': "Destroy w n s a = Inr s'" "scene_good s'" "cleared (desc s a) s s'" by blast
  have i: "inv_but {} s'" using s'(2) by (simp add: scene_good_def scene_inv_def)
  have "t_objs s' x = None \<or> x \<in> set (sc_deleteQueue s')" if x: "x \<in> desc s a" for x
  proof (cases "t_objs s' x")
    case (Some q)
    then have d: "o_isDestroyed q" using s'(3) x by (auto simp: cleared_def soft_def)
    then have "o_inScene q" using inv_parts(5) [OF i] Some by (simp add: gone_ok_def)
    then have "soft s' x = Some (True, o_idInScene q, True)" using Some d by (simp add: soft_def)
    then show ?thesis using inv_parts(4) [OF i] by (auto simp: queues_ok_def)
  qed simp
  then show ?thesis using s' by (auto simp: scene_good_def cleared_def)
qed

lemma destroy_takes_subtree_witness:
  "\<exists>s s'. run_all (scene_run 3 7) (scene_new [0]) (take 6 example_scene_calls) = Inr s \<and>
    Destroy 3 7 s 1 = Inr s' \<and> (\<forall>x \<in> {1, 2}. t_objs s' x = None \<or> x \<in> set (sc_deleteQueue s'))"
proof -
  obtain s where s: "run_all (scene_run 3 7) (scene_new [0]) (take 6 example_scene_calls) = Inr s" "scene_good s"
    using example_scene by blast
  have e: "size_of s < 3" "map_option o_isDestroyed (t_objs s 1) = Some False" "map_option o_children (t_objs s 1) = Some [2]"
    using s(1) by (auto simp: scene_eval Let_def cong: scene_cong)
  then obtain r where r: "t_objs s 1 = Some r" "\<not> o_isDestroyed r" "o_children r = [2]" by auto
  have "{1, 2} \<subseteq> desc s 1" using desc_unfold [OF r(1)] r(3) by auto
  moreover have g: "scene_inv s" "few s" "7 \<ge> 2 * size_of s" using s(2) e(1) by (simp_all add: scene_good_def)
  obtain s' where "Destroy 3 7 s 1 = Inr s'" "\<forall>x \<in> desc s 1. t_objs s' x = None \<or> x \<in> set (sc_deleteQueue s')"
    using destroy_takes_subtree [OF g(1,2) r(1,2) e(1) g(3)] by (elim exE conjE)
  ultimately show ?thesis using s(1) by (intro exI [of _ s] exI [of _ s']) auto
qed

text \<open>C9: Destroying the scene ends, and when no object of the scene hangs below one outside, nothing of it is
  left: no object is in the scene any more, the queues are empty, and all slots are free (the condition its
  destructor checks).\<close>

theorem scene_destroy_frees_all:
  assumes "scene_inv s" "few s" "w > size_of s" "n > 3 * size_of s" "\<not> sc_isDestroyed s"
    "length (sc_sceneObjects s) + length (sc_newQueue s) < 2 ^ 64 - 1"
    "\<And>c p. (c, p) \<in> par s \<Longrightarrow> in_scene s c \<Longrightarrow> in_scene s p"
  shows "\<exists>s'. Scene_Destroy w n s = Inr (True, s') \<and> (\<forall>x. \<not> in_scene s' x) \<and> sc_newQueue s' = [] \<and> sc_deleteQueue s' = [] \<and>
    length (sc_freeObjIndices s') = length (sc_sceneObjects s')"
proof -
  have i: "inv_but {} s" using assms(1) by (simp add: scene_inv_def)
  have "n > 2 * size_of s + length (sc_newQueue s)" using new_bound [OF i] assms(4) by simp
  then show ?thesis by (rule Scene_Destroy_ok [OF i assms(2,3) _ assms(6,5)]) (rule assms(7))
qed

lemma scene_destroy_frees_all_witness:
  "\<exists>s s'. run_all (scene_run 3 7) (scene_new [0]) (take 6 example_scene_calls) = Inr s \<and> in_scene s 1 \<and>
    Scene_Destroy 3 7 s = Inr (True, s') \<and> \<not> in_scene s' 1"
proof -
  obtain s where s: "run_all (scene_run 3 7) (scene_new [0]) (take 6 example_scene_calls) = Inr s" "scene_good s"
    using example_scene by blast
  have e: "size_of s < 3" "in_scene s 1" "in_scene s 2" "\<not> sc_isDestroyed s" "length (sc_sceneObjects s) + length (sc_newQueue s) = 2"
    "\<forall>p. p \<noteq> 1 \<longrightarrow> p \<noteq> 2 \<longrightarrow> t_objs s p = None"
    using s(1) by (auto simp: scene_eval Let_def cong: scene_cong)
  have g: "scene_inv s" "few s" "forest s" using s(2) by (simp_all add: scene_good_def scene_inv_def inv_but_def scene_ok_def)
  have "in_scene s p" if "(c, p) \<in> par s" for c p
  proof -
    have "t_objs s p \<noteq> None" using kids_children [OF g(3) that] by (auto simp: kids_def)
    then have "p = 1 \<or> p = 2" using e(6) by metis
    then show ?thesis using e(2,3) by metis
  qed
  moreover have "3 * size_of s < 7" "length (sc_sceneObjects s) + length (sc_newQueue s) < 2 ^ 64 - 1" using e(1,5) by simp_all
  ultimately obtain s' where "Scene_Destroy 3 7 s = Inr (True, s')" "\<forall>x. \<not> in_scene s' x"
    using scene_destroy_frees_all [OF g(1,2) e(1) _ e(4)] by metis
  then show ?thesis using e(2) s(1) by blast
qed

end
