(* ===== verification/SR_Scene_Activity.thy ===== *)
theory SR_Scene_Activity
  imports SR_Scene_Calls
begin

text \<open>
  Who is active (ECS/SceneObject.cpp, CheckActivity): after the check of a subtree an object in it is active
  exactly when it and everything above it is enabled. And places where the hierarchy and the scene do not do
  what they mean to.
\<close>

section \<open>Activity\<close>

text \<open>An inactive parent has no active child.\<close>

definition inactive_down :: "'x tree_scheme \<Rightarrow> nat set \<Rightarrow> bool" where
  "inactive_down t D \<longleftrightarrow>
     (\<forall>a r p q. a \<in> D \<longrightarrow> t_objs t a = Some r \<longrightarrow> o_parent r = Some p \<longrightarrow> t_objs t p = Some q \<longrightarrow> \<not> o_isActive q \<longrightarrow> \<not> o_isActive r)"

definition active_of :: "'x tree_scheme \<Rightarrow> nat \<Rightarrow> bool" where
  "active_of t a \<longleftrightarrow> (case t_objs t a of None \<Rightarrow> False | Some r \<Rightarrow> o_isActive r)"

definition enabled_of :: "'x tree_scheme \<Rightarrow> nat \<Rightarrow> bool" where
  "enabled_of t a \<longleftrightarrow> (case t_objs t a of None \<Rightarrow> False | Some r \<Rightarrow> o_isEnabled r)"

text \<open>An object is active when it is enabled and its parent is active.\<close>

definition activity_right :: "'x tree_scheme \<Rightarrow> nat \<Rightarrow> bool" where
  "activity_right t a \<longleftrightarrow> active_of t a = (enabled_of t a \<and> (case parent_of t a of None \<Rightarrow> True | Some p \<Rightarrow> active_of t p))"

text \<open>Only the activity of some objects changes.\<close>

definition only_active :: "nat set \<Rightarrow> 'x tree_scheme \<Rightarrow> 'x tree_scheme \<Rightarrow> bool" where
  "only_active D t t' \<longleftrightarrow>
     (\<forall>a. map_option (o_isActive_update (\<lambda>_. False)) (t_objs t' a) = map_option (o_isActive_update (\<lambda>_. False)) (t_objs t a)) \<and>
     (\<forall>a. a \<notin> D \<longrightarrow> t_objs t' a = t_objs t a)"

lemma only_active_views:
  fixes t t' :: "'x tree_scheme"
  assumes "only_active D t t'"
  shows "links t' = links t" "enabled_of t' a = enabled_of t a" "parent_of t' a = parent_of t a"
proof -
  have l: "links u a = map_option (\<lambda>r. (o_id r, o_parent r, o_children r, o_root r)) (map_option (o_isActive_update (\<lambda>_. False)) (t_objs u a))"
    for u :: "'x tree_scheme" and a by (cases "t_objs u a") (simp_all add: links_def)
  show "links t' = links t" using assms unfolding only_active_def by (simp add: fun_eq_iff l)
  have e: "enabled_of u a \<longleftrightarrow> (case map_option (o_isActive_update (\<lambda>_. False)) (t_objs u a) of None \<Rightarrow> False | Some r \<Rightarrow> o_isEnabled r)"
    for u :: "'x tree_scheme" and a by (cases "t_objs u a") (simp_all add: enabled_of_def)
  show "enabled_of t' a = enabled_of t a" using assms unfolding only_active_def e by simp
  have p: "parent_of u a = Option.bind (map_option (o_isActive_update (\<lambda>_. False)) (t_objs u a)) o_parent"
    for u :: "'x tree_scheme" and a by (cases "t_objs u a") (simp_all add: parent_of_def)
  show "parent_of t' a = parent_of t a" using assms unfolding only_active_def p by simp
qed

lemma only_active_refl [simp]: "only_active D t t"
  by (simp add: only_active_def)

lemma only_active_trans: "only_active D s t \<Longrightarrow> only_active E t u \<Longrightarrow> only_active (D \<union> E) s u"
  by (simp add: only_active_def)

lemma only_active_outside: "only_active D t t' \<Longrightarrow> a \<notin> D \<Longrightarrow> active_of t' a = active_of t a"
  by (simp add: only_active_def active_of_def)

lemma right_outside:
  fixes t t' :: "'x tree_scheme"
  assumes "only_active D t t'" "a \<notin> D" "\<And>p. parent_of t a = Some p \<Longrightarrow> p \<notin> D" "activity_right t a"
  shows "activity_right t' a"
  using assms(2-4) only_active_views(2,3) [OF assms(1)] only_active_outside [OF assms(1)]
  by (auto simp: activity_right_def split: option.splits)

text \<open>The check from an object downwards, when its parent's flag is already right.\<close>

lemma CheckActivity_effect:
  fixes t :: "'x tree_scheme"
  assumes "forest t" "t_objs t a \<noteq> None" "n > height t a" "inactive_down t (desc t a - {a})"
  shows "\<exists>t'. CheckActivity n t True a = Inr t' \<and> only_active (desc t a) t t' \<and> (\<forall>b \<in> desc t a. activity_right t' b)"
  using assms
proof (induction n arbitrary: a t)
  case (Suc n)
  note f = Suc.prems(1)
  obtain r where r: "t_objs t a = Some r" using Suc.prems(2) by blast
  define above where "above = (case o_parent r of None \<Rightarrow> True | Some p \<Rightarrow> active_of t p)"
  have above: "(case o_parent r of None \<Rightarrow> Inr True | Some p \<Rightarrow> bind_res (obj t p) (\<lambda>q. Inr (o_isActive q))) = Inr above"
    using forestD(1) [OF f r] by (fastforce simp: above_def active_of_def obj_Some split: option.split)
  let ?act = "o_isEnabled r \<and> above"
  let ?t = "upd a (o_isActive_update (\<lambda>_. ?act)) t"
  have first: "only_active {a} t ?t" by (cases "t_objs t a") (auto simp: only_active_def)
  have pa: "parent_of t a = o_parent r" using r by (simp add: parent_of_def)
  have not_self: "o_parent r \<noteq> Some a" using f r by (auto simp: forest_def acyclic_def par_def)
  have a_right: "activity_right ?t a"
    using r pa not_self by (auto simp: activity_right_def active_of_def enabled_of_def parent_of_def above_def split: option.split)
  have desc_a: "desc t a = insert a (\<Union>c \<in> set (o_children r). desc t c)" by (rule desc_unfold [OF r])
  show ?case
  proof (cases "\<not> ?act \<and> ?act = o_isActive r")
    case True
    have na: "\<not> o_isActive r" using True by blast
    have none: "\<not> ?act" using True by blast
    have same: "?t = t"
    proof -
      have "t_objs ?t = t_objs t" using r na none by (auto simp: fun_eq_iff)
      then show ?thesis by (simp add: upd_def)
    qed
    have off: "\<not> active_of t b" if "(b, a) \<in> (par t)\<^sup>*" for b
      using that
    proof (induction rule: converse_rtrancl_induct)
      case base
      then show ?case using r na by (simp add: active_of_def)
    next
      case (step b p)
      obtain v where v: "t_objs t b = Some v" "o_parent v = Some p" using step.hyps(1) by (auto simp: par_def)
      obtain q where q: "t_objs t p = Some q" using forestD(1) [OF f v] by blast
      have "b \<noteq> a" using step.hyps f by (auto simp: forest_def acyclic_def dest: rtrancl_into_trancl2)
      moreover have "b \<in> desc t a" using step.hyps by (auto simp: desc_forest [OF f] intro: converse_rtrancl_into_rtrancl)
      ultimately have "\<not> o_isActive v" using Suc.prems(4) v q step.IH unfolding inactive_down_def active_of_def by auto
      then show ?case using v(1) by (simp add: active_of_def)
    qed
    have "activity_right t b" if b: "b \<in> desc t a" for b
    proof (cases "b = a")
      case True
      then show ?thesis using a_right same by simp
    next
      case False
      then obtain p where p: "(b, p) \<in> par t" "(p, a) \<in> (par t)\<^sup>*" using b by (auto simp: desc_forest [OF f] elim: converse_rtranclE)
      then have "parent_of t b = Some p" by (auto simp: par_def parent_of_def)
      moreover have "\<not> active_of t b" using off [of b] b by (simp add: desc_forest [OF f])
      ultimately show ?thesis using off [OF p(2)] by (simp add: activity_right_def)
    qed
    moreover have "CheckActivity (Suc n) t True a = Inr t"
      using r above na none same by (simp add: obj_Some [OF r] Let_def)
    ultimately show ?thesis by auto
  next
    case False
    have loop: "\<exists>s'. each (\<lambda>t. CheckActivity n t True) s cs = Inr s' \<and> only_active (D \<union> (\<Union>c \<in> set cs. desc t c)) t s' \<and>
        (\<forall>b \<in> D \<union> (\<Union>c \<in> set cs. desc t c). activity_right s' b)"
      if "only_active D t s" "\<forall>b \<in> D. activity_right s b" "a \<in> D" "set cs \<subseteq> set (o_children r)" "distinct cs"
        "\<forall>c \<in> set cs. D \<inter> desc t c = {}" for D s cs
      using that
    proof (induction cs arbitrary: D s)
      case (Cons c cs)
      have ca: "(c, a) \<in> par t" using Cons.prems(4) r chi_forest [OF f] by (auto simp: chi_def)
      have l: "links s = links t" by (rule only_active_views(1) [OF Cons.prems(1)])
      have k: "kids s = kids t" using links_shape [OF l] by (simp add: fun_eq_iff shape_kids)
      note same = same_kids [OF k]
      have fs: "forest s" by (rule forest_shape [OF links_shape [OF l] f])
      have alive: "t_objs s c \<noteq> None" using links_alive [OF l] ca by (auto simp: par_def)
      have h: "height s c < n" using height_child [OF f, of c a] ca chi_forest [OF f] Suc.prems(3) same by simp
      have sub: "desc t c \<subseteq> desc t a - {a}" using desc_step [of c a t] ca chi_forest [OF f] child_outside [OF f ca] by auto
      have "inactive_down s (desc s c - {c})"
        unfolding inactive_down_def
      proof (intro allI impI)
        fix b v p q assume b: "b \<in> desc s c - {c}" and v: "t_objs s b = Some v" "o_parent v = Some p" and q: "t_objs s p = Some q" "\<not> o_isActive q"
        have bc: "b \<in> desc t c" "b \<noteq> c" using b same by auto
        have "(b, p) \<in> par s" using v by (auto simp: par_def)
        then have "(b, p) \<in> par t" using same_shape_par [OF links_shape [OF l]] by metis
        moreover obtain y where "(b, y) \<in> par t" "(y, c) \<in> (par t)\<^sup>*" using bc by (auto simp: desc_forest [OF f] elim: converse_rtranclE)
        moreover have "y = p" using calculation(1,2) by (auto simp: par_def)
        ultimately have pc: "p \<in> desc t c" by (simp add: desc_forest [OF f])
        have "t_objs t b = Some v" "t_objs t p = Some q" using Cons.prems(1,6) bc(1) pc v(1) q(1) by (auto simp: only_active_def)
        then show "\<not> o_isActive v" using Suc.prems(4) sub bc v(2) q(2) unfolding inactive_down_def by blast
      qed
      then obtain s1 where s1: "CheckActivity n s True c = Inr s1" "only_active (desc t c) s s1" "\<forall>b \<in> desc t c. activity_right s1 b"
        using Suc.IH [OF fs alive h] same by auto
      have o1: "only_active (D \<union> desc t c) t s1" by (rule only_active_trans [OF Cons.prems(1) s1(2)])
      have "activity_right s1 b" if b: "b \<in> D" for b
      proof (rule right_outside [OF s1(2)])
        show "b \<notin> desc t c" using b Cons.prems(6) by auto
        show "activity_right s b" using b Cons.prems(2) by blast
        fix p assume "parent_of s b = Some p"
        then have "parent_of t b = Some p" using only_active_views(3) [OF Cons.prems(1)] by simp
        then have "(b, p) \<in> par t" by (cases "t_objs t b") (auto simp: parent_of_def par_def)
        then show "p \<notin> desc t c" using desc_closed [OF f] \<open>b \<notin> desc t c\<close> by blast
      qed
      then have right: "\<forall>b \<in> D \<union> desc t c. activity_right s1 b" using s1(3) by blast
      have dis: "\<forall>d \<in> set cs. (D \<union> desc t c) \<inter> desc t d = {}"
      proof
        fix d assume d: "d \<in> set cs"
        have "(d, a) \<in> par t" using Cons.prems(4) d r chi_forest [OF f] by (auto simp: chi_def)
        then have "desc t c \<inter> desc t d = {}" using desc_disjoint [OF f ca] Cons.prems(5) d by auto
        then show "(D \<union> desc t c) \<inter> desc t d = {}" using Cons.prems(6) d by auto
      qed
      then show ?case using Cons.IH [OF o1 right _ _ _ dis] Cons.prems(3-5) s1(1) by (auto simp: Un_assoc)
    qed auto
    have "{a} \<inter> desc t c = {}" if "c \<in> set (o_children r)" for c
      using child_outside [OF f, of c a] that r chi_forest [OF f] by (auto simp: chi_def)
    then obtain s' where s': "each (\<lambda>t. CheckActivity n t True) ?t (o_children r) = Inr s'"
      "only_active ({a} \<union> (\<Union>c \<in> set (o_children r). desc t c)) t s'" "\<forall>b \<in> {a} \<union> (\<Union>c \<in> set (o_children r). desc t c). activity_right s' b"
      using loop [OF first _ _ subset_refl forestD(3) [OF f r]] a_right by blast
    moreover have "CheckActivity (Suc n) t True a = Inr s'"
      using r above False s'(1) by (auto simp: obj_Some [OF r] Let_def)
    ultimately show ?thesis using desc_a by auto
  qed
qed simp

lemma all_inactive: "(\<And>b r. t_objs t b = Some r \<Longrightarrow> \<not> o_isActive r) \<Longrightarrow> inactive_down t D"
  by (auto simp: inactive_down_def)

text \<open>C10: Checking the activity of an object ends and changes nothing but activities of objects at or below it,
  provided none of them is active under an inactive parent. Afterwards each of them is active exactly when it is
  enabled and its parent, if it has one, is active.\<close>

theorem check_activity:
  assumes "forest t" "t_objs t a = Some r" "n > size_of t" "inactive_down t (desc t a - {a})"
  shows "\<exists>t'. CheckActivity n t True a = Inr t' \<and> only_active (desc t a) t t' \<and>
    (\<forall>b \<in> desc t a. active_of t' b \<longleftrightarrow> enabled_of t b \<and> (\<forall>p. parent_of t b = Some p \<longrightarrow> active_of t' p))"
proof -
  have "n > height t a" using height_bound [OF assms(1), of a] assms(2,3) by simp
  then obtain t' where t': "CheckActivity n t True a = Inr t'" "only_active (desc t a) t t'" "\<forall>b \<in> desc t a. activity_right t' b"
    using CheckActivity_effect [OF assms(1) _ _ assms(4)] assms(2) by blast
  then show ?thesis using only_active_views(2,3) [OF t'(2)] by (auto simp: activity_right_def split: option.splits)
qed

lemma check_activity_witness:
  "\<exists>s s'. run_all (scene_run 3 7) (scene_new [0]) (take 5 example_scene_calls) = Inr s \<and> \<not> active_of s 2 \<and>
    CheckActivity 3 s True 1 = Inr s' \<and> active_of s' 1 \<and> active_of s' 2"
proof -
  obtain s where s: "run_all (scene_run 3 7) (scene_new [0]) (take 5 example_scene_calls) = Inr s" "scene_good s"
    using example_scene by blast
  have f: "forest s" using s(2) by (simp add: scene_good_def scene_inv_def inv_but_def scene_ok_def)
  have e: "size_of s < 3" "map_option o_children (t_objs s 1) = Some [2]" "parent_of s 1 = None" "parent_of s 2 = Some 1"
    "enabled_of s 1" "enabled_of s 2" "\<forall>b r. t_objs s b = Some r \<longrightarrow> \<not> o_isActive r"
    using s(1) by (auto simp: scene_eval parent_of_def enabled_of_def Let_def split: if_splits cong: scene_cong)
  then obtain r where r: "t_objs s 1 = Some r" "o_children r = [2]" by auto
  have d: "1 \<in> desc s 1" "2 \<in> desc s 1" using desc_unfold [OF r(1)] r(2) by auto
  have "inactive_down s (desc s 1 - {1})" using e(7) all_inactive by blast
  then obtain s' where s': "CheckActivity 3 s True 1 = Inr s'"
    "\<forall>b \<in> desc s 1. active_of s' b \<longleftrightarrow> enabled_of s b \<and> (\<forall>p. parent_of s b = Some p \<longrightarrow> active_of s' p)"
    using check_activity [OF f r(1) e(1)] by blast
  have "active_of s' 1" using s'(2) d(1) e(3,5) by simp
  moreover have "active_of s' 2" using s'(2) d(2) e(4,6) calculation by simp
  moreover have "\<not> active_of s 2" using e(7) by (simp add: active_of_def split: option.split)
  ultimately show ?thesis using s(1) s'(1) by blast
qed

section \<open>Where it goes wrong\<close>

text \<open>A new object does not know itself as its root, and so neither does what is added below it.\<close>

lemma new_object_has_no_root:
  "\<exists>s. run_all (scene_run 3 7) (scene_new [0]) [S_New 1 11 [97], S_New 2 12 [98], S_Move 2 (Some 1)] = Inr s \<and>
    parent_of s 2 = Some 1 \<and> root_at s 1 = None \<and> root_at s 2 = None"
  by (simp add: scene_eval parent_of_def root_at_def Let_def cong: scene_cong)

text \<open>Moving an object rebuilds its own path only: the object below keeps the path it had.\<close>

lemma moved_path_is_stale:
  "\<exists>s. run_all (scene_run 7 7) (scene_new [0])
      [S_New 1 11 [97], S_New 2 12 [98], S_New 3 13 [99], S_Move 3 (Some 2), S_Move 2 (Some 1)] = Inr s \<and>
    map_option o_path (t_objs s 2) = Some [11, 12] \<and> map_option o_path (t_objs s 3) = Some [12, 13]"
  by (simp add: scene_eval Let_def cong: scene_cong)

text \<open>A search by component stops at the first free slot with a null pointer.\<close>

lemma find_by_component_null: "FindByComponent t has (None # os) = Inl NullPointer"
  by simp

end
