(* ===== verification/SR_Serialization.thy ===== *)
theory SR_Serialization
  imports SR_Strings
begin

text \<open>
  The text format of serialized objects (Serialization/SRASerialization.h, .cpp): a tree of named nodes,
  the serializer that builds it, its text of one line per node or value, the parser of the text, and the
  deserializer that walks the tree. \<open>SerializationId\<close> is from TypeTraits/TypeTraits.h, the reading of
  numbers from Common/StringFormat.h, the lines of a file from FileSystem/FileSystem.h.

  Both classes share a tree \<open>m_root\<close> and two paths into it: \<open>m_stack\<close> while a tree is built, \<open>m_walker\<close>
  while it is read. References to nodes become paths: an operation on the current node updates the tree
  at the path. Doubles are a type parameter with their printing (\<open>std::to_string\<close>) and reading
  (\<open>std::stod\<close>, 0 where it throws). The members of the union that a node's type does not select are not
  kept. Files are their contents; writing one and the error reports are outside.
\<close>

section \<open>Identifiers and numbers\<close>

record serialization_id =
  id_hash :: u64
  id_name :: bytes

definition MaxNameLength :: nat where
  "MaxNameLength = 256"

text \<open>\<open>strncpy\<close> stops at a terminator; the array is full of zeros before.\<close>

definition CreateFromString :: "bytes \<Rightarrow> serialization_id" where
  "CreateFromString t =
     \<lparr>id_hash = ComputeHash t, id_name = takeWhile (\<lambda>c. c \<noteq> 0) (take (min (length t) (MaxNameLength - 1)) t)\<rparr>"

definition no_id :: serialization_id where
  "no_id = \<lparr>id_hash = 0, id_name = []\<rparr>"

fun decimal :: "nat \<Rightarrow> bytes" where
  "decimal n = (if n < 10 then [48 + word_of_nat n] else decimal (n div 10) @ [48 + word_of_nat (n mod 10)])"

declare decimal.simps [simp del]

definition decimal_int :: "int \<Rightarrow> bytes" where
  "decimal_int i = (if i < 0 then 45 # decimal (nat (- i)) else decimal (nat i))"

definition is_digit :: "u8 \<Rightarrow> bool" where
  "is_digit c \<longleftrightarrow> 48 \<le> c \<and> c \<le> 57"

definition is_space :: "u8 \<Rightarrow> bool" where
  "is_space c \<longleftrightarrow> c = 32 \<or> 9 \<le> c \<and> c \<le> 13"

definition digits_value :: "bytes \<Rightarrow> nat" where
  "digits_value ds = foldl (\<lambda>a c. 10 * a + unat (c - 48)) 0 ds"

text \<open>\<open>std::stoi\<close> and \<open>std::stoll\<close>: blanks, a sign, digits; \<open>None\<close> when there is no number or it is out
  of the range of \<open>bits\<close> bits. \<open>LexicalCast\<close> catches that and gives 0.\<close>

definition strtol :: "nat \<Rightarrow> bytes \<Rightarrow> int option" where
  "strtol bits s =
     (let s1 = dropWhile is_space s;
          neg = (case s1 of c # _ \<Rightarrow> c = 45 | [] \<Rightarrow> False);
          s2 = (case s1 of c # r \<Rightarrow> if c = 45 \<or> c = 43 then r else s1 | [] \<Rightarrow> s1);
          ds = takeWhile is_digit s2;
          v = (if neg then - int (digits_value ds) else int (digits_value ds)) in
      if ds = [] \<or> v < - (2 ^ (bits - 1)) \<or> 2 ^ (bits - 1) \<le> v then None else Some v)"

definition LexicalCast_int :: "nat \<Rightarrow> bytes \<Rightarrow> int" where
  "LexicalCast_int bits s = (case strtol bits s of None \<Rightarrow> 0 | Some v \<Rightarrow> v)"

section \<open>Nodes and paths\<close>

datatype sra_type = SRA_Unknown | SRA_Root | SRA_String | SRA_Boolean | SRA_Integer | SRA_Floating
  | SRA_Object | SRA_Item | SRA_Array

datatype 'f sra_data = NoData | BoolData bool | IntData u64 | FloatData 'f

datatype 'f sra_node = SRANode (n_id: serialization_id) (n_type: sra_type) (n_string: bytes) (n_data: "'f sra_data")
  (n_children: "'f sra_node list")

definition new_node :: "serialization_id \<Rightarrow> sra_type \<Rightarrow> 'f sra_node" where
  "new_node i t = SRANode i t [] NoData []"

definition add_child :: "'f sra_node \<Rightarrow> 'f sra_node \<Rightarrow> 'f sra_node" where
  "add_child c n = (case n of SRANode i t s d cs \<Rightarrow> SRANode i t s d (cs @ [c]))"

fun get_path :: "'f sra_node \<Rightarrow> nat list \<Rightarrow> 'f sra_node option" where
  "get_path n [] = Some n"
| "get_path n (i # is) = (if i < length (n_children n) then get_path (n_children n ! i) is else None)"

fun upd_path :: "'f sra_node \<Rightarrow> nat list \<Rightarrow> ('f sra_node \<Rightarrow> 'f sra_node) \<Rightarrow> 'f sra_node" where
  "upd_path n [] f = f n"
| "upd_path (SRANode d t s v cs) (i # is) f = SRANode d t s v (cs[i := upd_path (cs ! i) is f])"

text \<open>An invalid path is reported and stands for the root.\<close>

definition GetNode :: "'f sra_node \<Rightarrow> nat list \<Rightarrow> 'f sra_node" where
  "GetNode root stack = (case get_path root stack of Some n \<Rightarrow> n | None \<Rightarrow> root)"

definition UpdNode :: "'f sra_node \<Rightarrow> nat list \<Rightarrow> ('f sra_node \<Rightarrow> 'f sra_node) \<Rightarrow> 'f sra_node" where
  "UpdNode root stack f = (case get_path root stack of Some n \<Rightarrow> upd_path root stack f | None \<Rightarrow> f root)"

record 'f sra =
  m_stack :: "nat list"
  m_walker :: "nat list"
  m_root :: "'f sra_node"

definition sra_new :: "'f sra" where
  "sra_new = \<lparr>m_stack = [], m_walker = [], m_root = new_node no_id SRA_Unknown\<rparr>"

definition pop_back :: "nat list \<Rightarrow> nat list result" where
  "pop_back st = (if st = [] then Inl OutOfRange else Inr (butlast st))"

section \<open>The serializer\<close>

definition serializer_new :: "'f sra" where
  "serializer_new = sra_new\<lparr>m_root := new_node (CreateFromString [82, 111, 111, 116]) SRA_Root\<rparr>"

definition current_node :: "'f sra \<Rightarrow> 'f sra_node" where
  "current_node s = GetNode (m_root s) (m_stack s)"

definition write_node :: "'f sra \<Rightarrow> 'f sra_node \<Rightarrow> 'f sra" where
  "write_node s n = s\<lparr>m_root := UpdNode (m_root s) (m_stack s) (add_child n)\<rparr>"

definition WriteString :: "'f sra \<Rightarrow> bytes \<Rightarrow> serialization_id \<Rightarrow> 'f sra" where
  "WriteString s v name = write_node s (SRANode name SRA_String v NoData [])"

definition WriteBool :: "'f sra \<Rightarrow> bool \<Rightarrow> serialization_id \<Rightarrow> 'f sra" where
  "WriteBool s v name = write_node s (SRANode name SRA_Boolean [] (BoolData v) [])"

definition WriteInt :: "'f sra \<Rightarrow> u64 \<Rightarrow> serialization_id \<Rightarrow> 'f sra" where
  "WriteInt s v name = write_node s (SRANode name SRA_Integer [] (IntData v) [])"

definition WriteDouble :: "'f sra \<Rightarrow> 'f \<Rightarrow> serialization_id \<Rightarrow> 'f sra" where
  "WriteDouble s v name = write_node s (SRANode name SRA_Floating [] (FloatData v) [])"

text \<open>The new node becomes the current one. The checks of the types only report.\<close>

definition begin_node :: "'f sra \<Rightarrow> serialization_id \<Rightarrow> sra_type \<Rightarrow> 'f sra" where
  "begin_node s name t =
     (let s1 = write_node s (new_node name t) in
      s1\<lparr>m_stack := m_stack s1 @ [length (n_children (current_node s1)) - 1]\<rparr>)"

definition BeginItem :: "'f sra \<Rightarrow> serialization_id \<Rightarrow> 'f sra" where
  "BeginItem s i = begin_node s i SRA_Item"

definition BeginObject :: "'f sra \<Rightarrow> serialization_id \<Rightarrow> 'f sra" where
  "BeginObject s name = begin_node s name SRA_Object"

definition BeginArray :: "'f sra \<Rightarrow> serialization_id \<Rightarrow> 'f sra" where
  "BeginArray s name = begin_node s name SRA_Array"

definition EndItem :: "'f sra \<Rightarrow> 'f sra result" where
  "EndItem s = bind_res (pop_back (m_stack s)) (\<lambda>st. Inr (s\<lparr>m_stack := st\<rparr>))"

definition EndObject :: "'f sra \<Rightarrow> 'f sra result" where
  "EndObject s = bind_res (pop_back (m_stack s)) (\<lambda>st. Inr (s\<lparr>m_stack := st\<rparr>))"

definition EndArray :: "'f sra \<Rightarrow> 'f sra result" where
  "EndArray s = bind_res (pop_back (m_stack s)) (\<lambda>st. Inr (s\<lparr>m_stack := st\<rparr>))"

section \<open>The text\<close>

definition sra_line :: "bool \<Rightarrow> nat \<Rightarrow> u8 \<Rightarrow> bytes \<Rightarrow> bytes" where
  "sra_line tabs depth letter rest =
     (if tabs then replicate depth chr_tab else []) @ decimal depth @ [45, letter, 58] @ rest @ [chr_newline]"

definition text_true :: bytes where "text_true = [116, 114, 117, 101]"
definition text_false :: bytes where "text_false = [102, 97, 108, 115, 101]"

fun data_bool :: "'f sra_data \<Rightarrow> bool" where
  "data_bool (BoolData b) = b" | "data_bool _ = False"

fun data_int :: "'f sra_data \<Rightarrow> u64" where
  "data_int (IntData i) = i" | "data_int _ = 0"

fun data_text :: "('f \<Rightarrow> bytes) \<Rightarrow> 'f sra_data \<Rightarrow> bytes" where
  "data_text print_float (FloatData x) = print_float x" | "data_text print_float _ = []"

text \<open>The tabs of a node that is then left out stay in the text.\<close>

fun serialize_node :: "bool \<Rightarrow> bool \<Rightarrow> ('f \<Rightarrow> bytes) \<Rightarrow> 'f sra_node \<Rightarrow> nat \<Rightarrow> bytes" where
  "serialize_node tabs allow_empty print_float (SRANode i t str dat cs) depth =
     (case t of
        SRA_Root \<Rightarrow> sra_line tabs depth 114 (id_name i) @
          concat (map (\<lambda>c. serialize_node tabs allow_empty print_float c (depth + 1)) cs)
      | SRA_Object \<Rightarrow> sra_line tabs depth 111 (id_name i) @
          concat (map (\<lambda>c. serialize_node tabs allow_empty print_float c (depth + 1)) cs)
      | SRA_Array \<Rightarrow> sra_line tabs depth 97 (id_name i) @
          concat (map (\<lambda>c. serialize_node tabs allow_empty print_float c (depth + 1)) cs)
      | SRA_Item \<Rightarrow>
          (case cs of
             [] \<Rightarrow> if allow_empty then sra_line tabs depth 107 (id_name i)
                  else (if tabs then replicate depth chr_tab else [])
           | c # _ \<Rightarrow> sra_line tabs depth 107 (id_name i) @ serialize_node tabs allow_empty print_float c (depth + 1))
      | SRA_Unknown \<Rightarrow> (if tabs then replicate depth chr_tab else [])
      | SRA_String \<Rightarrow> sra_line tabs depth 118 (id_name i) @ sra_line tabs (depth + 1) 115 str
      | SRA_Boolean \<Rightarrow> sra_line tabs depth 118 (id_name i) @
          sra_line tabs (depth + 1) 98 (if data_bool dat then text_true else text_false)
      | SRA_Integer \<Rightarrow> sra_line tabs depth 118 (id_name i) @
          sra_line tabs (depth + 1) 105 (decimal_int (sint (data_int dat)))
      | SRA_Floating \<Rightarrow> sra_line tabs depth 118 (id_name i) @
          sra_line tabs (depth + 1) 102 (data_text print_float dat))"

definition text_sra_format :: bytes where
  "text_sra_format = [115, 114, 97, 32, 102, 111, 114, 109, 97, 116]"

definition sra_ToString :: "bool \<Rightarrow> bool \<Rightarrow> ('f \<Rightarrow> bytes) \<Rightarrow> 'f sra \<Rightarrow> bytes" where
  "sra_ToString tabs allow_empty print_float s =
     text_sra_format @ [chr_newline] @ serialize_node tabs allow_empty print_float (m_root s) 0"

section \<open>The parser\<close>

fun read_lines :: "bytes \<Rightarrow> bytes \<Rightarrow> bytes list" where
  "read_lines [] line = [line]"
| "read_lines (c # cs) line = (if c = chr_newline then line # read_lines cs [] else read_lines cs (line @ [c]))"

definition ReadAllLines :: "bytes \<Rightarrow> bytes list" where
  "ReadAllLines content = read_lines content []"

text \<open>The rest of a line after the first such character, and the whole line when it has none.\<close>

definition after :: "bytes \<Rightarrow> u8 \<Rightarrow> bytes" where
  "after line c = (case find_str line [c] of None \<Rightarrow> line | Some p \<Rightarrow> drop (p + 1) line)"

definition strip_tabs :: "bytes \<Rightarrow> bytes" where
  "strip_tabs line =
     (if line \<noteq> [] \<and> hd line = chr_tab \<and> dropWhile (\<lambda>c. c = chr_tab) line \<noteq> [] then dropWhile (\<lambda>c. c = chr_tab) line else line)"

fun pop_to :: "nat list \<Rightarrow> nat \<Rightarrow> nat list" where
  "pop_to st depth = (if length st + 1 > depth \<and> st \<noteq> [] then pop_to (butlast st) depth else st)"

declare pop_to.simps [simp del]

definition set_root :: "serialization_id \<Rightarrow> 'f sra_node \<Rightarrow> 'f sra_node" where
  "set_root i n = (case n of SRANode j t s d cs \<Rightarrow> SRANode i SRA_Root s d cs)"

definition set_string :: "bytes \<Rightarrow> 'f sra_node \<Rightarrow> 'f sra_node" where
  "set_string str n = (case n of SRANode i t s d cs \<Rightarrow> SRANode i SRA_String str d cs)"

definition set_data :: "sra_type \<Rightarrow> 'f sra_data \<Rightarrow> 'f sra_node \<Rightarrow> 'f sra_node" where
  "set_data ty dat n = (case n of SRANode i t s d cs \<Rightarrow> SRANode i ty s dat cs)"

text \<open>A new child of the current node becomes the current one; a value ends the current node.\<close>

definition parse_node :: "'f sra \<Rightarrow> sra_type \<Rightarrow> bytes \<Rightarrow> 'f sra" where
  "parse_node s t rest = begin_node s (CreateFromString rest) t"

definition parse_value :: "'f sra \<Rightarrow> ('f sra_node \<Rightarrow> 'f sra_node) \<Rightarrow> 'f sra result" where
  "parse_value s f =
     bind_res (pop_back (m_stack s)) (\<lambda>st. Inr (s\<lparr>m_root := UpdNode (m_root s) (m_stack s) f, m_stack := st\<rparr>))"

definition parse_letter :: "(bytes \<Rightarrow> 'f) \<Rightarrow> 'f sra \<Rightarrow> u8 \<Rightarrow> bytes \<Rightarrow> 'f sra result" where
  "parse_letter read_float s letter rest =
     (if letter = 114 then Inr (s\<lparr>m_root := UpdNode (m_root s) (m_stack s) (set_root (CreateFromString rest))\<rparr>)
      else if letter = 118 then Inr (parse_node s SRA_Unknown rest)
      else if letter = 111 then Inr (parse_node s SRA_Object rest)
      else if letter = 97 then Inr (parse_node s SRA_Array rest)
      else if letter = 107 then Inr (parse_node s SRA_Item rest)
      else if letter = 115 then parse_value s (set_string rest)
      else if letter = 98 then parse_value s (set_data SRA_Boolean (BoolData (rest = text_true)))
      else if letter = 105 then parse_value s (set_data SRA_Integer (IntData (word_of_int (LexicalCast_int 64 rest))))
      else if letter = 102 then parse_value s (set_data SRA_Floating (FloatData (read_float rest)))
      else Inr s)"

text \<open>The depth is read from the start of the line: the view has no end for \<open>std::stoi\<close>. As \<open>size_t\<close> a
  negative one is very large.\<close>

definition parse_line :: "(bytes \<Rightarrow> 'f) \<Rightarrow> 'f sra \<Rightarrow> bytes \<Rightarrow> 'f sra result" where
  "parse_line read_float s line0 =
     (let line = strip_tabs line0 in
      if line = [] then Inr s
      else
        let depth = LexicalCast_int 32 line in
        if depth = 0 \<and> m_stack s \<noteq> [] then Inr s
        else
          case after line 45 of
            [] \<Rightarrow> Inr s
          | letter # _ \<Rightarrow>
              parse_letter read_float (s\<lparr>m_stack := pop_to (m_stack s) (nat (depth mod 2 ^ 64))\<rparr>) letter (after line 58))"

fun parse_lines :: "(bytes \<Rightarrow> 'f) \<Rightarrow> 'f sra \<Rightarrow> bytes list \<Rightarrow> 'f sra result" where
  "parse_lines read_float s [] = Inr s"
| "parse_lines read_float s (l # ls) = bind_res (parse_line read_float s l) (\<lambda>s1. parse_lines read_float s1 ls)"

text \<open>\<open>None\<close> is a file that cannot be read; the result of the code is the flag.\<close>

definition LoadFromFile :: "(bytes \<Rightarrow> 'f) \<Rightarrow> 'f sra \<Rightarrow> bytes option \<Rightarrow> (bool \<times> 'f sra) result" where
  "LoadFromFile read_float s file =
     (case file of None \<Rightarrow> Inr (False, s)
      | Some content \<Rightarrow>
          (case ReadAllLines content of [] \<Rightarrow> Inr (False, s)
           | l # ls \<Rightarrow>
               if find_str l text_sra_format = None then Inr (False, s)
               else bind_res (parse_lines read_float s ls) (\<lambda>s1. Inr (True, s1))))"

section \<open>The deserializer\<close>

definition walk_node :: "'f sra \<Rightarrow> 'f sra_node" where
  "walk_node s = GetNode (m_root s) (m_walker s)"

fun find_child :: "'f sra_node list \<Rightarrow> u64 \<Rightarrow> nat option" where
  "find_child [] h = None"
| "find_child (c # cs) h = (if id_hash (n_id c) = h then Some 0 else map_option Suc (find_child cs h))"

definition D_BeginItem :: "'f sra \<Rightarrow> serialization_id \<Rightarrow> nat \<Rightarrow> bool \<times> 'f sra" where
  "D_BeginItem s i index =
     (let cs = n_children (walk_node s) in
      if length cs \<le> index then (False, s)
      else if id_hash (n_id (cs ! index)) \<noteq> id_hash i then (False, s)
      else (True, s\<lparr>m_walker := m_walker s @ [index]\<rparr>))"

definition D_EndItem :: "'f sra \<Rightarrow> 'f sra" where
  "D_EndItem s =
     (if m_walker s = [] then s
      else if n_type (walk_node s) \<noteq> SRA_Item then s
      else s\<lparr>m_walker := butlast (m_walker s)\<rparr>)"

definition D_BeginObject :: "'f sra \<Rightarrow> serialization_id \<Rightarrow> bool \<times> 'f sra" where
  "D_BeginObject s i =
     (case find_child (n_children (walk_node s)) (id_hash i) of
        Some k \<Rightarrow> (True, s\<lparr>m_walker := m_walker s @ [k]\<rparr>)
      | None \<Rightarrow> (False, s))"

definition D_EndObject :: "'f sra \<Rightarrow> 'f sra" where
  "D_EndObject s =
     (if m_walker s = [] then s
      else if n_type (walk_node s) \<noteq> SRA_Object then s
      else s\<lparr>m_walker := butlast (m_walker s)\<rparr>)"

definition D_BeginArray :: "'f sra \<Rightarrow> serialization_id \<Rightarrow> nat \<times> 'f sra" where
  "D_BeginArray s i =
     (let cs = n_children (walk_node s) in
      case find_child cs (id_hash i) of
        Some k \<Rightarrow> (length (n_children (cs ! k)), s\<lparr>m_walker := m_walker s @ [k]\<rparr>)
      | None \<Rightarrow> (0, s))"

definition D_EndArray :: "'f sra \<Rightarrow> 'f sra" where
  "D_EndArray s = (if m_walker s = [] then s else s\<lparr>m_walker := butlast (m_walker s)\<rparr>)"

text \<open>The first child of the name decides; another type leaves the variable.\<close>

definition ReadString :: "'f sra \<Rightarrow> bytes \<Rightarrow> serialization_id \<Rightarrow> bytes" where
  "ReadString s v name =
     (let cs = n_children (walk_node s) in
      case find_child cs (id_hash name) of
        Some k \<Rightarrow> if n_type (cs ! k) = SRA_String then n_string (cs ! k) else v
      | None \<Rightarrow> v)"

definition ReadBool :: "'f sra \<Rightarrow> bool \<Rightarrow> serialization_id \<Rightarrow> bool" where
  "ReadBool s v name =
     (let cs = n_children (walk_node s) in
      case find_child cs (id_hash name) of
        Some k \<Rightarrow> if n_type (cs ! k) = SRA_Boolean then data_bool (n_data (cs ! k)) else v
      | None \<Rightarrow> v)"

text \<open>The conversion to the integer type of the variable is the parameter.\<close>

definition ReadInt :: "(u64 \<Rightarrow> 'i) \<Rightarrow> 'f sra \<Rightarrow> 'i \<Rightarrow> serialization_id \<Rightarrow> 'i" where
  "ReadInt conv s v name =
     (let cs = n_children (walk_node s) in
      case find_child cs (id_hash name) of
        Some k \<Rightarrow> if n_type (cs ! k) = SRA_Integer then conv (data_int (n_data (cs ! k))) else v
      | None \<Rightarrow> v)"

definition ReadFloat :: "('f \<Rightarrow> 'g) \<Rightarrow> 'f sra \<Rightarrow> 'g \<Rightarrow> serialization_id \<Rightarrow> 'g" where
  "ReadFloat conv s v name =
     (let cs = n_children (walk_node s) in
      case find_child cs (id_hash name) of
        Some k \<Rightarrow> (case n_data (cs ! k) of FloatData x \<Rightarrow> if n_type (cs ! k) = SRA_Floating then conv x else v | _ \<Rightarrow> v)
      | None \<Rightarrow> v)"

section \<open>Numbers are read back\<close>

lemma digit_word: "n < 10 \<Longrightarrow> is_digit (48 + word_of_nat n) \<and> unat ((48 + word_of_nat n :: u8) - 48) = n"
  by (simp add: is_digit_def word_le_nat_alt unat_word_ariths unat_of_nat)

lemma digits_value_snoc: "digits_value (ds @ [c]) = 10 * digits_value ds + unat (c - 48)"
  by (simp add: digits_value_def)

lemma decimal_digits: "\<forall>c \<in> set (decimal n). is_digit c"
proof (induction n rule: less_induct)
  case (less n)
  have "\<not> n < 10 \<Longrightarrow> \<forall>c \<in> set (decimal (n div 10)). is_digit c" using less [of "n div 10"] by simp
  then show ?case using digit_word [of n] digit_word [of "n mod 10"] by (cases "n < 10") (auto simp: decimal.simps [of n])
qed

lemma decimal_nonempty: "decimal n \<noteq> []"
  by (simp add: decimal.simps [of n])

lemma digits_value_decimal: "digits_value (decimal n) = n"
proof (induction n rule: less_induct)
  case (less n)
  show ?case
  proof (cases "n < 10")
    case True
    then show ?thesis using digit_word [of n] by (simp add: decimal.simps [of n] digits_value_def)
  next
    case False
    then have "digits_value (decimal (n div 10)) = n div 10" by (intro less) simp
    then show ?thesis using False digit_word [of "n mod 10"] by (simp add: decimal.simps [of n] digits_value_snoc)
  qed
qed

lemma decimal_hd: "\<exists>c r. decimal n = c # r \<and> is_digit c"
  using decimal_digits [of n] decimal_nonempty [of n] by (cases "decimal n") auto

lemma digit_not: "is_digit c \<Longrightarrow> \<not> is_space c \<and> c \<noteq> 45 \<and> c \<noteq> 43 \<and> c \<noteq> 58 \<and> c \<noteq> 9 \<and> c \<noteq> 10"
  by (auto simp: is_digit_def is_space_def word_le_nat_alt)

lemma takeWhile_decimal [simp]: "takeWhile is_digit (decimal n) = decimal n"
  using decimal_digits by (simp add: takeWhile_eq_all_conv)

lemma strtol_decimal:
  assumes "r = [] \<or> \<not> is_digit (hd r)" and "n < 2 ^ (bits - 1)"
  shows "strtol bits (decimal n @ r) = Some (int n)"
proof -
  obtain c q where c: "decimal n = c # q" "is_digit c" using decimal_hd by blast
  have "takeWhile is_digit (decimal n @ r) = decimal n"
    using decimal_digits [of n] assms(1) by (cases r) (auto simp: takeWhile_append)
  then have t: "takeWhile is_digit (c # q @ r) = decimal n" using c by simp
  have "- (2 ^ (bits - 1)) \<le> (0 :: int)" by simp
  then have "\<not> int n < - (2 ^ (bits - 1))" by linarith
  then show ?thesis using c t digit_not [OF c(2)] assms(2) decimal_nonempty [of n] digits_value_decimal [of n]
    by (simp add: strtol_def Let_def)
qed

lemma strtol_decimal_int:
  assumes "- (2 ^ 63) \<le> i" and "i < 2 ^ 63"
  shows "strtol 64 (decimal_int i) = Some i"
proof (cases "i < 0")
  case True
  have "\<not> is_space 45" by (simp add: is_space_def)
  then show ?thesis using True assms decimal_nonempty digits_value_decimal [of "nat (- i)"]
    by (simp add: decimal_int_def strtol_def Let_def)
next
  case False
  then show ?thesis using strtol_decimal [of "[]" "nat i" 64] assms by (simp add: decimal_int_def nat_less_iff)
qed

lemma LexicalCast_decimal_int: "LexicalCast_int 64 (decimal_int (sint (w :: u64))) = sint w"
proof -
  have "- (2 ^ 63) \<le> sint w" "sint w < 2 ^ 63"
    using sint_greater_eq [of w] sint_less [of w] by simp_all
  then show ?thesis by (simp add: LexicalCast_int_def strtol_decimal_int)
qed

section \<open>Lines\<close>

type_synonym entry = "nat \<times> u8 \<times> bytes"

definition entry_line :: "bool \<Rightarrow> entry \<Rightarrow> bytes" where
  "entry_line tabs e = (case e of (d, l, r) \<Rightarrow> (if tabs then replicate d chr_tab else []) @ decimal d @ [45, l, 58] @ r)"

fun node_entries :: "('f \<Rightarrow> bytes) \<Rightarrow> 'f sra_node \<Rightarrow> nat \<Rightarrow> entry list" where
  "node_entries print_float (SRANode i t str dat cs) depth =
     (case t of
        SRA_Object \<Rightarrow> (depth, 111, id_name i) # concat (map (\<lambda>c. node_entries print_float c (depth + 1)) cs)
      | SRA_Array \<Rightarrow> (depth, 97, id_name i) # concat (map (\<lambda>c. node_entries print_float c (depth + 1)) cs)
      | SRA_Root \<Rightarrow> (depth, 114, id_name i) # concat (map (\<lambda>c. node_entries print_float c (depth + 1)) cs)
      | SRA_Item \<Rightarrow> (depth, 107, id_name i) # (case cs of [] \<Rightarrow> [] | c # _ \<Rightarrow> node_entries print_float c (depth + 1))
      | SRA_Unknown \<Rightarrow> []
      | SRA_String \<Rightarrow> [(depth, 118, id_name i), (depth + 1, 115, str)]
      | SRA_Boolean \<Rightarrow> [(depth, 118, id_name i), (depth + 1, 98, if data_bool dat then text_true else text_false)]
      | SRA_Integer \<Rightarrow> [(depth, 118, id_name i), (depth + 1, 105, decimal_int (sint (data_int dat)))]
      | SRA_Floating \<Rightarrow> [(depth, 118, id_name i), (depth + 1, 102, data_text print_float dat)])"

text \<open>Trees that the format can carry: names that an identifier can hold and that are one line, values
  of one line, doubles that printing keeps, items with at most one child.\<close>

definition name_ok :: "serialization_id \<Rightarrow> bool" where
  "name_ok i \<longleftrightarrow> CreateFromString (id_name i) = i \<and> chr_newline \<notin> set (id_name i)"

fun node_ok :: "bool \<Rightarrow> ('f \<Rightarrow> bytes) \<Rightarrow> (bytes \<Rightarrow> 'f) \<Rightarrow> 'f sra_node \<Rightarrow> bool" where
  "node_ok allow_empty print_float read_float (SRANode i t str dat cs) \<longleftrightarrow> name_ok i \<and>
     (case t of
        SRA_String \<Rightarrow> cs = [] \<and> dat = NoData \<and> chr_newline \<notin> set str
      | SRA_Boolean \<Rightarrow> cs = [] \<and> str = [] \<and> dat = BoolData (data_bool dat)
      | SRA_Integer \<Rightarrow> cs = [] \<and> str = [] \<and> dat = IntData (data_int dat)
      | SRA_Floating \<Rightarrow> cs = [] \<and> str = [] \<and> chr_newline \<notin> set (data_text print_float dat) \<and>
          dat = FloatData (read_float (data_text print_float dat))
      | SRA_Object \<Rightarrow> str = [] \<and> dat = NoData \<and> (\<forall>c \<in> set cs. node_ok allow_empty print_float read_float c)
      | SRA_Array \<Rightarrow> str = [] \<and> dat = NoData \<and> (\<forall>c \<in> set cs. node_ok allow_empty print_float read_float c)
      | SRA_Item \<Rightarrow> str = [] \<and> dat = NoData \<and> length cs \<le> 1 \<and> (allow_empty \<or> cs \<noteq> []) \<and>
          (\<forall>c \<in> set cs. node_ok allow_empty print_float read_float c)
      | _ \<Rightarrow> False)"

definition text_of :: "bool \<Rightarrow> entry list \<Rightarrow> bytes" where
  "text_of tabs es = concat (map (\<lambda>e. entry_line tabs e @ [chr_newline]) es)"

lemma text_of_simps [simp]:
  "text_of tabs [] = []" "text_of tabs (e # es) = entry_line tabs e @ [chr_newline] @ text_of tabs es"
  "text_of tabs (es @ fs) = text_of tabs es @ text_of tabs fs"
  "text_of tabs (concat ess) = concat (map (text_of tabs) ess)"
  by (induction ess) (simp_all add: text_of_def)

lemma sra_line_entry: "sra_line tabs d l r = entry_line tabs (d, l, r) @ [chr_newline]"
  by (simp add: sra_line_def entry_line_def)

lemma serialize_entries:
  "node_ok allow_empty print_float read_float n \<Longrightarrow>
    serialize_node tabs allow_empty print_float n d = text_of tabs (node_entries print_float n d)"
proof (induction n arbitrary: d)
  case (SRANode i t str dat cs)
  then show ?case
    by (cases t; cases cs) (auto simp: sra_line_entry comp_def intro!: arg_cong [where f = concat] map_cong)
qed

lemma entry_no_newline:
  "node_ok allow_empty print_float read_float n \<Longrightarrow> (e, l, r) \<in> set (node_entries print_float n d) \<Longrightarrow> chr_newline \<notin> set r \<and> l \<noteq> 58 \<and> l \<noteq> 10"
proof (induction n arbitrary: d)
  case (SRANode i t str dat cs)
  have "chr_newline \<notin> set (decimal_int j)" for j
    using decimal_digits digit_not by (auto simp: decimal_int_def)
  then show ?case using SRANode
    by (cases t; cases cs) (auto simp: name_ok_def text_true_def text_false_def split: if_splits)
qed

lemma read_lines_line: "chr_newline \<notin> set l \<Longrightarrow> read_lines (l @ chr_newline # r) acc = (acc @ l) # read_lines r []"
  by (induction l arbitrary: acc) auto

lemma ReadAllLines_text:
  "\<forall>(d, l, r) \<in> set es. chr_newline \<notin> set r \<and> l \<noteq> 58 \<and> l \<noteq> 10 \<Longrightarrow> ReadAllLines (text_of tabs es) = map (entry_line tabs) es @ [[]]"
proof (induction es)
  case (Cons e es)
  obtain d l r where e: "e = (d, l, r)" by (cases e)
  have "chr_newline \<notin> set (entry_line tabs e)"
    using Cons.prems e decimal_digits [of d] digit_not by (auto simp: entry_line_def)
  then show ?case using Cons by (simp add: ReadAllLines_def read_lines_line)
qed (simp add: ReadAllLines_def)

lemma after_first: "c \<notin> set u \<Longrightarrow> after (u @ c # v) c = v"
proof -
  assume c: "c \<notin> set u"
  then have "find_str (u @ c # v) [c] = Some (length u)" by (induction u) (auto simp: starts_with_def)
  then show ?thesis by (simp add: after_def)
qed

lemma parse_entry:
  assumes "d < 2 ^ 31" and "d = 0 \<longrightarrow> m_stack s = []" and "l \<noteq> 58"
  shows "parse_line read_float s (entry_line tabs (d, l, r)) = parse_letter read_float (s\<lparr>m_stack := pop_to (m_stack s) d\<rparr>) l r"
proof -
  let ?line = "decimal d @ [45, l, 58] @ r"
  obtain c q where c: "decimal d = c # q" "is_digit c" using decimal_hd by blast
  have "dropWhile (\<lambda>c. c = chr_tab) (replicate d chr_tab @ ?line) = ?line"
    using c digit_not [OF c(2)] by (simp add: dropWhile_append)
  then have strip: "strip_tabs (entry_line tabs (d, l, r)) = ?line"
    using c digit_not [OF c(2)] by (cases d) (auto simp: strip_tabs_def entry_line_def)
  have "45 \<notin> set (decimal d)" "58 \<notin> set (decimal d @ [45, l])"
    using decimal_digits [of d] digit_not assms(3) by auto
  then have after: "after ?line 45 = l # 58 # r" "after ?line 58 = r"
    using after_first [of 45 "decimal d" "l # 58 # r"] after_first [of 58 "decimal d @ [45, l]" r] by simp_all
  have "strtol 32 ?line = Some (int d)" by (rule strtol_decimal) (use assms(1) in \<open>simp_all add: is_digit_def\<close>)
  then have depth: "LexicalCast_int 32 ?line = int d" by (simp add: LexicalCast_int_def)
  have "nat (int d mod 2 ^ 64) = d" using assms(1) by simp
  then show ?thesis unfolding parse_line_def strip Let_def after depth using assms(2) c by auto
qed

lemma pop_to_take: "k \<le> length st \<Longrightarrow> pop_to st (Suc k) = take k st"
proof (induction st rule: rev_induct)
  case (snoc x st)
  then show ?case by (cases "k = Suc (length st)") (simp_all add: pop_to.simps [of "st @ [x]"])
qed (simp add: pop_to.simps)

section \<open>Paths\<close>

lemma get_upd_path: "get_path n p = Some m \<Longrightarrow> get_path (upd_path n p f) p = Some (f m)"
proof (induction p arbitrary: n)
  case (Cons i p)
  then show ?case by (cases n) (auto split: if_splits)
qed simp

lemma upd_upd_path: "get_path n p = Some m \<Longrightarrow> upd_path (upd_path n p f) p g = upd_path n p (g \<circ> f)"
proof (induction p arbitrary: n)
  case (Cons i p)
  then show ?case by (cases n) (auto split: if_splits)
qed simp

lemma get_path_append: "get_path n p = Some m \<Longrightarrow> get_path n (p @ q) = get_path m q"
  by (induction p arbitrary: n) (auto split: if_splits)

lemma upd_path_append: "get_path n p = Some m \<Longrightarrow> upd_path n (p @ q) f = upd_path n p (\<lambda>x. upd_path x q f)"
proof (induction p arbitrary: n)
  case (Cons i p)
  then show ?case by (cases n) (auto split: if_splits)
qed simp

lemma upd_path_cong: "get_path n p = Some m \<Longrightarrow> f m = g m \<Longrightarrow> upd_path n p f = upd_path n p g"
proof (induction p arbitrary: n)
  case (Cons i p)
  then show ?case by (cases n) (auto split: if_splits)
qed simp

definition add_children :: "'f sra_node list \<Rightarrow> 'f sra_node \<Rightarrow> 'f sra_node" where
  "add_children cs n = (case n of SRANode i t s d ds \<Rightarrow> SRANode i t s d (ds @ cs))"

lemma add_children_simps: "add_children [] n = n" "add_children cs (add_child c n) = add_children (c # cs) n" "add_child c n = add_children [c] n"
  by (cases n; simp add: add_children_def add_child_def)+

lemma last_child:
  assumes "get_path root p = Some m"
  shows "get_path (upd_path root p (add_child c)) (p @ [length (n_children m)]) = Some c"
    "upd_path (upd_path root p (add_child c)) (p @ [length (n_children m)]) f = upd_path root p (add_child (f c))"
proof -
  note g = get_upd_path [OF assms, of "add_child c"]
  show "get_path (upd_path root p (add_child c)) (p @ [length (n_children m)]) = Some c"
    unfolding get_path_append [OF g] by (cases m) (simp add: add_child_def)
  have "upd_path (upd_path root p (add_child c)) (p @ [length (n_children m)]) f =
      upd_path root p ((\<lambda>x. upd_path x [length (n_children m)] f) \<circ> add_child c)"
    unfolding upd_path_append [OF g] by (rule upd_upd_path [OF assms])
  also have "\<dots> = upd_path root p (add_child (f c))"
    by (rule upd_path_cong [OF assms]) (cases m, simp add: add_child_def)
  finally show "upd_path (upd_path root p (add_child c)) (p @ [length (n_children m)]) f = upd_path root p (add_child (f c))" .
qed

text \<open>What a new node does to a state whose current path is valid.\<close>

lemma begin_node_at:
  assumes "get_path (m_root s) (m_stack s) = Some m"
  shows "begin_node s i t = s\<lparr>m_root := upd_path (m_root s) (m_stack s) (add_child (new_node i t)),
    m_stack := m_stack s @ [length (n_children m)]\<rparr>"
  using assms get_upd_path [OF assms, of "add_child (new_node i t)"]
  by (cases m) (simp add: begin_node_def write_node_def UpdNode_def current_node_def GetNode_def Let_def add_child_def)

section \<open>The parser rebuilds the tree\<close>

fun parse_entries :: "(bytes \<Rightarrow> 'f) \<Rightarrow> 'f sra \<Rightarrow> entry list \<Rightarrow> 'f sra result" where
  "parse_entries read_float s [] = Inr s"
| "parse_entries read_float s ((d, l, r) # es) =
     bind_res (parse_letter read_float (s\<lparr>m_stack := pop_to (m_stack s) d\<rparr>) l r) (\<lambda>s1. parse_entries read_float s1 es)"

text \<open>The state while the children of the node at \<open>p\<close> are parsed.\<close>

definition inside :: "'f sra \<Rightarrow> nat list \<Rightarrow> 'f sra_node \<Rightarrow> bool" where
  "inside s p m \<longleftrightarrow> get_path (m_root s) p = Some m \<and> take (length p) (m_stack s) = p"

lemma inside_pop: "inside s p m \<Longrightarrow> pop_to (m_stack s) (Suc (length p)) = p"
proof -
  assume i: "inside s p m"
  then have "length (take (length p) (m_stack s)) = length p" by (simp add: inside_def)
  then have "length p \<le> length (m_stack s)" by (simp add: min_def split: if_splits)
  then show ?thesis using i by (simp add: pop_to_take inside_def)
qed

lemma parse_begin:
  assumes "inside s p m" and "name_ok i" and "\<And>s r. parse_letter read_float s l r = Inr (parse_node s t r)"
  shows "parse_entries read_float s ((Suc (length p), l, id_name i) # es) =
    parse_entries read_float (s\<lparr>m_root := upd_path (m_root s) p (add_child (new_node i t)), m_stack := p @ [length (n_children m)]\<rparr>) es"
proof -
  have g: "get_path (m_root s) p = Some m" using assms(1) by (simp add: inside_def)
  have "begin_node (s\<lparr>m_stack := p\<rparr>) i t = s\<lparr>m_root := upd_path (m_root s) p (add_child (new_node i t)), m_stack := p @ [length (n_children m)]\<rparr>"
    by (subst begin_node_at) (use g in simp_all)
  then show ?thesis using assms(2,3) inside_pop [OF assms(1)] by (simp add: parse_node_def name_ok_def)
qed

lemma parse_value_entry:
  assumes "inside s p m" and "name_ok i" and "\<And>s. parse_letter read_float s l r = parse_value s f"
  shows "\<exists>s'. parse_entries read_float s ((Suc (length p), 118, id_name i) # (Suc (Suc (length p)), l, r) # es) = parse_entries read_float s' es \<and>
    m_root s' = upd_path (m_root s) p (add_child (f (new_node i SRA_Unknown))) \<and> m_walker s' = m_walker s \<and> take (length p) (m_stack s') = p"
proof -
  have g: "get_path (m_root s) p = Some m" using assms(1) by (simp add: inside_def)
  let ?q = "p @ [length (n_children m)]" and ?root = "upd_path (m_root s) p (add_child (new_node i SRA_Unknown))"
  have v: "parse_letter read_float s 118 r = Inr (parse_node s SRA_Unknown r)" for s :: "'a sra" and r
    by (simp add: parse_letter_def)
  have pop: "pop_to ?q (Suc (Suc (length p))) = ?q" by (subst pop_to_take) simp_all
  have "UpdNode ?root ?q f = upd_path (m_root s) p (add_child (f (new_node i SRA_Unknown)))"
    unfolding UpdNode_def last_child(1) [OF g] option.case by (rule last_child(2) [OF g])
  then show ?thesis unfolding parse_begin [OF assms(1,2) v] using assms(3) pop
    by (intro exI [of _ "s\<lparr>m_root := upd_path (m_root s) p (add_child (f (new_node i SRA_Unknown))), m_stack := p\<rparr>"])
      (simp add: parse_value_def pop_back_def)
qed

lemma parse_children:
  assumes "\<And>c s p m es. c \<in> set cs \<Longrightarrow> inside s p m \<Longrightarrow> \<exists>s'. parse_entries read_float s (node_entries print_float c (Suc (length p)) @ es) =
      parse_entries read_float s' es \<and> m_root s' = upd_path (m_root s) p (add_child c) \<and> m_walker s' = m_walker s \<and> take (length p) (m_stack s') = p"
    and "inside s p m"
  shows "\<exists>s'. parse_entries read_float s (concat (map (\<lambda>c. node_entries print_float c (Suc (length p))) cs) @ es) =
      parse_entries read_float s' es \<and> m_root s' = upd_path (m_root s) p (add_children cs) \<and> m_walker s' = m_walker s \<and> take (length p) (m_stack s') = p"
  using assms
proof (induction cs arbitrary: s m)
  case Nil
  have "upd_path n p (add_children []) = n" if "get_path n p = Some m" for n :: "'a sra_node" and m
    using that
  proof (induction p arbitrary: n)
    case (Cons i p)
    then show ?case by (cases n) (auto split: if_splits)
  qed (simp add: add_children_simps)
  then show ?case using Nil by (auto simp: inside_def)
next
  case (Cons c cs)
  let ?es = "concat (map (\<lambda>c. node_entries print_float c (Suc (length p))) cs) @ es"
  obtain s1 where s1: "parse_entries read_float s (node_entries print_float c (Suc (length p)) @ ?es) = parse_entries read_float s1 ?es"
    "m_root s1 = upd_path (m_root s) p (add_child c)" "m_walker s1 = m_walker s" "take (length p) (m_stack s1) = p"
    using Cons.prems(1) [of c s p m ?es] Cons.prems(2) by auto
  have g: "get_path (m_root s) p = Some m" using Cons.prems(2) by (simp add: inside_def)
  have "inside s1 p (add_child c m)" using s1(2,4) get_upd_path [OF g] by (simp add: inside_def)
  then obtain s2 where s2: "parse_entries read_float s1 ?es = parse_entries read_float s2 es"
    "m_root s2 = upd_path (m_root s1) p (add_children cs)" "m_walker s2 = m_walker s1" "take (length p) (m_stack s2) = p"
    using Cons.IH [of s1 "add_child c m"] Cons.prems(1) by auto
  have "m_root s2 = upd_path (m_root s) p (add_children (c # cs))"
    unfolding s2(2) s1(2) upd_upd_path [OF g] by (rule upd_path_cong [OF g]) (simp only: comp_apply add_children_simps(2))
  then show ?case using s1 s2 by auto
qed

text \<open>A node with children: its line, the children, and the node is complete.\<close>

lemma parse_parent:
  assumes "inside s p m" and "name_ok i" and "\<And>s r. parse_letter read_float s l r = Inr (parse_node s t r)"
    and "\<And>c s p m es. c \<in> set cs \<Longrightarrow> inside s p m \<Longrightarrow> \<exists>s'. parse_entries read_float s (node_entries print_float c (Suc (length p)) @ es) =
      parse_entries read_float s' es \<and> m_root s' = upd_path (m_root s) p (add_child c) \<and> m_walker s' = m_walker s \<and> take (length p) (m_stack s') = p"
  shows "\<exists>s'. parse_entries read_float s ((Suc (length p), l, id_name i) # concat (map (\<lambda>c. node_entries print_float c (Suc (Suc (length p)))) cs) @ es) =
      parse_entries read_float s' es \<and> m_root s' = upd_path (m_root s) p (add_child (SRANode i t [] NoData cs)) \<and>
      m_walker s' = m_walker s \<and> take (length p) (m_stack s') = p"
proof -
  have g: "get_path (m_root s) p = Some m" using assms(1) by (simp add: inside_def)
  let ?q = "p @ [length (n_children m)]"
  let ?s1 = "s\<lparr>m_root := upd_path (m_root s) p (add_child (new_node i t)), m_stack := ?q\<rparr>"
  have "inside ?s1 ?q (new_node i t)" using last_child(1) [OF g] by (simp add: inside_def)
  have "\<exists>s2. parse_entries read_float ?s1 (concat (map (\<lambda>c. node_entries print_float c (Suc (length ?q))) cs) @ es) = parse_entries read_float s2 es \<and>
    m_root s2 = upd_path (m_root ?s1) ?q (add_children cs) \<and> m_walker s2 = m_walker ?s1 \<and> take (length ?q) (m_stack s2) = ?q"
    by (rule parse_children [OF assms(4) \<open>inside ?s1 ?q (new_node i t)\<close>])
  then obtain s2 where
    s2: "parse_entries read_float ?s1 (concat (map (\<lambda>c. node_entries print_float c (Suc (length ?q))) cs) @ es) = parse_entries read_float s2 es"
    "m_root s2 = upd_path (m_root ?s1) ?q (add_children cs)" "m_walker s2 = m_walker ?s1" "take (length ?q) (m_stack s2) = ?q" by blast
  have "m_root s2 = upd_path (m_root s) p (add_child (SRANode i t [] NoData cs))"
    using s2(2) last_child(2) [OF g, of "new_node i t" "add_children cs"] by (simp add: add_children_def new_node_def)
  moreover have "take (length p) (m_stack s2) = p"
  proof -
    have "take (length p) (m_stack s2) = take (length p) (take (length ?q) (m_stack s2))" by simp
    then show ?thesis unfolding s2(4) by simp
  qed
  ultimately show ?thesis using s2(1,3) parse_begin [OF assms(1-3)] by (intro exI [of _ s2]) simp
qed

lemma parse_node_entries:
  assumes "node_ok allow_empty print_float read_float n" and "inside s p m"
  shows "\<exists>s'. parse_entries read_float s (node_entries print_float n (Suc (length p)) @ es) = parse_entries read_float s' es \<and>
    m_root s' = upd_path (m_root s) p (add_child n) \<and> m_walker s' = m_walker s \<and> take (length p) (m_stack s') = p"
  using assms
proof (induction n arbitrary: s p m es)
  case (SRANode i t str dat cs)
  have name: "name_ok i" using SRANode.prems(1) by simp
  have ch: "\<exists>s'. parse_entries read_float s (node_entries print_float c (Suc (length p)) @ es) = parse_entries read_float s' es \<and>
      m_root s' = upd_path (m_root s) p (add_child c) \<and> m_walker s' = m_walker s \<and> take (length p) (m_stack s') = p"
    if "c \<in> set cs" "inside s p m" "t \<in> {SRA_Object, SRA_Array, SRA_Item}" for c s p m es
    using SRANode.IH [OF that(1) _ that(2)] SRANode.prems(1) that(1,3) by auto
  show ?case
  proof (cases t)
    case SRA_String
    then show ?thesis using SRANode.prems(1) parse_value_entry [where read_float = read_float and l = 115 and r = str and f = "set_string str" and es = es, OF SRANode.prems(2) name]
      by (simp add: parse_letter_def set_string_def new_node_def del: parse_entries.simps)
  next
    case SRA_Boolean
    let ?r = "if data_bool dat then text_true else text_false"
    have "(?r = text_true) = data_bool dat" by (simp add: text_true_def text_false_def)
    then show ?thesis using SRANode.prems(1) SRA_Boolean parse_value_entry [where read_float = read_float and l = 98 and r = ?r and f = "set_data SRA_Boolean (BoolData (data_bool dat))" and es = es, OF SRANode.prems(2) name]
      by (simp add: parse_letter_def set_data_def new_node_def del: parse_entries.simps)
  next
    case SRA_Integer
    then show ?thesis using SRANode.prems(1)
        parse_value_entry [where read_float = read_float and l = 105 and r = "decimal_int (sint (data_int dat))" and f = "set_data SRA_Integer (IntData (data_int dat))" and es = es, OF SRANode.prems(2) name]
      by (simp add: parse_letter_def set_data_def new_node_def LexicalCast_decimal_int del: parse_entries.simps)
  next
    case SRA_Floating
    then show ?thesis using SRANode.prems(1)
        parse_value_entry [where read_float = read_float and l = 102 and r = "data_text print_float dat" and f = "set_data SRA_Floating dat" and es = es, OF SRANode.prems(2) name]
      by (simp add: parse_letter_def set_data_def new_node_def del: parse_entries.simps)
  next
    case SRA_Object
    then show ?thesis using SRANode.prems(1) parse_parent [where read_float = read_float and l = 111 and t = SRA_Object and cs = cs and es = es, OF SRANode.prems(2) name _ ch] by (simp add: parse_letter_def del: parse_entries.simps)
  next
    case SRA_Array
    then show ?thesis using SRANode.prems(1) parse_parent [where read_float = read_float and l = 97 and t = SRA_Array and cs = cs and es = es, OF SRANode.prems(2) name _ ch] by (simp add: parse_letter_def del: parse_entries.simps)
  next
    case SRA_Item
    then show ?thesis using SRANode.prems(1) parse_parent [where read_float = read_float and l = 107 and t = SRA_Item and cs = cs and es = es, OF SRANode.prems(2) name _ ch]
      by (cases cs) (simp_all add: parse_letter_def del: parse_entries.simps)
  qed (use SRANode.prems(1) in simp_all)
qed

lemma entry_depth: "(e, l, r) \<in> set (node_entries print_float n d) \<Longrightarrow> d \<le> e"
proof (induction n arbitrary: d)
  case (SRANode i t str dat cs)
  then show ?case by (cases t; cases cs) (force dest: Suc_leD)+
qed

lemma parse_lines_entries:
  "\<forall>(d, l, r) \<in> set es. d < 2 ^ 31 \<and> 0 < d \<and> l \<noteq> 58 \<Longrightarrow>
    parse_lines read_float s (map (entry_line tabs) es @ [[]]) = parse_entries read_float s es"
proof (induction es arbitrary: s)
  case Nil
  then show ?case by (simp add: parse_line_def strip_tabs_def)
next
  case (Cons e es)
  obtain d l r where e: "e = (d, l, r)" by (cases e)
  have "parse_line read_float s (entry_line tabs (d, l, r)) = parse_letter read_float (s\<lparr>m_stack := pop_to (m_stack s) d\<rparr>) l r"
    by (rule parse_entry) (use Cons.prems e in auto)
  then show ?case using Cons e by (auto intro!: bind_res_cong)
qed

section \<open>Properties\<close>

text \<open>C16: A tree that the format can carry is rebuilt from its text: loading what \<open>ToString\<close> writes, with
  or without tabs, gives the same tree, however deep it is (up to \<open>2 ^ 31\<close> levels), and reports success.\<close>

theorem sra_text_roundtrip:
  assumes "m_root s = SRANode i SRA_Root [] NoData cs" and "name_ok i"
    and "\<forall>c \<in> set cs. node_ok allow_empty print_float read_float c"
    and "\<forall>e \<in> set (node_entries print_float (m_root s) 0). fst e < 2 ^ 31"
  shows "\<exists>s'. LoadFromFile read_float sra_new (Some (sra_ToString tabs allow_empty print_float s)) = Inr (True, s') \<and>
    m_root s' = m_root s \<and> m_walker s' = []"
proof -
  let ?es = "concat (map (\<lambda>c. node_entries print_float c (Suc 0)) cs)"
  have written: "sra_ToString tabs allow_empty print_float s = text_sra_format @ chr_newline # text_of tabs ((0, 114, id_name i) # ?es)"
    using assms(1,3) serialize_entries [of allow_empty print_float read_float]
    by (simp add: sra_ToString_def sra_line_entry comp_def cong: map_cong)
  have clean: "\<forall>(d, l, r) \<in> set ?es. chr_newline \<notin> set r \<and> l \<noteq> 58 \<and> l \<noteq> 10"
    using assms(3) entry_no_newline [of allow_empty print_float read_float] by fastforce
  have "ReadAllLines (text_of tabs ((0, 114, id_name i) # ?es)) = map (entry_line tabs) ((0, 114, id_name i) # ?es) @ [[]]"
    by (rule ReadAllLines_text) (use clean assms(2) in \<open>auto simp: name_ok_def\<close>)
  moreover have "chr_newline \<notin> set text_sra_format" by (simp add: text_sra_format_def)
  ultimately have lines: "ReadAllLines (sra_ToString tabs allow_empty print_float s) =
      text_sra_format # entry_line tabs (0, 114, id_name i) # map (entry_line tabs) ?es @ [[]]"
    unfolding written by (simp add: ReadAllLines_def read_lines_line)
  let ?s0 = "sra_new\<lparr>m_root := SRANode i SRA_Root [] NoData []\<rparr> :: 'a sra"
  have "parse_line read_float sra_new (entry_line tabs (0, 114, id_name i)) = Inr ?s0"
    using assms(2) parse_entry [of 0 sra_new 114 read_float tabs "id_name i"]
    by (simp add: sra_new_def parse_letter_def UpdNode_def new_node_def set_root_def name_ok_def pop_to.simps [of "[]"])
  moreover have "parse_lines read_float ?s0 (map (entry_line tabs) ?es @ [[]]) = parse_entries read_float ?s0 (?es @ [])"
    unfolding append_Nil2
  proof (rule parse_lines_entries)
    have "d < 2 ^ 31 \<and> 0 < d" if e: "(d, l, r) \<in> set ?es" for d l r
    proof
      show "d < 2 ^ 31" using assms(1,4) e by fastforce
      obtain c where "(d, l, r) \<in> set (node_entries print_float c (Suc 0))" using e by auto
      then show "0 < d" using entry_depth by fastforce
    qed
    then show "\<forall>(d, l, r) \<in> set ?es. d < 2 ^ 31 \<and> 0 < d \<and> l \<noteq> 58" using clean by blast
  qed
  moreover have "\<exists>s'. parse_entries read_float ?s0 (concat (map (\<lambda>c. node_entries print_float c (Suc (length ([] :: nat list)))) cs) @ []) = parse_entries read_float s' [] \<and>
      m_root s' = upd_path (m_root ?s0) [] (add_children cs) \<and> m_walker s' = m_walker ?s0 \<and> take (length ([] :: nat list)) (m_stack s') = []"
  proof (rule parse_children)
    fix c s p m es
    assume "c \<in> set cs" and i: "inside s p (m :: 'a sra_node)"
    then have "node_ok allow_empty print_float read_float c" using assms(3) by blast
    from parse_node_entries [OF this i] show "\<exists>s'. parse_entries read_float s (node_entries print_float c (Suc (length p)) @ es) =
      parse_entries read_float s' es \<and> m_root s' = upd_path (m_root s) p (add_child c) \<and> m_walker s' = m_walker s \<and> take (length p) (m_stack s') = p" .
  qed (simp add: inside_def)
  ultimately obtain s' where "parse_lines read_float sra_new (entry_line tabs (0, 114, id_name i) # map (entry_line tabs) ?es @ [[]]) = Inr s'"
    "m_root s' = SRANode i SRA_Root [] NoData cs" "m_walker s' = []"
    by (auto simp: add_children_def sra_new_def)
  then show ?thesis using assms(1) lines by (simp add: LoadFromFile_def text_sra_format_def starts_with_def)
qed

definition example_tree :: "nat sra" where
  "example_tree = serializer_new\<lparr>m_root := SRANode (CreateFromString [82, 111, 111, 116]) SRA_Root [] NoData
     [SRANode (CreateFromString [97]) SRA_Object [] NoData
        [SRANode (CreateFromString [98]) SRA_Integer [] (IntData (- 5)) [], SRANode (CreateFromString [99]) SRA_String [120, 45, 58] NoData []]]\<rparr>"

lemma short_name: "length t < 256 \<Longrightarrow> 0 \<notin> set t \<Longrightarrow> chr_newline \<notin> set t \<Longrightarrow> name_ok (CreateFromString t) \<and> id_name (CreateFromString t) = t"
proof -
  assume t: "length t < 256" "0 \<notin> set t" "chr_newline \<notin> set t"
  have tw: "takeWhile (\<lambda>c. c \<noteq> 0) t = t" using t(2) by (auto simp: takeWhile_eq_all_conv)
  show ?thesis using t by (simp add: name_ok_def CreateFromString_def MaxNameLength_def tw)
qed

lemma sra_text_roundtrip_witness:
  "\<exists>s'. LoadFromFile length sra_new (Some (sra_ToString True True (\<lambda>_. []) example_tree)) = Inr (True, s') \<and> m_root s' = m_root example_tree"
  using sra_text_roundtrip [of example_tree "CreateFromString [82, 111, 111, 116]" _ True "\<lambda>_. []" length True]
    short_name [of "[82, 111, 111, 116]"] short_name [of "[97]"] short_name [of "[98]"] short_name [of "[99]"]
  by (auto simp: example_tree_def)

text \<open>The calls a program makes to write a tree: a value, or \<open>Begin\<close>, the children and \<open>End\<close>.\<close>

fun write_tree :: "'f sra \<Rightarrow> 'f sra_node \<Rightarrow> 'f sra result"
  and write_trees :: "'f sra \<Rightarrow> 'f sra_node list \<Rightarrow> 'f sra result" where
  "write_tree s (SRANode i t str dat cs) =
     (case t of
        SRA_String \<Rightarrow> Inr (WriteString s str i)
      | SRA_Boolean \<Rightarrow> Inr (WriteBool s (data_bool dat) i)
      | SRA_Integer \<Rightarrow> Inr (WriteInt s (data_int dat) i)
      | SRA_Floating \<Rightarrow> (case dat of FloatData x \<Rightarrow> Inr (WriteDouble s x i) | _ \<Rightarrow> Inl UndefinedOp)
      | SRA_Object \<Rightarrow> bind_res (write_trees (BeginObject s i) cs) EndObject
      | SRA_Array \<Rightarrow> bind_res (write_trees (BeginArray s i) cs) EndArray
      | SRA_Item \<Rightarrow> bind_res (write_trees (BeginItem s i) cs) EndItem
      | _ \<Rightarrow> Inl UndefinedOp)"
| "write_trees s [] = Inr s"
| "write_trees s (c # cs) = bind_res (write_tree s c) (\<lambda>s1. write_trees s1 cs)"

lemma upd_add_children:
  assumes "get_path n p = Some m"
  shows "upd_path n p (add_children []) = n"
    "upd_path (upd_path n p (add_child c)) p (add_children cs) = upd_path n p (add_children (c # cs))"
proof -
  show "upd_path n p (add_children []) = n" using assms
  proof (induction p arbitrary: n)
    case (Cons i p)
    then show ?case by (cases n) (auto split: if_splits)
  qed (simp add: add_children_simps)
  show "upd_path (upd_path n p (add_child c)) p (add_children cs) = upd_path n p (add_children (c # cs))"
    unfolding upd_upd_path [OF assms] by (rule upd_path_cong [OF assms]) (simp only: comp_apply add_children_simps(2))
qed

lemma write_tree_at:
  shows "node_ok allow_empty print_float read_float n \<Longrightarrow> get_path (m_root s) (m_stack s) = Some m \<Longrightarrow>
      write_tree s n = Inr (s\<lparr>m_root := upd_path (m_root s) (m_stack s) (add_child n)\<rparr>)"
    and "\<forall>c \<in> set cs. node_ok allow_empty print_float read_float c \<Longrightarrow> get_path (m_root s) (m_stack s) = Some m \<Longrightarrow>
      write_trees s cs = Inr (s\<lparr>m_root := upd_path (m_root s) (m_stack s) (add_children cs)\<rparr>)"
proof (induction s n and s cs arbitrary: m and m rule: write_tree_write_trees.induct)
  case (1 s i t str dat cs)
  have parent: "bind_res (write_trees (begin_node s i t) cs) (\<lambda>s1. bind_res (pop_back (m_stack s1)) (\<lambda>st. Inr (s1\<lparr>m_stack := st\<rparr>))) =
      Inr (s\<lparr>m_root := upd_path (m_root s) (m_stack s) (add_child (SRANode i t [] NoData cs))\<rparr>)"
    if "write_trees (begin_node s i t) cs = Inr ((begin_node s i t)\<lparr>m_root := upd_path (m_root (begin_node s i t)) (m_stack (begin_node s i t)) (add_children cs)\<rparr>)"
    using that last_child(2) [OF 1(5), of "new_node i t" "add_children cs"]
    by (simp add: begin_node_at [OF 1(5)] pop_back_def add_children_def new_node_def)
  have child: "\<exists>k. get_path (m_root (begin_node s i t)) (m_stack (begin_node s i t)) = Some k"
    using last_child(1) [OF 1(5)] by (simp add: begin_node_at [OF 1(5)])
  show ?case
    using 1 parent child
    by (cases t) (auto simp: WriteString_def WriteBool_def WriteInt_def WriteDouble_def write_node_def UpdNode_def
        BeginObject_def BeginArray_def BeginItem_def EndObject_def EndArray_def EndItem_def split: sra_data.splits)
next
  case (2 s)
  then show ?case using upd_add_children(1) [OF 2(2)] by simp
next
  case (3 s c cs)
  have "write_tree s c = Inr (s\<lparr>m_root := upd_path (m_root s) (m_stack s) (add_child c)\<rparr>)"
    by (rule 3(1)) (use 3 in auto)
  then show ?case using 3 get_upd_path [OF 3(4)] upd_add_children(2) [OF 3(4)] by auto
qed



lemma find_child_first:
  "\<forall>a \<in> set as. id_hash (n_id a) \<noteq> h \<Longrightarrow> id_hash (n_id c) = h \<Longrightarrow> find_child (as @ c # bs) h = Some (length as)"
  by (induction as) auto

text \<open>The deserializer finds the first child of a name: an object is entered and left again, an array
  also tells its size, a value is read when its type is the one asked for, and the variable keeps its
  value otherwise.\<close>

theorem sra_read_first_child:
  assumes "get_path (m_root s) (m_walker s) = Some m" and "n_children m = as @ c # bs"
    and "id_hash (n_id c) = id_hash i" and "\<forall>a \<in> set as. id_hash (n_id a) \<noteq> id_hash i"
  shows "(\<exists>s1. D_BeginObject s i = (True, s1) \<and> walk_node s1 = c \<and> (n_type c = SRA_Object \<longrightarrow> D_EndObject s1 = s)) \<and>
    (\<exists>s1. D_BeginArray s i = (length (n_children c), s1) \<and> walk_node s1 = c \<and> D_EndArray s1 = s) \<and>
    ReadString s v i = (if n_type c = SRA_String then n_string c else v) \<and>
    ReadBool s b i = (if n_type c = SRA_Boolean then data_bool (n_data c) else b) \<and>
    ReadInt conv s k i = (if n_type c = SRA_Integer then conv (data_int (n_data c)) else k)"
proof -
  have w: "walk_node s = m" using assms(1) by (simp add: walk_node_def GetNode_def)
  have f: "find_child (n_children m) (id_hash i) = Some (length as)" using find_child_first assms(2-4) by metis
  have c: "n_children m ! length as = c" "length as < length (n_children m)" using assms(2) by simp_all
  let ?s1 = "s\<lparr>m_walker := m_walker s @ [length as]\<rparr>"
  have w1: "walk_node ?s1 = c" using get_path_append [OF assms(1), of "[length as]"] c by (simp add: walk_node_def GetNode_def)
  have "D_BeginObject s i = (True, ?s1)" "D_BeginArray s i = (length (n_children c), ?s1)"
    using w f c by (simp_all add: D_BeginObject_def D_BeginArray_def)
  moreover have "n_type c = SRA_Object \<Longrightarrow> D_EndObject ?s1 = s" "D_EndArray ?s1 = s"
    using w1 by (simp_all add: D_EndObject_def D_EndArray_def)
  ultimately show ?thesis using w w1 f c by (simp add: ReadString_def ReadBool_def ReadInt_def)
qed

lemma sra_read_first_child_witness:
  "ReadInt id (example_tree\<lparr>m_walker := [0]\<rparr>) 0 (CreateFromString [98]) = - 5"
  using sra_read_first_child [of "example_tree\<lparr>m_walker := [0]\<rparr>" _ "[]" _ _ "CreateFromString [98]" "[]" False id 0]
  by (auto simp: example_tree_def)

text \<open>A line break in a string ends its line, and what follows it is read as a line of the file.\<close>

lemma sra_string_line_break:
  "(case LoadFromFile length sra_new (Some (sra_ToString False True (\<lambda>_. [])
       (WriteString serializer_new [97, 10, 49, 45, 118, 58, 98] (CreateFromString [120])))) of
     Inr (_, s) \<Rightarrow> map (id_name \<circ> n_id) (n_children (m_root s)) = [[120], [98]] \<and> n_string (n_children (m_root s) ! 0) = [97]
   | Inl _ \<Rightarrow> False)"
  by code_simp

end
