(* ===== verification/SR_String_Cuts.thy ===== *)
theory SR_String_Cuts
  imports SR_Strings
begin

text \<open>
  The rest of \<open>StringUtils\<close> (Common/StringUtils.h, .cpp): file names and extensions in paths, cutting a
  string at a character, indentation, changing the case in place, and the fields of a C string.
  A loop over the indices of a string is a recursion on the index or on the characters that are left.
  \<open>atof\<close> and the default vector of glm are parameters.
\<close>

section \<open>Paths\<close>

definition is_sep :: "u8 \<Rightarrow> bool" where
  "is_sep c \<longleftrightarrow> c = chr_slash \<or> c = chr_backslash"

fun reverse_loop :: "nat \<Rightarrow> nat \<Rightarrow> bytes \<Rightarrow> bytes \<Rightarrow> bytes" where
  "reverse_loop 0 i str result = result"
| "reverse_loop (Suc t) i str result = reverse_loop t (Suc i) str (result[i := result ! i + str ! t])"

definition Reverse :: "bytes \<Rightarrow> bytes" where
  "Reverse str = reverse_loop (length str) 0 str (resize [] (length str))"

text \<open>The characters are visited from the last one; \<open>rest\<close> holds those not visited, the next one first.\<close>

fun extension_loop :: "bytes \<Rightarrow> bytes \<Rightarrow> bytes \<times> bool" where
  "extension_loop [] result = (result, False)"
| "extension_loop (c # rest) result =
     (if is_sep c then (result, False)
      else if c = chr_dot then (result, True)
      else extension_loop rest (result @ [c]))"

definition GetExtensionFromFilePath :: "bytes \<Rightarrow> bytes" where
  "GetExtensionFromFilePath path =
     (if path = [] \<or> length path - 1 = 0 then []
      else case extension_loop (rev path) [] of (result, found) \<Rightarrow> if found then Reverse result else [])"

fun dir_loop :: "bytes \<Rightarrow> nat \<Rightarrow> nat" where
  "dir_loop full_path 0 = 0"
| "dir_loop full_path (Suc n) = (if is_sep (full_path ! n) then n else dir_loop full_path n)"

definition GetDirToFileFromFullPath :: "bytes \<Rightarrow> bytes" where
  "GetDirToFileFromFullPath full_path = resize full_path (dir_loop full_path (length full_path))"

fun file_name_loop :: "bytes \<Rightarrow> nat \<Rightarrow> bytes" where
  "file_name_loop full_path 0 = full_path"
| "file_name_loop full_path (Suc n) =
     (if is_sep (full_path ! n) then erase_front full_path (n + 1) else file_name_loop full_path n)"

definition GetFileNameFromFullPath :: "bytes \<Rightarrow> bytes" where
  "GetFileNameFromFullPath full_path = file_name_loop full_path (length full_path)"

fun find_last_sep :: "bytes \<Rightarrow> nat \<Rightarrow> nat option" where
  "find_last_sep s 0 = None"
| "find_last_sep s (Suc n) = (if is_sep (s ! n) then Some n else find_last_sep s n)"

text \<open>\<open>substr(0, npos)\<close> is the whole string.\<close>

definition GetDirFromPath :: "bytes \<Rightarrow> bytes" where
  "GetDirFromPath path = (case find_last_sep path (length path) of None \<Rightarrow> path | Some p \<Rightarrow> take p path)"

lemma reverse_loop_rev:
  "t + i = length str \<Longrightarrow> reverse_loop t i str (rev (drop t str) @ replicate t 0) = rev str"
proof (induction t arbitrary: i)
  case (Suc t)
  have i: "length str - Suc t = i" using Suc.prems by linarith
  have d: "rev (drop t str) = rev (drop (Suc t) str) @ [str ! t]"
    using Suc.prems Cons_nth_drop_Suc [of t str] by (metis add_Suc less_add_Suc1 rev.simps(2))
  have "(rev (drop (Suc t) str) @ replicate (Suc t) 0)[i := 0 + str ! t] = rev (drop t str) @ replicate t 0"
    unfolding d by (simp add: list_update_append i)
  moreover have "(rev (drop (Suc t) str) @ replicate (Suc t) 0) ! i = 0"
    by (simp add: nth_append i)
  ultimately show ?case using Suc.IH [of "Suc i"] Suc.prems by simp
qed simp

lemma Reverse_rev [simp]: "Reverse str = rev str"
  using reverse_loop_rev [of "length str" 0 str] by (simp add: Reverse_def resize_def)

lemma extension_loop_clean:
  "\<forall>c \<in> set e. \<not> is_sep c \<and> c \<noteq> chr_dot \<Longrightarrow> extension_loop (e @ r) result = extension_loop r (result @ e)"
  by (induction e arbitrary: result) auto

lemma sep_loops:
  "\<forall>c \<in> set name. \<not> is_sep c \<Longrightarrow> is_sep c \<Longrightarrow>
    dir_loop (dir @ c # name) (length dir + Suc (length name)) = length dir \<and>
    file_name_loop (dir @ c # name) (length dir + Suc (length name)) = name \<and>
    find_last_sep (dir @ c # name) (length dir + Suc (length name)) = Some (length dir)"
proof -
  assume name: "\<forall>c \<in> set name. \<not> is_sep c" and c: "is_sep c"
  have "k \<le> length name \<Longrightarrow>
    dir_loop (dir @ c # name) (length dir + Suc k) = length dir \<and>
    file_name_loop (dir @ c # name) (length dir + Suc k) = name \<and>
    find_last_sep (dir @ c # name) (length dir + Suc k) = Some (length dir)" for k
    by (induction k) (use name c in \<open>auto simp: nth_append erase_front_def\<close>)
  then show ?thesis by blast
qed

lemma no_sep_loops:
  "\<forall>c \<in> set name. \<not> is_sep c \<Longrightarrow> k \<le> length name \<Longrightarrow>
    dir_loop name k = 0 \<and> file_name_loop name k = name \<and> find_last_sep name k = None"
  by (induction k) auto

text \<open>C36: A path is taken apart into its directory, its name and its extension, whichever slash it uses;
  without a slash the name is the path itself, and the two functions for the directory differ.\<close>

theorem path_parts:
  assumes "is_sep c" and "\<forall>x \<in> set name. \<not> is_sep x"
  shows "GetDirToFileFromFullPath (dir @ c # name) = dir \<and> GetDirFromPath (dir @ c # name) = dir \<and>
    GetFileNameFromFullPath (dir @ c # name) = name \<and>
    GetFileNameFromFullPath name = name \<and> GetDirToFileFromFullPath name = [] \<and> GetDirFromPath name = name \<and>
    (\<forall>stem ext. name = stem @ chr_dot # ext \<and> chr_dot \<notin> set ext \<longrightarrow> GetExtensionFromFilePath (dir @ c # name) = ext) \<and>
    (chr_dot \<notin> set name \<longrightarrow> GetExtensionFromFilePath (dir @ c # name) = [])"
proof (intro conjI allI impI)
  fix stem ext
  assume e: "name = stem @ chr_dot # ext \<and> chr_dot \<notin> set ext"
  then have "\<forall>x \<in> set (rev ext). \<not> is_sep x \<and> x \<noteq> chr_dot" using assms(2) by auto
  from extension_loop_clean [OF this] show "GetExtensionFromFilePath (dir @ c # name) = ext"
    using e by (simp add: GetExtensionFromFilePath_def is_sep_def)
next
  assume "chr_dot \<notin> set name"
  then have "\<forall>x \<in> set (rev name). \<not> is_sep x \<and> x \<noteq> chr_dot" using assms(2) by auto
  from extension_loop_clean [OF this] show "GetExtensionFromFilePath (dir @ c # name) = []"
    using assms(1) by (simp add: GetExtensionFromFilePath_def)
qed (use sep_loops [OF assms(2,1), of dir] no_sep_loops [OF assms(2) order.refl] in
  \<open>simp_all add: GetDirToFileFromFullPath_def GetDirFromPath_def GetFileNameFromFullPath_def resize_def\<close>)

lemma path_parts_witness:
  "GetFileNameFromFullPath [97, 47, 98, 46, 99] = [98, 46, 99] \<and> GetExtensionFromFilePath [97, 47, 98, 46, 99] = [99 :: u8]"
proof -
  have "is_sep 47" "\<forall>x \<in> set [98, 46, 99]. \<not> is_sep x" by (simp_all add: is_sep_def)
  note parts = path_parts [OF this, of "[97]"]
  from parts have "GetFileNameFromFullPath ([97] @ 47 # [98, 46, 99]) = [98, 46, 99]" by blast
  moreover from parts have "[98, 46, 99] = [98] @ chr_dot # [99] \<and> chr_dot \<notin> set [99] \<longrightarrow>
      GetExtensionFromFilePath ([97] @ 47 # [98, 46, 99]) = [99]" by blast
  ultimately show ?thesis by simp
qed

section \<open>Indentation\<close>

fun tab_loop :: "nat \<Rightarrow> nat \<Rightarrow> bytes \<Rightarrow> nat \<Rightarrow> bytes result" where
  "tab_loop 0 count code lastPos = Inl OutOfFuel"
| "tab_loop (Suc n) count code lastPos =
     (case find_from code [chr_newline] lastPos of
        None \<Rightarrow> Inr code
      | Some pos \<Rightarrow>
          if pos + 1 = length code then Inr code
          else tab_loop n count (take (pos + 1) code @ replicate count chr_tab @ drop (pos + 1) code) (pos + 1))"

definition Tab :: "bytes \<Rightarrow> nat \<Rightarrow> bytes result" where
  "Tab code count =
     (if code \<noteq> [] then tab_loop (Suc (length code)) count (replicate count chr_tab @ code) 0 else Inr code)"

text \<open>Every line gets its tabs: the first one, and what follows a newline unless nothing does.\<close>

fun tab_rest :: "nat \<Rightarrow> bytes \<Rightarrow> bytes" where
  "tab_rest count [] = []"
| "tab_rest count [c] = [c]"
| "tab_rest count (c # d # r) = c # (if c = chr_newline then replicate count chr_tab else []) @ tab_rest count (d # r)"

lemma tab_rest_clean: "chr_newline \<notin> set u \<Longrightarrow> tab_rest count (u @ v) = u @ tab_rest count v"
proof (induction u)
  case (Cons c u)
  then show ?case by (cases "u @ v") auto
qed simp

lemma find_char: "c \<notin> set u \<Longrightarrow> find_str (u @ c # v) [c] = Some (length u)" "c \<notin> set u \<Longrightarrow> find_str u [c] = None"
  by (induction u) (auto simp: starts_with_def)

lemma tab_loop_rest:
  "count_list rest chr_newline < n \<Longrightarrow> tab_loop n count (pre @ rest) (length pre) = Inr (pre @ tab_rest count rest)"
proof (induction n arbitrary: pre rest)
  case (Suc n)
  show ?case
  proof (cases "chr_newline \<in> set rest")
    case False
    then show ?thesis using tab_rest_clean [of rest count "[]"] by (simp add: find_from_def find_char)
  next
    case True
    then obtain u v where r: "rest = u @ chr_newline # v" "chr_newline \<notin> set u" by (meson split_list_first)
    show ?thesis
    proof (cases v)
      case Nil
      then show ?thesis using r by (simp add: find_from_def find_char tab_rest_clean)
    next
      case (Cons d v')
      have "count_list (replicate count chr_tab @ v) chr_newline < n"
        using Suc.prems r by (simp add: count_list_append count_list_0_iff)
      from Suc.IH [OF this, of "pre @ u @ [chr_newline]"] show ?thesis
        using r Cons by (simp add: find_from_def find_char tab_rest_clean)
    qed
  qed
qed simp

text \<open>\<open>Tab\<close> ends and indents every line of a text.\<close>

theorem tab_indents:
  assumes "code \<noteq> []"
  shows "Tab code count = Inr (replicate count chr_tab @ tab_rest count code)"
proof -
  have "count_list (replicate count chr_tab @ code) chr_newline < Suc (length code)"
    using count_le_length [of code chr_newline] by (simp add: count_list_append count_list_0_iff)
  from tab_loop_rest [OF this, of count "[]"] show ?thesis
    using assms tab_rest_clean [of "replicate count chr_tab" count code] by (simp add: Tab_def)
qed

lemma tab_indents_witness: "Tab [97, 10, 98, 10] 1 = Inr [9, 97, 10, 9, 98, 10 :: u8]"
  using tab_indents [of "[97, 10, 98, 10]" 1] by simp

section \<open>Finding and cutting\<close>

text \<open>\<open>-1\<close> when the character or the string is not found.\<close>

definition IndexOf :: "bytes \<Rightarrow> u8 \<Rightarrow> nat \<Rightarrow> int" where
  "IndexOf str symbol offset = (case find_from str [symbol] offset of Some i \<Rightarrow> int i | None \<Rightarrow> - 1)"

definition IndexOf_str :: "bytes \<Rightarrow> bytes \<Rightarrow> nat \<Rightarrow> int" where
  "IndexOf_str str subStr offset = (case find_from str subStr offset of Some i \<Rightarrow> int i | None \<Rightarrow> - 1)"

definition ReadFrom :: "bytes \<Rightarrow> u8 \<Rightarrow> nat \<Rightarrow> bytes result" where
  "ReadFrom str c start =
     (if start \<ge> length str then Inr []
      else bind_res (substr str start (length str - 1)) (\<lambda>newStr.
        let i = IndexOf newStr c 0 in
        if i \<le> 0 then Inr [] else substr newStr 0 (nat i)))"

definition Remove_front :: "bytes \<Rightarrow> nat \<Rightarrow> bytes result" where
  "Remove_front source count = substr source count (sub64 (length source) count)"

definition Remove :: "bytes \<Rightarrow> u32 \<Rightarrow> u32 \<Rightarrow> bytes result" where
  "Remove source start count =
     (if int (length source) - uint count < 0 then Inr []
      else substr source (unat (count + start)) (length source - unat count))"

fun read_number_loop :: "bytes \<Rightarrow> bytes \<Rightarrow> bytes" where
  "read_number_loop [] numberStr = numberStr"
| "read_number_loop (c # cs) numberStr =
     (if c = 45 \<or> 48 \<le> c \<and> c \<le> 57 \<or> c = chr_dot then read_number_loop cs (numberStr @ [c]) else numberStr)"

definition ReadNumber :: "bytes \<Rightarrow> nat \<Rightarrow> bytes" where
  "ReadNumber str start = (if start \<ge> length str then [] else read_number_loop (drop start str) [])"

text \<open>\<open>first\<close> is an \<open>int64_t\<close>, the arithmetic that of \<open>size_t\<close>.\<close>

definition GetBetween :: "bytes \<Rightarrow> u64 \<Rightarrow> u64 \<Rightarrow> bytes result" where
  "GetBetween source first till = substr source (unat (first + 1)) (unat ((till - first) - 1))"

definition GetBetween_str :: "bytes \<Rightarrow> bytes \<Rightarrow> bytes \<Rightarrow> bytes result" where
  "GetBetween_str source b e =
     (let first = (case find_str source b of None \<Rightarrow> 0 | Some i \<Rightarrow> i);
          till = (case find_str source e of None \<Rightarrow> sub64 (length source) 1 | Some i \<Rightarrow> i) in
      substr source (first + 1) (sub64 (sub64 till first) 1))"

definition Substring :: "bytes \<Rightarrow> u8 \<Rightarrow> nat \<Rightarrow> bytes result" where
  "Substring source symbol offset =
     (case find_str source [symbol] of
        None \<Rightarrow> Inr source
      | Some pos \<Rightarrow> substr source (pos + offset) (sub64 (length source) 1))"

definition Substring_str :: "bytes \<Rightarrow> bytes \<Rightarrow> bytes result" where
  "Substring_str source subStr =
     (case find_str source subStr of
        None \<Rightarrow> Inr source
      | Some pos \<Rightarrow> substr source pos (sub64 (length source) 1))"

definition Substring_view :: "string_view \<Rightarrow> u8 \<Rightarrow> nat \<Rightarrow> bytes result" where
  "Substring_view source symbol offset =
     (let s = sv_text source in
      case find_str s [symbol] of
        None \<Rightarrow> Inr s
      | Some pos \<Rightarrow> substr s (pos + offset) (sub64 (length s) 1))"

text \<open>A view into the same memory.\<close>

definition view_substr :: "string_view \<Rightarrow> nat \<Rightarrow> nat \<Rightarrow> string_view result" where
  "view_substr v pos count =
     (if pos \<le> sv_len v then Inr \<lparr>sv_mem = drop pos (sv_mem v), sv_len = min count (sv_len v - pos)\<rparr> else Inl Exception)"

definition SubstringView :: "string_view \<Rightarrow> u8 \<Rightarrow> nat \<Rightarrow> string_view result" where
  "SubstringView source symbol offset =
     (case find_str (sv_text source) [symbol] of
        None \<Rightarrow> Inr source
      | Some pos \<Rightarrow> view_substr source (pos + offset) (sub64 (sv_len source) 1))"

definition SubstringView_str :: "string_view \<Rightarrow> bytes \<Rightarrow> nat \<Rightarrow> string_view result" where
  "SubstringView_str source substring offset =
     (case find_str (sv_text source) substring of
        None \<Rightarrow> Inr source
      | Some pos \<Rightarrow> view_substr source (pos + offset) (sub64 (sv_len source) 1))"

text \<open>From the end back to the character; index \<open>size\<close> is the terminator.\<close>

fun back_read_loop :: "bytes \<Rightarrow> u8 \<Rightarrow> nat \<Rightarrow> bytes \<Rightarrow> bytes result" where
  "back_read_loop str c 0 result = Inr result"
| "back_read_loop str c (Suc i) result =
     (if length str < i then Inl OutOfRange
      else let x = (str @ [0]) ! i in if x \<noteq> c then back_read_loop str c i (result @ [x]) else Inr result)"

definition BackRead :: "bytes \<Rightarrow> u8 \<Rightarrow> int \<Rightarrow> bytes result" where
  "BackRead str c offset = bind_res (back_read_loop str c (nat (int (length str) + offset)) []) (\<lambda>r. Inr (rev r))"

text \<open>The index 0 is not visited, and the result is not turned around.\<close>

fun back_substring_loop :: "bytes \<Rightarrow> u8 \<Rightarrow> nat \<Rightarrow> bytes \<Rightarrow> bytes" where
  "back_substring_loop str c 0 result = []"
| "back_substring_loop str c (Suc t) result =
     (if str ! Suc t = c then result else back_substring_loop str c t (result @ [str ! Suc t]))"

definition BackSubstring :: "bytes \<Rightarrow> u8 \<Rightarrow> bytes result" where
  "BackSubstring str c = (if str = [] then Inl OutOfRange else Inr (back_substring_loop str c (length str - 1) []))"

fun closest_loop :: "bytes \<Rightarrow> bytes \<Rightarrow> int \<Rightarrow> int" where
  "closest_loop str [] pos = pos"
| "closest_loop str (c # cs) pos =
     (case find_str str [c] of
        Some i \<Rightarrow> closest_loop str cs (if pos = - 1 \<or> int i < pos then int i else pos)
      | None \<Rightarrow> closest_loop str cs pos)"

definition FindClosest :: "bytes \<Rightarrow> bytes \<Rightarrow> int" where
  "FindClosest str characters = closest_loop str characters (- 1)"

definition ReadTo :: "bytes \<Rightarrow> u8 \<Rightarrow> int \<Rightarrow> bytes result" where
  "ReadTo str c offset =
     (case find_str str [c] of
        None \<Rightarrow> Inr str
      | Some t \<Rightarrow> let n = int t + offset + 1 in if n < 0 then Inl Exception else Inr (resize str (nat n)))"

definition Resize :: "bytes \<Rightarrow> nat \<Rightarrow> bytes" where
  "Resize str newSize = resize str newSize"

definition CutName :: "bytes \<Rightarrow> nat \<Rightarrow> bytes result" where
  "CutName str frompos =
     (if length str > frompos then bind_res (substr str 0 frompos) (\<lambda>s. Inr (s @ [chr_dot, chr_dot, chr_dot])) else Inr str)"

definition MultiConcat :: "bytes \<Rightarrow> int \<Rightarrow> bytes" where
  "MultiConcat target n = concat (replicate (nat n) target)"

definition IntToColor :: "u64 \<Rightarrow> u8 \<times> u8 \<times> u8" where
  "IntToColor index = (ucast (drop_bit 16 index AND 0xFF), ucast (drop_bit 8 index AND 0xFF), ucast (index AND 0xFF))"

text \<open>In place, through the pointer of the view and up to the terminator.\<close>

fun lower_ref :: "bytes \<Rightarrow> bytes result" where
  "lower_ref [] = Inl OutOfRange"
| "lower_ref (c # cs) =
     (if c = 0 then Inr (c # cs)
      else if 128 \<le> c then Inl UndefinedOp
      else bind_res (lower_ref cs) (\<lambda>r. Inr (lower c # r)))"

definition ToLowerRef :: "string_view \<Rightarrow> string_view result" where
  "ToLowerRef v = bind_res (lower_ref (sv_mem v)) (\<lambda>m. Inr (v\<lparr>sv_mem := m\<rparr>))"

definition upper :: "u8 \<Rightarrow> u8" where
  "upper c = (if 97 \<le> c \<and> c \<le> 122 then c - 32 else c)"

fun upper_ref :: "bytes \<Rightarrow> bytes result" where
  "upper_ref [] = Inl OutOfRange"
| "upper_ref (c # cs) =
     (if c = 0 then Inr (c # cs)
      else if 128 \<le> c then Inl UndefinedOp
      else bind_res (upper_ref cs) (\<lambda>r. Inr (upper c # r)))"

definition ToUpperRef :: "string_view \<Rightarrow> string_view result" where
  "ToUpperRef v = bind_res (upper_ref (sv_mem v)) (\<lambda>m. Inr (v\<lparr>sv_mem := m\<rparr>))"

lemma sub64_le: "b \<le> a \<Longrightarrow> a < 2 ^ 64 \<Longrightarrow> sub64 a b = a - b"
  by (simp add: sub64_def nat_mod_distrib of_nat_diff [symmetric] del: of_nat_diff)

text \<open>\<open>Substring\<close> is the rest of the string from \<open>offset\<close> characters after the first occurrence, and
  throws when there are not so many; but when that rest is the whole string its last character is lost,
  since the count it passes is one less than the length.\<close>

theorem substring_contract:
  assumes "c \<notin> set u" and "length (u @ c # v) < 2 ^ 64"
  shows "Substring (u @ c # v) c offset =
    (if length u + offset = 0 then Inr (butlast (c # v))
     else if offset \<le> length (c # v) then Inr (drop offset (c # v)) else Inl Exception) \<and>
    (c \<notin> set v \<longrightarrow> Substring v c offset = Inr v)"
proof -
  have s: "sub64 (length (u @ c # v)) 1 = length u + length v" using assms(2) by (subst sub64_le) simp_all
  have "drop (length u + offset) (u @ c # v) = drop offset (c # v)" by simp
  then show ?thesis using assms(1)
    unfolding Substring_def find_char(1) [OF assms(1)] option.case s substr_def
    by (cases u) (auto simp: find_char butlast_conv_take)
qed

lemma substring_contract_witness:
  "Substring [47, 97, 98] 47 0 = Inr [47, 97] \<and> Substring [47, 97, 98] 47 1 = Inr [97, 98 :: u8]"
  using substring_contract [of 47 "[]" "[97, 98]" 0] substring_contract [of 47 "[]" "[97, 98]" 1] by simp

lemma find_char_None: "find_str s [c] = None \<longleftrightarrow> c \<notin> set s"
  using find_char(1) [of c] find_char(2) [of c s] by (metis option.distinct(1) split_list_first)

lemma closest_loop_bound:
  "- 1 \<le> pos \<Longrightarrow> - 1 \<le> closest_loop str cs pos \<and>
    (closest_loop str cs pos = - 1 \<longleftrightarrow> pos = - 1 \<and> (\<forall>c \<in> set cs. c \<notin> set str)) \<and>
    (pos \<noteq> - 1 \<longrightarrow> closest_loop str cs pos \<le> pos) \<and>
    (closest_loop str cs pos \<noteq> pos \<longrightarrow> (\<exists>c \<in> set cs. find_str str [c] = Some (nat (closest_loop str cs pos)))) \<and>
    (\<forall>c \<in> set cs. \<forall>i. find_str str [c] = Some i \<longrightarrow> closest_loop str cs pos \<le> int i)"
proof (induction cs arbitrary: pos)
  case (Cons c cs)
  show ?case
  proof (cases "find_str str [c]")
    case None
    then have "c \<notin> set str" using find_char(1) [of c] by (metis option.distinct(1) split_list_first)
    then show ?thesis using Cons.IH [OF Cons.prems] None by auto
  next
    case (Some i)
    then have "c \<in> set str" using find_char(2) by (metis option.distinct(1))
    then show ?thesis using Cons.IH [of "int i"] Cons.IH [OF Cons.prems] Cons.prems Some
      by (auto; force)
  qed
qed simp

text \<open>\<open>FindClosest\<close> gives the first position at which one of the characters occurs, \<open>-1\<close> when
  there is none.\<close>

theorem find_closest_least:
  shows "(FindClosest str cs = - 1 \<longleftrightarrow> set cs \<inter> set str = {}) \<and>
    (FindClosest str cs \<noteq> - 1 \<longrightarrow>
      nat (FindClosest str cs) < length str \<and> str ! nat (FindClosest str cs) \<in> set cs \<and>
      (\<forall>i < nat (FindClosest str cs). str ! i \<notin> set cs))"
proof -
  let ?f = "FindClosest str cs"
  note b = closest_loop_bound [of "- 1" str cs, folded FindClosest_def, simplified]
  have "nat ?f < length str \<and> str ! nat ?f \<in> set cs \<and> (\<forall>i < nat ?f. str ! i \<notin> set cs)" if f: "?f \<noteq> - 1"
  proof (intro conjI allI impI notI)
    obtain c where c: "c \<in> set cs" "find_str str [c] = Some (nat ?f)" using b f by auto
    from find_str_Some [OF c(2)] have s: "take (nat ?f) str @ [c] @ drop (nat ?f + 1) str = str" "nat ?f < length str" by auto
    show "nat ?f < length str" by (rule s(2))
    show "str ! nat ?f \<in> set cs" using s c(1) by (metis append_Cons id_take_nth_drop nth_append_length same_append_eq length_take min.absorb4)
  next
    fix i
    assume i: "i < nat ?f" "str ! i \<in> set cs"
    obtain c where c: "find_str str [c] = Some (nat ?f)" using b f by auto
    have len: "i < length str" using i(1) find_str_Some [OF c] by simp
    then obtain k where k: "find_str str [str ! i] = Some k" using find_char_None [of str "str ! i"] by fastforce
    have "k \<le> i" by (rule find_str_least [OF k]) (use len in \<open>simp_all add: Cons_nth_drop_Suc [symmetric]\<close>)
    moreover have "?f \<le> int k" using b k i(2) by blast
    ultimately show False using i(1) by simp
  qed
  then show ?thesis using b by auto
qed

lemma find_closest_least_witness:
  "FindClosest [97, 98, 99] [99, 98] = 1"
  using find_closest_least [of "[97, 98, 99]" "[99, 98]"] by (simp add: FindClosest_def starts_with_def)

text \<open>The case is changed in the memory behind the view, also past its end.\<close>

lemma lower_ref_text:
  "0 \<notin> set s \<Longrightarrow> \<forall>c \<in> set s. c < 128 \<Longrightarrow> lower_ref (s @ 0 # r) = Inr (map lower s @ 0 # r)"
  by (induction s) (auto simp: not_le [symmetric])

lemma ToLowerRef_past_the_end:
  "ToLowerRef \<lparr>sv_mem = [65, 66, 0], sv_len = 1\<rparr> = Inr \<lparr>sv_mem = [97, 98, 0], sv_len = 1\<rparr>"
  by (simp add: ToLowerRef_def lower_def)

section \<open>Fields of a C string\<close>

definition FastStrLen :: "bytes \<Rightarrow> nat result" where
  "FastStrLen mem = bind_res (c_string mem) (\<lambda>s. Inr (length s))"

text \<open>The counter is an \<open>unsigned char\<close>.\<close>

fun count_loop :: "bytes \<Rightarrow> u8 \<Rightarrow> u8 \<Rightarrow> u8 result" where
  "count_loop [] symb count = Inl OutOfRange"
| "count_loop (c # cs) symb count =
     (if c = 0 then Inr count else count_loop cs symb (if c = symb then count + 1 else count))"

definition MathCount :: "bytes \<Rightarrow> u8 \<Rightarrow> u8 result" where
  "MathCount str symb = count_loop str symb 0"

text \<open>
  The loop that four functions share, over the characters from \<open>t\<close> on. At the last character the
  field that ends there is stored, unless \<open>full\<close> fields are; at a separator the function returns when
  \<open>early\<close> holds of the number of fields, otherwise it stores one. A field is the result of \<open>conv\<close> on
  the characters that \<open>strncat\<close> copies. \<open>None\<close> is the end of the loop without a return: the loop did
  not run.
\<close>

fun field_loop :: "nat \<Rightarrow> (u8 \<Rightarrow> bool) \<Rightarrow> (bytes \<Rightarrow> 'a) \<Rightarrow> bytes \<Rightarrow> u8 \<Rightarrow> bytes \<Rightarrow> nat \<Rightarrow> nat \<Rightarrow> nat \<Rightarrow> u8 \<Rightarrow> 'a list \<Rightarrow> 'a list option result" where
  "field_loop full early conv source chr [] t count found found_floats out = Inr None"
| "field_loop full early conv source chr (c # cs) t count found found_floats out =
     (let count1 = count + 1 in
      if cs = [] then
        if unat found_floats = full then Inr (Some out)
        else bind_res (vec_set out (unat found_floats) (conv (take count1 (drop found source)))) (\<lambda>o1. Inr (Some o1))
      else if c = chr then
        if early found_floats then Inr (Some out)
        else bind_res (vec_set out (unat found_floats) (conv (take (count1 - 1) (drop found source)))) (\<lambda>o1.
             field_loop full early conv source chr cs (t + 1) 0 (t + 1) (found_floats + 1) o1)
      else field_loop full early conv source chr cs (t + 1) count1 found found_floats out)"

text \<open>\<open>len\<close> and \<open>t\<close> are \<open>short\<close>: a string of \<open>2 ^ 15\<close> characters has a negative length, and a start
  above 15 bits reads before the string.\<close>

definition short_of :: "nat \<Rightarrow> int" where
  "short_of n = sint (word_of_nat n :: u16)"

definition fields :: "nat \<Rightarrow> (u8 \<Rightarrow> bool) \<Rightarrow> (bytes \<Rightarrow> 'a) \<Rightarrow> bytes \<Rightarrow> u8 \<Rightarrow> u16 \<Rightarrow> 'a list \<Rightarrow> 'a list option result" where
  "fields full early conv mem chr start out =
     bind_res (c_string mem) (\<lambda>source.
       let len = short_of (length source); t = sint start in
       if len \<le> t then Inr None
       else if t < 0 then Inl OutOfRange
       else field_loop full early conv source chr (take (nat (len - t)) (drop (nat t) source)) (nat t) 0 (unat start) 0 out)"

text \<open>The vectors start as what glm makes them, \<open>z\<close> in each place.\<close>

definition MakeVec2FromString :: "(bytes \<Rightarrow> 'f) \<Rightarrow> 'f \<Rightarrow> bytes \<Rightarrow> u8 \<Rightarrow> u16 \<Rightarrow> 'f list result" where
  "MakeVec2FromString atof z source chr start =
     bind_res (fields 2 (\<lambda>k. k = 2) atof source chr start [z, z]) (\<lambda>r. Inr (case r of Some v \<Rightarrow> v | None \<Rightarrow> [z, z]))"

definition MakeVec3FromString :: "(bytes \<Rightarrow> 'f) \<Rightarrow> 'f \<Rightarrow> bytes \<Rightarrow> u8 \<Rightarrow> u16 \<Rightarrow> 'f list result" where
  "MakeVec3FromString atof z source chr start =
     bind_res (fields 3 (\<lambda>k. unat k + 1 = 3) atof source chr start [z, z, z]) (\<lambda>r. Inr (case r of Some v \<Rightarrow> v | None \<Rightarrow> [z, z, z]))"

text \<open>Cells of the new arrays that are not written are \<open>None\<close>; a null pointer is the outer \<open>None\<close>.\<close>

definition Split_chars :: "bytes \<Rightarrow> u8 \<Rightarrow> u16 \<Rightarrow> u16 \<Rightarrow> bytes option list option result" where
  "Split_chars source chr start count_strs =
     fields (unat count_strs) (\<lambda>k. unat k + 1 = unat count_strs) Some source chr start (replicate (unat count_strs) None)"

definition SplitFloats :: "(bytes \<Rightarrow> 'f) \<Rightarrow> bytes \<Rightarrow> u8 \<Rightarrow> u16 \<Rightarrow> u16 \<Rightarrow> 'f option list option result" where
  "SplitFloats atof source chr start count_floats =
     fields (unat count_floats) (\<lambda>k. unat k + 1 = unat count_floats) (\<lambda>s. Some (atof s)) source chr start
       (replicate (unat count_floats) None)"

lemma field_loop_word:
  assumes "chr \<notin> set w" and "w \<noteq> [] \<or> rest \<noteq> []"
  shows "field_loop full early conv source chr (w @ rest) t count found k out =
    (if rest = [] then field_loop full early conv source chr [last w] (t + length w - 1) (count + length w - 1) found k out
     else field_loop full early conv source chr rest (t + length w) (count + length w) found k out)"
  using assms
proof (induction w arbitrary: t count)
  case (Cons c w)
  show ?case
  proof (cases "w = [] \<and> rest = []")
    case False
    then have "w @ rest \<noteq> []" "c \<noteq> chr" using Cons.prems by auto
    then have "field_loop full early conv source chr ((c # w) @ rest) t count found k out =
        field_loop full early conv source chr (w @ rest) (t + 1) (count + 1) found k out"
      by (simp only: append_Cons field_loop.simps Let_def if_False)
    also have "\<dots> = (if rest = [] then field_loop full early conv source chr [last w] (t + 1 + length w - 1) (count + 1 + length w - 1) found k out
        else field_loop full early conv source chr rest (t + 1 + length w) (count + 1 + length w) found k out)"
      using Cons.IH Cons.prems False by simp
    finally show ?thesis using False by (cases "rest = []") simp_all
  qed simp
qed simp

lemma field_loop_words:
  assumes "\<forall>w \<in> set ws. chr \<notin> set w" and "ws \<noteq> []" and "last ws \<noteq> []"
    and "pre @ join [chr] ws = source" and "k + length ws \<le> length out" and "k + length ws < 256"
    and "\<forall>i. i + 1 < length ws \<longrightarrow> \<not> early (word_of_nat (k + i))" and "length out \<le> full"
  shows "field_loop full early conv source chr (join [chr] ws) (length pre) 0 (length pre) (word_of_nat k) out =
    Inr (Some (take k out @ map conv ws @ drop (k + length ws) out))"
  using assms
proof (induction "[chr]" ws arbitrary: pre k out rule: join.induct)
  case (2 w)
  have k: "unat (word_of_nat k :: u8) = k" using 2 by (intro unat_of_nat_small) simp
  have "take (length w) (drop (length pre) source) = w" using 2(4) by auto
  then show ?case using 2 k field_loop_word [of chr w "[]" full early conv]
    by (simp add: upd_conv_take_nth_drop Let_def)
next
  case (3 w v ws)
  have k: "unat (word_of_nat k :: u8) = k" using 3 by (intro unat_of_nat_small) simp
  have src: "source = pre @ w @ chr # join [chr] (v # ws)" using 3(5) by simp
  then have w: "take (length w) (drop (length pre) source) = w" by simp
  have ne: "join [chr] (v # ws) \<noteq> []" using 3(4) by (cases ws) auto
  let ?out = "out[k := conv w]"
  have e: "\<not> early (word_of_nat k)" using 3(8) by (auto dest: spec [of _ 0])
  have "field_loop full early conv source chr (join [chr] (w # v # ws)) (length pre) 0 (length pre) (word_of_nat k) out =
      field_loop full early conv source chr (join [chr] (v # ws)) (length (pre @ w @ [chr])) 0 (length (pre @ w @ [chr])) (word_of_nat (Suc k)) ?out"
    using field_loop_word [of chr w "chr # join [chr] (v # ws)" full early conv] 3(2,6) k w ne e by (simp add: Let_def add.commute)
  also have "\<dots> = Inr (Some (take (Suc k) ?out @ map conv (v # ws) @ drop (Suc k + length (v # ws)) ?out))"
  proof (rule 3(1))
    show "\<forall>i. i + 1 < length (v # ws) \<longrightarrow> \<not> early (word_of_nat (Suc k + i))"
      using 3(8) by (metis Suc_less_eq add_Suc add_Suc_right length_Cons)
  qed (use 3(2-7,9) src in auto)
  also have "\<dots> = Inr (Some (take k out @ map conv (w # v # ws) @ drop (k + length (w # v # ws)) out))"
    using 3(6) by (simp add: take_Suc_conv_app_nth)
  finally show ?case .
qed simp

lemma short_of_small: "n < 2 ^ 15 \<Longrightarrow> short_of n = int n"
  by (simp add: short_of_def signed_of_nat signed_take_bit_int_eq_self)

lemma c_string_text: "0 \<notin> set s \<Longrightarrow> c_string (s @ [0]) = Inr s"
  by (induction s) auto

lemma set_join: "set (join d ws) \<subseteq> set d \<union> (\<Union>w \<in> set ws. set w)"
  by (induction d ws rule: join.induct) auto

lemma fields_start:
  assumes "0 \<notin> set s" and "s \<noteq> []" and "length s < 2 ^ 15"
  shows "fields full early conv (s @ [0]) chr 0 out = field_loop full early conv s chr s 0 0 0 0 out"
  using assms by (simp add: fields_def c_string_text short_of_small)

lemma count_loop_count:
  "0 \<notin> set s \<Longrightarrow> count_loop (s @ [0]) c k = Inr (k + word_of_nat (count_list s c))"
  by (induction s arbitrary: k) auto

lemma count_join: "\<forall>w \<in> set ws. c \<notin> set w \<Longrightarrow> count_list (join [c] ws) c = length ws - 1"
  by (induction "[c]" ws rule: join.induct) (auto simp: count_list_append count_list_0_iff)

lemma join_nonempty: "ws \<noteq> [] \<Longrightarrow> last ws \<noteq> [] \<Longrightarrow> join [c] ws \<noteq> []"
  by (induction "[c]" ws rule: join.induct) auto

text \<open>The fields of a text of \<open>n\<close> words are read back by \<open>SplitFloats\<close> and \<open>Split\<close> when they are told
  \<open>n\<close>, which is one more than the separators \<open>MathCount\<close> counts.\<close>

theorem fields_read_back:
  assumes "ws \<noteq> []" and "last ws \<noteq> []" and "\<forall>w \<in> set ws. c \<notin> set w \<and> 0 \<notin> set w" and "c \<noteq> 0"
    and "length ws < 256" and "length (join [c] ws) < 2 ^ 15"
  shows "MathCount (join [c] ws @ [0]) c = Inr (word_of_nat (length ws - 1)) \<and>
    SplitFloats atof (join [c] ws @ [0]) c 0 (word_of_nat (length ws)) = Inr (Some (map (\<lambda>w. Some (atof w)) ws)) \<and>
    Split_chars (join [c] ws @ [0]) c 0 (word_of_nat (length ws)) = Inr (Some (map Some ws))"
proof -
  let ?s = "join [c] ws"
  have s0: "0 \<notin> set ?s" using set_join [of "[c]" ws] assms(3,4) by auto
  have ne: "?s \<noteq> []" by (rule join_nonempty) (fact assms)+
  have n: "unat (word_of_nat (length ws) :: u16) = length ws" using assms(5) by (intro unat_of_nat_small) simp
  have "fields (length ws) (\<lambda>k. unat k + 1 = length ws) conv (?s @ [0]) c 0 (replicate (length ws) None) =
      Inr (Some (map conv ws))" for conv :: "bytes \<Rightarrow> 'x option"
  proof -
    have "field_loop (length ws) (\<lambda>k. unat k + 1 = length ws) conv ?s c ?s (length ([] :: bytes)) 0 (length ([] :: bytes)) (word_of_nat 0)
        (replicate (length ws) None) =
      Inr (Some (take 0 (replicate (length ws) None) @ map conv ws @ drop (0 + length ws) (replicate (length ws) None)))"
      by (rule field_loop_words) (use assms in \<open>auto simp: unat_of_nat_small\<close>)
    then show ?thesis by (simp add: fields_start [OF s0 ne assms(6)])
  qed
  then have "SplitFloats atof (?s @ [0]) c 0 (word_of_nat (length ws)) = Inr (Some (map (\<lambda>w. Some (atof w)) ws))"
    "Split_chars (?s @ [0]) c 0 (word_of_nat (length ws)) = Inr (Some (map Some ws))"
    by (simp_all only: SplitFloats_def Split_chars_def n)
  then show ?thesis using s0 assms(3) by (simp add: MathCount_def count_loop_count count_join)
qed

lemma fields_read_back_witness:
  "SplitFloats length [49, 44, 50, 51, 0] 44 0 2 = Inr (Some [Some 1, Some 2]) \<and> MathCount [49, 44, 50, 51, 0] 44 = Inr 1"
  using fields_read_back [of "[[49], [50, 51]]" 44 length] by simp

text \<open>C40: A vector is read from exactly its number of fields; one field more, and the third coordinate is
  lost, while the two coordinates of the shorter vector are kept.\<close>

theorem vector_fields:
  assumes "a \<noteq> []" and "b \<noteq> []" and "d \<noteq> []" and "e \<noteq> []" and "\<forall>w \<in> {a, b, d, e}. c \<notin> set w \<and> 0 \<notin> set w" and "c \<noteq> 0"
    and "length a + length b + length d + length e < 2 ^ 14"
  shows "MakeVec2FromString atof z (join [c] [a, b] @ [0]) c 0 = Inr [atof a, atof b] \<and>
    MakeVec2FromString atof z (join [c] [a, b, d] @ [0]) c 0 = Inr [atof a, atof b] \<and>
    MakeVec3FromString atof z (join [c] [a, b, d] @ [0]) c 0 = Inr [atof a, atof b, atof d] \<and>
    MakeVec3FromString atof z (join [c] [a, b, d, e] @ [0]) c 0 = Inr [atof a, atof b, z]"
proof -
  have c: "c \<notin> set a" "c \<notin> set b" "c \<notin> set d" "c \<notin> set e" and z: "0 \<notin> set a" "0 \<notin> set b" "0 \<notin> set d" "0 \<notin> set e"
    using assms(5) by simp_all
  note word = field_loop_word [OF c(1)] field_loop_word [OF c(2)] field_loop_word [OF c(3)]
    field_loop_word [OF c(2), where rest = "[]", simplified]
    field_loop_word [OF c(3), where rest = "[]", simplified] field_loop_word [OF c(4), where rest = "[]", simplified]
  have start: "fields full early atof (join [c] ws @ [0]) c 0 out = field_loop full early atof (join [c] ws) c (join [c] ws) 0 0 0 0 out"
    if "ws \<in> {[a, b], [a, b, d], [a, b, d, e]}" for full early ws out
    by (rule fields_start) (use assms z that in auto)
  have starts: "fields full early atof (join [c] [a, b] @ [0]) c 0 out = field_loop full early atof (join [c] [a, b]) c (join [c] [a, b]) 0 0 0 0 out"
    "fields full early atof (join [c] [a, b, d] @ [0]) c 0 out = field_loop full early atof (join [c] [a, b, d]) c (join [c] [a, b, d]) 0 0 0 0 out"
    "fields full early atof (join [c] [a, b, d, e] @ [0]) c 0 out =
      field_loop full early atof (join [c] [a, b, d, e]) c (join [c] [a, b, d, e]) 0 0 0 0 out" for full early out
    by (rule start, blast)+
  show ?thesis
    unfolding MakeVec2FromString_def MakeVec3FromString_def starts
    using assms(1-4) by (simp add: word Let_def)
qed

lemma vector_fields_witness:
  "MakeVec3FromString id [] [49, 44, 50, 44, 51, 44, 52, 0] 44 0 = Inr [[49], [50], [] :: bytes]"
  using vector_fields [of "[49]" "[50]" "[51]" "[52]" 44 id "[]"] by simp

end
