(* ===== verification/Spec2Isabelle.thy ===== *)
theory Spec2Isabelle
  imports SR_Stack SR_Sorted_Vector SR_Object_Pool SR_Mutex SR_Shared_Ptr SR_Safe_Ptr SR_Cmd_Manager SR_Hash_Manager SR_Stream SR_Logical_Machine SR_Marshal SR_Resource_Calls SR_Resources SR_Scene SR_Scene_Activity SR_Scene_Calls SR_Scene_Tree SR_Serialization SR_String_Cuts SR_Strings
begin

text \<open>
  A verification development for SRCommon, the utility library of a game engine (C++; headers under
  inc/Utils, sources under src/Utils).

  \<^bold>\<open>The program.\<close> The library gives the engine its ownership types (shared and safe pointers),
  its locks, its containers, its interned strings and hashes, a command history for undo and redo,
  byte streams, and a visual-programming machine (SRLM) that runs graphs of nodes over typed values.
  The containers stand alone; the object pool uses the stack for its free list; the string atoms and
  the data storage use the hash manager, which uses the hashes; the values of SRLM use the hashes,
  its operators and nodes use the values, and its machine runs the nodes.

  \<^bold>\<open>How code becomes a definition.\<close> A class is a \<open>record\<close> with the members of the source, a
  method is a definition that takes the object and returns it updated, an enumeration is a
  \<open>datatype\<close>, an integer is a \<open>word\<close> of its width, a \<open>std::vector\<close> is a list, a map is a
  map or the list of its entries. Undefined behaviour (null and dangling pointers, accesses out of
  range, signed overflow), exceptions and process termination are values of \<open>fault\<close>; an operation
  that can meet one returns \<open>fault + 'a\<close> and is composed with \<open>bind_res\<close>. The assertion macros
  of the source print and go on, and so do the definitions. Objects that are shared through pointers
  live in explicit heaps (a map from addresses). Threads are interleavings of steps.

  \<^bold>\<open>The theories.\<close>

  \<^item> \<open>SR_Prelude\<close>: words, faults, results, vectors and the lemmas the others share.
  \<^item> \<open>SR_Stack\<close> (Types/Stack.h): the linked stack with its counter; it is a last-in first-out
    store (locale \<open>lifo\<close>), and its copies come out reversed.
  \<^item> \<open>SR_Sorted_Vector\<close> (Types/SortedVector.h): insertion and removal by binary search keep the
    vector sorted and change exactly one element; the hand-written search equals
    \<open>std::lower_bound\<close> and stays in range.
  \<^item> \<open>SR_Object_Pool\<close> (Types/ObjectPool.h): the pool refines a finite map from handles to objects
    (locale \<open>slot_store\<close>); removal by predicate and shrinking keep the handles of the others.
  \<^item> \<open>SR_Mutex\<close> (Types/Mutex.h, Types/Mutex.cpp): the recursive shared mutex as a transition
    system over the calls of all threads (locale \<open>nested_lock\<close>, interpreted for both modes): mutual
    exclusion, exact counters, unlocking as often as locking, and a reachable deadlock.
  \<^item> \<open>SR_Shared_Ptr\<close> (Types/SharedPtr.h): the control block, every way a pointer is made, assigned
    and dropped, on a heap; programs over these operations are memory safe and leak nothing.
  \<^item> \<open>SR_Safe_Ptr\<close> (Types/SafePointer.h): the lockable pointer; its spin lock once more at the
    granularity of single atomic accesses, for which mutual exclusion is proved and which refines the
    one-step operations.
  \<^item> \<open>SR_Cmd_Manager\<close> (CommandManager): the command queue and the undo history (locale
    \<open>undo_history\<close>); what executing, undoing, redoing and cancelling do to the history and to the
    document, and the two ways the history goes wrong.
  \<^item> \<open>SR_Hashes\<close> (Common/Hashes.h): the CRC-32 table against the generator polynomial, and the forms
    of FNV-1a against each other.
  \<^item> \<open>SR_Hash_Manager\<close> (Common/HashManager.cpp, Types/StringAtom.cpp, Types/DataStorage.h): interning
    of strings (locale \<open>interning\<close>), atoms, the constexpr registry, and the typed storage by name.
  \<^item> \<open>SR_Stream\<close> (Types/Stream.cpp): reading and writing a growing block of bytes.
  \<^item> \<open>SR_Data_Types\<close>, \<open>SR_Data_Operators\<close> (SRLM/DataType.cpp, DataTypeManager.cpp,
    DataOperators.cpp): typed values, their copies and type codes, the type factory, and exact integer
    arithmetic within the range of a class.
  \<^item> \<open>SR_Logical_Nodes\<close> (SRLM/LogicalNode.cpp, LogicalNodes.cpp): the nodes; evaluation of inputs
    through the graph (locale \<open>evaluator\<close>: what a node body relies on), its termination, and what
    each kind of node does.
  \<^item> \<open>SR_Logical_Machine\<close> (SRLM/LogicalMachine.cpp): activation, spawning, resets, the update loop, the
    links read from a file, and the removal of connector nodes.
  \<^item> \<open>SR_Strings\<close>, \<open>SR_String_Cuts\<close> (Common/StringUtils.h, StringUtils.cpp): splitting is inverse to
    joining and equals a reference on the first occurrences, replacing, Base64 against a reference and
    its round trip, paths, indentation, cutting, and the numbers of a text; several functions that lose
    a character or never end at the edges of their input.
  \<^item> \<open>SR_Marshal\<close> (Types/Marshal.cpp, Common/BaseMarshal.h, AnyMarshal.h): typed reading and writing on
    the byte stream (locale \<open>codec\<close>): every sequence of items is read back, defaults are left out, and
    where the widths of the size fields end.
  \<^item> \<open>SR_Serialization\<close> (Serialization/SRASerialization.cpp): the tree of named values, its text, and the
    parser: the text of a tree is parsed to the same tree, and what the serializer writes the
    deserializer finds.
  \<^item> \<open>SR_Resources\<close>, \<open>SR_Resource_Calls\<close> (Resources/IResource.cpp, ResourceManager.cpp,
    ResourceContainer.cpp, FileWatcher.cpp): the tables of resources, uses, revival, collection, watchers
    and dependencies. Sequences of a client's calls (locale \<open>guarded\<close>) never touch a resource that is
    gone; a collection ends and takes exactly what is unused.
  \<^item> \<open>SR_Scene_Tree\<close>, \<open>SR_Scene\<close>, \<open>SR_Scene_Calls\<close>, \<open>SR_Scene_Activity\<close> (ECS/SceneObject.cpp,
    World/Scene.cpp): the hierarchy of scene objects and the tables of the scene, the second state an
    extension of the first. Whatever a client does (locale \<open>guarded\<close> again), the hierarchy stays a forest,
    every object is in the slot it knows, and the end of the scene leaves nothing behind.

  \<^bold>\<open>Fuel.\<close> The evaluation of inputs recurses over the graph of nodes and takes one unit of fuel per
  node on the call stack; \<open>evaluation_terminates\<close> shows that any fuel above the rank of a node is
  enough when the compute nodes form no cycle. The search of a reset takes one unit per visited node;
  \<open>reset_clears_reachable\<close> shows that the number of nodes is enough. The loops of
  \<open>UpdateMachine\<close> need not end, since the graph may loop, and no theorem claims that they do.
  \<open>MarkDirty\<close> does not end on a cycle, which is a theorem as well. The loops over strings that search
  again and again carry the length of the string plus one; this is enough for every pattern that is not
  empty, and with an empty one the loop of the source never ends. The collection of resources needs the
  square of their number (\<open>gc_contract\<close>), the spreading of a change the height of the dependencies
  (\<open>update_reaches_all\<close>); a walk through the objects of a scene needs more than their number, and
  destroying twice their number, since a call of \<open>Destroy\<close> and the loop over the children of each object
  take one each (\<open>scene_calls_safe\<close>).

  \<^bold>\<open>Parameters.\<close> The commands of the history, the destructors of the objects behind pointers, the
  conditions passed to the pool, the functions run under a lock, floating-point arithmetic, and the
  printing and reading of floating-point numbers are arguments of the definitions, and so are the files
  (which exist, and what their hashes are) for the resources.

  \<^bold>\<open>Not modelled.\<close> Vendored code (libs, UintWide_t.h, MerkleTree.h); file, network, platform and
  debugging code, which is calls into the operating system; floating-point mathematics; the wrappers
  of ICU and of the HTML parser; compile-time type traits; the parts of the engine (components, transforms,
  the loading of resources and scenes) whose effect is on code outside the repository. Of the modelled files, what is
  missing is named in the text that opens the theory.
\<close>

end
